(* ===== verification/Prelude.thy ===== *)
theory Prelude
  imports Main "HOL-Library.Word"
begin

text \<open>
  What the component theories share: the outcome of a kernel routine, the error numbers of
  \<^verbatim>\<open>src/kern/include/kern/errno.h\<close>, and generic facts on lists.

  A C routine of the kernel either returns or it does not.  It fails to return when an
  \<^verbatim>\<open>assert\<close> or a \<^verbatim>\<open>panic\<close> stops the machine (\<open>Panic\<close>), when it
  follows a null or wild pointer or leaves the bounds of an object (\<open>Fault\<close>), or when it
  runs forever (\<open>Loops\<close>: the fuel of the model is used up).  All state that a routine changes
  is part of the returned value, also on its error returns.
\<close>

section \<open>Outcomes\<close>

datatype 'a run = Ret 'a | Panic | Fault | Loops

primrec andthen :: "'a run \<Rightarrow> ('a \<Rightarrow> 'b run) \<Rightarrow> 'b run" where
  "andthen (Ret x) f = f x"
| "andthen Panic f = Panic"
| "andthen Fault f = Fault"
| "andthen Loops f = Loops"

text \<open>The C macro \<^verbatim>\<open>assert\<close>: stop the machine unless the condition holds.\<close>

definition assertk :: "bool \<Rightarrow> 'a run \<Rightarrow> 'a run" where
  "assertk b r = (if b then r else Panic)"

text \<open>Following a pointer: a null or dangling pointer is a machine fault.\<close>

definition deref :: "'a option \<Rightarrow> ('a \<Rightarrow> 'b run) \<Rightarrow> 'b run" where
  "deref p f = (case p of None \<Rightarrow> Fault | Some x \<Rightarrow> f x)"

named_theorems run_simps "unfolding of the outcome combinators"

lemma assertk_True [simp, run_simps]: "assertk True r = r"
  by (simp add: assertk_def)

lemma assertk_False [simp, run_simps]: "assertk False r = Panic"
  by (simp add: assertk_def)

lemma deref_Some [simp, run_simps]: "deref (Some x) f = f x"
  by (simp add: deref_def)

lemma deref_None [simp, run_simps]: "deref None f = Fault"
  by (simp add: deref_def)

lemma assertk_Ret_iff [simp]: "assertk b r = Ret y \<longleftrightarrow> b \<and> r = Ret y"
  by (simp add: assertk_def)

lemma deref_Ret_iff: "deref p f = Ret y \<longleftrightarrow> (\<exists>x. p = Some x \<and> f x = Ret y)"
  by (cases p) auto

lemma andthen_Ret_iff: "andthen r f = Ret y \<longleftrightarrow> (\<exists>x. r = Ret x \<and> f x = Ret y)"
  by (cases r) auto

lemma andthen_Ret_right [simp]: "andthen r Ret = r"
  by (cases r) auto

lemma andthen_assoc: "andthen (andthen r f) g = andthen r (\<lambda>x. andthen (f x) g)"
  by (cases r) auto

section \<open>Error numbers\<close>

text \<open>
  The error numbers the modelled routines return; \<^verbatim>\<open>0\<close>, success, is \<open>None\<close> of
  \<^typ>\<open>'e option\<close>.
\<close>

datatype errno =
    EINVAL | EFAULT | ENAMETOOLONG | ENOMEM | EIO | ENOENT | ENOTDIR
  | EISDIR | EEXIST | EXDEV | EAGAIN | ESPIPE | EUNIMP | ENXIO
  | ENODEV | EBUSY | EIOCTL | ENOTEMPTY | ERANGE | ENOSPC | EMFILE
  | ENFILE | ENOSYS | ENOEXEC | E2BIG | EBADF | EDEADLK

fun errno_code :: "errno \<Rightarrow> nat" where
  "errno_code EINVAL = 1"
| "errno_code EFAULT = 2"
| "errno_code ENAMETOOLONG = 3"
| "errno_code ENOMEM = 4"
| "errno_code EIO = 5"
| "errno_code ENOENT = 6"
| "errno_code ENOTDIR = 7"
| "errno_code EISDIR = 8"
| "errno_code EEXIST = 9"
| "errno_code EXDEV = 10"
| "errno_code EAGAIN = 11"
| "errno_code ESPIPE = 12"
| "errno_code EUNIMP = 13"
| "errno_code ENXIO = 14"
| "errno_code ENODEV = 15"
| "errno_code EBUSY = 16"
| "errno_code EIOCTL = 17"
| "errno_code ENOTEMPTY = 18"
| "errno_code ERANGE = 19"
| "errno_code ENOSPC = 20"
| "errno_code EMFILE = 21"
| "errno_code ENFILE = 22"
| "errno_code ENOSYS = 23"
| "errno_code ENOEXEC = 24"
| "errno_code E2BIG = 25"
| "errno_code EBADF = 26"
| "errno_code EDEADLK = 27"

type_synonym status = "errno option"

section \<open>Lists\<close>

lemma take_Suc_update:
  assumes "n < length xs"
  shows "take (Suc n) (xs[n := x]) = take n xs @ [x]"
  using assms by (simp add: take_Suc_conv_app_nth)

lemma map_upt_shift: "map f [i..<i + n] = map (\<lambda>k. f (i + k)) [0..<n]"
  by (induction n) auto

lemma take_map_nth: "n \<le> length xs \<Longrightarrow> take n xs = map ((!) xs) [0..<n]"
  by (rule nth_equalityI) auto

end
