(* ===== verification/KArray.thy ===== *)
theory KArray
  imports Prelude
begin

text \<open>
  The resizeable array of pointers of \<^verbatim>\<open>src/kern/lib/array.c\<close>.

  The storage \<^verbatim>\<open>v\<close> is \<open>None\<close> for the null pointer, and otherwise a list of
  \<^verbatim>\<open>max\<close> slots; a slot that has never been written is \<open>None\<close>, since
  \<^verbatim>\<open>kmalloc\<close> hands out memory with arbitrary content.  Every routine that calls
  \<^verbatim>\<open>kmalloc\<close> takes an argument \<open>ok\<close> that says whether that call succeeds.  The C
  type \<^verbatim>\<open>int\<close> is \<^typ>\<open>int\<close>; by \<open>array_newmax_Ret\<close> the capacity never exceeds
  the larger of the old capacity and twice the request, so it stays within 32 bits for every request below
  \<open>2 ^ 30\<close>.

  The abstract view of an array is the list of its first \<^verbatim>\<open>num\<close> slots
  (\<open>array_list\<close>); the locale \<open>pointer_array\<close> states the operations over that view
  and is interpreted on the routines below.
\<close>

section \<open>Data and operations\<close>

record 'a karray =
  a_num :: int
  a_max :: int
  a_v :: "'a option list option"

definition array_create :: "bool \<Rightarrow> 'a karray option" where
  "array_create ok = (if ok then Some \<lparr>a_num = 0, a_max = 0, a_v = None\<rparr> else None)"

definition array_getnum :: "'a karray \<Rightarrow> int" where
  "array_getnum a = a_num a"

text \<open>Reading and writing a slot through the pointer \<^verbatim>\<open>v\<close>.\<close>

definition slot_read :: "'a option list option \<Rightarrow> int \<Rightarrow> 'a option run" where
  "slot_read v i = deref v (\<lambda>xs. if 0 \<le> i \<and> nat i < length xs then Ret (xs ! nat i) else Fault)"

definition slot_write :: "'a option list option \<Rightarrow> int \<Rightarrow> 'a \<Rightarrow> 'a option list option run" where
  "slot_write v i p =
     deref v (\<lambda>xs. if 0 \<le> i \<and> nat i < length xs then Ret (Some (xs[nat i := Some p])) else Fault)"

definition array_getguy :: "'a karray \<Rightarrow> int \<Rightarrow> 'a option run" where
  "array_getguy a index =
     assertk (a_num a \<le> a_max a)
     (assertk (0 \<le> index \<and> index < a_num a)
     (slot_read (a_v a) index))"

text \<open>
  The loop \<^verbatim>\<open>while (nguys > newmax) newmax = (newmax+1)*2;\<close>  It is entered with
  \<^verbatim>\<open>newmax = a->max\<close>, which the assertion before it makes non-negative; from a
  negative value below \<open>- 1\<close> it would not end.
\<close>

function array_newmax :: "int \<Rightarrow> int \<Rightarrow> int run" where
  "array_newmax nguys newmax =
     (if nguys > newmax
      then if newmax < - 1 then Loops else array_newmax nguys ((newmax + 1) * 2)
      else Ret newmax)"
  by pat_completeness auto
termination
  by (relation "measure (\<lambda>(n, m). nat (n - m))") auto

declare array_newmax.simps [simp del]

text \<open>The loop \<^verbatim>\<open>for (i=0; i<a->num; i++) newv[i] = a->v[i];\<close>\<close>

fun array_copy :: "nat \<Rightarrow> 'a option list option \<Rightarrow> 'a option list \<Rightarrow> 'a option list run" where
  "array_copy 0 v newv = Ret newv"
| "array_copy (Suc i) v newv =
     andthen (array_copy i v newv) (\<lambda>w.
     andthen (slot_read v (int i)) (\<lambda>x.
     if i < length w then Ret (w[i := x]) else Fault))"

definition array_preallocate :: "bool \<Rightarrow> 'a karray \<Rightarrow> int \<Rightarrow> (status \<times> 'a karray) run" where
  "array_preallocate ok a nguys =
     assertk (0 \<le> a_num a \<and> a_num a \<le> a_max a)
     (andthen (array_newmax nguys (a_max a)) (\<lambda>newmax.
      if \<not> ok then Ret (Some ENOMEM, a)
      else andthen (array_copy (nat (a_num a)) (a_v a) (replicate (nat newmax) None)) (\<lambda>newv.
           Ret (None, a\<lparr>a_max := newmax, a_v := Some newv\<rparr>))))"

definition array_setsize :: "bool \<Rightarrow> 'a karray \<Rightarrow> int \<Rightarrow> (status \<times> 'a karray) run" where
  "array_setsize ok a nguys =
     assertk (0 \<le> a_num a \<and> a_num a \<le> a_max a)
     (if nguys > a_max a
      then andthen (array_preallocate ok a nguys) (\<lambda>(result, a').
           if result \<noteq> None then Ret (result, a') else Ret (None, a'\<lparr>a_num := nguys\<rparr>))
      else if nguys = 0 \<and> a_max a > 16
      then assertk (a_v a \<noteq> None) (Ret (None, a\<lparr>a_v := None, a_max := 0, a_num := nguys\<rparr>))
      else Ret (None, a\<lparr>a_num := nguys\<rparr>))"

definition array_setguy :: "'a karray \<Rightarrow> int \<Rightarrow> 'a \<Rightarrow> 'a karray run" where
  "array_setguy a index ptr =
     assertk (a_num a \<le> a_max a)
     (assertk (0 \<le> index \<and> index < a_num a)
     (andthen (slot_write (a_v a) index ptr) (\<lambda>v. Ret (a\<lparr>a_v := v\<rparr>))))"

definition array_add :: "bool \<Rightarrow> 'a karray \<Rightarrow> 'a \<Rightarrow> (status \<times> 'a karray) run" where
  "array_add ok a guy =
     (let ix = a_num a in
      andthen (array_setsize ok a (ix + 1)) (\<lambda>(result, a').
      if result \<noteq> None then Ret (result, a')
      else andthen (slot_write (a_v a') ix guy) (\<lambda>v. Ret (None, a'\<lparr>a_v := v\<rparr>))))"

text \<open>
  The call \<^verbatim>\<open>memmove(a->v+index, a->v+index+1, nmove*sizeof(void *))\<close>: the slots
  \<open>index + 1 .. index + nmove\<close> move down by one, the others keep their content.
\<close>

definition slots_down :: "nat \<Rightarrow> nat \<Rightarrow> 'b list \<Rightarrow> 'b list" where
  "slots_down index nmove xs =
     take index xs @ take nmove (drop (Suc index) xs) @ drop (index + nmove) xs"

definition array_remove :: "'a karray \<Rightarrow> int \<Rightarrow> 'a karray run" where
  "array_remove a index =
     assertk (a_num a \<le> a_max a)
     (assertk (0 \<le> index \<and> index < a_num a)
     (let nmove = a_num a - (index + 1) in
      deref (a_v a) (\<lambda>xs.
      if nat (index + 1 + nmove) \<le> length xs
      then Ret (a\<lparr>a_v := Some (slots_down (nat index) (nat nmove) xs), a_num := a_num a - 1\<rparr>)
      else Fault)))"

section \<open>Invariant and abstraction\<close>

definition array_inv :: "'a karray \<Rightarrow> bool" where
  "array_inv a \<longleftrightarrow> 0 \<le> a_num a \<and> a_num a \<le> a_max a \<and>
     (case a_v a of None \<Rightarrow> a_max a = 0 | Some xs \<Rightarrow> length xs = nat (a_max a))"

definition array_list :: "'a karray \<Rightarrow> 'a option list" where
  "array_list a = (case a_v a of None \<Rightarrow> [] | Some xs \<Rightarrow> take (nat (a_num a)) xs)"


lemma array_list_length: "array_inv a \<Longrightarrow> int (length (array_list a)) = a_num a"
  by (auto simp: array_inv_def array_list_def split: option.splits)

lemma array_invE:
  assumes "array_inv a"
  obtains (null) "a_v a = None" "a_num a = 0" "a_max a = 0" "array_list a = []"
    | (alloc) xs where "a_v a = Some xs" "length xs = nat (a_max a)" "0 \<le> a_num a"
        "a_num a \<le> a_max a" "array_list a = take (nat (a_num a)) xs"
  using assms by (auto simp: array_inv_def array_list_def split: option.splits)

section \<open>Capacity\<close>

lemma array_newmax_Ret:
  assumes "0 \<le> m"
  shows "\<exists>k. array_newmax n m = Ret k \<and> n \<le> k \<and> m \<le> k \<and> k \<le> max m (2 * n)"
  using assms
proof (induction n m rule: array_newmax.induct)
  case (1 n m)
  show ?case
  proof (cases "n > m")
    case True
    with 1 obtain k where "array_newmax n ((m + 1) * 2) = Ret k" "n \<le> k" "(m + 1) * 2 \<le> k"
      "k \<le> max ((m + 1) * 2) (2 * n)" by auto
    with True 1(2) show ?thesis by (auto simp: array_newmax.simps [of n m])
  next
    case False
    then show ?thesis by (simp add: array_newmax.simps [of n m])
  qed
qed

lemma array_copy_Ret:
  assumes "n \<le> length xs" "n \<le> length w"
  shows "array_copy n (Some xs) w = Ret (take n xs @ drop n w)"
  using assms
proof (induction n)
  case (Suc n)
  then have IH: "array_copy n (Some xs) w = Ret (take n xs @ drop n w)"
    and n: "n < length xs" "n < length w" by auto
  have "(take n xs @ drop n w)[n := xs ! n] = take (Suc n) xs @ drop (Suc n) w"
    using n by (simp add: list_update_append upd_conv_take_nth_drop take_Suc_conv_app_nth)
  with IH n show ?case by (simp add: slot_read_def)
qed simp

lemma array_preallocate_spec:
  assumes "array_inv a"
  shows "\<exists>m. array_newmax n (a_max a) = Ret m \<and> n \<le> m \<and> a_max a \<le> m \<and>
    array_preallocate True a n =
      Ret (None, a\<lparr>a_max := m, a_v := Some (array_list a @ replicate (nat (m - a_num a)) None)\<rparr>)"
proof -
  from assms have "0 \<le> a_max a" by (auto simp: array_inv_def)
  then obtain m where m: "array_newmax n (a_max a) = Ret m" "n \<le> m" "a_max a \<le> m"
    using array_newmax_Ret by blast
  from assms show ?thesis
  proof (cases rule: array_invE)
    case null
    with m show ?thesis by (auto simp: array_preallocate_def)
  next
    case (alloc xs)
    with m have "nat (a_num a) \<le> length xs" "nat (a_num a) \<le> length (replicate (nat m) (None :: 'a option))"
      by auto
    moreover have "nat m - nat (a_num a) = nat (m - a_num a)" using alloc m by simp
    ultimately show ?thesis using alloc m by (auto simp: array_preallocate_def array_copy_Ret)
  qed
qed

lemma array_inv_prealloc:
  assumes "array_inv a" "a_max a \<le> m"
  shows "array_inv (a\<lparr>a_max := m, a_v := Some (array_list a @ replicate (nat (m - a_num a)) None)\<rparr>)"
    and "array_list (a\<lparr>a_max := m, a_v := Some (array_list a @ replicate (nat (m - a_num a)) None)\<rparr>)
      = array_list a"
  using assms array_list_length [OF assms(1)]
  by (auto simp: array_inv_def array_list_def split: option.splits)

lemma array_inv_setnum:
  assumes "array_inv a" "a_v a = Some xs" "0 \<le> n" "n \<le> a_max a"
  shows "array_inv (a\<lparr>a_num := n\<rparr>)" "array_list (a\<lparr>a_num := n\<rparr>) = take (nat n) xs"
  using assms by (auto simp: array_inv_def array_list_def)

lemma array_add_room:
  assumes "array_inv a" "a_num a < a_max a"
  obtains xs where "a_v a = Some xs" "length xs = nat (a_max a)"
    "array_add ok a x = Ret (None, a\<lparr>a_num := a_num a + 1, a_v := Some (xs[nat (a_num a) := Some x])\<rparr>)"
  using assms
  by (cases rule: array_invE)
    (auto simp: array_add_def array_setsize_def slot_write_def Let_def)

lemma array_add_full:
  assumes "array_inv a" "a_num a = a_max a"
  obtains m where "a_num a < m" "array_add True a x = Ret (None, a\<lparr>a_max := m, a_num := a_num a + 1,
      a_v := Some (array_list a @ Some x # replicate (nat (m - a_num a) - 1) None)\<rparr>)"
proof -
  obtain m where m: "a_num a + 1 \<le> m"
    "array_preallocate True a (a_num a + 1) =
      Ret (None, a\<lparr>a_max := m, a_v := Some (array_list a @ replicate (nat (m - a_num a)) None)\<rparr>)"
    using array_preallocate_spec [OF assms(1)] by blast
  have len: "length (array_list a) = nat (a_num a)"
    using array_list_length [OF assms(1)] by simp
  have pos: "0 \<le> a_num a" using assms by (simp add: array_inv_def)
  obtain k where k: "nat (m - a_num a) = Suc k" using m(1) by (cases "nat (m - a_num a)") auto
  show thesis
    by (rule that [of m])
      (use m len pos k assms(2) in
        \<open>auto simp: array_add_def array_setsize_def slot_write_def Let_def list_update_append\<close>)
qed

section \<open>The interface\<close>

text \<open>
  What \<^verbatim>\<open>src/kern/include/array.h\<close> promises, over the view of an array as a list:
  \<open>cap\<close> is the number of elements that fit without another allocation.
\<close>

locale pointer_array =
  fixes getnum :: "'r \<Rightarrow> int"
    and getguy :: "'r \<Rightarrow> int \<Rightarrow> 'a option run"
    and setguy :: "'r \<Rightarrow> int \<Rightarrow> 'a \<Rightarrow> 'r run"
    and add :: "bool \<Rightarrow> 'r \<Rightarrow> 'a \<Rightarrow> (status \<times> 'r) run"
    and remove :: "'r \<Rightarrow> int \<Rightarrow> 'r run"
    and preallocate :: "bool \<Rightarrow> 'r \<Rightarrow> int \<Rightarrow> (status \<times> 'r) run"
    and cap :: "'r \<Rightarrow> int"
    and view :: "'r \<Rightarrow> 'a option list"
    and inv :: "'r \<Rightarrow> bool"
  assumes getnum_view: "inv a \<Longrightarrow> getnum a = int (length (view a))"
    and getguy_view: "inv a \<Longrightarrow> i < length (view a) \<Longrightarrow> getguy a (int i) = Ret (view a ! i)"
    and getguy_range: "inv a \<Longrightarrow> \<not> (0 \<le> j \<and> j < getnum a) \<Longrightarrow> getguy a j = Panic"
    and setguy_view: "inv a \<Longrightarrow> i < length (view a) \<Longrightarrow>
      \<exists>a'. setguy a (int i) x = Ret a' \<and> inv a' \<and> cap a' = cap a \<and> view a' = (view a)[i := Some x]"
    and add_view: "inv a \<Longrightarrow> ok \<or> getnum a < cap a \<Longrightarrow>
      \<exists>a'. add ok a x = Ret (None, a') \<and> inv a' \<and> cap a \<le> cap a' \<and> view a' = view a @ [Some x]"
    and add_fail: "inv a \<Longrightarrow> getnum a = cap a \<Longrightarrow> add False a x = Ret (Some ENOMEM, a)"
    and remove_view: "inv a \<Longrightarrow> i < length (view a) \<Longrightarrow>
      \<exists>a'. remove a (int i) = Ret a' \<and> inv a' \<and> cap a' = cap a \<and>
        view a' = take i (view a) @ drop (Suc i) (view a)"
    and preallocate_view: "inv a \<Longrightarrow>
      \<exists>a'. preallocate True a n = Ret (None, a') \<and> inv a' \<and> n \<le> cap a' \<and> cap a \<le> cap a' \<and>
        view a' = view a"
    and preallocate_fail: "inv a \<Longrightarrow> preallocate False a n = Ret (Some ENOMEM, a)"
    and getnum_cap: "inv a \<Longrightarrow> getnum a \<le> cap a"
begin

lemma add_total: "inv a \<Longrightarrow> \<exists>r a'. add ok a x = Ret (r, a') \<and> inv a' \<and> cap a \<le> cap a' \<and>
    (r = None \<and> view a' = view a @ [Some x] \<or> r = Some ENOMEM \<and> a' = a)"
proof -
  assume a: "inv a"
  show ?thesis
  proof (cases "ok \<or> getnum a < cap a")
    case True
    with add_view [OF a True] show ?thesis by blast
  next
    case False
    with getnum_cap [OF a] have "getnum a = cap a" "ok = False" by auto
    with add_fail [OF a] a show ?thesis by auto
  qed
qed

text \<open>Space that was set aside is there when it is needed: no later \<open>add\<close> fails.\<close>

lemma preallocated_add:
  assumes "inv a" "preallocate True a n = Ret (None, a')" "getnum a < n"
  shows "\<exists>a''. add ok a' x = Ret (None, a'') \<and> inv a'' \<and> view a'' = view a @ [Some x]"
proof -
  from preallocate_view [OF assms(1), of n] assms(2)
  have a': "inv a'" "n \<le> cap a'" "view a' = view a" by auto
  with getnum_view [OF assms(1)] getnum_view [OF a'(1)] assms(3)
  have "ok \<or> getnum a' < cap a'" by simp
  from add_view [OF a'(1) this, of x] a'(3) show ?thesis by auto
qed

lemma add_getguy:
  assumes "inv a" "add ok a x = Ret (None, a')" "j = getnum a"
  shows "getguy a' j = Ret (Some x)"
proof -
  from add_total [OF assms(1)] assms(2) have a': "inv a'" "view a' = view a @ [Some x]"
    by (metis Pair_inject option.distinct(1) run.inject)+
  with getguy_view [OF a'(1), of "length (view a)"] getnum_view [OF assms(1)] assms(3)
  show ?thesis by simp
qed

end

lemma slots_down_remove:
  assumes "i < n" "n \<le> length xs"
  shows "take (n - 1) (slots_down i (n - Suc i) xs) = take i xs @ drop (Suc i) (take n xs)"
    and "length (slots_down i (n - Suc i) xs) = length xs"
proof -
  obtain k where n: "n = Suc (i + k)" using assms(1) less_iff_Suc_add by auto
  show "take (n - 1) (slots_down i (n - Suc i) xs) = take i xs @ drop (Suc i) (take n xs)"
    using assms by (simp_all add: slots_down_def n take_drop add.commute)
  show "length (slots_down i (n - Suc i) xs) = length xs"
    using assms by (simp add: slots_down_def n)
qed

interpretation ka: pointer_array array_getnum array_getguy array_setguy array_add array_remove
  array_preallocate a_max array_list array_inv
proof (unfold_locales, goal_cases)
  case (1 a)
  then show ?case by (simp add: array_getnum_def array_list_length)
next
  case (2 a i)
  then show ?case
    by (cases rule: array_invE) (auto simp: array_getguy_def slot_read_def)
next
  case (3 a j)
  then show ?case by (auto simp: array_getguy_def array_getnum_def array_inv_def)
next
  case (4 a i x)
  then show ?case
    by (cases rule: array_invE)
      (auto simp: array_setguy_def slot_write_def array_inv_def array_list_def take_update_swap)
next
  case (5 a ok x)
  show ?case
  proof (cases "a_num a < a_max a")
    case True
    from array_add_room [OF 5(1) True, of ok x] obtain xs where xs: "a_v a = Some xs"
      "length xs = nat (a_max a)"
      "array_add ok a x = Ret (None, a\<lparr>a_num := a_num a + 1, a_v := Some (xs[nat (a_num a) := Some x])\<rparr>)"
      by blast
    moreover have "nat (a_num a + 1) = Suc (nat (a_num a))" "nat (a_num a) < length xs"
      using 5(1) True xs(2) by (auto simp: array_inv_def)
    ultimately show ?thesis using 5(1) True
      by (auto simp: array_inv_def array_list_def take_Suc_update)
  next
    case False
    with 5 have full: "a_num a = a_max a" and ok: "ok" by (auto simp: array_inv_def array_getnum_def)
    have len: "length (array_list a) = nat (a_num a)" using array_list_length [OF 5(1)] by simp
    from array_add_full [OF 5(1) full, of x] obtain m where "a_num a < m"
      "array_add True a x = Ret (None, a\<lparr>a_max := m, a_num := a_num a + 1,
        a_v := Some (array_list a @ Some x # replicate (nat (m - a_num a) - 1) None)\<rparr>)" by blast
    moreover from this have "nat (a_max a) + nat (m - a_max a) = nat m" "nat (a_max a + 1) = Suc (nat (a_max a))"
      using 5(1) full by (auto simp: array_inv_def)
    ultimately show ?thesis using 5(1) full ok len
      by (auto simp: array_inv_def array_list_def nat_add_distrib)
  qed
next
  case (6 a x)
  then have "0 \<le> a_max a" by (auto simp: array_inv_def)
  then obtain k where "array_newmax (a_num a + 1) (a_max a) = Ret k" using array_newmax_Ret by blast
  with 6 show ?case
    by (auto simp: array_add_def array_setsize_def array_preallocate_def array_getnum_def
        array_inv_def Let_def)
next
  case (7 a i)
  then show ?case
  proof (cases rule: array_invE)
    case (alloc xs)
    have i: "i < nat (a_num a)" "nat (a_num a) \<le> length xs" using alloc 7(2) by auto
    have n: "nat (a_num a - (int i + 1)) = nat (a_num a) - Suc i" "nat (a_num a - 1) = nat (a_num a) - 1"
      using i by auto
    have "int i < a_num a" "0 < a_num a" using i by auto
    then show ?thesis using alloc i n slots_down_remove [OF i] 7(1)
      by (auto simp: array_remove_def array_inv_def array_list_def Let_def min_def)
  qed simp
next
  case (8 a n)
  obtain m where m: "n \<le> m" "a_max a \<le> m"
    "array_preallocate True a n =
      Ret (None, a\<lparr>a_max := m, a_v := Some (array_list a @ replicate (nat (m - a_num a)) None)\<rparr>)"
    using array_preallocate_spec [OF 8] by blast
  with array_inv_prealloc [OF 8 m(2)] show ?case by simp
next
  case (9 a n)
  then have "0 \<le> a_max a" by (auto simp: array_inv_def)
  then obtain k where "array_newmax n (a_max a) = Ret k" using array_newmax_Ret by blast
  with 9 show ?case by (auto simp: array_preallocate_def array_inv_def)
next
  case (10 a)
  then show ?case by (simp add: array_getnum_def array_inv_def)
qed

section \<open>Properties\<close>

text \<open>A run of \<^verbatim>\<open>array_add\<close> calls, each with its own allocation outcome; it stops at the first error.\<close>

fun array_add_all :: "'a karray \<Rightarrow> (bool \<times> 'a) list \<Rightarrow> (status \<times> 'a karray) run" where
  "array_add_all a [] = Ret (None, a)"
| "array_add_all a ((ok, x) # rest) =
     andthen (array_add ok a x) (\<lambda>(result, a').
     if result \<noteq> None then Ret (result, a') else array_add_all a' rest)"

lemma array_add_all_room:
  assumes "array_inv a" "a_num a + int (length xs) \<le> a_max a"
  shows "\<exists>a'. array_add_all a xs = Ret (None, a') \<and> array_inv a' \<and>
    array_list a' = array_list a @ map (Some \<circ> snd) xs"
  using assms
proof (induction xs arbitrary: a)
  case (Cons y xs)
  obtain ok x where y: "y = (ok, x)" by fastforce
  have "ok \<or> array_getnum a < a_max a" using Cons.prems(2) by (simp add: array_getnum_def)
  then obtain b where b: "array_add ok a x = Ret (None, b)" "array_inv b" "a_max a \<le> a_max b"
    "array_list b = array_list a @ [Some x]"
    using ka.add_view [OF Cons.prems(1)] by blast
  have "a_num b = a_num a + 1"
    using array_list_length [OF b(2)] array_list_length [OF Cons.prems(1)] b(4) by simp
  with Cons.prems(2) b(3) have "a_num b + int (length xs) \<le> a_max b" by simp
  from Cons.IH [OF b(2) this] b y show ?case by auto
qed simp

text \<open>C13: \<^verbatim>\<open>array_add\<close> appends: on a well-formed array it always returns; either it reports
  success and the array holds the old elements followed by the new one, or memory has run out on
  a full array, it reports \<open>ENOMEM\<close> and the array is unchanged.
\<close>

theorem array_add_refines:
  assumes "array_inv a"
  shows "\<exists>r a'. array_add ok a x = Ret (r, a') \<and> array_inv a' \<and>
    (r = None \<and> array_list a' = array_list a @ [Some x] \<or>
     r = Some ENOMEM \<and> a' = a \<and> \<not> ok \<and> a_num a = a_max a)"
proof (cases "ok \<or> array_getnum a < a_max a")
  case True
  with ka.add_view [OF assms True] show ?thesis by blast
next
  case False
  with ka.getnum_cap [OF assms] have "array_getnum a = a_max a" "\<not> ok" by auto
  with ka.add_fail [OF assms] assms show ?thesis by (auto simp: array_getnum_def)
qed

theorem array_add_refines_witness:
  "\<exists>r a'. array_add True \<lparr>a_num = 1, a_max = 1, a_v = Some [Some (7::nat)]\<rparr> 9 = Ret (r, a') \<and> array_inv a' \<and>
    (r = None \<and> array_list a' = [Some 7, Some 9] \<or>
     r = Some ENOMEM \<and> a' = \<lparr>a_num = 1, a_max = 1, a_v = Some [Some 7]\<rparr> \<and> \<not> True \<and> (1::int) = 1)"
  using array_add_refines [of "\<lparr>a_num = 1, a_max = 1, a_v = Some [Some (7::nat)]\<rparr>" True 9]
  by (simp add: array_inv_def array_list_def)

text \<open>C14: \<^verbatim>\<open>array_remove\<close> deletes exactly the element at the index and closes the gap; an
  index outside the array stops the machine.
\<close>

theorem array_remove_refines:
  assumes "array_inv a"
  shows "if 0 \<le> i \<and> i < array_getnum a
    then \<exists>a'. array_remove a i = Ret a' \<and> array_inv a' \<and> array_getnum a' = array_getnum a - 1 \<and>
      array_list a' = take (nat i) (array_list a) @ drop (Suc (nat i)) (array_list a)
    else array_remove a i = Panic"
proof (cases "0 \<le> i \<and> i < array_getnum a")
  case True
  with ka.getnum_view [OF assms] have i: "nat i < length (array_list a)" by auto
  from ka.remove_view [OF assms i] True obtain a' where a': "array_remove a i = Ret a'" "array_inv a'"
    "array_list a' = take (nat i) (array_list a) @ drop (Suc (nat i)) (array_list a)" by auto
  moreover have "array_getnum a' = array_getnum a - 1"
    using ka.getnum_view [OF assms] ka.getnum_view [OF a'(2)] a'(3) i by auto
  ultimately show ?thesis using True by simp
next
  case False
  with assms show ?thesis by (auto simp: array_remove_def array_getnum_def array_inv_def)
qed

theorem array_remove_refines_witness:
  "\<exists>a'. array_remove \<lparr>a_num = 3, a_max = 4, a_v = Some [Some (5::nat), Some 6, Some 7, None]\<rparr> 1 = Ret a' \<and>
    array_inv a' \<and> array_getnum a' = 2 \<and> array_list a' = [Some 5, Some 7]"
  using array_remove_refines [of "\<lparr>a_num = 3, a_max = 4, a_v = Some [Some (5::nat), Some 6, Some 7, None]\<rparr>" 1]
  by (simp add: array_inv_def array_list_def array_getnum_def numeral_3_eq_3)



end
