(* ===== verification/KQueue.thy ===== *)
theory KQueue
  imports Prelude
begin

text \<open>
  The growing ring buffer of \<^verbatim>\<open>src/kern/lib/queue.c\<close>, which holds the run queue.

  \<^verbatim>\<open>size\<close>, \<^verbatim>\<open>nextwrite\<close> and \<^verbatim>\<open>nextread\<close> are C ints that only ever
  hold non-negative values, here \<^typ>\<open>nat\<close>; the one place where the code can overflow, the
  doubling loop of \<^verbatim>\<open>q_grow\<close>, writes the 32-bit bound out.  A slot that has not been
  written since \<^verbatim>\<open>kmalloc\<close> is \<open>None\<close>.  The argument \<open>ok\<close> says whether
  \<^verbatim>\<open>kmalloc\<close> succeeds.

  \<^verbatim>\<open>q_addtail\<close> and \<^verbatim>\<open>q_grow\<close> call each other.  The model gives both a
  fuel argument; \<open>q_addtail_room\<close> and \<open>q_addtail_full\<close> show that the fuel \<open>size + 3\<close> that
  \<^verbatim>\<open>q_addtail\<close> uses is always enough, so the recursion of the code ends.

  The abstract view is the list \<open>q_list\<close> of queued pointers, oldest first; the locale
  \<open>fifo_queue\<close> states the operations over it.
\<close>

section \<open>Data and operations\<close>

record 'a kqueue =
  q_size :: nat
  q_nextwrite :: nat
  q_nextread :: nat
  q_data :: "'a option list"

text \<open>
  The loop \<^verbatim>\<open>while (nsize < targetsize) { nsize *= 2; assert(nsize > 0); }\<close> on C
  ints: a doubling that leaves the 31 bits of a positive int yields a value that is not positive
  (\<open>int_doubling\<close> below), and the assertion stops it.
\<close>

function q_newsize :: "nat \<Rightarrow> nat \<Rightarrow> nat run" where
  "q_newsize nsize target =
     (if nsize < target
      then if 0 < 2 * nsize \<and> 2 * nsize < 2 ^ 31 then q_newsize (2 * nsize) target else Panic
      else Ret nsize)"
  by pat_completeness auto
termination
  by (relation "measure (\<lambda>(n, t). t - n)") auto

declare q_newsize.simps [simp del]

fun q_addtail_f :: "nat \<Rightarrow> bool \<Rightarrow> 'a kqueue \<Rightarrow> 'a option \<Rightarrow> (status \<times> 'a kqueue) run"
and q_grow_f :: "nat \<Rightarrow> bool \<Rightarrow> 'a kqueue \<Rightarrow> nat \<Rightarrow> (status \<times> 'a kqueue) run"
and q_refill_f :: "nat \<Rightarrow> bool \<Rightarrow> 'a option list \<Rightarrow> nat \<Rightarrow> nat \<Rightarrow> nat \<Rightarrow> 'a kqueue \<Rightarrow> 'a kqueue run"
where
  "q_addtail_f 0 ok q ptr = Loops"
| "q_addtail_f (Suc fuel) ok q ptr =
     assertk (q_size q > 0)
     (let nextnext = (q_nextwrite q + 1) mod q_size q in
      andthen (if nextnext = q_nextread q then q_grow_f fuel ok q (q_size q + 1) else Ret (None, q))
        (\<lambda>(result, q').
         if result \<noteq> None then Ret (result, q')
         else let nextnext' = (q_nextwrite q' + 1) mod q_size q' in
              if q_nextwrite q' < length (q_data q')
              then Ret (None, q'\<lparr>q_data := (q_data q')[q_nextwrite q' := ptr], q_nextwrite := nextnext'\<rparr>)
              else Fault))"
| "q_grow_f 0 ok q target = Loops"
| "q_grow_f (Suc fuel) ok q target =
     (let olddata = q_data q; onr = q_nextread q; onw = q_nextwrite q; osize = q_size q in
      andthen (q_newsize (q_size q) target) (\<lambda>nsize.
      if \<not> ok then Ret (Some ENOMEM, q)
      else andthen (q_refill_f fuel ok olddata osize onw onr
                     (q\<lparr>q_size := nsize, q_data := replicate nsize None, q_nextread := 0, q_nextwrite := 0\<rparr>))
             (\<lambda>q'. Ret (None, q'))))"
| "q_refill_f 0 ok olddata osize onw i q = Loops"
| "q_refill_f (Suc fuel) ok olddata osize onw i q =
     (if i = onw then Ret q
      else if i < length olddata
      then andthen (q_addtail_f fuel ok q (olddata ! i)) (\<lambda>(result, q').
           assertk (result = None) (q_refill_f fuel ok olddata osize onw ((i + 1) mod osize) q'))
      else Fault)"

definition q_grow :: "bool \<Rightarrow> 'a kqueue \<Rightarrow> nat \<Rightarrow> (status \<times> 'a kqueue) run" where
  "q_grow ok q target = q_grow_f (q_size q + 2) ok q target"

definition q_create :: "bool \<Rightarrow> bool \<Rightarrow> nat \<Rightarrow> 'a kqueue option" where
  "q_create ok_struct ok_data sz =
     (if ok_struct \<and> ok_data
      then Some \<lparr>q_size = sz, q_nextwrite = 0, q_nextread = 0, q_data = replicate sz None\<rparr>
      else None)"

definition q_preallocate :: "bool \<Rightarrow> 'a kqueue \<Rightarrow> nat \<Rightarrow> (status \<times> 'a kqueue) run" where
  "q_preallocate ok q sz =
     assertk (q_size q > 0) (if sz > q_size q then q_grow ok q sz else Ret (None, q))"

definition q_empty :: "'a kqueue \<Rightarrow> bool" where
  "q_empty q \<longleftrightarrow> q_nextwrite q = q_nextread q"

definition q_addtail :: "bool \<Rightarrow> 'a kqueue \<Rightarrow> 'a \<Rightarrow> (status \<times> 'a kqueue) run" where
  "q_addtail ok q ptr = q_addtail_f (q_size q + 3) ok q (Some ptr)"

definition q_remhead :: "'a kqueue \<Rightarrow> ('a option \<times> 'a kqueue) run" where
  "q_remhead q =
     assertk (q_size q > 0)
     (assertk (\<not> q_empty q)
     (if q_nextread q < length (q_data q)
      then Ret (q_data q ! q_nextread q, q\<lparr>q_nextread := (q_nextread q + 1) mod q_size q\<rparr>)
      else Fault))"

text \<open>\<^verbatim>\<open>q_destroy\<close> frees the buffer of an empty queue; nothing is left of it.\<close>

definition q_destroy :: "'a kqueue \<Rightarrow> unit run" where
  "q_destroy q = assertk (q_empty q) (Ret ())"

definition q_getstart :: "'a kqueue \<Rightarrow> nat" where
  "q_getstart q = q_nextread q"

definition q_getend :: "'a kqueue \<Rightarrow> nat" where
  "q_getend q = q_nextwrite q"

definition q_getsize :: "'a kqueue \<Rightarrow> nat" where
  "q_getsize q = q_size q"

definition q_getguy :: "'a kqueue \<Rightarrow> int \<Rightarrow> 'a option run" where
  "q_getguy q index =
     assertk (0 \<le> index \<and> index < int (q_size q))
     (if nat index < length (q_data q) then Ret (q_data q ! nat index) else Fault)"

section \<open>Invariant and abstraction\<close>

definition q_inv :: "'a kqueue \<Rightarrow> bool" where
  "q_inv q \<longleftrightarrow> 0 < q_size q \<and> length (q_data q) = q_size q \<and>
     q_nextread q < q_size q \<and> q_nextwrite q < q_size q"

definition q_len :: "'a kqueue \<Rightarrow> nat" where
  "q_len q = (q_nextwrite q + q_size q - q_nextread q) mod q_size q"

definition ring_list :: "'b list \<Rightarrow> nat \<Rightarrow> nat \<Rightarrow> nat \<Rightarrow> 'b list" where
  "ring_list xs sz start n = map (\<lambda>k. xs ! ((start + k) mod sz)) [0..<n]"

definition q_list :: "'a kqueue \<Rightarrow> 'a option list" where
  "q_list q = ring_list (q_data q) (q_size q) (q_nextread q) (q_len q)"

lemma ring_list_length [simp]: "length (ring_list xs sz start n) = n"
  by (simp add: ring_list_def)

lemma ring_list_0 [simp]: "ring_list xs sz start 0 = []"
  by (simp add: ring_list_def)

lemma ring_list_Suc: "ring_list xs sz start (Suc n) = ring_list xs sz start n @ [xs ! ((start + n) mod sz)]"
  by (simp add: ring_list_def)

lemma ring_list_Cons:
  "ring_list xs sz start (Suc n) = xs ! (start mod sz) # ring_list xs sz ((start + 1) mod sz) n"
proof (induction n)
  case (Suc n)
  have "(start + Suc n) mod sz = ((start + 1) mod sz + n) mod sz"
    by (simp add: mod_add_left_eq)
  then have "ring_list xs sz start (Suc (Suc n)) =
      ring_list xs sz start (Suc n) @ [xs ! (((start + 1) mod sz + n) mod sz)]"
    by (simp only: ring_list_Suc)
  also have "\<dots> = (xs ! (start mod sz) # ring_list xs sz ((start + 1) mod sz) n)
      @ [xs ! (((start + 1) mod sz + n) mod sz)]"
    by (simp only: Suc)
  finally show ?case by (simp only: ring_list_Suc [of xs sz "(start + 1) mod sz" n] append_Cons)
qed (simp add: ring_list_def)

lemma ring_list_update:
  assumes "\<And>k. k < n \<Longrightarrow> i \<noteq> (start + k) mod sz"
  shows "ring_list (xs[i := x]) sz start n = ring_list xs sz start n"
  using assms by (auto simp: ring_list_def)

lemma mod_add_inj:
  fixes s :: nat
  assumes "(s + a) mod n = (s + b) mod n" "a < n" "b < n"
  shows "a = b"
  using assms
proof (induction a b rule: linorder_wlog)
  case (le a b)
  then obtain q where "s + b = s + a + n * q"
    by (metis add_le_cancel_left mod_eq_nat1E)
  with le show ?case by (cases q) auto
qed simp

lemma q_len_less: "q_inv q \<Longrightarrow> q_len q < q_size q"
  by (simp add: q_inv_def q_len_def)

lemma q_len_end: "q_inv q \<Longrightarrow> (q_nextread q + q_len q) mod q_size q = q_nextwrite q"
  by (simp add: q_inv_def q_len_def mod_add_right_eq)

lemma q_len_unique:
  assumes "q_inv q" "l < q_size q" "(q_nextread q + l) mod q_size q = q_nextwrite q"
  shows "q_len q = l"
  using mod_add_inj [of "q_nextread q" "q_len q" "q_size q" l] assms q_len_less q_len_end by metis

lemma q_full_iff:
  assumes "q_inv q"
  shows "(q_nextwrite q + 1) mod q_size q = q_nextread q \<longleftrightarrow> q_len q + 1 = q_size q"
proof -
  have e: "(q_nextwrite q + 1) mod q_size q = (q_nextread q + (q_len q + 1)) mod q_size q"
    using q_len_end [OF assms] by (metis add.assoc mod_add_left_eq)
  have r: "q_nextread q = (q_nextread q + 0) mod q_size q" using assms by (simp add: q_inv_def)
  show ?thesis
  proof
    assume "(q_nextwrite q + 1) mod q_size q = q_nextread q"
    then have "(q_nextread q + (q_len q + 1)) mod q_size q = (q_nextread q + 0) mod q_size q"
      using e r by metis
    moreover have "\<not> q_len q + 1 < q_size q"
      using mod_add_inj [of "q_nextread q" "q_len q + 1" "q_size q" 0] calculation assms
      by (auto simp: q_inv_def)
    ultimately show "q_len q + 1 = q_size q" using q_len_less [OF assms] by simp
  next
    assume "q_len q + 1 = q_size q"
    then show "(q_nextwrite q + 1) mod q_size q = q_nextread q"
      using e assms by (simp add: q_inv_def)
  qed
qed

lemma q_list_length: "length (q_list q) = q_len q"
  by (simp add: q_list_def)

lemma q_empty_iff: "q_inv q \<Longrightarrow> q_empty q \<longleftrightarrow> q_list q = []"
  using q_len_end [of q] q_len_unique [of q 0]
  by (auto simp: q_empty_def q_inv_def simp flip: length_0_conv simp: q_list_length)

abbreviation q_put :: "'a kqueue \<Rightarrow> 'a option \<Rightarrow> 'a kqueue" where
  "q_put q p \<equiv> q\<lparr>q_data := (q_data q)[q_nextwrite q := p], q_nextwrite := (q_nextwrite q + 1) mod q_size q\<rparr>"

lemma q_put_room:
  assumes "q_inv q" "q_len q + 1 < q_size q"
  shows "q_inv (q_put q p)" "q_len (q_put q p) = q_len q + 1" "q_list (q_put q p) = q_list q @ [p]"
proof -
  show inv: "q_inv (q_put q p)" using assms by (simp add: q_inv_def)
  have "(q_nextread q + (q_len q + 1)) mod q_size q = (q_nextwrite q + 1) mod q_size q"
    using q_len_end [OF assms(1)] by (metis add.assoc mod_add_left_eq)
  with q_len_unique [OF inv, of "q_len q + 1"] assms(2)
  show len: "q_len (q_put q p) = q_len q + 1" by simp
  have "q_nextwrite q \<noteq> (q_nextread q + k) mod q_size q" if "k < q_len q" for k
    using mod_add_inj [of "q_nextread q" "q_len q" "q_size q" k] that q_len_end [OF assms(1)] assms(2)
    by auto
  then have "ring_list ((q_data q)[q_nextwrite q := p]) (q_size q) (q_nextread q) (q_len q) = q_list q"
    unfolding q_list_def by (intro ring_list_update) auto
  moreover have "(q_data q)[q_nextwrite q := p] ! ((q_nextread q + q_len q) mod q_size q) = p"
    using q_len_end [OF assms(1)] assms(1) by (simp add: q_inv_def)
  ultimately show "q_list (q_put q p) = q_list q @ [p]"
    using len by (subst q_list_def) (simp add: ring_list_Suc)
qed

lemma q_addtail_f_room:
  assumes "q_inv q" "q_len q + 1 < q_size q" "0 < fuel"
  shows "q_addtail_f fuel ok q p = Ret (None, q_put q p)"
proof -
  obtain f where "fuel = Suc f" using assms(3) by (cases fuel) auto
  with assms q_full_iff [OF assms(1)] show ?thesis by (auto simp: q_inv_def)
qed

lemma q_refill_f_ring:
  assumes "q_inv q" "q_len q + m < q_size q" "length old = osize" "i < osize" "m < osize"
    "(i + m) mod osize = onw" "m < fuel"
  shows "\<exists>q'. q_refill_f fuel ok old osize onw i q = Ret q' \<and> q_inv q' \<and> q_size q' = q_size q \<and>
    q_list q' = q_list q @ ring_list old osize i m"
  using assms
proof (induction m arbitrary: i q fuel)
  case 0
  then show ?case by (cases fuel) auto
next
  case (Suc m)
  obtain f where f: "fuel = Suc f" "m < f" using Suc.prems(7) by (cases fuel) auto
  have ne: "i \<noteq> onw"
    using mod_add_inj [of i "Suc m" osize 0] Suc.prems(4,5,6) by auto
  have room: "q_len q + 1 < q_size q" using Suc.prems(2) by simp
  let ?q = "q_put q (old ! i)"
  from q_put_room [OF Suc.prems(1) room, of "old ! i"]
  have q: "q_inv ?q" "q_len ?q = q_len q + 1" "q_list ?q = q_list q @ [old ! i]" by auto
  have step: "q_addtail_f f ok q (old ! i) = Ret (None, ?q)"
    using q_addtail_f_room [OF Suc.prems(1) room, of f] f(2) by simp
  have "((i + 1) mod osize + m) mod osize = onw"
    using Suc.prems(6) by (simp add: mod_add_left_eq)
  then obtain q' where "q_refill_f f ok old osize onw ((i + 1) mod osize) ?q = Ret q'" "q_inv q'"
      "q_size q' = q_size q" "q_list q' = q_list ?q @ ring_list old osize ((i + 1) mod osize) m"
    using Suc.IH [of ?q "(i + 1) mod osize" f] q Suc.prems(2,3,4,5) f(2) by auto
  with step ne Suc.prems(3,4) f(1) q(3) show ?case
    by (auto simp: ring_list_Cons)
qed

lemma q_newsize_Ret:
  assumes "0 < n" "t \<le> 2 ^ 30"
  shows "\<exists>k. q_newsize n t = Ret k \<and> n \<le> k \<and> t \<le> k \<and> (n < t \<longrightarrow> 2 * n \<le> k)"
  using assms
proof (induction n t rule: q_newsize.induct)
  case (1 n t)
  show ?case
  proof (cases "n < t")
    case True
    with 1 obtain k where "q_newsize (2 * n) t = Ret k" "2 * n \<le> k" "t \<le> k" by auto
    with True 1 show ?thesis by (auto simp: q_newsize.simps [of n t])
  next
    case False
    then show ?thesis by (simp add: q_newsize.simps [of n t])
  qed
qed

lemma q_newsize_RetD:
  "q_newsize n t = Ret k \<Longrightarrow> 0 < n \<Longrightarrow> n \<le> k \<and> t \<le> k \<and> (n < t \<longrightarrow> 2 * n \<le> k)"
proof (induction n t rule: q_newsize.induct)
  case (1 n t)
  then show ?case
  proof (cases "n < t")
    case True
    with 1(2) have "2 * n < 2 ^ 31" "q_newsize (2 * n) t = Ret k"
      by (auto simp: q_newsize.simps [of n t] split: if_splits)
    with 1 True show ?thesis by auto
  qed (simp add: q_newsize.simps [of n t])
qed

lemma q_grow_f_newsize:
  assumes "q_inv q" "q_size q < t" "q_newsize (q_size q) t = Ret k" "q_size q < fuel"
  shows "\<exists>q'. q_grow_f fuel True q t = Ret (None, q') \<and> q_inv q' \<and> t \<le> q_size q' \<and>
      2 * q_size q \<le> q_size q' \<and> q_list q' = q_list q"
proof -
  obtain f where f: "fuel = Suc f" "q_size q \<le> f" using assms(4) by (cases fuel) auto
  have k: "q_newsize (q_size q) t = Ret k" "t \<le> k" "2 * q_size q \<le> k"
    using q_newsize_RetD [OF assms(3)] assms(1-3) by (auto simp: q_inv_def)
  let ?q0 = "q\<lparr>q_size := k, q_data := replicate k None, q_nextread := 0, q_nextwrite := 0\<rparr>"
  have "q_inv ?q0" "q_len ?q0 = 0" "q_list ?q0 = []"
    using k assms(2) by (auto simp: q_inv_def q_len_def q_list_def)
  moreover have "q_nextread q < q_size q" "length (q_data q) = q_size q" using assms(1)
    by (auto simp: q_inv_def)
  ultimately obtain q' where "q_refill_f f True (q_data q) (q_size q) (q_nextwrite q) (q_nextread q) ?q0 = Ret q'"
      "q_inv q'" "q_size q' = k" "q_list q' = ring_list (q_data q) (q_size q) (q_nextread q) (q_len q)"
    using q_refill_f_ring [of ?q0 "q_len q" "q_data q" "q_size q" "q_nextread q" "q_nextwrite q" f True]
      q_len_less [OF assms(1)] q_len_end [OF assms(1)] k f(2) by auto
  with k f(1) show ?thesis by (auto simp: q_list_def)
qed

lemma q_grow_f_spec:
  assumes "q_inv q" "q_size q < t" "t \<le> 2 ^ 30" "q_size q < fuel"
  shows "\<exists>q'. q_grow_f fuel True q t = Ret (None, q') \<and> q_inv q' \<and> t \<le> q_size q' \<and>
      2 * q_size q \<le> q_size q' \<and> q_list q' = q_list q"
proof -
  obtain k where "q_newsize (q_size q) t = Ret k"
    using q_newsize_Ret [of "q_size q" t] assms(1-3) by (auto simp: q_inv_def)
  from q_grow_f_newsize [OF assms(1,2) this assms(4)] show ?thesis .
qed

lemma q_grow_f_fail:
  assumes "q_inv q" "t \<le> 2 ^ 30" "0 < fuel"
  shows "q_grow_f fuel False q t = Ret (Some ENOMEM, q)"
proof -
  obtain f where f: "fuel = Suc f" using assms(3) by (cases fuel) auto
  obtain k where "q_newsize (q_size q) t = Ret k"
    using q_newsize_Ret [of "q_size q" t] assms by (auto simp: q_inv_def)
  with f show ?thesis by simp
qed

lemma q_addtail_room:
  assumes "q_inv q" "q_len q + 1 < q_size q"
  shows "q_addtail ok q x = Ret (None, q_put q (Some x))"
  using q_addtail_f_room [OF assms] by (simp add: q_addtail_def)

lemma q_addtail_full:
  assumes "q_inv q" "q_len q + 1 = q_size q" "q_size q < 2 ^ 30"
  shows "q_addtail False q x = Ret (Some ENOMEM, q)"
    and "\<exists>q'. q_addtail True q x = Ret (None, q') \<and> q_inv q' \<and> q_size q < q_size q' \<and>
      q_list q' = q_list q @ [Some x]"
proof -
  have full: "(q_nextwrite q + 1) mod q_size q = q_nextread q" using q_full_iff assms(1,2) by blast
  have fuel: "q_size q + 3 = Suc (q_size q + 2)" by simp
  have pos: "0 < q_size q" using assms(1) by (simp add: q_inv_def)
  show "q_addtail False q x = Ret (Some ENOMEM, q)"
    using q_grow_f_fail [OF assms(1), of "q_size q + 1" "q_size q + 2"] assms(3) full pos
    unfolding q_addtail_def fuel by (simp add: Let_def)
  obtain q' where q': "q_grow_f (q_size q + 2) True q (q_size q + 1) = Ret (None, q')" "q_inv q'"
      "q_size q + 1 \<le> q_size q'" "2 * q_size q \<le> q_size q'" "q_list q' = q_list q"
    using q_grow_f_spec [OF assms(1), of "q_size q + 1" "q_size q + 2"] assms(3) by auto
  have "q_len q' + 1 < q_size q'"
    using q'(3,5) q_list_length [of q] q_list_length [of q'] assms(2) by simp
  note room = q_put_room [OF q'(2) this, of "Some x"]
  have "q_nextwrite q' < length (q_data q')" using q'(2) by (simp add: q_inv_def)
  then have "q_addtail True q x = Ret (None, q_put q' (Some x))"
    using q'(1) full pos unfolding q_addtail_def fuel by (simp add: Let_def)
  with room q'(3,5) show "\<exists>q'. q_addtail True q x = Ret (None, q') \<and> q_inv q' \<and> q_size q < q_size q' \<and>
      q_list q' = q_list q @ [Some x]" by auto
qed

lemma q_remhead_list:
  assumes "q_inv q" "q_list q = p # ps"
  shows "\<exists>q'. q_remhead q = Ret (p, q') \<and> q_inv q' \<and> q_size q' = q_size q \<and> q_list q' = ps"
proof -
  let ?q = "q\<lparr>q_nextread := (q_nextread q + 1) mod q_size q\<rparr>"
  obtain n where n: "q_len q = Suc n" using assms(2) by (metis length_Cons q_list_length)
  have inv: "q_inv ?q" using assms(1) by (simp add: q_inv_def)
  have "((q_nextread q + 1) mod q_size q + n) mod q_size q = q_nextwrite q"
    using q_len_end [OF assms(1)] n by (simp add: mod_add_left_eq)
  with q_len_unique [OF inv, of n] q_len_less [OF assms(1)] n have len: "q_len ?q = n" by simp
  have "q_list q = q_data q ! q_nextread q # q_list ?q"
    using len n assms(1) by (simp add: q_list_def ring_list_Cons q_inv_def)
  moreover have "\<not> q_empty q" using q_empty_iff [OF assms(1)] assms(2) by simp
  ultimately show ?thesis using assms inv by (auto simp: q_remhead_def q_inv_def)
qed

section \<open>The interface\<close>

text \<open>
  What \<^verbatim>\<open>src/kern/include/queue.h\<close> promises.  \<open>room\<close> says that one more
  pointer fits without a new allocation, \<open>growable\<close> that the queue is far enough from the
  largest size a C int can hold.
\<close>

locale fifo_queue =
  fixes is_empty :: "'q \<Rightarrow> bool"
    and addtail :: "bool \<Rightarrow> 'q \<Rightarrow> 'a \<Rightarrow> (status \<times> 'q) run"
    and remhead :: "'q \<Rightarrow> ('a option \<times> 'q) run"
    and room :: "'q \<Rightarrow> bool"
    and growable :: "'q \<Rightarrow> bool"
    and view :: "'q \<Rightarrow> 'a option list"
    and inv :: "'q \<Rightarrow> bool"
  assumes is_empty_view: "inv q \<Longrightarrow> is_empty q \<longleftrightarrow> view q = []"
    and addtail_view: "inv q \<Longrightarrow> room q \<or> ok \<and> growable q \<Longrightarrow>
      \<exists>q'. addtail ok q x = Ret (None, q') \<and> inv q' \<and> view q' = view q @ [Some x]"
    and addtail_fail: "inv q \<Longrightarrow> \<not> room q \<Longrightarrow> growable q \<Longrightarrow> addtail False q x = Ret (Some ENOMEM, q)"
    and remhead_view: "inv q \<Longrightarrow> view q = p # ps \<Longrightarrow> \<exists>q'. remhead q = Ret (p, q') \<and> inv q' \<and> view q' = ps"
    and remhead_empty: "inv q \<Longrightarrow> view q = [] \<Longrightarrow> remhead q = Panic"
begin

text \<open>Taking out \<open>n\<close> pointers one after the other.\<close>

fun remheads :: "nat \<Rightarrow> 'q \<Rightarrow> ('a option list \<times> 'q) run" where
  "remheads 0 q = Ret ([], q)"
| "remheads (Suc n) q =
     andthen (remhead q) (\<lambda>(p, q'). andthen (remheads n q') (\<lambda>(ps, q''). Ret (p # ps, q'')))"

lemma remheads_view:
  "inv q \<Longrightarrow> n \<le> length (view q) \<Longrightarrow>
    \<exists>q'. remheads n q = Ret (take n (view q), q') \<and> inv q' \<and> view q' = drop n (view q)"
proof (induction n arbitrary: q)
  case (Suc n)
  then obtain p ps where v: "view q = p # ps" by (cases "view q") auto
  then obtain q' where q': "remhead q = Ret (p, q')" "inv q'" "view q' = ps"
    using remhead_view [OF Suc.prems(1)] by blast
  with Suc.IH [OF q'(2)] Suc.prems(2) v show ?case by auto
qed auto

text \<open>First in, first out: a pointer comes out after exactly those that were queued before it.\<close>

lemma addtail_comes_last:
  assumes "inv q" "addtail ok q x = Ret (None, q')" "room q \<or> growable q"
  shows "\<exists>q''. remheads (Suc (length (view q))) q' = Ret (view q @ [Some x], q'') \<and> view q'' = []"
proof -
  have "room q \<or> ok"
    using addtail_fail [OF assms(1)] assms(2,3) by (metis (full_types) Pair_inject option.distinct(1) run.inject)
  then have "room q \<or> ok \<and> growable q" using assms(3) by blast
  from addtail_view [OF assms(1) this, of x] assms(2)
  have "inv q'" "view q' = view q @ [Some x]" by auto
  with remheads_view [of q' "Suc (length (view q))"] show ?thesis by auto
qed

end

interpretation kq: fifo_queue q_empty q_addtail q_remhead "\<lambda>q. q_len q + 1 < q_size q"
  "\<lambda>q. q_size q < 2 ^ 30" q_list q_inv
proof (unfold_locales, goal_cases)
  case (1 q)
  then show ?case by (rule q_empty_iff)
next
  case (2 q ok x)
  show ?case
  proof (cases "q_len q + 1 < q_size q")
    case True
    with q_addtail_room [OF 2(1) True] q_put_room [OF 2(1) True] show ?thesis by blast
  next
    case False
    with q_len_less [OF 2(1)] have "q_len q + 1 = q_size q" by simp
    with q_addtail_full(2) [OF 2(1)] 2(2) False show ?thesis by auto
  qed
next
  case (3 q x)
  with q_len_less [OF 3(1)] have "q_len q + 1 = q_size q" by simp
  with q_addtail_full(1) [OF 3(1)] 3(3) show ?case by blast
next
  case (4 q p ps)
  with q_remhead_list [OF 4] show ?case by blast
next
  case (5 q)
  with q_empty_iff [of q] show ?case by (simp add: q_remhead_def q_inv_def)
qed

section \<open>Properties\<close>

text \<open>The test \<^verbatim>\<open>assert(nsize > 0)\<close> on a 32-bit int detects exactly the doublings that overflow.\<close>

lemma int_doubling:
  assumes "0 < n" "n < 2 ^ 31"
  shows "0 < sint (word_of_int (2 * n) :: 32 word) \<longleftrightarrow> 2 * n < 2 ^ 31"
proof -
  have "sint (word_of_int (2 * n) :: 32 word) = (2 * n + 2 ^ 31) mod 2 ^ 32 - 2 ^ 31"
    by (simp only: signed_of_int) (simp add: signed_take_bit_eq_take_bit_shift take_bit_eq_mod)
  moreover have "(2 * n + 2 ^ 31) mod 2 ^ 32 = (if 2 * n < 2 ^ 31 then 2 * n + 2 ^ 31 else 2 * n - 2 ^ 31)"
    using minus_mod_self2 [of "2 * n + 2 ^ 31" "2 ^ 32 :: int"] assms
      mod_pos_pos_trivial [of "2 * n - 2 ^ 31" "2 ^ 32 :: int"]
    by (simp del: minus_mod_self2 add: mod_pos_pos_trivial)
  ultimately show ?thesis using assms by simp
qed

text \<open>C16: \<^verbatim>\<open>q_addtail\<close> on a well-formed queue below \<open>2 ^ 30\<close> slots always returns
  (the mutual recursion with \<^verbatim>\<open>q_grow\<close> ends): it appends the pointer, or the ring was
  full, memory has run out, it reports \<open>ENOMEM\<close> and the queue is unchanged.
\<close>

theorem q_addtail_refines:
  assumes "q_inv q" and "q_size q < 2 ^ 30"
  shows "\<exists>r q'. q_addtail ok q x = Ret (r, q') \<and> q_inv q' \<and>
    (r = None \<and> q_list q' = q_list q @ [Some x] \<or>
     r = Some ENOMEM \<and> q' = q \<and> \<not> ok \<and> q_len q + 1 = q_size q)"
proof (cases "q_len q + 1 < q_size q \<or> ok")
  case True
  with kq.addtail_view [OF assms(1), of ok x] assms(2) show ?thesis by blast
next
  case False
  with q_len_less [OF assms(1)] have "q_len q + 1 = q_size q" "\<not> ok" by auto
  with q_addtail_full(1) [OF assms(1) _ assms(2)] assms(1) show ?thesis by auto
qed

theorem q_addtail_refines_witness:
  "\<exists>r q'. q_addtail True \<lparr>q_size = 2, q_nextwrite = 0, q_nextread = 1, q_data = [None, Some (5::nat)]\<rparr> 6
      = Ret (r, q') \<and> q_inv q' \<and> (r = None \<and> q_list q' = [Some 5, Some 6])"
  using q_addtail_refines [of "\<lparr>q_size = 2, q_nextwrite = 0, q_nextread = 1, q_data = [None, Some (5::nat)]\<rparr>" True 6]
  by (simp add: q_inv_def q_list_def q_len_def ring_list_def)

text \<open>C17: \<^verbatim>\<open>q_remhead\<close> takes out the oldest pointer and nothing else, and stops the machine
  on an empty queue.
\<close>

theorem q_remhead_refines:
  assumes "q_inv q"
  shows "case q_list q of
      [] \<Rightarrow> q_remhead q = Panic
    | p # ps \<Rightarrow> \<exists>q'. q_remhead q = Ret (p, q') \<and> q_inv q' \<and> q_size q' = q_size q \<and> q_list q' = ps"
  using kq.remhead_empty [OF assms] q_remhead_list [OF assms] by (auto split: list.split)

theorem q_remhead_refines_witness:
  "\<exists>q'. q_remhead \<lparr>q_size = 3, q_nextwrite = 1, q_nextread = 2, q_data = [Some 4, None, Some (9::nat)]\<rparr>
      = Ret (Some 9, q') \<and> q_inv q' \<and> q_size q' = 3 \<and> q_list q' = [Some 4]"
proof -
  let ?q = "\<lparr>q_size = 3, q_nextwrite = 1, q_nextread = 2, q_data = [Some 4, None, Some (9::nat)]\<rparr>"
  have inv: "q_inv ?q" by (simp add: q_inv_def)
  have "q_list ?q = [Some 9, Some 4]" by code_simp
  with q_remhead_refines [OF inv] show ?thesis by simp
qed

text \<open>\<^verbatim>\<open>q_preallocate\<close> grows the ring to at least the wanted size and keeps the queued
  pointers in order; because one slot always stays free, a ring of that size is guaranteed room
  for one pointer fewer only.
\<close>

theorem q_preallocate_refines:
  assumes "q_inv q" and "n \<le> 2 ^ 30"
  shows "\<exists>q'. q_preallocate True q n = Ret (None, q') \<and> q_inv q' \<and> n \<le> q_size q' \<and>
    q_list q' = q_list q \<and>
    (\<forall>x ok. length (q_list q') + 1 < n \<longrightarrow> (\<exists>q''. q_addtail ok q' x = Ret (None, q'')))"
proof -
  have "\<exists>q'. q_preallocate True q n = Ret (None, q') \<and> q_inv q' \<and> n \<le> q_size q' \<and> q_list q' = q_list q"
    using assms q_grow_f_spec [of q n "q_size q + 2"]
    by (auto simp: q_preallocate_def q_grow_def q_inv_def)
  then obtain q' where q': "q_preallocate True q n = Ret (None, q')" "q_inv q'" "n \<le> q_size q'"
    "q_list q' = q_list q" by blast
  have "\<exists>q''. q_addtail ok q' x = Ret (None, q'')" if "length (q_list q') + 1 < n" for ok x
  proof -
    from that q'(3) have "q_len q' + 1 < q_size q'" by (simp add: q_list_length)
    with q_addtail_room [OF q'(2)] show ?thesis by blast
  qed
  with q' show ?thesis by blast
qed

theorem q_preallocate_refines_witness:
  "\<exists>q'. q_preallocate True \<lparr>q_size = 2, q_nextwrite = 1, q_nextread = 0, q_data = [Some (3::nat), None]\<rparr> 5
      = Ret (None, q') \<and> q_inv q' \<and> 5 \<le> q_size q' \<and> q_list q' = [Some 3]"
proof -
  let ?q = "\<lparr>q_size = 2, q_nextwrite = 1, q_nextread = 0, q_data = [Some (3::nat), None]\<rparr>"
  have inv: "q_inv ?q" by (simp add: q_inv_def)
  have "q_list ?q = [Some 3]" by code_simp
  with q_preallocate_refines [OF inv, of 5] show ?thesis by auto
qed

end
