(* ===== verification/KBitmap.thy ===== *)
theory KBitmap
  imports Prelude
begin

unbundle bit_operations_syntax

text \<open>
  The bit map of \<^verbatim>\<open>src/kern/lib/bitmap.c\<close>, the free map of the SFS file system.

  The bits are kept in bytes (\<^typ>\<open>8 word\<close>); sizes and indices are
  \<^verbatim>\<open>u_int32_t\<close>, here \<^typ>\<open>nat\<close> with the wrap-around of
  \<^verbatim>\<open>DIVROUNDUP\<close> written out.  The abstract view is the set \<open>bm_used\<close> of the
  marked indices; the locale \<open>index_pool\<close> states the operations over it.
\<close>

section \<open>Data and operations\<close>

record kbitmap =
  bm_nbits :: nat
  bm_v :: "8 word list"

definition BITS_PER_WORD :: nat where
  "BITS_PER_WORD = 8"

definition WORD_ALLBITS :: "8 word" where
  "WORD_ALLBITS = 0xff"

text \<open>\<^verbatim>\<open>DIVROUNDUP(nbits, BITS_PER_WORD)\<close> on 32-bit unsigned operands.\<close>

definition bm_words :: "nat \<Rightarrow> nat" where
  "bm_words nbits = ((nbits + BITS_PER_WORD - 1) mod 2 ^ 32) div BITS_PER_WORD"

text \<open>The loop that marks the bits \<open>j .. 7\<close> of the last byte.\<close>

function bm_mark_over :: "nat \<Rightarrow> 8 word \<Rightarrow> 8 word" where
  "bm_mark_over j w =
     (if j < BITS_PER_WORD then bm_mark_over (j + 1) (w OR push_bit j 1) else w)"
  by pat_completeness auto
termination
  by (relation "measure (\<lambda>(j, w). BITS_PER_WORD - j)") auto

declare bm_mark_over.simps [simp del]

definition bitmap_create :: "bool \<Rightarrow> bool \<Rightarrow> nat \<Rightarrow> kbitmap option run" where
  "bitmap_create ok_struct ok_v nbits =
     (let words = bm_words nbits in
      if \<not> ok_struct \<or> \<not> ok_v then Ret None
      else let b = \<lparr>bm_nbits = nbits, bm_v = replicate words 0\<rparr> in
        if nbits div BITS_PER_WORD < words
        then let ix = words - 1; overbits = nbits - ix * BITS_PER_WORD in
             assertk (nbits div BITS_PER_WORD = words - 1)
             (assertk (overbits > 0 \<and> overbits < BITS_PER_WORD)
             (Ret (Some (b\<lparr>bm_v := (bm_v b)[ix := bm_mark_over overbits (bm_v b ! ix)]\<rparr>))))
        else Ret (Some b))"

definition bitmap_getdata :: "kbitmap \<Rightarrow> 8 word list" where
  "bitmap_getdata b = bm_v b"

text \<open>The inner loop of \<^verbatim>\<open>bitmap_alloc\<close>: the first clear bit of one byte from \<open>offset\<close> on.\<close>

function bm_find_offset :: "8 word \<Rightarrow> nat \<Rightarrow> nat option" where
  "bm_find_offset w offset =
     (if offset < BITS_PER_WORD
      then let msk = push_bit offset 1 in
           if w AND msk = 0 then Some offset else bm_find_offset w (offset + 1)
      else None)"
  by pat_completeness auto
termination
  by (relation "measure (\<lambda>(w, offset). BITS_PER_WORD - offset)") auto

declare bm_find_offset.simps [simp del]

text \<open>The outer loop, over the bytes from \<open>ix\<close> on.\<close>

function bm_alloc_from :: "kbitmap \<Rightarrow> nat \<Rightarrow> nat \<Rightarrow> ((errno + nat) \<times> kbitmap) run" where
  "bm_alloc_from b maxix ix =
     (if ix < maxix
      then if ix < length (bm_v b)
           then if bm_v b ! ix \<noteq> WORD_ALLBITS
                then case bm_find_offset (bm_v b ! ix) 0 of
                       Some offset \<Rightarrow>
                         (let index = ix * BITS_PER_WORD + offset in
                          assertk (index < bm_nbits b)
                          (Ret (Inr index, b\<lparr>bm_v := (bm_v b)[ix := bm_v b ! ix OR push_bit offset 1]\<rparr>)))
                     | None \<Rightarrow> Panic
                else bm_alloc_from b maxix (ix + 1)
           else Fault
      else Ret (Inl ENOSPC, b))"
  by pat_completeness auto
termination
  by (relation "measure (\<lambda>(b, maxix, ix). maxix - ix)") auto

declare bm_alloc_from.simps [simp del]

definition bitmap_alloc :: "kbitmap \<Rightarrow> ((errno + nat) \<times> kbitmap) run" where
  "bitmap_alloc b = bm_alloc_from b (bm_words (bm_nbits b)) 0"

definition bitmap_translate :: "nat \<Rightarrow> nat \<times> 8 word" where
  "bitmap_translate bitno = (bitno div BITS_PER_WORD, push_bit (bitno mod BITS_PER_WORD) 1)"

definition bitmap_mark :: "kbitmap \<Rightarrow> nat \<Rightarrow> kbitmap run" where
  "bitmap_mark b index =
     assertk (index < bm_nbits b)
     (case bitmap_translate index of (ix, msk) \<Rightarrow>
      if ix < length (bm_v b)
      then assertk (bm_v b ! ix AND msk = 0) (Ret (b\<lparr>bm_v := (bm_v b)[ix := bm_v b ! ix OR msk]\<rparr>))
      else Fault)"

definition bitmap_unmark :: "kbitmap \<Rightarrow> nat \<Rightarrow> kbitmap run" where
  "bitmap_unmark b index =
     assertk (index < bm_nbits b)
     (case bitmap_translate index of (ix, msk) \<Rightarrow>
      if ix < length (bm_v b)
      then assertk (bm_v b ! ix AND msk \<noteq> 0) (Ret (b\<lparr>bm_v := (bm_v b)[ix := bm_v b ! ix AND NOT msk]\<rparr>))
      else Fault)"

text \<open>\<^verbatim>\<open>bitmap_isset\<close> does not check its index; the C truth value of the result is \<open>\<noteq> 0\<close>.\<close>

definition bitmap_isset :: "kbitmap \<Rightarrow> nat \<Rightarrow> 8 word run" where
  "bitmap_isset b index =
     (case bitmap_translate index of (ix, msk) \<Rightarrow>
      if ix < length (bm_v b) then Ret (bm_v b ! ix AND msk) else Fault)"

section \<open>Invariant and abstraction\<close>

definition bm_bit :: "kbitmap \<Rightarrow> nat \<Rightarrow> bool" where
  "bm_bit b i = bit (bm_v b ! (i div 8)) (i mod 8)"

definition bm_inv :: "kbitmap \<Rightarrow> bool" where
  "bm_inv b \<longleftrightarrow> bm_nbits b \<le> 2 ^ 32 - 8 \<and> length (bm_v b) = (bm_nbits b + 7) div 8 \<and>
     (\<forall>i < 8 * length (bm_v b). bm_nbits b \<le> i \<longrightarrow> bm_bit b i)"

definition bm_used :: "kbitmap \<Rightarrow> nat set" where
  "bm_used b = {i. i < bm_nbits b \<and> bm_bit b i}"

section \<open>Bits\<close>

lemma and_mask_eq_0: "w AND push_bit k 1 = 0 \<longleftrightarrow> \<not> bit w k" if "k < 8" for w :: "8 word"
proof
  assume "w AND push_bit k 1 = 0"
  then have "\<not> bit (w AND push_bit k 1) k" by simp
  with that show "\<not> bit w k" by (simp add: bit_simps)
next
  assume "\<not> bit w k"
  then show "w AND push_bit k 1 = 0" by (intro bit_word_eqI) (auto simp: bit_simps)
qed

lemma bit_or_mask: "k < 8 \<Longrightarrow> bit (w OR push_bit k 1) j \<longleftrightarrow> bit w j \<or> j = k" for w :: "8 word"
  by (auto simp: bit_simps)

lemma bit_and_not_mask: "k < 8 \<Longrightarrow> j < 8 \<Longrightarrow> bit (w AND NOT (push_bit k 1)) j \<longleftrightarrow> bit w j \<and> j \<noteq> k"
  for w :: "8 word"
  by (auto simp: bit_simps)

text \<open>The simplifier turns \<open>1 << k\<close> into a power of two: the same facts in that form.\<close>

lemmas mask_bits = and_mask_eq_0 bit_or_mask bit_and_not_mask
  and_mask_eq_0 [unfolded push_bit_of_1] bit_or_mask [unfolded push_bit_of_1]
  bit_and_not_mask [unfolded push_bit_of_1]

lemma allbits_iff: "w = WORD_ALLBITS \<longleftrightarrow> (\<forall>k < 8. bit w k)" for w :: "8 word"
proof -
  have all: "WORD_ALLBITS = mask 8" by (simp add: WORD_ALLBITS_def mask_eq_exp_minus_1)
  show ?thesis unfolding all by (auto simp: bit_eq_iff bit_simps)
qed

lemma bm_mark_over_bit:
  "j \<le> 8 \<Longrightarrow> k < 8 \<Longrightarrow> bit (bm_mark_over j w) k \<longleftrightarrow> bit w k \<or> j \<le> k"
proof (induction j w rule: bm_mark_over.induct)
  case (1 j w)
  show ?case
  proof (cases "j < 8")
    case True
    with 1 have "bit (bm_mark_over (j + 1) (w OR push_bit j 1)) k \<longleftrightarrow> bit (w OR push_bit j 1) k \<or> j + 1 \<le> k"
      by (simp add: BITS_PER_WORD_def)
    with True show ?thesis
      by (subst bm_mark_over.simps) (auto simp: BITS_PER_WORD_def mask_bits)
  next
    case False
    with 1(3) 1(2) show ?thesis by (subst bm_mark_over.simps) (auto simp: BITS_PER_WORD_def)
  qed
qed

lemma bm_find_offset_None: "bm_find_offset w j = None \<longleftrightarrow> (\<forall>k. j \<le> k \<and> k < 8 \<longrightarrow> bit w k)"
proof (induction w j rule: bm_find_offset.induct)
  case (1 w j)
  show ?case
  proof (cases "j < 8 \<and> bit w j")
    case True
    with 1 have "bm_find_offset w (j + 1) = None \<longleftrightarrow> (\<forall>k. j + 1 \<le> k \<and> k < 8 \<longrightarrow> bit w k)"
      by (simp add: BITS_PER_WORD_def mask_bits)
    with True show ?thesis
      by (subst bm_find_offset.simps)
        (auto simp: BITS_PER_WORD_def mask_bits Let_def, metis Suc_leI le_neq_implies_less)
  next
    case False
    then show ?thesis
      by (subst bm_find_offset.simps) (auto simp: BITS_PER_WORD_def mask_bits Let_def)
  qed
qed

lemma bm_find_offset_Some:
  "bm_find_offset w j = Some k \<Longrightarrow> j \<le> k \<and> k < 8 \<and> \<not> bit w k \<and> (\<forall>l. j \<le> l \<and> l < k \<longrightarrow> bit w l)"
proof (induction w j rule: bm_find_offset.induct)
  case (1 w j)
  show ?case
  proof (cases "j < 8 \<and> bit w j")
    case True
    with 1(2) have "bm_find_offset w (j + 1) = Some k"
      by (subst (asm) bm_find_offset.simps) (simp add: BITS_PER_WORD_def mask_bits Let_def)
    with 1(1) True have "j + 1 \<le> k \<and> k < 8 \<and> \<not> bit w k \<and> (\<forall>l. j + 1 \<le> l \<and> l < k \<longrightarrow> bit w l)"
      by (simp add: BITS_PER_WORD_def mask_bits)
    moreover from this True have "bit w l" if "j \<le> l" "l < k" for l
      using that by (cases "l = j") auto
    ultimately show ?thesis by auto
  next
    case False
    with 1(2) show ?thesis
      by (subst (asm) bm_find_offset.simps)
        (auto simp: BITS_PER_WORD_def mask_bits Let_def split: if_splits)
  qed
qed


section \<open>One bit set or cleared\<close>

definition bm_put :: "kbitmap \<Rightarrow> nat \<Rightarrow> 8 word \<Rightarrow> kbitmap" where
  "bm_put b ix w = b\<lparr>bm_v := (bm_v b)[ix := w]\<rparr>"

lemma bm_words_inv: "bm_inv b \<Longrightarrow> bm_words (bm_nbits b) = length (bm_v b)"
  by (simp add: bm_inv_def bm_words_def BITS_PER_WORD_def)

lemma bm_index_byte: "bm_inv b \<Longrightarrow> i < bm_nbits b \<Longrightarrow> i div 8 < length (bm_v b)"
  by (auto simp: bm_inv_def)

lemma bm_bit_put:
  assumes "ix < length (bm_v b)"
  shows "bm_bit (bm_put b ix w) i = (if i div 8 = ix then bit w (i mod 8) else bm_bit b i)"
  using assms by (auto simp: bm_bit_def bm_put_def)

lemma bm_mark_spec:
  assumes inv: "bm_inv b" and i: "i < bm_nbits b"
    and b': "b' = bm_put b (i div 8) (bm_v b ! (i div 8) OR push_bit (i mod 8) 1)"
  shows "bm_inv b'" "bm_used b' = insert i (bm_used b)" "bm_nbits b' = bm_nbits b"
proof -
  have ix: "i div 8 < length (bm_v b)" by (rule bm_index_byte [OF inv i])
  have eqi: "j = i" if "j div 8 = i div 8" "j mod 8 = i mod 8" for j
    using that by (metis div_mult_mod_eq)
  have bit: "bm_bit b' j \<longleftrightarrow> bm_bit b j \<or> j = i" for j
    unfolding b' bm_bit_put [OF ix] using eqi by (auto simp: mask_bits bm_bit_def)
  have n: "bm_nbits b' = bm_nbits b" "length (bm_v b') = length (bm_v b)"
    by (simp_all add: b' bm_put_def)
  from inv show "bm_inv b'" by (auto simp: bm_inv_def bit n)
  from i show "bm_used b' = insert i (bm_used b)" by (auto simp: bm_used_def bit n)
  show "bm_nbits b' = bm_nbits b" by (rule n)
qed

lemma bm_unmark_spec:
  assumes inv: "bm_inv b" and i: "i < bm_nbits b"
    and b': "b' = bm_put b (i div 8) (bm_v b ! (i div 8) AND NOT (push_bit (i mod 8) 1))"
  shows "bm_inv b'" "bm_used b' = bm_used b - {i}" "bm_nbits b' = bm_nbits b"
proof -
  have ix: "i div 8 < length (bm_v b)" by (rule bm_index_byte [OF inv i])
  have eqi: "j = i" if "j div 8 = i div 8" "j mod 8 = i mod 8" for j
    using that by (metis div_mult_mod_eq)
  have bit: "bm_bit b' j \<longleftrightarrow> bm_bit b j \<and> j \<noteq> i" for j
    unfolding b' bm_bit_put [OF ix] using eqi by (auto simp: mask_bits bm_bit_def)
  have n: "bm_nbits b' = bm_nbits b" "length (bm_v b') = length (bm_v b)"
    by (simp_all add: b' bm_put_def)
  from inv i show "bm_inv b'" by (auto simp: bm_inv_def bit n)
  from i show "bm_used b' = bm_used b - {i}" by (auto simp: bm_used_def bit n)
  show "bm_nbits b' = bm_nbits b" by (rule n)
qed

lemma bitmap_mark_Ret:
  assumes "bm_inv b"
  shows "bitmap_mark b i = (if i < bm_nbits b \<and> i \<notin> bm_used b
    then Ret (bm_put b (i div 8) (bm_v b ! (i div 8) OR push_bit (i mod 8) 1)) else Panic)"
  using bm_index_byte [OF assms, of i]
  by (auto simp: bitmap_mark_def bitmap_translate_def bm_put_def bm_used_def bm_bit_def
      BITS_PER_WORD_def mask_bits assertk_def)

lemma bitmap_unmark_Ret:
  assumes "bm_inv b"
  shows "bitmap_unmark b i = (if i \<in> bm_used b
    then Ret (bm_put b (i div 8) (bm_v b ! (i div 8) AND NOT (push_bit (i mod 8) 1))) else Panic)"
  using bm_index_byte [OF assms, of i]
  by (auto simp: bitmap_unmark_def bitmap_translate_def bm_put_def bm_used_def bm_bit_def
      BITS_PER_WORD_def mask_bits assertk_def)

lemma bitmap_isset_Ret:
  assumes "bm_inv b" "i < bm_nbits b"
  shows "\<exists>w. bitmap_isset b i = Ret w \<and> (w \<noteq> 0 \<longleftrightarrow> i \<in> bm_used b)"
  using bm_index_byte [OF assms] assms(2)
  by (auto simp: bitmap_isset_def bitmap_translate_def bm_used_def bm_bit_def
      BITS_PER_WORD_def mask_bits)

lemma bm_byte_bits: "(\<forall>k<8. bit (bm_v b ! ix) k) \<longleftrightarrow> (\<forall>i. i div 8 = ix \<longrightarrow> bm_bit b i)"
proof
  assume all: "\<forall>i. i div 8 = ix \<longrightarrow> bm_bit b i"
  have "bit (bm_v b ! ix) k" if "k < 8" for k
    using all [THEN spec, of "8 * ix + k"] that by (simp add: bm_bit_def)
  then show "\<forall>k<8. bit (bm_v b ! ix) k" by blast
qed (auto simp: bm_bit_def)

text \<open>The outer loop, entered at byte \<open>ix\<close> with every earlier bit set, finds the least clear bit.\<close>

lemma bm_alloc_from_spec:
  assumes "bm_inv b" "maxix = length (bm_v b)" "ix \<le> maxix" "\<forall>i < 8 * ix. bm_bit b i"
  shows "(\<exists>i < bm_nbits b. i \<notin> bm_used b \<and> (\<forall>j < i. j \<in> bm_used b) \<and>
            bm_alloc_from b maxix ix =
              Ret (Inr i, bm_put b (i div 8) (bm_v b ! (i div 8) OR push_bit (i mod 8) 1))) \<or>
         bm_used b = {..<bm_nbits b} \<and> bm_alloc_from b maxix ix = Ret (Inl ENOSPC, b)"
  using assms
proof (induction b maxix ix rule: bm_alloc_from.induct)
  case (1 b maxix ix)
  note inv = 1(2) and len = 1(3) and prev = 1(5)
  consider (fin) "ix = maxix" | (full) "ix < maxix" "bm_v b ! ix = WORD_ALLBITS"
    | (free) "ix < maxix" "bm_v b ! ix \<noteq> WORD_ALLBITS"
    using 1(4) by linarith
  then show ?case
  proof cases
    case fin
    then have "bm_used b = {..<bm_nbits b}" using inv len prev by (auto simp: bm_used_def bm_inv_def)
    with fin show ?thesis by (simp add: bm_alloc_from.simps)
  next
    case full
    then have "\<forall>i. i div 8 = ix \<longrightarrow> bm_bit b i" by (simp add: allbits_iff flip: bm_byte_bits)
    with prev have "\<forall>i < 8 * (ix + 1). bm_bit b i"
      by (metis add.commute div_less_iff_less_mult less_antisym mult.commute plus_1_eq_Suc zero_less_numeral)
    with full 1 show ?thesis by (subst (1 2) bm_alloc_from.simps) auto
  next
    case free
    then have "bm_find_offset (bm_v b ! ix) 0 \<noteq> None"
      unfolding bm_find_offset_None by (auto simp: allbits_iff)
    then obtain k where k: "bm_find_offset (bm_v b ! ix) 0 = Some k" by blast
    from bm_find_offset_Some [OF this]
    have k8: "k < 8" "\<not> bit (bm_v b ! ix) k" "\<forall>l<k. bit (bm_v b ! ix) l" by auto
    define i where "i = ix * 8 + k"
    have i: "i div 8 = ix" "i mod 8 = k" using k8(1) by (simp_all add: i_def)
    have clear: "\<not> bm_bit b i" using k8(2) i by (simp add: bm_bit_def)
    have "i < 8 * length (bm_v b)" using free(1) len k8(1) by (auto simp: i_def)
    with clear inv have lt: "i < bm_nbits b" unfolding bm_inv_def by (meson not_le)
    have before: "bm_bit b j" if "j < i" for j
    proof (cases "j < 8 * ix")
      case False
      with that k8(1) have "j div 8 = ix" "j mod 8 < k" by (auto simp: i_def) presburger+
      with k8(3) show ?thesis by (simp add: bm_bit_def)
    qed (use prev in auto)
    have "bm_alloc_from b maxix ix = Ret (Inr i, bm_put b ix (bm_v b ! ix OR push_bit k 1))"
      using free len k lt by (subst bm_alloc_from.simps)
        (simp add: BITS_PER_WORD_def i_def bm_put_def Let_def)
    with i lt clear before have "i < bm_nbits b \<and> i \<notin> bm_used b \<and> (\<forall>j<i. j \<in> bm_used b) \<and>
       bm_alloc_from b maxix ix =
         Ret (Inr i, bm_put b (i div 8) (bm_v b ! (i div 8) OR push_bit (i mod 8) 1))"
      by (auto simp: bm_used_def)
    then show ?thesis by blast
  qed
qed


lemma bitmap_alloc_spec:
  assumes "bm_inv b"
  shows "(\<exists>i < bm_nbits b. i \<notin> bm_used b \<and> (\<forall>j < i. j \<in> bm_used b) \<and>
            bitmap_alloc b =
              Ret (Inr i, bm_put b (i div 8) (bm_v b ! (i div 8) OR push_bit (i mod 8) 1))) \<or>
         bm_used b = {..<bm_nbits b} \<and> bitmap_alloc b = Ret (Inl ENOSPC, b)"
  using bm_alloc_from_spec [OF assms refl, of 0] bm_words_inv [OF assms]
  by (simp add: bitmap_alloc_def)

lemma bitmap_create_Ret:
  assumes "n \<le> 2 ^ 32 - 8"
  shows "\<exists>b. bitmap_create True True n = Ret (Some b) \<and> bm_inv b \<and> bm_nbits b = n \<and> bm_used b = {}"
proof (cases "n mod 8 = 0")
  case True
  then have w: "bm_words n = n div 8" and d: "(n + 7) div 8 = n div 8"
    using assms by (auto simp: bm_words_def BITS_PER_WORD_def)
  define b where "b = \<lparr>bm_nbits = n, bm_v = replicate (n div 8) (0 :: 8 word)\<rparr>"
  have "bitmap_create True True n = Ret (Some b)"
    by (simp add: bitmap_create_def w BITS_PER_WORD_def b_def)
  moreover have "bm_inv b" using True assms d by (auto simp: bm_inv_def b_def)
  moreover have "x div 8 < n div 8" if "x < n" for x using True that by (auto intro: ccontr)
  then have "bm_used b = {}" by (auto simp: bm_used_def b_def bm_bit_def)
  ultimately show ?thesis by (auto simp: b_def)
next
  case False
  then have w: "bm_words n = n div 8 + 1" and d: "(n + 7) div 8 = n div 8 + 1"
    using assms by (auto simp: bm_words_def BITS_PER_WORD_def) presburger+
  define b where "b = \<lparr>bm_nbits = n, bm_v = (replicate (n div 8 + 1) (0 :: 8 word))
     [n div 8 := bm_mark_over (n mod 8) 0]\<rparr>"
  have over: "n - n div 8 * 8 = n mod 8" by (simp add: minus_div_mult_eq_mod)
  have "bitmap_create True True n = Ret (Some b)"
    using False over by (simp add: bitmap_create_def w BITS_PER_WORD_def b_def Let_def assertk_def
        del: replicate_Suc)
  moreover have bit: "bm_bit b i \<longleftrightarrow> n \<le> i" if "i < 8 * (n div 8 + 1)" for i
  proof (cases "i div 8 = n div 8")
    case True
    then have "n mod 8 \<le> i mod 8 \<longleftrightarrow> n \<le> i"
      by (metis add_le_cancel_left div_mult_mod_eq)
    with True show ?thesis by (simp add: bm_bit_def b_def bm_mark_over_bit del: replicate_Suc)
  next
    case False
    with that have "i div 8 < n div 8" "i div 8 < n div 8 + 1" by auto
    moreover from this(1) have "i < n" by (metis div_le_mono leD leI)
    ultimately have "i < n" "i div 8 < n div 8 + 1" by auto
    with False show ?thesis by (simp add: bm_bit_def b_def del: replicate_Suc)
  qed
  moreover have n: "bm_nbits b = n" and l: "length (bm_v b) = n div 8 + 1"
    by (simp_all add: b_def del: replicate_Suc)
  moreover have "bm_inv b" using bit assms d unfolding bm_inv_def n l by auto
  moreover have "\<not> bm_bit b i" if "i < n" for i
    using bit [of i] that by (simp add: not_le)
  then have "bm_used b = {}" by (auto simp: bm_used_def n)
  ultimately show ?thesis by auto
qed

section \<open>The interface: a pool of indices\<close>

text \<open>A client that allocates \<open>n\<close> times and stops at the first failure.\<close>

fun alloc_times :: "('b \<Rightarrow> ((errno + nat) \<times> 'b) run) \<Rightarrow> nat \<Rightarrow> 'b \<Rightarrow> (nat list \<times> 'b) run" where
  "alloc_times alloc 0 b = Ret ([], b)"
| "alloc_times alloc (Suc n) b = andthen (alloc b) (\<lambda>(r, b1). case r of Inl e \<Rightarrow> Ret ([], b1)
     | Inr i \<Rightarrow> andthen (alloc_times alloc n b1) (\<lambda>(is, b2). Ret (i # is, b2)))"

locale index_pool =
  fixes inv :: "'b \<Rightarrow> bool"
    and capacity :: "'b \<Rightarrow> nat"
    and used :: "'b \<Rightarrow> nat set"
    and alloc :: "'b \<Rightarrow> ((errno + nat) \<times> 'b) run"
    and unmark :: "'b \<Rightarrow> nat \<Rightarrow> 'b run"
  assumes used_bound: "inv b \<Longrightarrow> used b \<subseteq> {..<capacity b}"
    and alloc_free: "inv b \<Longrightarrow> used b \<noteq> {..<capacity b} \<Longrightarrow>
      \<exists>i b'. alloc b = Ret (Inr i, b') \<and> i < capacity b \<and> i \<notin> used b \<and> inv b' \<and>
        used b' = insert i (used b) \<and> capacity b' = capacity b"
    and alloc_full: "inv b \<Longrightarrow> used b = {..<capacity b} \<Longrightarrow> alloc b = Ret (Inl ENOSPC, b)"
    and unmark_used: "inv b \<Longrightarrow> i \<in> used b \<Longrightarrow>
      \<exists>b'. unmark b i = Ret b' \<and> inv b' \<and> used b' = used b - {i} \<and> capacity b' = capacity b"
begin

lemma used_finite: "inv b \<Longrightarrow> finite (used b)"
  using used_bound finite_subset by blast

text \<open>A pool whose used set is a proper subset never reports \<open>ENOSPC\<close>, and the other way round.\<close>

lemma alloc_ENOSPC_iff: "inv b \<Longrightarrow> alloc b = Ret (Inl ENOSPC, b') \<longleftrightarrow> used b = {..<capacity b} \<and> b' = b"
  using alloc_free alloc_full by fastforce

text \<open>A released index makes the next allocation succeed.\<close>

lemma alloc_after_unmark:
  assumes "inv b" "i \<in> used b"
  shows "\<exists>b1 j b2. unmark b i = Ret b1 \<and> alloc b1 = Ret (Inr j, b2) \<and> inv b2 \<and>
           used b2 = insert j (used b - {i}) \<and> j \<notin> used b - {i}"
proof -
  from unmark_used [OF assms] obtain b1 where b1: "unmark b i = Ret b1" "inv b1"
    "used b1 = used b - {i}" "capacity b1 = capacity b" by blast
  have "i \<in> {..<capacity b1} - used b1" using assms used_bound [OF assms(1)] b1 by auto
  then have "used b1 \<noteq> {..<capacity b1}" by blast
  from alloc_free [OF b1(2) this] obtain j b2 where "alloc b1 = Ret (Inr j, b2)" "j \<notin> used b1"
    "inv b2" "used b2 = insert j (used b1)" by blast
  with b1 show ?thesis by simp
qed

text \<open>Repeated allocation hands out pairwise distinct, previously unused indices.\<close>

lemma allocs_distinct:
  "inv b \<Longrightarrow> card (used b) + n \<le> capacity b \<Longrightarrow>
   \<exists>is b'. alloc_times alloc n b = Ret (is, b') \<and> length is = n \<and> distinct is \<and> set is \<inter> used b = {} \<and>
     inv b' \<and> used b' = used b \<union> set is \<and> capacity b' = capacity b"
proof (induction n arbitrary: b)
  case (Suc n)
  have "card (used b) \<noteq> card {..<capacity b}" using Suc.prems(2) by simp
  then have "used b \<noteq> {..<capacity b}" by metis
  from alloc_free [OF Suc.prems(1) this] obtain i b1 where a: "alloc b = Ret (Inr i, b1)"
    "i \<notin> used b" "inv b1" "used b1 = insert i (used b)" "capacity b1 = capacity b" by blast
  have "card (used b1) + n \<le> capacity b1"
    using Suc.prems a used_finite [OF Suc.prems(1)] by simp
  from Suc.IH [OF a(3) this] obtain "is" b' where "alloc_times alloc n b1 = Ret (is, b')" "length is = n"
    "distinct is" "set is \<inter> used b1 = {}" "inv b'" "used b' = used b1 \<union> set is"
    "capacity b' = capacity b1" by blast
  with a have "alloc_times alloc (Suc n) b = Ret (i # is, b') \<and> length (i # is) = Suc n \<and>
    distinct (i # is) \<and> set (i # is) \<inter> used b = {} \<and> inv b' \<and>
    used b' = used b \<union> set (i # is) \<and> capacity b' = capacity b" by simp
  then show ?case by blast
qed simp

end

interpretation kb: index_pool bm_inv bm_nbits bm_used bitmap_alloc bitmap_unmark
proof
  fix b :: kbitmap assume inv: "bm_inv b"
  show "bm_used b \<subseteq> {..<bm_nbits b}" by (auto simp: bm_used_def)
  show "bitmap_alloc b = Ret (Inl ENOSPC, b)" if "bm_used b = {..<bm_nbits b}"
    using bitmap_alloc_spec [OF inv] that by auto
  show "\<exists>i b'. bitmap_alloc b = Ret (Inr i, b') \<and> i < bm_nbits b \<and> i \<notin> bm_used b \<and> bm_inv b' \<and>
      bm_used b' = insert i (bm_used b) \<and> bm_nbits b' = bm_nbits b" if "bm_used b \<noteq> {..<bm_nbits b}"
    using bitmap_alloc_spec [OF inv] bm_mark_spec [OF inv _ refl] that by blast
  fix i assume "i \<in> bm_used b"
  then show "\<exists>b'. bitmap_unmark b i = Ret b' \<and> bm_inv b' \<and> bm_used b' = bm_used b - {i} \<and>
      bm_nbits b' = bm_nbits b"
    using bitmap_unmark_Ret [OF inv] bm_unmark_spec [OF inv _ refl, of i] by (auto simp: bm_used_def)
qed

text \<open>A map of ten bits, eight of them marked, for the examples below.\<close>

definition bm_ten :: kbitmap where
  "bm_ten = \<lparr>bm_nbits = 10, bm_v = [0xff, 0xfc]\<rparr>"

lemma bm_ten_inv: "bm_inv bm_ten"
proof -
  have "bm_bit bm_ten i" if "i < 16" "10 \<le> i" for i
  proof -
    from that have "i \<in> {10, 11, 12, 13, 14, 15}" by auto
    then show ?thesis by (auto simp: bm_bit_def bm_ten_def)
  qed
  then show ?thesis by (simp add: bm_inv_def) (simp add: bm_ten_def)
qed

section \<open>Properties\<close>

text \<open>C18: on a well-formed bit map \<open>bitmap_alloc\<close> marks and returns the least free index, keeping
  every other bit, and fails with \<open>ENOSPC\<close>, changing nothing, only when all the bits are marked;
  none of its assertions fires.\<close>

theorem bitmap_alloc_refines:
  assumes "bm_inv b"
  shows "case bitmap_alloc b of
      Ret (Inr i, b') \<Rightarrow> i < bm_nbits b \<and> i \<notin> bm_used b \<and> (\<forall>j < i. j \<in> bm_used b) \<and> bm_inv b' \<and>
        bm_nbits b' = bm_nbits b \<and> bm_used b' = insert i (bm_used b)
    | Ret (Inl e, b') \<Rightarrow> e = ENOSPC \<and> b' = b \<and> bm_used b = {..<bm_nbits b}
    | _ \<Rightarrow> False"
  using bitmap_alloc_spec [OF assms]
proof (elim disjE exE conjE)
  fix i assume i: "i < bm_nbits b" "i \<notin> bm_used b" "\<forall>j < i. j \<in> bm_used b"
    "bitmap_alloc b = Ret (Inr i, bm_put b (i div 8) (bm_v b ! (i div 8) OR push_bit (i mod 8) 1))"
  from bm_mark_spec [OF assms i(1) refl] i(1-3) show ?thesis unfolding i(4) prod.case sum.case run.case
    by blast
qed simp

theorem bitmap_alloc_refines_witness:
  "bm_inv bm_ten \<and> (\<exists>b'. bitmap_alloc bm_ten = Ret (Inr 8, b') \<and> bm_used b' = insert 8 (bm_used bm_ten))"
proof -
  have "bitmap_alloc bm_ten = Ret (Inr 8, \<lparr>bm_nbits = 10, bm_v = [0xff, 0xfd]\<rparr>)"
    by (simp add: bm_ten_def bitmap_alloc_def bm_words_def BITS_PER_WORD_def WORD_ALLBITS_def
        bm_alloc_from.simps bm_find_offset.simps)
  with bitmap_alloc_refines [OF bm_ten_inv] bm_ten_inv show ?thesis by simp
qed

text \<open>C19: marking a free index and clearing a marked one are inverse, keep the invariant and touch
  no other bit; marking a marked index, clearing a free one, or an index past the end is caught by
  the assertions of \<open>bitmap_mark\<close> and \<open>bitmap_unmark\<close>.\<close>

theorem bitmap_mark_unmark:
  assumes "bm_inv b"
  shows "if i < bm_nbits b \<and> i \<notin> bm_used b
    then \<exists>b' b''. bitmap_mark b i = Ret b' \<and> bm_inv b' \<and> bm_used b' = insert i (bm_used b) \<and>
           bitmap_mark b' i = Panic \<and> bitmap_unmark b' i = Ret b'' \<and> bm_inv b'' \<and>
           bm_used b'' = bm_used b \<and> bitmap_unmark b i = Panic
    else bitmap_mark b i = Panic"
proof (cases "i < bm_nbits b \<and> i \<notin> bm_used b")
  case True
  define b' where "b' = bm_put b (i div 8) (bm_v b ! (i div 8) OR push_bit (i mod 8) 1)"
  note m = bm_mark_spec [OF assms conjunct1 [OF True] b'_def]
  from kb.unmark_used [OF m(1), of i] m(2) True
  obtain b'' where "bitmap_unmark b' i = Ret b''" "bm_inv b''" "bm_used b'' = bm_used b" by auto
  moreover have "bitmap_mark b i = Ret b'" "bitmap_unmark b i = Panic"
    using True by (simp_all add: bitmap_mark_Ret assms bitmap_unmark_Ret b'_def)
  moreover have "bitmap_mark b' i = Panic" using m(2) by (simp add: bitmap_mark_Ret m(1))
  ultimately show ?thesis using True m(1,2) by simp
qed (use bitmap_mark_Ret [OF assms] in auto)

theorem bitmap_mark_unmark_witness:
  "bm_inv bm_ten \<and> bitmap_mark bm_ten 10 = Panic \<and>
   (\<exists>b' b''. bitmap_mark bm_ten 9 = Ret b' \<and> bitmap_unmark b' 9 = Ret b'' \<and> bm_used b'' = bm_used bm_ten)"
proof -
  have "bm_nbits bm_ten = 10" "9 \<notin> bm_used bm_ten" by (auto simp: bm_ten_def bm_used_def bm_bit_def)
  with bitmap_mark_unmark [OF bm_ten_inv, of 10] bitmap_mark_unmark [OF bm_ten_inv, of 9] bm_ten_inv
  show ?thesis by auto
qed



end
