(* ===== verification/DumbVM.thy ===== *)
theory DumbVM
  imports Prelude
begin

unbundle bit_operations_syntax

text \<open>
  Physical memory and address spaces: \<^verbatim>\<open>src/kern/arch/mips/mips/ram.c\<close>,
  \<^verbatim>\<open>dumbvm.c\<close> and the interrupt level of \<^verbatim>\<open>spl.c\<close>.

  Addresses and sizes are \<^typ>\<open>32 word\<close>, so every sum and product wraps as in the code.  The
  machine state \<open>vmstate\<close> holds the interrupt level, the two bounds of the free physical memory,
  the 64 entries of the TLB and the contents of physical memory.  The record is extensible: the
  kernel state of the thread system extends it.

  The lemmas show which frames an address space owns (\<open>as_frames\<close>), that frames handed out by
  \<open>ram_stealmem\<close> are new (as long as the request does not wrap), and that \<open>vm_fault\<close>
  installs translations to frames of the faulting address space only.
\<close>

section \<open>Interrupt level\<close>

type_synonym u32 = "32 word"

record vmstate =
  curspl :: int
  firstpaddr :: u32
  lastpaddr :: u32
  tlb :: "(u32 \<times> u32) list"
  ram :: "u32 \<Rightarrow> 8 word"

definition SPL_HIGH :: int where
  "SPL_HIGH = 15"

definition splx :: "int \<Rightarrow> 's vmstate_scheme \<Rightarrow> int \<times> 's vmstate_scheme" where
  "splx newspl s = (curspl s, s\<lparr>curspl := newspl\<rparr>)"

definition splhigh :: "'s vmstate_scheme \<Rightarrow> int \<times> 's vmstate_scheme" where
  "splhigh s = splx SPL_HIGH s"

definition spl0 :: "'s vmstate_scheme \<Rightarrow> int \<times> 's vmstate_scheme" where
  "spl0 s = splx 0 s"

lemmas spl_defs = splx_def splhigh_def spl0_def SPL_HIGH_def

section \<open>Physical memory\<close>

definition PAGE_SIZE :: u32 where
  "PAGE_SIZE = 4096"

definition PAGE_FRAME :: u32 where
  "PAGE_FRAME = 0xfffff000"

definition MIPS_KSEG0 :: u32 where
  "MIPS_KSEG0 = 0x80000000"

definition ram_bootstrap :: "u32 \<Rightarrow> u32 \<Rightarrow> 's vmstate_scheme \<Rightarrow> 's vmstate_scheme" where
  "ram_bootstrap mips_ramsize firstfree s =
     (let ramsize = (if mips_ramsize > 508 * 1024 * 1024 then 508 * 1024 * 1024 else mips_ramsize)
      in s\<lparr>lastpaddr := ramsize, firstpaddr := firstfree - MIPS_KSEG0\<rparr>)"

definition ram_stealmem :: "u32 \<Rightarrow> 's vmstate_scheme \<Rightarrow> u32 \<times> 's vmstate_scheme" where
  "ram_stealmem npages s =
     (let sz = npages * PAGE_SIZE in
      if firstpaddr s + sz > lastpaddr s then (0, s)
      else (firstpaddr s, s\<lparr>firstpaddr := firstpaddr s + sz\<rparr>))"

definition ram_getsize :: "'s vmstate_scheme \<Rightarrow> (u32 \<times> u32) \<times> 's vmstate_scheme" where
  "ram_getsize s = ((firstpaddr s, lastpaddr s), s\<lparr>firstpaddr := 0, lastpaddr := 0\<rparr>)"

definition getppages :: "u32 \<Rightarrow> 's vmstate_scheme \<Rightarrow> u32 \<times> 's vmstate_scheme" where
  "getppages npages s =
     (let (spl, s) = splhigh s; (addr, s) = ram_stealmem npages s; (_, s) = splx spl s in (addr, s))"

definition alloc_kpages :: "u32 \<Rightarrow> 's vmstate_scheme \<Rightarrow> u32 \<times> 's vmstate_scheme" where
  "alloc_kpages npages s =
     (let (pa, s) = getppages npages s in if pa = 0 then (0, s) else (pa + MIPS_KSEG0, s))"

definition free_kpages :: "u32 \<Rightarrow> 's vmstate_scheme \<Rightarrow> 's vmstate_scheme" where
  "free_kpages addr s = s"

section \<open>Address spaces\<close>

record addrspace =
  as_vbase1 :: u32
  as_pbase1 :: u32
  as_npages1 :: u32
  as_vbase2 :: u32
  as_pbase2 :: u32
  as_npages2 :: u32
  as_stackpbase :: u32

definition DUMBVM_STACKPAGES :: u32 where
  "DUMBVM_STACKPAGES = 12"

definition USERSTACK :: u32 where
  "USERSTACK = MIPS_KSEG0"

definition NUM_TLB :: nat where
  "NUM_TLB = 64"

definition TLBLO_DIRTY :: u32 where
  "TLBLO_DIRTY = 0x400"

definition TLBLO_VALID :: u32 where
  "TLBLO_VALID = 0x200"

definition TLBHI_INVALID :: "nat \<Rightarrow> u32" where
  "TLBHI_INVALID entryno = push_bit 12 (0x80000 + of_nat entryno)"

definition as_create :: "bool \<Rightarrow> addrspace option" where
  "as_create ok = (if ok then Some \<lparr>as_vbase1 = 0, as_pbase1 = 0, as_npages1 = 0,
     as_vbase2 = 0, as_pbase2 = 0, as_npages2 = 0, as_stackpbase = 0\<rparr> else None)"

text \<open>\<^verbatim>\<open>TLB_Write(TLBHI_INVALID(i), TLBLO_INVALID(), i)\<close> for every entry \<open>i\<close>.\<close>

definition as_activate :: "addrspace option \<Rightarrow> 's vmstate_scheme \<Rightarrow> 's vmstate_scheme" where
  "as_activate as s =
     (let (spl, s) = splhigh s;
          s = s\<lparr>tlb := map (\<lambda>i. (TLBHI_INVALID i, 0)) [0..<NUM_TLB] @ drop NUM_TLB (tlb s)\<rparr>;
          (_, s) = splx spl s
      in s)"

definition as_define_region :: "addrspace \<Rightarrow> u32 \<Rightarrow> u32 \<Rightarrow> status \<times> addrspace" where
  "as_define_region as vaddr sz =
     (let sz = sz + (vaddr AND NOT PAGE_FRAME);
          vaddr = vaddr AND PAGE_FRAME;
          sz = (sz + PAGE_SIZE - 1) AND PAGE_FRAME;
          npages = sz div PAGE_SIZE
      in if as_vbase1 as = 0 then (None, as\<lparr>as_vbase1 := vaddr, as_npages1 := npages\<rparr>)
         else if as_vbase2 as = 0 then (None, as\<lparr>as_vbase2 := vaddr, as_npages2 := npages\<rparr>)
         else (Some EUNIMP, as))"

definition as_prepare_load ::
  "addrspace \<Rightarrow> 's vmstate_scheme \<Rightarrow> ((status \<times> addrspace) \<times> 's vmstate_scheme) run" where
  "as_prepare_load as s =
     assertk (as_pbase1 as = 0) (assertk (as_pbase2 as = 0) (assertk (as_stackpbase as = 0)
     (let (p1, s) = getppages (as_npages1 as) s; as = as\<lparr>as_pbase1 := p1\<rparr> in
      if p1 = 0 then Ret ((Some ENOMEM, as), s) else
      let (p2, s) = getppages (as_npages2 as) s; as = as\<lparr>as_pbase2 := p2\<rparr> in
      if p2 = 0 then Ret ((Some ENOMEM, as), s) else
      let (p3, s) = getppages DUMBVM_STACKPAGES s; as = as\<lparr>as_stackpbase := p3\<rparr> in
      if p3 = 0 then Ret ((Some ENOMEM, as), s) else Ret ((None, as), s))))"

definition as_complete_load :: "addrspace \<Rightarrow> status" where
  "as_complete_load as = None"

definition as_define_stack :: "addrspace \<Rightarrow> (status \<times> u32) run" where
  "as_define_stack as = assertk (as_stackpbase as \<noteq> 0) (Ret (None, USERSTACK))"

text \<open>
  \<^verbatim>\<open>memmove\<close> between two blocks of the direct-mapped segment: the kernel address
  \<^verbatim>\<open>PADDR_TO_KVADDR(p)\<close> is physical address \<open>p\<close>.  All of the source is read before the
  destination is written, which is what \<^verbatim>\<open>memmove\<close> guarantees for overlapping blocks.
\<close>

definition ram_move :: "u32 \<Rightarrow> u32 \<Rightarrow> u32 \<Rightarrow> 's vmstate_scheme \<Rightarrow> 's vmstate_scheme" where
  "ram_move dst src len s =
     s\<lparr>ram := (\<lambda>a. if a - dst < len then ram s (src + (a - dst)) else ram s a)\<rparr>"

definition as_copy ::
  "bool \<Rightarrow> addrspace \<Rightarrow> 's vmstate_scheme \<Rightarrow> ((status \<times> addrspace option) \<times> 's vmstate_scheme) run" where
  "as_copy ok old s =
     (case as_create ok of None \<Rightarrow> Ret ((Some ENOMEM, None), s)
      | Some new \<Rightarrow>
        let new = new\<lparr>as_vbase1 := as_vbase1 old, as_npages1 := as_npages1 old,
                      as_vbase2 := as_vbase2 old, as_npages2 := as_npages2 old\<rparr> in
        andthen (as_prepare_load new s) (\<lambda>((st, new), s).
          if st \<noteq> None then Ret ((Some ENOMEM, None), s)
          else assertk (as_pbase1 new \<noteq> 0) (assertk (as_pbase2 new \<noteq> 0) (assertk (as_stackpbase new \<noteq> 0)
            (let s = ram_move (as_pbase1 new) (as_pbase1 old) (as_npages1 old * PAGE_SIZE) s;
                 s = ram_move (as_pbase2 new) (as_pbase2 old) (as_npages2 old * PAGE_SIZE) s;
                 s = ram_move (as_stackpbase new) (as_stackpbase old) (DUMBVM_STACKPAGES * PAGE_SIZE) s
             in Ret ((None, Some new), s))))))"

section \<open>Page faults\<close>

definition VM_FAULT_READ :: int where
  "VM_FAULT_READ = 0"

definition VM_FAULT_WRITE :: int where
  "VM_FAULT_WRITE = 1"

definition VM_FAULT_READONLY :: int where
  "VM_FAULT_READONLY = 2"

text \<open>The loop over the TLB: the first entry whose valid bit is clear is overwritten.\<close>

function vm_fault_fill :: "nat \<Rightarrow> u32 \<Rightarrow> u32 \<Rightarrow> (u32 \<times> u32) list \<Rightarrow> (u32 \<times> u32) list option run" where
  "vm_fault_fill i ehi elo t =
     (if i < NUM_TLB
      then if i < length t
           then if snd (t ! i) AND TLBLO_VALID \<noteq> 0 then vm_fault_fill (i + 1) ehi elo t
                else Ret (Some (t[i := (ehi, elo)]))
           else Fault
      else Ret None)"
  by pat_completeness auto
termination
  by (relation "measure (\<lambda>(i, ehi, elo, t). NUM_TLB - i)") auto

declare vm_fault_fill.simps [simp del]

definition vm_fault_asserts :: "addrspace \<Rightarrow> bool" where
  "vm_fault_asserts as \<longleftrightarrow>
     as_vbase1 as \<noteq> 0 \<and> as_pbase1 as \<noteq> 0 \<and> as_npages1 as \<noteq> 0 \<and>
     as_vbase2 as \<noteq> 0 \<and> as_pbase2 as \<noteq> 0 \<and> as_npages2 as \<noteq> 0 \<and> as_stackpbase as \<noteq> 0 \<and>
     as_vbase1 as AND PAGE_FRAME = as_vbase1 as \<and> as_pbase1 as AND PAGE_FRAME = as_pbase1 as \<and>
     as_vbase2 as AND PAGE_FRAME = as_vbase2 as \<and> as_pbase2 as AND PAGE_FRAME = as_pbase2 as \<and>
     as_stackpbase as AND PAGE_FRAME = as_stackpbase as"

definition vm_fault_paddr :: "addrspace \<Rightarrow> u32 \<Rightarrow> u32 option" where
  "vm_fault_paddr as fa =
     (let vbase1 = as_vbase1 as; vtop1 = vbase1 + as_npages1 as * PAGE_SIZE;
          vbase2 = as_vbase2 as; vtop2 = vbase2 + as_npages2 as * PAGE_SIZE;
          stackbase = USERSTACK - DUMBVM_STACKPAGES * PAGE_SIZE; stacktop = USERSTACK
      in if fa \<ge> vbase1 \<and> fa < vtop1 then Some ((fa - vbase1) + as_pbase1 as)
         else if fa \<ge> vbase2 \<and> fa < vtop2 then Some ((fa - vbase2) + as_pbase2 as)
         else if fa \<ge> stackbase \<and> fa < stacktop then Some ((fa - stackbase) + as_stackpbase as)
         else None)"

text \<open>The argument \<open>as\<close> is \<^verbatim>\<open>curthread->t_vmspace\<close>.\<close>

definition vm_fault ::
  "addrspace option \<Rightarrow> int \<Rightarrow> u32 \<Rightarrow> 's vmstate_scheme \<Rightarrow> (status \<times> 's vmstate_scheme) run" where
  "vm_fault as faulttype faultaddress s =
     (let (spl, s) = splhigh s; fa = faultaddress AND PAGE_FRAME in
      if faulttype = VM_FAULT_READONLY then Panic
      else if faulttype \<noteq> VM_FAULT_READ \<and> faulttype \<noteq> VM_FAULT_WRITE
      then Ret (Some EINVAL, snd (splx spl s))
      else case as of None \<Rightarrow> Ret (Some EFAULT, s)
      | Some as \<Rightarrow>
        assertk (vm_fault_asserts as)
        (case vm_fault_paddr as fa of None \<Rightarrow> Ret (Some EFAULT, snd (splx spl s))
         | Some paddr \<Rightarrow>
           assertk (paddr AND PAGE_FRAME = paddr)
           (andthen (vm_fault_fill 0 fa (paddr OR TLBLO_DIRTY OR TLBLO_VALID) (tlb s))
             (\<lambda>r. case r of Some t \<Rightarrow> Ret (None, snd (splx spl (s\<lparr>tlb := t\<rparr>)))
                  | None \<Rightarrow> Ret (Some EFAULT, snd (splx spl s))))))"


section \<open>Pages and blocks\<close>

lemma PAGE_FRAME_mask: "PAGE_FRAME = NOT (mask 12)"
  by (simp add: PAGE_FRAME_def mask_eq_exp_minus_1)

lemma unat_PAGE_SIZE [simp]: "unat PAGE_SIZE = 4096"
  by (simp add: PAGE_SIZE_def)

lemma page_aligned_iff: "x AND PAGE_FRAME = x \<longleftrightarrow> 4096 dvd unat x" for x :: u32
proof -
  have "x AND PAGE_FRAME = x \<longleftrightarrow> take_bit 12 x = 0"
    unfolding PAGE_FRAME_mask by (auto simp: bit_eq_iff bit_simps)
  also have "\<dots> \<longleftrightarrow> unat (take_bit 12 x) = 0" by (simp add: unat_eq_0)
  also have "\<dots> \<longleftrightarrow> 4096 dvd unat x" by (simp add: take_bit_eq_mod unat_mod dvd_eq_mod_eq_0)
  finally show ?thesis .
qed

lemma page_frame_idem: "(x AND PAGE_FRAME) AND PAGE_FRAME = x AND PAGE_FRAME" for x :: u32
  by (simp add: and.assoc)

text \<open>The block of \<open>n\<close> bytes at \<open>p\<close>, with the wrap-around of the address arithmetic.\<close>

definition block :: "u32 \<Rightarrow> u32 \<Rightarrow> u32 set" where
  "block p n = {a. a - p < n}"

lemma mem_block_iff:
  assumes "unat p + unat n < 2 ^ 32"
  shows "a \<in> block p n \<longleftrightarrow> p \<le> a \<and> a < p + n"
proof -
  have pn: "unat (p + n) = unat p + unat n" using assms by (simp add: unat_word_ariths)
  show ?thesis
  proof (cases "p \<le> a")
    case True
    then have "unat (a - p) = unat a - unat p" by (simp add: unat_sub)
    with True pn show ?thesis by (auto simp: block_def word_less_nat_alt word_le_nat_alt)
  next
    case False
    then have "unat (a - p) = 2 ^ 32 + unat a - unat p"
      using unat_sub_if' [of a p] by (simp add: word_le_nat_alt)
    with False assms show ?thesis by (auto simp: block_def word_less_nat_alt word_le_nat_alt)
  qed
qed

definition page_bytes :: "u32 \<Rightarrow> u32" where
  "page_bytes npages = npages * PAGE_SIZE"

lemma unat_page_bytes: "unat npages < 2 ^ 19 \<Longrightarrow> unat (page_bytes npages) = unat npages * 4096"
  by (simp add: page_bytes_def unat_word_ariths)

lemma page_bytes_dvd: "4096 dvd unat (page_bytes npages)"
proof -
  have "unat (page_bytes npages) = (unat npages * 4096) mod (4096 * 2 ^ 20)"
    by (simp add: page_bytes_def unat_word_ariths)
  then show ?thesis by (metis dvd_mod dvd_triv_left dvd_triv_right)
qed

definition as_frames :: "addrspace \<Rightarrow> u32 set" where
  "as_frames as = block (as_pbase1 as) (page_bytes (as_npages1 as)) \<union>
     block (as_pbase2 as) (page_bytes (as_npages2 as)) \<union>
     block (as_stackpbase as) (page_bytes DUMBVM_STACKPAGES)"

section \<open>Physical memory is handed out once\<close>

text \<open>The free memory: page aligned, not starting at address 0, below 508 megabytes.\<close>

definition ram_ok :: "'s vmstate_scheme \<Rightarrow> bool" where
  "ram_ok s \<longleftrightarrow> firstpaddr s \<noteq> 0 \<and> 4096 dvd unat (firstpaddr s) \<and>
     firstpaddr s \<le> lastpaddr s \<and> unat (lastpaddr s) \<le> 508 * 1024 * 1024"

lemma ram_stealmem_spec:
  assumes ok: "ram_ok s" and n: "unat npages < 2 ^ 19"
  shows "(if unat (firstpaddr s) + unat npages * 4096 \<le> unat (lastpaddr s)
     then \<exists>q. ram_stealmem npages s = (firstpaddr s, s\<lparr>firstpaddr := q\<rparr>) \<and>
        unat q = unat (firstpaddr s) + unat npages * 4096 \<and> ram_ok (s\<lparr>firstpaddr := q\<rparr>) \<and>
        block (firstpaddr s) (page_bytes npages) = {firstpaddr s..<q}
     else ram_stealmem npages s = (0, s))"
proof -
  let ?q = "firstpaddr s + npages * PAGE_SIZE"
  have f: "unat (firstpaddr s) \<le> 508 * 1024 * 1024" using ok by (auto simp: ram_ok_def word_le_nat_alt)
  have sz: "unat (npages * PAGE_SIZE) = unat npages * 4096"
    using unat_page_bytes [OF n] by (simp add: page_bytes_def)
  have q: "unat ?q = unat (firstpaddr s) + unat npages * 4096"
    using f n sz by (simp add: unat_word_ariths(1))
  have "block (firstpaddr s) (page_bytes npages) = {firstpaddr s..<?q}"
    using f n sz by (auto simp: mem_block_iff page_bytes_def)
  moreover have "ram_ok (s\<lparr>firstpaddr := ?q\<rparr>)" if "unat ?q \<le> unat (lastpaddr s)"
  proof -
    have "0 < unat (firstpaddr s)" using ok by (simp add: ram_ok_def unat_gt_0)
    then have "?q \<noteq> 0" using q by (metis add_gr_0 unat_0 less_numeral_extra(3))
    with that ok q show ?thesis by (simp add: ram_ok_def word_le_nat_alt)
  qed
  ultimately show ?thesis
    using q by (auto simp: ram_stealmem_def Let_def word_less_nat_alt intro: exI [of _ ?q])
qed

lemma getppages_eq: "getppages npages s = ram_stealmem npages s"
  by (cases s) (simp add: getppages_def spl_defs ram_stealmem_def Let_def)


lemma getppages_spec:
  assumes "ram_ok s" "unat npages < 2 ^ 19"
  obtains (fail) "getppages npages s = (0, s)" "unat (lastpaddr s) < unat (firstpaddr s) + unat npages * 4096"
  | (ok) q where "getppages npages s = (firstpaddr s, s\<lparr>firstpaddr := q\<rparr>)"
      "unat q = unat (firstpaddr s) + unat npages * 4096" "ram_ok (s\<lparr>firstpaddr := q\<rparr>)"
      "block (firstpaddr s) (page_bytes npages) = {firstpaddr s..<q}" "firstpaddr s \<noteq> 0"
      "firstpaddr s \<le> q"
proof -
  have nz: "firstpaddr s \<noteq> 0" using assms(1) by (simp add: ram_ok_def)
  from ram_stealmem_spec [OF assms] that nz show thesis
    unfolding getppages_eq by (auto split: if_splits simp: word_le_nat_alt)
qed

text \<open>An address space whose three blocks are page aligned and laid out one after the other.\<close>

definition as_laid_out :: "u32 \<Rightarrow> u32 \<Rightarrow> addrspace \<Rightarrow> bool" where
  "as_laid_out lo hi as \<longleftrightarrow> (\<exists>m1 m2. lo \<le> m1 \<and> m1 \<le> m2 \<and> m2 \<le> hi \<and>
     as_pbase1 as = lo \<and> as_pbase2 as = m1 \<and> as_stackpbase as = m2 \<and>
     lo \<noteq> 0 \<and> m1 \<noteq> 0 \<and> m2 \<noteq> 0 \<and>
     4096 dvd unat lo \<and> 4096 dvd unat m1 \<and> 4096 dvd unat m2 \<and>
     block lo (page_bytes (as_npages1 as)) = {lo..<m1} \<and>
     block m1 (page_bytes (as_npages2 as)) = {m1..<m2} \<and>
     block m2 (page_bytes DUMBVM_STACKPAGES) = {m2..<hi})"

lemma as_laid_out_frames: "as_laid_out lo hi as \<Longrightarrow> as_frames as = {lo..<hi}"
  by (auto simp: as_laid_out_def as_frames_def)

definition as_unloaded :: "addrspace \<Rightarrow> bool" where
  "as_unloaded as \<longleftrightarrow> as_pbase1 as = 0 \<and> as_pbase2 as = 0 \<and> as_stackpbase as = 0 \<and>
     unat (as_npages1 as) < 2 ^ 19 \<and> unat (as_npages2 as) < 2 ^ 19"

lemma as_prepare_load_spec:
  assumes rok: "ram_ok s" and as: "as_unloaded as"
  obtains (ok) as' q where "as_prepare_load as s = Ret ((None, as'), s\<lparr>firstpaddr := q\<rparr>)"
      "ram_ok (s\<lparr>firstpaddr := q\<rparr>)" "as_laid_out (firstpaddr s) q as'" "firstpaddr s \<le> q"
      "as' = as\<lparr>as_pbase1 := as_pbase1 as', as_pbase2 := as_pbase2 as', as_stackpbase := as_stackpbase as'\<rparr>"
  | (fail) as' q where "as_prepare_load as s = Ret ((Some ENOMEM, as'), s\<lparr>firstpaddr := q\<rparr>)"
      "ram_ok (s\<lparr>firstpaddr := q\<rparr>)" "firstpaddr s \<le> q"
      "unat (lastpaddr s) < unat (firstpaddr s) + (unat (as_npages1 as) + unat (as_npages2 as) + 12) * 4096"
proof -
  let ?n1 = "as_npages1 as" and ?n2 = "as_npages2 as"
  have n: "unat ?n1 < 2 ^ 19" "unat ?n2 < 2 ^ 19" "unat DUMBVM_STACKPAGES < 2 ^ 19"
    using as by (simp_all add: as_unloaded_def DUMBVM_STACKPAGES_def)
  note z = as [unfolded as_unloaded_def]
  have al: "4096 dvd unat (firstpaddr s)" "firstpaddr s \<noteq> 0" using rok by (simp_all add: ram_ok_def)
  from rok n(1) show thesis
  proof (cases rule: getppages_spec)
    case p1: fail
    with z rok show ?thesis by (intro fail [of _ "firstpaddr s"]) (simp_all add: as_prepare_load_def)
  next
    case p1: (ok q1)
    from p1(3) n(2) show ?thesis
    proof (cases rule: getppages_spec)
      case p2: fail
      with z p1 show ?thesis by (intro fail [of _ q1]) (simp_all add: as_prepare_load_def)
    next
      case p2: (ok q2)
      from p2(3) n(3) show ?thesis
      proof (cases rule: getppages_spec)
        case p3: fail
        with z p1 p2 show ?thesis
          by (intro fail [of _ q2]) (simp_all add: as_prepare_load_def DUMBVM_STACKPAGES_def)
      next
        case p3: (ok q3)
        let ?as = "as\<lparr>as_pbase1 := firstpaddr s, as_pbase2 := q1, as_stackpbase := q2\<rparr>"
        have "as_laid_out (firstpaddr s) q3 ?as"
          unfolding as_laid_out_def using p1 p2 p3 al
          by (intro exI [of _ q1] exI [of _ q2]) (simp add: ram_ok_def)
        moreover have "as_prepare_load as s = Ret ((None, ?as), s\<lparr>firstpaddr := q3\<rparr>)"
          using z p1 p2 p3 by (simp add: as_prepare_load_def)
        ultimately show ?thesis using p1 p2 p3 by (intro ok [of ?as q3]) simp_all
      qed
    qed
  qed
qed

section \<open>Copying an address space\<close>

lemma ram_move_other: "a \<notin> block dst len \<Longrightarrow> ram (ram_move dst src len s) a = ram s a"
  by (simp add: ram_move_def block_def)

lemma ram_move_block: "i < len \<Longrightarrow> ram (ram_move dst src len s) (dst + i) = ram s (src + i)"
  by (simp add: ram_move_def)

lemma ram_move_simps [simp]:
  "curspl (ram_move dst src len s) = curspl s" "firstpaddr (ram_move dst src len s) = firstpaddr s"
  "lastpaddr (ram_move dst src len s) = lastpaddr s" "tlb (ram_move dst src len s) = tlb s"
  "ram_ok (ram_move dst src len s) = ram_ok s"
  by (simp_all add: ram_move_def ram_ok_def)

lemma add_in_block: "i < n \<Longrightarrow> p + i \<in> block p n" for i :: u32
  by (simp add: block_def)

text \<open>The old address space lies in memory already handed out.\<close>

definition as_owned :: "'s vmstate_scheme \<Rightarrow> addrspace \<Rightarrow> bool" where
  "as_owned s as \<longleftrightarrow> as_frames as \<subseteq> {..<firstpaddr s} \<and>
     unat (as_npages1 as) < 2 ^ 19 \<and> unat (as_npages2 as) < 2 ^ 19"

lemma ram_moves_copied:
  assumes lay: "as_laid_out lo hi new"
    and np: "as_npages1 new = as_npages1 old" "as_npages2 new = as_npages2 old"
    and old: "as_frames old \<subseteq> {..<lo}"
    and s': "s' = ram_move (as_stackpbase new) (as_stackpbase old) (DUMBVM_STACKPAGES * PAGE_SIZE)
      (ram_move (as_pbase2 new) (as_pbase2 old) (as_npages2 old * PAGE_SIZE)
        (ram_move (as_pbase1 new) (as_pbase1 old) (as_npages1 old * PAGE_SIZE) s))"
  shows "\<forall>a < lo. ram s' a = ram s a"
    and "\<forall>i < page_bytes (as_npages1 old). ram s' (as_pbase1 new + i) = ram s (as_pbase1 old + i)"
    and "\<forall>i < page_bytes (as_npages2 old). ram s' (as_pbase2 new + i) = ram s (as_pbase2 old + i)"
    and "\<forall>i < page_bytes DUMBVM_STACKPAGES. ram s' (as_stackpbase new + i) = ram s (as_stackpbase old + i)"
proof -
  from lay obtain m1 m2 where m: "lo \<le> m1" "m1 \<le> m2" "m2 \<le> hi"
    "as_pbase1 new = lo" "as_pbase2 new = m1" "as_stackpbase new = m2"
    "block lo (page_bytes (as_npages1 old)) = {lo..<m1}"
    "block m1 (page_bytes (as_npages2 old)) = {m1..<m2}"
    "block m2 (page_bytes DUMBVM_STACKPAGES) = {m2..<hi}"
    unfolding as_laid_out_def np by blast
  define s1 where "s1 = ram_move lo (as_pbase1 old) (page_bytes (as_npages1 old)) s"
  define s2 where "s2 = ram_move m1 (as_pbase2 old) (page_bytes (as_npages2 old)) s1"
  have s'2: "s' = ram_move m2 (as_stackpbase old) (page_bytes DUMBVM_STACKPAGES) s2"
    unfolding s' s2_def s1_def m(4-6) page_bytes_def ..
  have o1: "ram s1 a = ram s a" if "a \<notin> {lo..<m1}" for a
    using that m unfolding s1_def by (simp add: ram_move_other)
  have o2: "ram s2 a = ram s1 a" if "a \<notin> {m1..<m2}" for a
    using that m unfolding s2_def by (simp add: ram_move_other)
  have o3: "ram s' a = ram s2 a" if "a \<notin> {m2..<hi}" for a
    using that m unfolding s'2 by (simp add: ram_move_other)
  have "ram s' a = ram s a" if "a < lo" for a
  proof -
    have "a \<notin> {lo..<m1}" "a \<notin> {m1..<m2}" "a \<notin> {m2..<hi}" using that m(1-3) by auto
    then show ?thesis using o1 o2 o3 by simp
  qed
  then show low: "\<forall>a < lo. ram s' a = ram s a" by blast
  have src: "as_pbase1 old + i < lo" if "i < page_bytes (as_npages1 old)" for i
    using that old add_in_block unfolding as_frames_def by blast
  show "\<forall>i < page_bytes (as_npages1 old). ram s' (as_pbase1 new + i) = ram s (as_pbase1 old + i)"
  proof (intro allI impI)
    fix i assume i: "i < page_bytes (as_npages1 old)"
    with m(7) add_in_block have "lo + i \<in> {lo..<m1}" by blast
    then have "lo + i \<notin> {m1..<m2}" "lo + i \<notin> {m2..<hi}" using m(1-3) by auto
    with m(4) i show "ram s' (as_pbase1 new + i) = ram s (as_pbase1 old + i)"
      using o2 [of "lo + i"] o3 [of "lo + i"] by (simp add: s1_def ram_move_block)
  qed
  show "\<forall>i < page_bytes (as_npages2 old). ram s' (as_pbase2 new + i) = ram s (as_pbase2 old + i)"
  proof (intro allI impI)
    fix i assume i: "i < page_bytes (as_npages2 old)"
    with m(8) add_in_block have "m1 + i \<in> {m1..<m2}" by blast
    then have "m1 + i \<notin> {m2..<hi}" by auto
    moreover have "as_pbase2 old + i < lo" using i old add_in_block unfolding as_frames_def by blast
    then have "as_pbase2 old + i \<notin> {lo..<m1}" by auto
    ultimately show "ram s' (as_pbase2 new + i) = ram s (as_pbase2 old + i)"
      using m(5) i o3 [of "m1 + i"] o1 [of "as_pbase2 old + i"]
      by (simp add: s2_def ram_move_block)
  qed
  show "\<forall>i < page_bytes DUMBVM_STACKPAGES. ram s' (as_stackpbase new + i) = ram s (as_stackpbase old + i)"
  proof (intro allI impI)
    fix i assume i: "i < page_bytes DUMBVM_STACKPAGES"
    then have "as_stackpbase old + i < lo" using old add_in_block unfolding as_frames_def by blast
    then have "as_stackpbase old + i \<notin> {lo..<m1}" "as_stackpbase old + i \<notin> {m1..<m2}"
      using m(1) by auto
    with i show "ram s' (as_stackpbase new + i) = ram s (as_stackpbase old + i)"
      using m(6) o1 [of "as_stackpbase old + i"] o2 [of "as_stackpbase old + i"]
      by (simp add: s'2 ram_move_block)
  qed
qed


section \<open>Translations\<close>

lemma vm_fault_fill_spec:
  assumes "length t = NUM_TLB" "i \<le> NUM_TLB"
  shows "(\<exists>j. i \<le> j \<and> j < NUM_TLB \<and> snd (t ! j) AND TLBLO_VALID = 0 \<and>
            vm_fault_fill i ehi elo t = Ret (Some (t[j := (ehi, elo)]))) \<or>
         (\<forall>j. i \<le> j \<and> j < NUM_TLB \<longrightarrow> snd (t ! j) AND TLBLO_VALID \<noteq> 0) \<and>
            vm_fault_fill i ehi elo t = Ret None"
  using assms
proof (induction i ehi elo t rule: vm_fault_fill.induct)
  case (1 i ehi elo t)
  show ?case
  proof (cases "i < NUM_TLB \<and> snd (t ! i) AND TLBLO_VALID \<noteq> 0")
    case True
    then have step: "vm_fault_fill i ehi elo t = vm_fault_fill (i + 1) ehi elo t"
      using 1(2) by (subst vm_fault_fill.simps) simp
    have up: "\<forall>j. i \<le> j \<and> j < NUM_TLB \<longrightarrow> P j" if "\<forall>j. i + 1 \<le> j \<and> j < NUM_TLB \<longrightarrow> P j" "P i" for P
      using that by (metis Suc_eq_plus1 le_neq_implies_less less_eq_Suc_le)
    from 1 True have "i < NUM_TLB" "i < length t" "snd (t ! i) AND TLBLO_VALID \<noteq> 0" "i + 1 \<le> NUM_TLB"
      by auto
    from 1(1) [OF this(1-3) 1(2) this(4)] show ?thesis
    proof (elim disjE exE conjE)
      fix j assume "i + 1 \<le> j" "j < NUM_TLB" "snd (t ! j) AND TLBLO_VALID = 0"
        "vm_fault_fill (i + 1) ehi elo t = Ret (Some (t[j := (ehi, elo)]))"
      then show ?thesis unfolding step by (intro disjI1 exI [of _ j]) simp
    next
      assume "\<forall>j. i + 1 \<le> j \<and> j < NUM_TLB \<longrightarrow> snd (t ! j) AND TLBLO_VALID \<noteq> 0"
        and none: "vm_fault_fill (i + 1) ehi elo t = Ret None"
      from up [OF this(1) conjunct2 [OF True]] none show ?thesis unfolding step by blast
    qed
  next
    case False
    with 1(2,3) show ?thesis by (subst (1 2) vm_fault_fill.simps) auto
  qed
qed

lemma unat_less_32: "unat x < 2 ^ 32" for x :: u32
  using unsigned_less [of x] by simp

lemma aligned_offset:
  fixes fa vb sz :: u32
  assumes "4096 dvd unat fa" "4096 dvd unat vb" "4096 dvd unat sz" "vb \<le> fa" "fa < vb + sz" "vb \<le> vb + sz"
    and off: "unat off < 4096"
  shows "fa - vb + off < sz"
proof -
  have d: "unat (fa - vb) = unat fa - unat vb" using assms(4) by (simp add: unat_sub)
  have "unat (vb + sz) = unat vb + unat sz" using assms(6) by (simp only: unat_plus_simple)
  then have "unat (fa - vb) < unat sz"
    using assms(4,5) d by (auto simp: word_less_nat_alt word_le_nat_alt)
  moreover have "4096 dvd unat (fa - vb)" using d assms(1,2) by (simp add: dvd_diff_nat)
  ultimately have lt: "unat (fa - vb) + unat off < unat sz"
    using assms(3) off by (auto elim!: dvdE)
  then have "unat (fa - vb + off) = unat (fa - vb) + unat off"
    using unat_less_32 [of sz] by (simp add: unat_word_ariths)
  with lt show ?thesis by (simp add: word_less_nat_alt)
qed


lemma aligned_add: "4096 dvd unat a \<Longrightarrow> 4096 dvd unat b \<Longrightarrow> 4096 dvd unat (a + b)" for a b :: u32
  by (simp add: unat_word_ariths dvd_mod)

lemma vm_fault_paddr_owned:
  assumes as: "vm_fault_asserts as" and fa: "4096 dvd unat fa" and pa: "vm_fault_paddr as fa = Some pa"
  shows "4096 dvd unat pa" and "unat off < 4096 \<Longrightarrow> pa + off \<in> as_frames as"
proof -
  have al: "4096 dvd unat (as_vbase1 as)" "4096 dvd unat (as_pbase1 as)" "4096 dvd unat (as_vbase2 as)"
    "4096 dvd unat (as_pbase2 as)" "4096 dvd unat (as_stackpbase as)"
    "4096 dvd unat (USERSTACK - DUMBVM_STACKPAGES * PAGE_SIZE)"
    using as by (simp_all add: vm_fault_asserts_def page_aligned_iff USERSTACK_def MIPS_KSEG0_def
        DUMBVM_STACKPAGES_def PAGE_SIZE_def)
  let ?sb = "USERSTACK - DUMBVM_STACKPAGES * PAGE_SIZE"
  have top: "USERSTACK = ?sb + page_bytes DUMBVM_STACKPAGES"
    by (simp add: page_bytes_def)
  obtain vb pb n where v: "pa = fa - vb + pb" "vb \<le> fa" "fa < vb + page_bytes n"
    "4096 dvd unat vb" "4096 dvd unat pb" "block pb (page_bytes n) \<subseteq> as_frames as"
  proof -
    have "pa = fa - as_vbase1 as + as_pbase1 as \<and> as_vbase1 as \<le> fa \<and> fa < as_vbase1 as + page_bytes (as_npages1 as) \<or>
      pa = fa - as_vbase2 as + as_pbase2 as \<and> as_vbase2 as \<le> fa \<and> fa < as_vbase2 as + page_bytes (as_npages2 as) \<or>
      pa = fa - ?sb + as_stackpbase as \<and> ?sb \<le> fa \<and> fa < ?sb + page_bytes DUMBVM_STACKPAGES"
      using pa unfolding top [symmetric]
      by (auto simp: vm_fault_paddr_def Let_def page_bytes_def split: if_splits)
    then show thesis using that al unfolding as_frames_def by blast
  qed
  have "unat (fa - vb) = unat fa - unat vb" using v(2) by (simp add: unat_sub)
  then show "4096 dvd unat pa" using v(1,4,5) fa by (simp add: aligned_add dvd_diff_nat)
  assume off: "unat off < 4096"
  have "fa - vb + off < page_bytes n"
    using aligned_offset [OF fa v(4) page_bytes_dvd v(2,3) _ off] v(2,3) by simp
  then have "pa + off \<in> block pb (page_bytes n)" by (simp add: block_def v(1) algebra_simps)
  with v(6) show "pa + off \<in> as_frames as" by blast
qed

text \<open>A machine with a megabyte of memory and a process of two text pages and one data page.\<close>

definition vm_example :: vmstate where
  "vm_example = \<lparr>curspl = 0, firstpaddr = 0x50000, lastpaddr = 0x100000,
     tlb = replicate NUM_TLB (0, 0), ram = (\<lambda>a. ucast a)\<rparr>"

definition as_example :: addrspace where
  "as_example = \<lparr>as_vbase1 = 0x400000, as_pbase1 = 0x40000, as_npages1 = 2,
     as_vbase2 = 0x10000000, as_pbase2 = 0x42000, as_npages2 = 1, as_stackpbase = 0x43000\<rparr>"

lemma vm_example_ok: "ram_ok vm_example" "length (tlb vm_example) = NUM_TLB"
  by (simp_all add: vm_example_def ram_ok_def)

lemma as_example_asserts: "vm_fault_asserts as_example"
  by (simp add: vm_fault_asserts_def as_example_def PAGE_FRAME_def)

lemma as_example_owned: "as_owned vm_example as_example"
  by (auto simp: as_owned_def as_frames_def as_example_def vm_example_def mem_block_iff page_bytes_def
      DUMBVM_STACKPAGES_def PAGE_SIZE_def word_less_nat_alt)

section \<open>Properties\<close>




text \<open>C22: \<open>as_prepare_load\<close> gives a new address space (of less than \<open>2\<^sup>1\<^sup>9\<close> pages per region)
  physical memory nobody had: on success its frames are exactly the addresses between the old and the
  new mark of free memory, the three blocks are page aligned, non-null and disjoint, and the contents of
  memory are untouched; on failure the answer is \<open>ENOMEM\<close>, and only because memory is short.\<close>

theorem as_prepare_load_fresh:
  assumes "ram_ok s" "as_unloaded as"
  shows "\<exists>st as' q. as_prepare_load as s = Ret ((st, as'), s\<lparr>firstpaddr := q\<rparr>) \<and>
     ram_ok (s\<lparr>firstpaddr := q\<rparr>) \<and> firstpaddr s \<le> q \<and>
     (case st of
        None \<Rightarrow> as_laid_out (firstpaddr s) q as' \<and> as_frames as' = {firstpaddr s..<q} \<and>
          as_vbase1 as' = as_vbase1 as \<and> as_vbase2 as' = as_vbase2 as \<and>
          as_npages1 as' = as_npages1 as \<and> as_npages2 as' = as_npages2 as
      | Some e \<Rightarrow> e = ENOMEM \<and> unat (lastpaddr s) <
          unat (firstpaddr s) + (unat (as_npages1 as) + unat (as_npages2 as) + 12) * 4096)"
  using assms
proof (cases rule: as_prepare_load_spec)
  case (ok as' q)
  have "as_vbase1 as' = as_vbase1 as" "as_vbase2 as' = as_vbase2 as" "as_npages1 as' = as_npages1 as"
    "as_npages2 as' = as_npages2 as" by (subst ok(5), simp)+
  with ok as_laid_out_frames [OF ok(3)] show ?thesis by (intro exI [of _ None] exI [of _ as'] exI [of _ q]) simp
next
  case (fail as' q)
  then show ?thesis by (intro exI [of _ "Some ENOMEM"] exI [of _ as'] exI [of _ q]) simp
qed

theorem as_prepare_load_fresh_witness:
  "as_unloaded (as_example\<lparr>as_pbase1 := 0, as_pbase2 := 0, as_stackpbase := 0\<rparr>) \<and>
   (\<exists>as' q. as_prepare_load (as_example\<lparr>as_pbase1 := 0, as_pbase2 := 0, as_stackpbase := 0\<rparr>) vm_example =
     Ret ((None, as'), vm_example\<lparr>firstpaddr := q\<rparr>) \<and> as_frames as' = {0x50000..<q})"
proof -
  let ?as = "as_example\<lparr>as_pbase1 := 0, as_pbase2 := 0, as_stackpbase := 0\<rparr>"
  have un: "as_unloaded ?as" by (simp add: as_unloaded_def as_example_def)
  have "unat (firstpaddr vm_example) + (unat (as_npages1 ?as) + unat (as_npages2 ?as) + 12) * 4096 \<le>
    unat (lastpaddr vm_example)" "firstpaddr vm_example = 0x50000"
    by (simp_all add: vm_example_def as_example_def)
  with as_prepare_load_fresh [OF vm_example_ok(1) un] un show ?thesis by (auto split: option.splits)
qed

text \<open>C23: \<open>as_copy\<close> of an address space that owns its frames either reports \<open>ENOMEM\<close> or
  produces an address space with the same regions in fresh frames, whose three blocks hold byte for byte
  what the three blocks of the old one hold; no byte of the memory in use before the call changes, so the
  parent of a fork keeps its memory and shares none with the child.\<close>

theorem as_copy_copies:
  assumes "ram_ok s" "as_owned s old"
  shows "\<exists>st new s'. as_copy ok old s = Ret ((st, new), s') \<and> ram_ok s' \<and>
     (\<forall>a < firstpaddr s. ram s' a = ram s a) \<and> curspl s' = curspl s \<and> tlb s' = tlb s \<and>
     (case st of
        Some e \<Rightarrow> e = ENOMEM \<and> new = None
      | None \<Rightarrow> \<exists>n. new = Some n \<and> as_owned s' n \<and> as_frames n \<inter> as_frames old = {} \<and>
          as_vbase1 n = as_vbase1 old \<and> as_npages1 n = as_npages1 old \<and>
          as_vbase2 n = as_vbase2 old \<and> as_npages2 n = as_npages2 old \<and>
          (\<forall>i < page_bytes (as_npages1 old). ram s' (as_pbase1 n + i) = ram s (as_pbase1 old + i)) \<and>
          (\<forall>i < page_bytes (as_npages2 old). ram s' (as_pbase2 n + i) = ram s (as_pbase2 old + i)) \<and>
          (\<forall>i < page_bytes DUMBVM_STACKPAGES. ram s' (as_stackpbase n + i) = ram s (as_stackpbase old + i)))"
proof (cases ok)
  case False
  with assms show ?thesis by (simp add: as_copy_def as_create_def)
next
  case True
  define n0 where "n0 = \<lparr>as_vbase1 = as_vbase1 old, as_pbase1 = 0, as_npages1 = as_npages1 old,
     as_vbase2 = as_vbase2 old, as_pbase2 = 0, as_npages2 = as_npages2 old, as_stackpbase = 0\<rparr>"
  have un: "as_unloaded n0" using assms(2) by (simp add: as_unloaded_def n0_def as_owned_def)
  have copy: "as_copy ok old s = andthen (as_prepare_load n0 s) (\<lambda>((st, new), s).
          if st \<noteq> None then Ret ((Some ENOMEM, None), s)
          else assertk (as_pbase1 new \<noteq> 0) (assertk (as_pbase2 new \<noteq> 0) (assertk (as_stackpbase new \<noteq> 0)
            (Ret ((None, Some new),
              ram_move (as_stackpbase new) (as_stackpbase old) (DUMBVM_STACKPAGES * PAGE_SIZE)
               (ram_move (as_pbase2 new) (as_pbase2 old) (as_npages2 old * PAGE_SIZE)
                 (ram_move (as_pbase1 new) (as_pbase1 old) (as_npages1 old * PAGE_SIZE) s)))))))"
    using True unfolding as_copy_def as_create_def n0_def Let_def by simp
  from assms(1) un show ?thesis
  proof (cases rule: as_prepare_load_spec)
    case (fail as' q)
    then show ?thesis by (simp add: copy)
  next
    case (ok n q)
    have n: "as_vbase1 n = as_vbase1 old" "as_vbase2 n = as_vbase2 old" "as_npages1 n = as_npages1 old"
      "as_npages2 n = as_npages2 old" by (subst ok(5), simp add: n0_def)+
    have fr: "as_frames old \<subseteq> {..<firstpaddr s}" using assms(2) by (simp add: as_owned_def)
    note fn = as_laid_out_frames [OF ok(3)]
    define s' where "s' = ram_move (as_stackpbase n) (as_stackpbase old) (DUMBVM_STACKPAGES * PAGE_SIZE)
      (ram_move (as_pbase2 n) (as_pbase2 old) (as_npages2 old * PAGE_SIZE)
        (ram_move (as_pbase1 n) (as_pbase1 old) (as_npages1 old * PAGE_SIZE) (s\<lparr>firstpaddr := q\<rparr>)))"
    note mv = ram_moves_copied [OF ok(3) n(3,4) fr s'_def]
    have "as_copy ok old s = Ret ((None, Some n), s')"
      using ok(1,3) by (auto simp: copy as_laid_out_def s'_def)
    moreover have "as_owned s' n" using fn assms(2) n by (auto simp: as_owned_def s'_def)
    moreover have "as_frames n \<inter> as_frames old = {}" using fn fr by fastforce
    moreover have "ram_ok s'" "curspl s' = curspl s" "tlb s' = tlb s" using ok(2) by (simp_all add: s'_def)
    ultimately show ?thesis using n mv
      by (intro exI [of _ None] exI [of _ "Some n"] exI [of _ s']) simp
  qed
qed

theorem as_copy_copies_witness:
  "\<exists>st new s'. as_copy True as_example vm_example = Ret ((st, new), s') \<and>
     (\<forall>a < 0x50000. ram s' a = ram vm_example a)"
  using as_copy_copies [OF vm_example_ok(1) as_example_owned, of True] by (auto simp: vm_example_def)

text \<open>C24: the size computation of \<open>ram_stealmem\<close> wraps: a request for \<open>0xfffff\<close> pages, almost
  four gigabytes, is granted, and moves the mark of free memory one page down, so that the page below it,
  already in use, is handed out again by the next request.\<close>

theorem ram_stealmem_wraps:
  assumes "ram_ok s"
  shows "ram_stealmem 0xfffff s = (firstpaddr s, s\<lparr>firstpaddr := firstpaddr s - 0x1000\<rparr>)"
proof -
  have "0 < unat (firstpaddr s)" "4096 dvd unat (firstpaddr s)" using assms by (simp_all add: ram_ok_def unat_gt_0)
  then have "4096 \<le> unat (firstpaddr s)" by (rule dvd_imp_le [rotated])
  then have "0x1000 \<le> firstpaddr s" by (simp add: word_le_nat_alt)
  then have "unat (firstpaddr s - 0x1000) = unat (firstpaddr s) - 4096" by (simp add: unat_sub)
  then have "\<not> lastpaddr s < firstpaddr s - 0x1000"
    using assms by (auto simp: ram_ok_def word_less_nat_alt word_le_nat_alt)
  moreover have "firstpaddr s + 0xfffff * PAGE_SIZE = firstpaddr s - 0x1000"
    unfolding PAGE_SIZE_def diff_conv_add_uminus by simp
  ultimately show ?thesis by (simp add: ram_stealmem_def Let_def)
qed

theorem ram_stealmem_wraps_witness:
  "ram_stealmem 0xfffff vm_example = (0x50000, vm_example\<lparr>firstpaddr := 0x4f000\<rparr>)"
  using ram_stealmem_wraps [OF vm_example_ok(1)] by (simp add: vm_example_def)

end
