(* ===== verification/UserMem.thy ===== *)
theory UserMem
  imports DumbVM
begin

unbundle bit_operations_syntax

text \<open>
  Copies between user and kernel memory: \<^verbatim>\<open>src/kern/lib/copyinout.c\<close>.

  The processor's access to a user address goes through the TLB; a miss traps to
  \<^verbatim>\<open>vm_fault\<close>, and a fault that \<^verbatim>\<open>vm_fault\<close> cannot handle makes
  \<^verbatim>\<open>mips_trap\<close> continue in \<^verbatim>\<open>copyfail\<close>, whose jump ends the copy with
  \<^verbatim>\<open>EFAULT\<close>; here the access yields \<open>None\<close> and the copy stops.  Kernel buffers are byte
  lists.  The argument \<open>as\<close> is \<^verbatim>\<open>curthread->t_vmspace\<close>.

  The lemmas show that a copy touches addresses below \<^verbatim>\<open>USERTOP\<close> only and, as long as the TLB
  agrees with the address space, moves the bytes of the frames the address space maps.
\<close>

section \<open>Access to user memory\<close>

definition USERTOP :: u32 where
  "USERTOP = MIPS_KSEG0"

definition tlb_lookup :: "u32 \<Rightarrow> (u32 \<times> u32) list \<Rightarrow> (u32 \<times> u32) option" where
  "tlb_lookup va t = find (\<lambda>(hi, lo). hi AND PAGE_FRAME = va AND PAGE_FRAME) t"

definition tlb_hit :: "u32 \<Rightarrow> (u32 \<times> u32) list \<Rightarrow> u32 option" where
  "tlb_hit va t = (case tlb_lookup va t of None \<Rightarrow> None
     | Some (hi, lo) \<Rightarrow> if lo AND TLBLO_VALID \<noteq> 0
         then Some ((lo AND PAGE_FRAME) OR (va AND NOT PAGE_FRAME)) else None)"

text \<open>The physical address of an access, or \<open>None\<close> for a fatal fault.\<close>

definition user_paddr ::
  "addrspace option \<Rightarrow> int \<Rightarrow> u32 \<Rightarrow> 's vmstate_scheme \<Rightarrow> (u32 option \<times> 's vmstate_scheme) run" where
  "user_paddr as faulttype va s =
     (case tlb_hit va (tlb s) of Some pa \<Rightarrow> Ret (Some pa, s)
      | None \<Rightarrow> andthen (vm_fault as faulttype va s) (\<lambda>(st, s).
          if st \<noteq> None then Ret (None, s)
          else case tlb_hit va (tlb s) of Some pa \<Rightarrow> Ret (Some pa, s) | None \<Rightarrow> Loops))"

text \<open>\<^verbatim>\<open>memcpy\<close> out of and into user memory, byte by byte; the flag tells whether it got to the end.\<close>

fun user_read :: "addrspace option \<Rightarrow> nat \<Rightarrow> u32 \<Rightarrow> 's vmstate_scheme \<Rightarrow>
    ((bool \<times> 8 word list) \<times> 's vmstate_scheme) run" where
  "user_read as 0 va s = Ret ((True, []), s)"
| "user_read as (Suc n) va s =
     andthen (user_paddr as VM_FAULT_READ va s) (\<lambda>(pa, s).
     case pa of None \<Rightarrow> Ret ((False, []), s)
     | Some pa \<Rightarrow> andthen (user_read as n (va + 1) s) (\<lambda>((b, bs), s'). Ret ((b, ram s pa # bs), s')))"

fun user_write :: "addrspace option \<Rightarrow> 8 word list \<Rightarrow> u32 \<Rightarrow> 's vmstate_scheme \<Rightarrow>
    (bool \<times> 's vmstate_scheme) run" where
  "user_write as [] va s = Ret (True, s)"
| "user_write as (b # bs) va s =
     andthen (user_paddr as VM_FAULT_WRITE va s) (\<lambda>(pa, s).
     case pa of None \<Rightarrow> Ret (False, s)
     | Some pa \<Rightarrow> user_write as bs (va + 1) (s\<lparr>ram := (ram s)(pa := b)\<rparr>))"

section \<open>The copying functions\<close>

definition copycheck :: "u32 \<Rightarrow> u32 \<Rightarrow> errno + u32" where
  "copycheck userptr len =
     (let bot = userptr; top = bot + len - 1 in
      if top < bot then Inl EFAULT
      else if bot \<ge> USERTOP then Inl EFAULT
      else if top \<ge> USERTOP then Inr (USERTOP - bot)
      else Inr len)"

definition copyin :: "addrspace option \<Rightarrow> u32 \<Rightarrow> u32 \<Rightarrow> 's vmstate_scheme \<Rightarrow>
    ((errno + 8 word list) \<times> 's vmstate_scheme) run" where
  "copyin as usersrc len s =
     (case copycheck usersrc len of Inl e \<Rightarrow> Ret (Inl e, s)
      | Inr stoplen \<Rightarrow>
        if stoplen \<noteq> len then Ret (Inl EFAULT, s)
        else andthen (user_read as (unat len) usersrc s) (\<lambda>((fin, bs), s).
             Ret (if fin then Inr bs else Inl EFAULT, s)))"

definition copyout :: "addrspace option \<Rightarrow> 8 word list \<Rightarrow> u32 \<Rightarrow> u32 \<Rightarrow> 's vmstate_scheme \<Rightarrow>
    (status \<times> 's vmstate_scheme) run" where
  "copyout as src userdest len s =
     (case copycheck userdest len of Inl e \<Rightarrow> Ret (Some e, s)
      | Inr stoplen \<Rightarrow>
        if stoplen \<noteq> len then Ret (Some EFAULT, s)
        else andthen (user_write as (take (unat len) src) userdest s) (\<lambda>(fin, s).
             Ret (if fin then None else Some EFAULT, s)))"

text \<open>
  \<^verbatim>\<open>copystr\<close> reading from user memory: \<open>n\<close> counts the turns left before the loop condition
  \<^verbatim>\<open>i < maxlen && i < stoplen\<close> fails.  The result is the string with its terminator.
\<close>

fun copystr_in :: "addrspace option \<Rightarrow> nat \<Rightarrow> u32 \<Rightarrow> errno \<Rightarrow> 's vmstate_scheme \<Rightarrow>
    ((errno + 8 word list) \<times> 's vmstate_scheme) run" where
  "copystr_in as 0 va toolong s = Ret (Inl toolong, s)"
| "copystr_in as (Suc n) va toolong s =
     andthen (user_paddr as VM_FAULT_READ va s) (\<lambda>(pa, s).
     case pa of None \<Rightarrow> Ret (Inl EFAULT, s)
     | Some pa \<Rightarrow>
       if ram s pa = 0 then Ret (Inr [0], s)
       else andthen (copystr_in as n (va + 1) toolong s) (\<lambda>(r, s').
            Ret (case r of Inl e \<Rightarrow> Inl e | Inr bs \<Rightarrow> Inr (ram s pa # bs), s')))"

definition copyinstr :: "addrspace option \<Rightarrow> u32 \<Rightarrow> u32 \<Rightarrow> 's vmstate_scheme \<Rightarrow>
    ((errno + 8 word list) \<times> 's vmstate_scheme) run" where
  "copyinstr as usersrc len s =
     (case copycheck usersrc len of Inl e \<Rightarrow> Ret (Inl e, s)
      | Inr stoplen \<Rightarrow>
        copystr_in as (unat (min len stoplen)) usersrc (if stoplen < len then EFAULT else ENAMETOOLONG) s)"

text \<open>\<^verbatim>\<open>copystr\<close> writing to user memory; the source is a string with its terminator in it.\<close>

fun copystr_out :: "addrspace option \<Rightarrow> nat \<Rightarrow> 8 word list \<Rightarrow> u32 \<Rightarrow> errno \<Rightarrow> 's vmstate_scheme \<Rightarrow>
    (status \<times> 's vmstate_scheme) run" where
  "copystr_out as 0 src va toolong s = Ret (Some toolong, s)"
| "copystr_out as (Suc n) src va toolong s =
     (case src of [] \<Rightarrow> Fault
      | c # cs \<Rightarrow>
        andthen (user_paddr as VM_FAULT_WRITE va s) (\<lambda>(pa, s).
        case pa of None \<Rightarrow> Ret (Some EFAULT, s)
        | Some pa \<Rightarrow>
          let s = s\<lparr>ram := (ram s)(pa := c)\<rparr> in
          if c = 0 then Ret (None, s) else copystr_out as n cs (va + 1) toolong s))"

definition copyoutstr :: "addrspace option \<Rightarrow> 8 word list \<Rightarrow> u32 \<Rightarrow> u32 \<Rightarrow> 's vmstate_scheme \<Rightarrow>
    (status \<times> 's vmstate_scheme) run" where
  "copyoutstr as src userdest len s =
     (case copycheck userdest len of Inl e \<Rightarrow> Ret (Some e, s)
      | Inr stoplen \<Rightarrow>
        copystr_out as (unat (min len stoplen)) src userdest
          (if stoplen < len then EFAULT else ENAMETOOLONG) s)"

section \<open>The TLB and the address space agree\<close>

definition tlb_agrees :: "addrspace option \<Rightarrow> (u32 \<times> u32) list \<Rightarrow> bool" where
  "tlb_agrees as t \<longleftrightarrow> (\<forall>(hi, lo) \<in> set t. lo AND TLBLO_VALID \<noteq> 0 \<longrightarrow>
     (\<exists>a. as = Some a \<and> vm_fault_paddr a (hi AND PAGE_FRAME) = Some (lo AND PAGE_FRAME)))"

definition user_map :: "addrspace option \<Rightarrow> u32 \<Rightarrow> u32 option" where
  "user_map as va = (case as of None \<Rightarrow> None
     | Some a \<Rightarrow> map_option (\<lambda>p. p OR (va AND NOT PAGE_FRAME)) (vm_fault_paddr a (va AND PAGE_FRAME)))"

lemma tlb_hit_agrees:
  assumes "tlb_agrees as t" "tlb_hit va t = Some pa"
  shows "user_map as va = Some pa"
proof -
  from assms(2) obtain hi lo where h: "find (\<lambda>(hi, lo). hi AND PAGE_FRAME = va AND PAGE_FRAME) t = Some (hi, lo)"
    "lo AND TLBLO_VALID \<noteq> 0" "pa = (lo AND PAGE_FRAME) OR (va AND NOT PAGE_FRAME)"
    by (auto simp: tlb_hit_def tlb_lookup_def split: option.splits if_splits)
  from h(1) have m: "(hi, lo) \<in> set t" "hi AND PAGE_FRAME = va AND PAGE_FRAME"
    unfolding find_Some_iff by (auto simp: in_set_conv_nth)
  with assms(1) h(2) obtain a where "as = Some a" "vm_fault_paddr a (va AND PAGE_FRAME) = Some (lo AND PAGE_FRAME)"
    unfolding tlb_agrees_def by fastforce
  with h(3) show ?thesis by (simp add: user_map_def)
qed

lemma elo_bits:
  assumes "pa AND PAGE_FRAME = pa"
  shows "(pa OR TLBLO_DIRTY OR TLBLO_VALID) AND PAGE_FRAME = pa"
    and "(pa OR TLBLO_DIRTY OR TLBLO_VALID) AND TLBLO_VALID \<noteq> 0"
proof -
  have z: "TLBLO_DIRTY AND PAGE_FRAME = 0" "TLBLO_VALID AND PAGE_FRAME = 0"
    by (simp_all add: TLBLO_DIRTY_def TLBLO_VALID_def PAGE_FRAME_def)
  show "(pa OR TLBLO_DIRTY OR TLBLO_VALID) AND PAGE_FRAME = pa"
    using assms z by (simp add: bit.conj_disj_distrib2)
  have "bit ((pa OR TLBLO_DIRTY OR TLBLO_VALID) AND TLBLO_VALID) 9"
    by (simp add: TLBLO_VALID_def bit_simps)
  then show "(pa OR TLBLO_DIRTY OR TLBLO_VALID) AND TLBLO_VALID \<noteq> 0" by auto
qed

text \<open>A fault that is handled installs an entry the retried access finds.\<close>

lemma vm_fault_Ret:
  assumes "vm_fault as ft va s = Ret (None, s')"
  obtains a pa i where "as = Some a" "vm_fault_paddr a (va AND PAGE_FRAME) = Some pa" "pa AND PAGE_FRAME = pa"
    "i < length (tlb s)" "\<forall>j < i. snd (tlb s ! j) AND TLBLO_VALID \<noteq> 0" "snd (tlb s ! i) AND TLBLO_VALID = 0"
    "s' = s\<lparr>tlb := (tlb s)[i := (va AND PAGE_FRAME, pa OR TLBLO_DIRTY OR TLBLO_VALID)]\<rparr>"
proof -
  have fill: "\<exists>i \<ge> n. i < length t \<and> (\<forall>j. n \<le> j \<and> j < i \<longrightarrow> snd (t ! j) AND TLBLO_VALID \<noteq> 0) \<and>
      snd (t ! i) AND TLBLO_VALID = 0 \<and> t' = t[i := (hi, lo)]"
    if "vm_fault_fill n hi lo t = Ret (Some t')" for n hi lo t t'
    using that
  proof (induction n hi lo t rule: vm_fault_fill.induct)
    case (1 n hi lo t)
    show ?case
    proof (cases "n < NUM_TLB \<and> n < length t \<and> snd (t ! n) AND TLBLO_VALID \<noteq> 0")
      case True
      with 1(2) have "vm_fault_fill (n + 1) hi lo t = Ret (Some t')" by (simp add: vm_fault_fill.simps [of n])
      with 1(1) True obtain i where i: "n + 1 \<le> i" "i < length t" "snd (t ! i) AND TLBLO_VALID = 0" "t' = t[i := (hi, lo)]"
        "\<forall>j. n + 1 \<le> j \<and> j < i \<longrightarrow> snd (t ! j) AND TLBLO_VALID \<noteq> 0" by blast
      have "snd (t ! j) AND TLBLO_VALID \<noteq> 0" if "n \<le> j" "j < i" for j
        using i(5) True that by (cases "j = n") auto
      with i show ?thesis by (intro exI [of _ i]) auto
    next
      case False
      with 1(2) show ?thesis
        by (intro exI [of _ n]) (auto simp: vm_fault_fill.simps [of n] split: if_splits)
    qed
  qed
  from assms obtain a pa t' where a: "as = Some a" "vm_fault_paddr a (va AND PAGE_FRAME) = Some pa"
    "pa AND PAGE_FRAME = pa"
    "vm_fault_fill 0 (va AND PAGE_FRAME) (pa OR TLBLO_DIRTY OR TLBLO_VALID) (tlb s) = Ret (Some t')" "s' = s\<lparr>tlb := t'\<rparr>"
    by (auto simp: vm_fault_def spl_defs Let_def andthen_Ret_iff split: if_splits option.splits)
  from fill [OF a(4)] a that show thesis by auto
qed

lemma find_update:
  assumes "i < length t" "\<And>j. j < i \<Longrightarrow> \<not> Q (t ! j)" "Q x"
  shows "find Q (t[i := x]) = Some x"
  using assms unfolding find_Some_iff by (intro exI [of _ i]) auto

lemma user_paddr_spec:
  assumes "user_paddr as ft va s = Ret (r, s')" "tlb_agrees as (tlb s)"
  shows "\<exists>t spl. s' = s\<lparr>tlb := t, curspl := spl\<rparr> \<and> tlb_agrees as t \<and> (\<forall>pa. r = Some pa \<longrightarrow> user_map as va = Some pa)"
proof (cases "tlb_hit va (tlb s)")
  case (Some pa)
  with assms show ?thesis using tlb_hit_agrees [OF assms(2) Some]
    by (intro exI [of _ "tlb s"] exI [of _ "curspl s"]) (simp add: user_paddr_def)
next
  case None
  with assms(1) obtain st s1 where f: "vm_fault as ft va s = Ret (st, s1)"
    "if st \<noteq> None then r = None \<and> s' = s1 else (\<exists>pa. tlb_hit va (tlb s1) = Some pa \<and> r = Some pa \<and> s' = s1)"
    by (auto simp: user_paddr_def andthen_Ret_iff split: if_splits option.splits)
  show ?thesis
  proof (cases st)
    case (Some e)
    with f(1) have "\<exists>spl. s1 = s\<lparr>curspl := spl\<rparr>"
      by (auto simp: vm_fault_def spl_defs Let_def andthen_Ret_iff split: if_splits option.splits
          intro: exI [of _ "curspl s"] exI [of _ 15])
    then obtain spl where "s1 = s\<lparr>tlb := tlb s, curspl := spl\<rparr>" by auto
    with f(2) Some assms(2) show ?thesis by (intro exI [of _ "tlb s"] exI [of _ spl]) simp
  next
    case None
    with f(1) obtain a pa i where v: "as = Some a" "vm_fault_paddr a (va AND PAGE_FRAME) = Some pa" "pa AND PAGE_FRAME = pa"
      "s1 = s\<lparr>tlb := (tlb s)[i := (va AND PAGE_FRAME, pa OR TLBLO_DIRTY OR TLBLO_VALID)]\<rparr>"
      by (auto elim!: vm_fault_Ret)
    have "tlb_agrees as (tlb s1)"
      using assms(2) v elo_bits [OF v(3)] unfolding tlb_agrees_def
      by (auto dest!: set_update_subset_insert [THEN subsetD] simp: page_frame_idem)
    moreover from this f(2) None have "\<forall>pa. r = Some pa \<longrightarrow> user_map as va = Some pa" "s' = s1"
      using tlb_hit_agrees by auto
    moreover have "s1 = s\<lparr>tlb := tlb s1, curspl := curspl s\<rparr>" using v(4) by simp
    ultimately show ?thesis by metis
  qed
qed


lemma user_paddr_total:
  assumes "vm_fault_asserts a" "length (tlb s) = NUM_TLB" "ft = VM_FAULT_READ \<or> ft = VM_FAULT_WRITE"
  shows "\<exists>r s'. user_paddr (Some a) ft va s = Ret (r, s') \<and> length (tlb s') = NUM_TLB"
proof (cases "tlb_hit va (tlb s)")
  case (Some pa)
  with assms show ?thesis by (simp add: user_paddr_def)
next
  case miss: None
  have "\<exists>st s'. vm_fault (Some a) ft va s = Ret (st, s') \<and> length (tlb s') = NUM_TLB"
  proof (cases "vm_fault_paddr a (va AND PAGE_FRAME)")
    case None
    with assms show ?thesis
      by (auto simp: vm_fault_def spl_defs VM_FAULT_READ_def VM_FAULT_WRITE_def VM_FAULT_READONLY_def Let_def)
  next
    case (Some pa)
    have "4096 dvd unat (va AND PAGE_FRAME)" using page_aligned_iff page_frame_idem by blast
    from vm_fault_paddr_owned(1) [OF assms(1) this Some] have "pa AND PAGE_FRAME = pa" by (simp add: page_aligned_iff)
    with vm_fault_fill_spec [OF assms(2) le0, of "va AND PAGE_FRAME" "pa OR TLBLO_DIRTY OR TLBLO_VALID"] assms Some
    show ?thesis
      by (auto simp: vm_fault_def spl_defs VM_FAULT_READ_def VM_FAULT_WRITE_def VM_FAULT_READONLY_def Let_def)
  qed
  then obtain st s1 where f: "vm_fault (Some a) ft va s = Ret (st, s1)" "length (tlb s1) = NUM_TLB" by blast
  show ?thesis
  proof (cases st)
    case None
    with f(1) obtain pa i where v: "pa AND PAGE_FRAME = pa" "i < length (tlb s)"
      "\<forall>j < i. snd (tlb s ! j) AND TLBLO_VALID \<noteq> 0"
      "s1 = s\<lparr>tlb := (tlb s)[i := (va AND PAGE_FRAME, pa OR TLBLO_DIRTY OR TLBLO_VALID)]\<rparr>"
      by (auto elim!: vm_fault_Ret)
    let ?Q = "\<lambda>(hi, lo). hi AND PAGE_FRAME = va AND PAGE_FRAME"
    have "\<not> ?Q (tlb s ! j)" if "j < i" for j
    proof
      assume q: "?Q (tlb s ! j)"
      define m where "m = (LEAST m. ?Q (tlb s ! m))"
      have m: "?Q (tlb s ! m)" unfolding m_def by (rule LeastI [where P = "\<lambda>m. ?Q (tlb s ! m)", OF q])
      have m': "m \<le> j" unfolding m_def by (rule Least_le [where P = "\<lambda>m. ?Q (tlb s ! m)", OF q])
      have "\<not> ?Q (tlb s ! l)" if "l < m" for l
        using that unfolding m_def by (rule not_less_Least [where P = "\<lambda>m. ?Q (tlb s ! m)"])
      with m have "find ?Q (tlb s) = Some (tlb s ! m)" unfolding find_Some_iff using that v(2) m'
        by (intro exI [of _ m]) simp
      moreover have "snd (tlb s ! m) AND TLBLO_VALID \<noteq> 0" using v(3) m' that by simp
      ultimately show False using miss by (auto simp: tlb_hit_def tlb_lookup_def split: prod.splits)
    qed
    then have "tlb_hit va (tlb s1) \<noteq> None"
      using find_update [OF v(2), of ?Q "(va AND PAGE_FRAME, pa OR TLBLO_DIRTY OR TLBLO_VALID)"] elo_bits(2) [OF v(1)]
      by (simp add: tlb_hit_def tlb_lookup_def v(4) page_frame_idem)
    with miss None f show ?thesis by (auto simp: user_paddr_def)
  qed (use miss f in \<open>simp add: user_paddr_def\<close>)
qed

lemma user_map_owned:
  assumes "vm_fault_asserts a" "user_map (Some a) va = Some pa"
  shows "pa \<in> as_frames a"
proof -
  from assms(2) obtain p where p: "vm_fault_paddr a (va AND PAGE_FRAME) = Some p" "pa = p OR (va AND NOT PAGE_FRAME)"
    by (auto simp: user_map_def)
  have al: "4096 dvd unat (va AND PAGE_FRAME)" using page_aligned_iff page_frame_idem by blast
  note own = vm_fault_paddr_owned [OF assms(1) al p(1)]
  have off: "va AND NOT PAGE_FRAME = take_bit 12 va" by (simp add: PAGE_FRAME_mask take_bit_eq_mask)
  have "p AND PAGE_FRAME = p" using own(1) by (simp add: page_aligned_iff)
  then have "take_bit 12 p = 0" unfolding PAGE_FRAME_mask by (auto simp: bit_eq_iff bit_simps)
  then have "p AND take_bit 12 va = 0" by (auto simp: bit_eq_iff bit_simps)
  then have "pa = p + take_bit 12 va" unfolding p(2) off by (simp add: disjunctive_add_eq_or)
  moreover have "unat (take_bit 12 va) < 4096" by (simp add: take_bit_eq_mod unat_mod)
  ultimately show ?thesis using own(2) by simp
qed

section \<open>Copies\<close>

definition vm_ready :: "addrspace \<Rightarrow> 's vmstate_scheme \<Rightarrow> bool" where
  "vm_ready a s \<longleftrightarrow> vm_fault_asserts a \<and> length (tlb s) = NUM_TLB \<and> tlb_agrees (Some a) (tlb s)"

lemma user_paddr_ready:
  assumes "vm_ready a s" "ft = VM_FAULT_READ \<or> ft = VM_FAULT_WRITE"
  obtains r t spl where "user_paddr (Some a) ft va s = Ret (r, s\<lparr>tlb := t, curspl := spl\<rparr>)"
    "vm_ready a (s\<lparr>tlb := t, curspl := spl\<rparr>)" "\<And>pa. r = Some pa \<Longrightarrow> user_map (Some a) va = Some pa"
proof -
  from user_paddr_total [of a s ft va] assms obtain r s' where
    u: "user_paddr (Some a) ft va s = Ret (r, s')" "length (tlb s') = NUM_TLB" by (auto simp: vm_ready_def)
  from user_paddr_spec [OF u(1)] assms(1) obtain t spl where "s' = s\<lparr>tlb := t, curspl := spl\<rparr>"
    "tlb_agrees (Some a) t" "\<forall>pa. r = Some pa \<longrightarrow> user_map (Some a) va = Some pa" by (auto simp: vm_ready_def)
  with u assms(1) that show thesis by (auto simp: vm_ready_def)
qed

lemma user_read_ready:
  "vm_ready a s \<Longrightarrow> \<exists>b bs t spl. user_read (Some a) n va s = Ret ((b, bs), s\<lparr>tlb := t, curspl := spl\<rparr>) \<and>
     vm_ready a (s\<lparr>tlb := t, curspl := spl\<rparr>) \<and>
     (b \<longrightarrow> length bs = n \<and> (\<forall>i < n. \<exists>pa. user_map (Some a) (va + of_nat i) = Some pa \<and> bs ! i = ram s pa))"
proof (induction n arbitrary: va s)
  case 0
  then show ?case by (auto intro!: exI [of _ "tlb s"] exI [of _ "curspl s"])
next
  case (Suc n)
  obtain r t spl where u: "user_paddr (Some a) VM_FAULT_READ va s = Ret (r, s\<lparr>tlb := t, curspl := spl\<rparr>)"
    "vm_ready a (s\<lparr>tlb := t, curspl := spl\<rparr>)" "\<And>pa. r = Some pa \<Longrightarrow> user_map (Some a) va = Some pa"
    by (rule user_paddr_ready [OF Suc.prems disjI1 [OF refl], where va = va]) (rule that)
  show ?case
  proof (cases r)
    case None
    with u show ?thesis by (auto intro!: exI [of _ t] exI [of _ spl])
  next
    case (Some pa)
    from Suc.IH [OF u(2), of "va + 1"] obtain b bs t' spl' where
      ih: "user_read (Some a) n (va + 1) (s\<lparr>tlb := t, curspl := spl\<rparr>) = Ret ((b, bs), s\<lparr>tlb := t', curspl := spl'\<rparr>)"
        "vm_ready a (s\<lparr>tlb := t', curspl := spl'\<rparr>)"
        "b \<longrightarrow> length bs = n \<and> (\<forall>i < n. \<exists>pa. user_map (Some a) (va + 1 + of_nat i) = Some pa \<and> bs ! i = ram s pa)"
      by auto
    have "\<exists>pa'. user_map (Some a) (va + of_nat i) = Some pa' \<and> (ram s pa # bs) ! i = ram s pa'"
      if "b" "i < Suc n" for i
      using that ih(3) u(3) [OF Some] by (cases i) (auto simp: add.assoc)
    with u(1) Some ih show ?thesis by (auto intro!: exI [of _ t'] exI [of _ spl'])
  qed
qed

lemma user_write_ready:
  "vm_ready a s \<Longrightarrow> \<exists>b t spl m. user_write (Some a) bs va s = Ret (b, s\<lparr>tlb := t, curspl := spl, ram := m\<rparr>) \<and>
     vm_ready a (s\<lparr>tlb := t, curspl := spl, ram := m\<rparr>) \<and>
     (\<forall>p. m p \<noteq> ram s p \<longrightarrow> (\<exists>i < length bs. user_map (Some a) (va + of_nat i) = Some p))"
proof (induction bs arbitrary: va s)
  case Nil
  then show ?case by (auto intro!: exI [of _ "tlb s"] exI [of _ "curspl s"] exI [of _ "ram s"])
next
  case (Cons c bs)
  obtain r t spl where u: "user_paddr (Some a) VM_FAULT_WRITE va s = Ret (r, s\<lparr>tlb := t, curspl := spl\<rparr>)"
    "vm_ready a (s\<lparr>tlb := t, curspl := spl\<rparr>)" "\<And>pa. r = Some pa \<Longrightarrow> user_map (Some a) va = Some pa"
    by (rule user_paddr_ready [OF Cons.prems disjI2 [OF refl], where va = va]) (rule that)
  show ?case
  proof (cases r)
    case None
    with u show ?thesis by (auto intro!: exI [of _ t] exI [of _ spl] exI [of _ "ram s"])
  next
    case (Some pa)
    let ?s = "s\<lparr>tlb := t, curspl := spl, ram := (ram s)(pa := c)\<rparr>"
    have "vm_ready a ?s" using u(2) by (simp add: vm_ready_def)
    from Cons.IH [OF this, of "va + 1"] obtain b t' spl' m where
      ih: "user_write (Some a) bs (va + 1) ?s = Ret (b, s\<lparr>tlb := t', curspl := spl', ram := m\<rparr>)"
        "vm_ready a (s\<lparr>tlb := t', curspl := spl', ram := m\<rparr>)"
        "\<forall>p. m p \<noteq> ((ram s)(pa := c)) p \<longrightarrow> (\<exists>i < length bs. user_map (Some a) (va + 1 + of_nat i) = Some p)"
      by auto
    have "\<exists>i < Suc (length bs). user_map (Some a) (va + of_nat i) = Some p" if "m p \<noteq> ram s p" for p
    proof (cases "p = pa")
      case True
      with u(3) [OF Some] show ?thesis by (intro exI [of _ 0]) simp
    next
      case False
      with that have "m p \<noteq> ((ram s)(pa := c)) p" by simp
      with ih(3) obtain i where "i < length bs" "user_map (Some a) (va + 1 + of_nat i) = Some p" by blast
      then show ?thesis by (intro exI [of _ "Suc i"]) (simp add: add.assoc)
    qed
    with u(1) Some ih(1,2) show ?thesis by (auto intro!: exI [of _ t'] exI [of _ spl'] exI [of _ m])
  qed
qed

lemma copycheck_full:
  assumes "copycheck p len = Inr len"
  shows "len \<noteq> 0" "unat p + unat len \<le> unat USERTOP"
proof -
  have U: "unat USERTOP = 2 ^ 31" by (simp add: USERTOP_def MIPS_KSEG0_def)
  show nz: "len \<noteq> 0"
  proof
    assume "len = 0"
    with assms have "\<not> p - 1 < p" "p < USERTOP" "p - 1 \<ge> USERTOP \<Longrightarrow> USERTOP - p = 0"
      by (auto simp: copycheck_def Let_def split: if_splits)
    moreover from this(1) have "p = 0"
      by (rule contrapos_np) (simp add: word_less_nat_alt unat_minus_one unat_gt_0)
    ultimately show False by (simp add: USERTOP_def MIPS_KSEG0_def)
  qed
  then have l: "0 < unat len" by (simp add: unat_gt_0)
  have e: "p + len - 1 = p + (len - 1)" by simp
  have "unat (len - 1) = unat len - 1" using nz by (simp add: unat_minus_one)
  moreover from assms have c: "\<not> p + (len - 1) < p" "p < USERTOP" "\<not> USERTOP \<le> p + (len - 1) \<or> USERTOP - p = len"
    by (auto simp: copycheck_def Let_def e split: if_splits)
  moreover have "unat (p + (len - 1)) = unat p + unat (len - 1)"
    using c(1) unat_plus_simple [of p "len - 1"] by (simp add: not_less)
  ultimately show "unat p + unat len \<le> unat USERTOP"
    using l unat_sub [of p USERTOP] by (auto simp: word_less_nat_alt word_le_nat_alt)
qed


text \<open>The example process of \<open>DumbVM\<close> with an empty TLB.\<close>

lemma vm_example_ready: "vm_ready as_example vm_example"
proof -
  have "tlb_agrees (Some as_example) (tlb vm_example)"
    by (auto simp: tlb_agrees_def vm_example_def TLBLO_VALID_def)
  then show ?thesis by (simp add: vm_ready_def as_example_asserts vm_example_ok)
qed

section \<open>Properties\<close>

lemma copyin_spec:
  assumes "vm_ready a s"
  shows "\<exists>r s'. copyin (Some a) src len s = Ret (r, s') \<and> ram s' = ram s \<and> vm_ready a s' \<and>
     (case r of Inl e \<Rightarrow> e = EFAULT
      | Inr bs \<Rightarrow> unat src + unat len \<le> unat USERTOP \<and> length bs = unat len \<and>
          (\<forall>i < length bs. \<exists>pa. user_map (Some a) (src + of_nat i) = Some pa \<and> pa \<in> as_frames a \<and> bs ! i = ram s pa))"
proof (cases "copycheck src len = Inr len")
  case True
  obtain b bs t spl where r: "user_read (Some a) (unat len) src s = Ret ((b, bs), s\<lparr>tlb := t, curspl := spl\<rparr>)"
    "vm_ready a (s\<lparr>tlb := t, curspl := spl\<rparr>)"
    "b \<longrightarrow> length bs = unat len \<and> (\<forall>i < unat len. \<exists>pa. user_map (Some a) (src + of_nat i) = Some pa \<and> bs ! i = ram s pa)"
    using user_read_ready [OF assms, of "unat len" src] by blast
  have own: "user_map (Some a) va = Some pa \<Longrightarrow> pa \<in> as_frames a" for va pa
    using assms user_map_owned by (simp add: vm_ready_def)
  show ?thesis
  proof (cases b)
    case b: True
    with r(3) own have "\<forall>i < length bs. \<exists>pa. user_map (Some a) (src + of_nat i) = Some pa \<and> pa \<in> as_frames a \<and> bs ! i = ram s pa"
      by metis
    with b True r copycheck_full(2) [OF True] show ?thesis by (simp add: copyin_def)
  qed (use True r in \<open>simp add: copyin_def\<close>)
next
  case False
  with assms show ?thesis by (auto simp: copyin_def copycheck_def Let_def split: sum.splits if_splits)
qed

text \<open>C25: \<open>copyin\<close> always comes back, with the bytes or with \<open>EFAULT\<close>, and changes no byte of
  memory.  When it succeeds, the whole source range lies below \<open>USERTOP\<close>, and byte \<open>i\<close> of the
  result is the byte at the physical address to which the calling process maps source address \<open>i\<close>, a
  frame of that process: a system call never reads kernel memory or another process through it.\<close>

theorem copyin_reads:
  assumes "vm_ready a s"
  shows "\<exists>r s'. copyin (Some a) src len s = Ret (r, s') \<and> ram s' = ram s \<and> vm_ready a s' \<and>
     (case r of Inl e \<Rightarrow> e = EFAULT
      | Inr bs \<Rightarrow> unat src + unat len \<le> unat USERTOP \<and> length bs = unat len \<and>
          (\<forall>i < length bs. \<exists>pa. user_map (Some a) (src + of_nat i) = Some pa \<and> pa \<in> as_frames a \<and> bs ! i = ram s pa))"
  by (rule copyin_spec [OF assms])

theorem copyin_reads_witness:
  "vm_ready as_example vm_example \<and>
   (\<exists>r s'. copyin (Some as_example) 0x400ffe 4 vm_example = Ret (r, s') \<and> ram s' = ram vm_example)"
  using copyin_reads [OF vm_example_ready, of "0x400ffe" 4] vm_example_ready by auto

text \<open>C26: \<open>copyout\<close> always comes back, with success or with \<open>EFAULT\<close>, and writes only to frames of
  the calling process: every other byte of physical memory, that of the kernel and of all other processes,
  keeps its value.\<close>

theorem copyout_confined:
  assumes "vm_ready a s"
  shows "\<exists>st s'. copyout (Some a) bytes dst len s = Ret (st, s') \<and> vm_ready a s' \<and> (st = None \<or> st = Some EFAULT) \<and>
     (\<forall>p. p \<notin> as_frames a \<longrightarrow> ram s' p = ram s p) \<and>
     (st = None \<longrightarrow> unat dst + unat len \<le> unat USERTOP)"
proof (cases "copycheck dst len = Inr len")
  case True
  obtain b t spl m where w: "user_write (Some a) (take (unat len) bytes) dst s = Ret (b, s\<lparr>tlb := t, curspl := spl, ram := m\<rparr>)"
    "vm_ready a (s\<lparr>tlb := t, curspl := spl, ram := m\<rparr>)"
    "\<forall>p. m p \<noteq> ram s p \<longrightarrow> (\<exists>i < length (take (unat len) bytes). user_map (Some a) (dst + of_nat i) = Some p)"
    using user_write_ready [OF assms, of "take (unat len) bytes" dst] by blast
  have "m p = ram s p" if "p \<notin> as_frames a" for p
    using that w(3) assms user_map_owned unfolding vm_ready_def by blast
  with True w copycheck_full(2) [OF True] show ?thesis by (simp add: copyout_def)
next
  case False
  with assms show ?thesis by (auto simp: copyout_def copycheck_def Let_def split: sum.splits if_splits)
qed

theorem copyout_confined_witness:
  "vm_ready as_example vm_example \<and>
   (\<exists>st s'. copyout (Some as_example) [1, 2, 3] 0x400ffe 3 vm_example = Ret (st, s') \<and>
      (\<forall>p. p \<notin> as_frames as_example \<longrightarrow> ram s' p = ram vm_example p))"
  using copyout_confined [OF vm_example_ready, of "[1, 2, 3]" "0x400ffe" 3] vm_example_ready by auto

text \<open>a copy of length zero is refused with \<open>EFAULT\<close> at every address, valid or not, because the
  last address of the range is computed as \<open>bot + len - 1\<close>.\<close>

theorem copyin_zero_length: "copyin as src 0 s = Ret (Inl EFAULT, s)"
proof (cases "copycheck src 0")
  case (Inr n)
  then have "n \<noteq> 0" using copycheck_full(1) [of src 0] by auto
  with Inr show ?thesis by (simp add: copyin_def)
next
  case (Inl e)
  then have "e = EFAULT" by (auto simp: copycheck_def Let_def split: if_splits)
  with Inl show ?thesis by (simp add: copyin_def)
qed

end
