(* ===== verification/KernelState.thy ===== *)
theory KernelState
  imports KArray KQueue DumbVM
begin

text \<open>
  The data of the thread system: the structures of \<^verbatim>\<open>src/kern/include/thread.h\<close>,
  \<^verbatim>\<open>synch.h\<close> and \<^verbatim>\<open>pid_system.h\<close>, the global variables of
  \<^verbatim>\<open>thread.c\<close>, \<^verbatim>\<open>scheduler.c\<close>, \<^verbatim>\<open>hardclock.c\<close> and
  \<^verbatim>\<open>main.c\<close> gathered in one record, and the creation of semaphores, locks and condition
  variables.

  Pointers to heap objects are natural numbers, looked up in one map per kind of object; a freed
  object is absent, so that using it is a \<open>Fault\<close>.  The outcomes of the calls of
  \<^verbatim>\<open>kmalloc\<close> are read off the list \<open>k_oom\<close>; past its end every call succeeds.  The
  interrupts that arrive while the processor idles are the list \<open>k_irqs\<close>.

  A thread that is not running is in the middle of a call.  What is left of its call chain is the
  list \<open>t_frames\<close>, innermost first; each frame stands for the code after the call of a function
  that switched to another thread.  The frames are run by \<open>Syscalls.run_frame\<close>.
\<close>

section \<open>Data\<close>

text \<open>What a thread can sleep on: the address of a semaphore, a lock or a condition variable, or of
  the variable \<^verbatim>\<open>lbolt\<close>.\<close>

datatype waddr = A_sem nat | A_lock nat | A_cv nat | A_lbolt

record trapframe =
  tf_v0 :: u32
  tf_a0 :: u32
  tf_a1 :: u32
  tf_a2 :: u32
  tf_a3 :: u32
  tf_epc :: u32
  tf_other :: "u32 list"

text \<open>\<open>tf_other\<close> are the 31 saved registers that no modelled code looks at.\<close>

datatype frame =
    F_start            \<comment> \<open>\<^verbatim>\<open>mi_threadstart\<close> of a thread that has never run\<close>
  | F_switch           \<comment> \<open>\<^verbatim>\<open>mi_switch\<close> after \<^verbatim>\<open>md_switch\<close>\<close>
  | F_sleep            \<comment> \<open>\<^verbatim>\<open>thread_sleep\<close> after \<^verbatim>\<open>mi_switch\<close>\<close>
  | F_yield int        \<comment> \<open>\<^verbatim>\<open>thread_yield\<close> after \<^verbatim>\<open>mi_switch\<close>; the saved level\<close>
  | F_dead             \<comment> \<open>\<^verbatim>\<open>thread_exit\<close> after \<^verbatim>\<open>mi_switch\<close>\<close>
  | F_intr int int     \<comment> \<open>end of an interrupt: saved \<^verbatim>\<open>in_interrupt\<close> and level\<close>
  | F_P nat int        \<comment> \<open>the loop of \<^verbatim>\<open>P\<close>; semaphore and saved level\<close>
  | F_acquire nat int  \<comment> \<open>the loop of \<^verbatim>\<open>lock_acquire\<close>\<close>
  | F_cv_wait nat int  \<comment> \<open>\<^verbatim>\<open>cv_wait\<close> after \<^verbatim>\<open>thread_sleep\<close>; lock and saved level\<close>
  | F_clock int int    \<comment> \<open>the loop of \<^verbatim>\<open>clocksleep\<close>; seconds left and saved level\<close>
  | F_waitpid nat int int u32
      \<comment> \<open>\<^verbatim>\<open>sys_waitpid\<close> in the loop of \<^verbatim>\<open>P\<close>; table entry, the levels saved by \<^verbatim>\<open>P\<close> and by the
         call, and the address \<^verbatim>\<open>status\<close>\<close>
  | F_sysret           \<comment> \<open>\<^verbatim>\<open>mips_syscall\<close> after the call of the handler\<close>
  | F_child trapframe  \<comment> \<open>\<^verbatim>\<open>childProcstub\<close>\<close>

record thread =
  t_name :: string
  t_sleepaddr :: "waddr option"
  t_stack :: "8 word list option"
  t_ininterrupt :: int
  t_pidValue :: int
  t_parentPid :: "int option"
  t_exitStatus :: int
  t_vmspace :: "addrspace option"
  t_cwd :: "nat option"
  t_frames :: "frame list"
  t_tf :: trapframe
  t_result :: "status \<times> int"

text \<open>
  \<open>t_ininterrupt\<close> is \<^verbatim>\<open>pcb_ininterrupt\<close>; \<open>t_tf\<close> the trap frame on the kernel stack;
  \<open>t_result\<close> the values \<^verbatim>\<open>err\<close> and \<^verbatim>\<open>retval\<close> of the system call in progress.  Memory
  that is not initialised is \<open>None\<close> (\<^verbatim>\<open>parentPid\<close>, and the exit code of a pid below).
\<close>

record semaphore =
  sem_name :: string
  sem_count :: int

record lock =
  lock_name :: string
  lock_count :: int
  lock_thread :: "nat option option"

record pid =
  pidValue :: int
  isUsed :: int
  pPid :: int
  didExit :: int
  exitCode :: "int option"
  myThread :: "nat option"
  parentSem :: "nat option"

datatype irq = Irq_clock | Irq_V nat

record vnode_count =
  vn_refcount :: int

record kernel = vmstate +
  k_oom :: "bool list"
  k_irqs :: "irq list"
  k_next :: nat
  k_threads :: "nat \<Rightarrow> thread option"
  k_sems :: "nat \<Rightarrow> semaphore option"
  k_locks :: "nat \<Rightarrow> lock option"
  k_cvs :: "nat \<Rightarrow> string option"
  k_vnodes :: "nat \<Rightarrow> vnode_count option"
  k_reclaims :: "nat list"
  curthread :: "nat option"
  sleepers :: "nat karray option"
  zombies :: "nat karray option"
  runqueue :: "nat kqueue option"
  numthreads :: int
  pidHead :: "pid list"
  in_interrupt :: int
  lbolt_counter :: int
  k_console :: "8 word list"
  k_input :: "8 word list"
  k_clock :: "int \<times> int"

text \<open>\<^verbatim>\<open>pidHead\<close> is the linked list of \<^verbatim>\<open>struct pid\<close>, the null pointer being \<open>[]\<close>.
  \<open>k_console\<close> is what user programs have printed, \<open>k_input\<close> the characters waiting at the console,
  \<open>k_clock\<close> the reading of the clock device.\<close>

section \<open>Access\<close>

definition kmalloc :: "kernel \<Rightarrow> bool \<times> kernel" where
  "kmalloc k = (case k_oom k of [] \<Rightarrow> (True, k) | ok # rest \<Rightarrow> (ok, k\<lparr>k_oom := rest\<rparr>))"

definition upd_thread :: "nat \<Rightarrow> (thread \<Rightarrow> thread) \<Rightarrow> kernel \<Rightarrow> kernel" where
  "upd_thread t f k = k\<lparr>k_threads := (k_threads k)(t := map_option f (k_threads k t))\<rparr>"

text \<open>Following the pointer \<^verbatim>\<open>curthread\<close>.\<close>

definition with_cur :: "kernel \<Rightarrow> (nat \<Rightarrow> thread \<Rightarrow> 'a run) \<Rightarrow> 'a run" where
  "with_cur k f = deref (curthread k) (\<lambda>t. deref (k_threads k t) (f t))"

text \<open>A 32-bit \<^verbatim>\<open>int\<close> after an increment.\<close>

definition int_incr :: "int \<Rightarrow> int" where
  "int_incr x = (if x = 2 ^ 31 - 1 then - (2 ^ 31) else x + 1)"

text \<open>Returning to the frames \<open>frs\<close> of the current thread.\<close>

definition return_to :: "frame list \<Rightarrow> kernel \<Rightarrow> kernel run" where
  "return_to frs k = with_cur k (\<lambda>t th. Ret (upd_thread t (\<lambda>th. th\<lparr>t_frames := frs\<rparr>) k))"

section \<open>Synchronisation objects\<close>

definition sem_create :: "string \<Rightarrow> int \<Rightarrow> kernel \<Rightarrow> (nat option \<times> kernel) run" where
  "sem_create namearg initial_count k =
     assertk (initial_count \<ge> 0)
     (case kmalloc k of (ok, k) \<Rightarrow> if \<not> ok then Ret (None, k) else
      case kmalloc k of (ok, k) \<Rightarrow> if \<not> ok then Ret (None, k) else
      Ret (Some (k_next k),
        k\<lparr>k_sems := (k_sems k)(k_next k \<mapsto> \<lparr>sem_name = namearg, sem_count = initial_count\<rparr>),
          k_next := k_next k + 1\<rparr>))"

definition lock_create :: "string \<Rightarrow> kernel \<Rightarrow> nat option \<times> kernel" where
  "lock_create name k =
     (case kmalloc k of (ok, k) \<Rightarrow> if \<not> ok then (None, k) else
      case kmalloc k of (ok, k) \<Rightarrow> if \<not> ok then (None, k) else
      (Some (k_next k),
        k\<lparr>k_locks := (k_locks k)(k_next k \<mapsto> \<lparr>lock_name = name, lock_count = 1, lock_thread = None\<rparr>),
          k_next := k_next k + 1\<rparr>))"

definition cv_create :: "string \<Rightarrow> kernel \<Rightarrow> nat option \<times> kernel" where
  "cv_create name k =
     (case kmalloc k of (ok, k) \<Rightarrow> if \<not> ok then (None, k) else
      case kmalloc k of (ok, k) \<Rightarrow> if \<not> ok then (None, k) else
      (Some (k_next k), k\<lparr>k_cvs := (k_cvs k)(k_next k \<mapsto> name), k_next := k_next k + 1\<rparr>))"

section \<open>Simplification\<close>

lemma upd_thread_simps [simp]:
  "curspl (upd_thread t f k) = curspl k" "k_oom (upd_thread t f k) = k_oom k"
  "k_irqs (upd_thread t f k) = k_irqs k" "k_next (upd_thread t f k) = k_next k"
  "k_sems (upd_thread t f k) = k_sems k" "k_locks (upd_thread t f k) = k_locks k"
  "k_cvs (upd_thread t f k) = k_cvs k" "curthread (upd_thread t f k) = curthread k"
  "sleepers (upd_thread t f k) = sleepers k" "zombies (upd_thread t f k) = zombies k"
  "runqueue (upd_thread t f k) = runqueue k" "numthreads (upd_thread t f k) = numthreads k"
  "pidHead (upd_thread t f k) = pidHead k" "in_interrupt (upd_thread t f k) = in_interrupt k"
  "lbolt_counter (upd_thread t f k) = lbolt_counter k"
  "k_console (upd_thread t f k) = k_console k" "k_input (upd_thread t f k) = k_input k"
  "k_clock (upd_thread t f k) = k_clock k" "k_vnodes (upd_thread t f k) = k_vnodes k" "k_reclaims (upd_thread t f k) = k_reclaims k"
  "tlb (upd_thread t f k) = tlb k" "ram (upd_thread t f k) = ram k"
  "firstpaddr (upd_thread t f k) = firstpaddr k" "lastpaddr (upd_thread t f k) = lastpaddr k"
  "k_threads (upd_thread t f k) = (k_threads k)(t := map_option f (k_threads k t))"
  by (simp_all add: upd_thread_def)

lemma with_cur_Ret_iff [run_simps]:
  "with_cur k f = Ret x \<longleftrightarrow> (\<exists>t th. curthread k = Some t \<and> k_threads k t = Some th \<and> f t th = Ret x)"
  by (auto simp: with_cur_def deref_Ret_iff)

lemma with_cur_Some [simp]:
  "curthread k = Some t \<Longrightarrow> k_threads k t = Some th \<Longrightarrow> with_cur k f = f t th"
  by (simp add: with_cur_def)

lemma kmalloc_frame: "kmalloc k = (ok, k') \<Longrightarrow> \<exists>oom. k' = k\<lparr>k_oom := oom\<rparr>"
  by (cases k) (auto simp: kmalloc_def split: list.splits)

lemma as_activate_kernel:
  "as_activate as k = k\<lparr>tlb := map (\<lambda>i. (TLBHI_INVALID i, 0)) [0..<NUM_TLB] @ drop NUM_TLB (tlb k)\<rparr>"
  for k :: kernel
  by (cases k) (simp add: as_activate_def spl_defs)

end
