(* ===== verification/PidSystem.thy ===== *)
theory PidSystem
  imports KernelState
begin

text \<open>
  The process table of \<^verbatim>\<open>src/kern/userprog/pid_system.c\<close>: a linked list of
  \<^verbatim>\<open>struct pid\<close> that only grows; a released entry is used again.

  A pointer into the list is the position of the entry.  The lemmas show that the entries carry the
  values 1, 2, 3, ... in order (\<open>pids_wf\<close>), so that a value identifies its entry, that an assigned
  pid was not in use, and that releasing a pid makes it the next candidate.
\<close>

section \<open>Operations\<close>

definition create_pid_list :: "kernel \<Rightarrow> pid list \<times> kernel" where
  "create_pid_list k =
     (case kmalloc k of (ok, k) \<Rightarrow> if \<not> ok then ([], k) else
      ([\<lparr>pidValue = 1, isUsed = 1, pPid = 0, didExit = 0, exitCode = None,
         myThread = curthread k, parentSem = None\<rparr>], k))"

text \<open>\<^verbatim>\<open>append_pid\<close> does not look at the result of \<^verbatim>\<open>kmalloc\<close>: it faults when that is null.\<close>

definition append_pid :: "int \<Rightarrow> nat \<Rightarrow> kernel \<Rightarrow> kernel run" where
  "append_pid val thread k =
     (case splhigh k of (s, k) \<Rightarrow>
      case kmalloc k of (ok, k) \<Rightarrow>
      if \<not> ok then Fault else
      with_cur k (\<lambda>_ cur.
      andthen (sem_create ''name'' 1 k) (\<lambda>(sem, k).
      if pidHead k = [] then Fault else
      Ret (snd (splx s (k\<lparr>pidHead := pidHead k @
        [\<lparr>pidValue = val, isUsed = 1, pPid = t_pidValue cur, didExit = 0, exitCode = None,
          myThread = Some thread, parentSem = sem\<rparr>]\<rparr>))))))"

text \<open>
  The loop of \<^verbatim>\<open>assign_pid\<close>: the position of the first entry after the head that is not in use,
  or the value for a new entry.
\<close>

fun assign_scan :: "nat \<Rightarrow> pid list \<Rightarrow> (nat + int) run" where
  "assign_scan i [] = Fault"
| "assign_scan i [current] = Ret (Inr (pidValue current + 1))"
| "assign_scan i (current # nxt # rest) =
     (if isUsed nxt = 0 then Ret (Inl (i + 1)) else assign_scan (i + 1) (nxt # rest))"

definition assign_pid :: "nat \<Rightarrow> kernel \<Rightarrow> (int \<times> kernel) run" where
  "assign_pid thread k =
     (case splhigh k of (s, k) \<Rightarrow>
      andthen (assign_scan 0 (pidHead k)) (\<lambda>r. case r of
        Inr v \<Rightarrow> andthen (append_pid v thread k) (\<lambda>k. Ret (v, snd (splx s k)))
      | Inl i \<Rightarrow> with_cur k (\<lambda>_ cur.
          Ret (pidValue (pidHead k ! i),
            snd (splx s (k\<lparr>pidHead := (pidHead k)[i := (pidHead k ! i)
              \<lparr>isUsed := 1, pPid := t_pidValue cur, didExit := 0, myThread := Some thread\<rparr>]\<rparr>))))))"

fun release_scan :: "int \<Rightarrow> pid list \<Rightarrow> pid list" where
  "release_scan val [] = []"
| "release_scan val (current # rest) =
     (if pidValue current = val then current\<lparr>isUsed := 0, pPid := 0, myThread := None\<rparr> # rest
      else current # release_scan val rest)"

definition release_pid :: "int \<Rightarrow> kernel \<Rightarrow> kernel" where
  "release_pid val k =
     (case splhigh k of (s, k) \<Rightarrow> snd (splx s (k\<lparr>pidHead := release_scan val (pidHead k)\<rparr>)))"

text \<open>\<^verbatim>\<open>delete_pid_list\<close> frees the entries; the caller's pointer is not reset.\<close>

fun pid_scan :: "nat \<Rightarrow> int \<Rightarrow> pid list \<Rightarrow> nat option" where
  "pid_scan i val [] = None"
| "pid_scan i val (current # rest) = (if pidValue current = val then Some i else pid_scan (i + 1) val rest)"

definition pid_search :: "int \<Rightarrow> kernel \<Rightarrow> nat option" where
  "pid_search val k = pid_scan 0 val (pidHead k)"

section \<open>Well-formed tables\<close>

definition pids_wf :: "pid list \<Rightarrow> bool" where
  "pids_wf ps \<longleftrightarrow> ps \<noteq> [] \<and> (\<forall>i < length ps. pidValue (ps ! i) = int i + 1)"

lemma pids_wf_Cons: "pids_wf ps \<Longrightarrow> \<exists>p ps'. ps = p # ps'"
  by (cases ps) (auto simp: pids_wf_def)

lemma pid_scan_iff:
  "pid_scan i v ps = Some j \<longleftrightarrow> i \<le> j \<and> j - i < length ps \<and> pidValue (ps ! (j - i)) = v \<and>
     (\<forall>m < j - i. pidValue (ps ! m) \<noteq> v)"
proof (induction i v ps rule: pid_scan.induct)
  case (2 i v p ps)
  show ?case
  proof (cases "pidValue p = v")
    case True
    then show ?thesis by (auto simp: nth_Cons' split: if_splits)
  next
    case False
    then have "pid_scan i v (p # ps) = Some j \<longleftrightarrow> i + 1 \<le> j \<and> j - (i + 1) < length ps \<and>
      pidValue (ps ! (j - (i + 1))) = v \<and> (\<forall>m < j - (i + 1). pidValue (ps ! m) \<noteq> v)" using 2 by simp
    also have "\<dots> \<longleftrightarrow> i \<le> j \<and> j - i < length (p # ps) \<and> pidValue ((p # ps) ! (j - i)) = v \<and>
      (\<forall>m < j - i. pidValue ((p # ps) ! m) \<noteq> v)"
    proof (cases "i + 1 \<le> j")
      case True
      then obtain d where d: "j - i = Suc d" "j - (i + 1) = d" by (metis Suc_diff_Suc Suc_eq_plus1 Suc_le_eq)
      have "(\<forall>m < Suc d. pidValue ((p # ps) ! m) \<noteq> v) \<longleftrightarrow> (\<forall>m < d. pidValue (ps ! m) \<noteq> v)"
        using False by (auto simp: less_Suc_eq_0_disj)
      with True d show ?thesis by auto
    qed (use False in \<open>auto simp: nth_Cons'\<close>)
    finally show ?thesis .
  qed
qed simp

lemma pid_scan_wf:
  assumes "pids_wf ps"
  shows "pid_scan 0 v ps = (if 1 \<le> v \<and> v \<le> int (length ps) then Some (nat (v - 1)) else None)"
proof (cases "1 \<le> v \<and> v \<le> int (length ps)")
  case True
  then have "nat (v - 1) < length ps" by auto
  with True assms have "pid_scan 0 v ps = Some (nat (v - 1))" by (auto simp: pid_scan_iff pids_wf_def)
  with True show ?thesis by simp
next
  case False
  have "pid_scan 0 v ps \<noteq> Some j" for j using False assms by (auto simp: pid_scan_iff pids_wf_def)
  with False show ?thesis by (auto simp: not_Some_eq [symmetric] simp del: not_Some_eq)
qed

lemma pid_search_wf:
  "pids_wf (pidHead k) \<Longrightarrow> pid_search v k =
     (if 1 \<le> v \<and> v \<le> int (length (pidHead k)) then Some (nat (v - 1)) else None)"
  by (simp add: pid_search_def pid_scan_wf)

lemma release_scan_eq:
  "release_scan v ps = (case pid_scan 0 v ps of None \<Rightarrow> ps
     | Some i \<Rightarrow> ps[i := (ps ! i)\<lparr>isUsed := 0, pPid := 0, myThread := None\<rparr>])"
proof -
  have "release_scan v ps = (case pid_scan i v ps of None \<Rightarrow> ps
     | Some j \<Rightarrow> ps[j - i := (ps ! (j - i))\<lparr>isUsed := 0, pPid := 0, myThread := None\<rparr>])" for i
  proof (induction i v ps rule: pid_scan.induct)
    case (2 i v p ps)
    show ?case
    proof (cases "pidValue p = v")
      case False
      show ?thesis
      proof (cases "pid_scan (i + 1) v ps")
        case (Some j)
        then have "i + 1 \<le> j" by (simp add: pid_scan_iff)
        then obtain d where "j = i + 1 + d" using le_iff_add by blast
        with 2 False Some show ?thesis by simp
      qed (use 2 False in simp)
    qed simp
  qed simp
  from this [of 0, unfolded diff_zero] show ?thesis .
qed

lemma assign_scan_spec:
  assumes "ps \<noteq> []"
  shows "(\<exists>j. 0 < j \<and> j < length ps \<and> isUsed (ps ! j) = 0 \<and> (\<forall>m. 0 < m \<and> m < j \<longrightarrow> isUsed (ps ! m) \<noteq> 0) \<and>
            assign_scan i ps = Ret (Inl (i + j))) \<or>
         (\<forall>m. 0 < m \<and> m < length ps \<longrightarrow> isUsed (ps ! m) \<noteq> 0) \<and>
            assign_scan i ps = Ret (Inr (pidValue (last ps) + 1))"
  using assms
proof (induction i ps rule: assign_scan.induct)
  case (3 i p q ps)
  show ?case
  proof (cases "isUsed q = 0")
    case True
    then show ?thesis by (intro disjI1 exI [of _ 1]) auto
  next
    case False
    with 3(1) have "(\<exists>j. 0 < j \<and> j < length (q # ps) \<and> isUsed ((q # ps) ! j) = 0 \<and>
        (\<forall>m. 0 < m \<and> m < j \<longrightarrow> isUsed ((q # ps) ! m) \<noteq> 0) \<and> assign_scan (i + 1) (q # ps) = Ret (Inl (i + 1 + j))) \<or>
      (\<forall>m. 0 < m \<and> m < length (q # ps) \<longrightarrow> isUsed ((q # ps) ! m) \<noteq> 0) \<and>
        assign_scan (i + 1) (q # ps) = Ret (Inr (pidValue (last (q # ps)) + 1))" by simp
    then show ?thesis
    proof (elim disjE exE conjE)
      fix j assume j: "0 < j" "j < length (q # ps)" "isUsed ((q # ps) ! j) = 0"
        "\<forall>m. 0 < m \<and> m < j \<longrightarrow> isUsed ((q # ps) ! m) \<noteq> 0" "assign_scan (i + 1) (q # ps) = Ret (Inl (i + 1 + j))"
      have "isUsed ((p # q # ps) ! m) \<noteq> 0" if "0 < m" "m < Suc j" for m
        using j(4) False that by (cases m) (auto simp: nth_Cons')
      with j False show ?thesis by (intro disjI1 exI [of _ "Suc j"]) simp
    next
      assume a: "\<forall>m. 0 < m \<and> m < length (q # ps) \<longrightarrow> isUsed ((q # ps) ! m) \<noteq> 0"
        "assign_scan (i + 1) (q # ps) = Ret (Inr (pidValue (last (q # ps)) + 1))"
      have "isUsed ((p # q # ps) ! m) \<noteq> 0" if "0 < m" "m < length (p # q # ps)" for m
        using a(1) False that by (cases m) (auto simp: nth_Cons')
      with a(2) False show ?thesis by (intro disjI2) simp
    qed
  qed
qed auto


section \<open>Effect of the operations\<close>

lemma sem_create_Ret:
  assumes "sem_create nm c k = Ret (sem, k')"
  obtains (oom) oom where "sem = None" "k' = k\<lparr>k_oom := oom\<rparr>"
  | (new) oom where "sem = Some (k_next k)"
      "k' = k\<lparr>k_oom := oom, k_sems := (k_sems k)(k_next k \<mapsto> \<lparr>sem_name = nm, sem_count = c\<rparr>),
              k_next := k_next k + 1\<rparr>" "0 \<le> c"
proof -
  obtain b1 k1 where 1: "kmalloc k = (b1, k1)" by fastforce
  obtain b2 k2 where 2: "kmalloc k1 = (b2, k2)" by fastforce
  from kmalloc_frame [OF 1] obtain o1 where o1: "k1 = k\<lparr>k_oom := o1\<rparr>" by blast
  from kmalloc_frame [OF 2] obtain o2 where o2: "k2 = k\<lparr>k_oom := o2\<rparr>" unfolding o1 by auto
  show thesis
  proof (cases "b1 \<and> b2")
    case True
    with assms 1 2 show ?thesis
      by (intro new [of o2]) (auto simp: sem_create_def assertk_Ret_iff o2)
  next
    case False
    with assms 1 2 show ?thesis
      by (cases b1) (auto simp: sem_create_def assertk_Ret_iff o1 o2 intro: oom)
  qed
qed

definition pid_fresh :: "int \<Rightarrow> int \<Rightarrow> nat \<Rightarrow> nat option \<Rightarrow> pid" where
  "pid_fresh v parent t sem = \<lparr>pidValue = v, isUsed = 1, pPid = parent, didExit = 0, exitCode = None,
     myThread = Some t, parentSem = sem\<rparr>"

definition pid_reuse :: "int \<Rightarrow> nat \<Rightarrow> pid \<Rightarrow> pid" where
  "pid_reuse parent t p = p\<lparr>isUsed := 1, pPid := parent, didExit := 0, myThread := Some t\<rparr>"

lemma splx_splhigh [simp]: "snd (splx (curspl k) (k\<lparr>curspl := x\<rparr>)) = k" "snd (splx s k) = k\<lparr>curspl := s\<rparr>"
  for k :: kernel
  by (simp_all add: splx_def)

lemma append_pid_Ret:
  assumes "append_pid v t k = Ret k'" "curthread k = Some c" "k_threads k c = Some cur"
  obtains (nosem) oom where
      "k' = k\<lparr>k_oom := oom, pidHead := pidHead k @ [pid_fresh v (t_pidValue cur) t None]\<rparr>"
  | (sem) oom where "k' = k\<lparr>k_oom := oom, pidHead := pidHead k @ [pid_fresh v (t_pidValue cur) t (Some (k_next k))],
      k_sems := (k_sems k)(k_next k \<mapsto> \<lparr>sem_name = ''name'', sem_count = 1\<rparr>), k_next := k_next k + 1\<rparr>"
proof -
  let ?k = "k\<lparr>curspl := SPL_HIGH\<rparr>"
  obtain b1 k1 where 1: "kmalloc ?k = (b1, k1)" by fastforce
  from kmalloc_frame [OF 1] obtain o1 where o1: "k1 = ?k\<lparr>k_oom := o1\<rparr>" by blast
  have c: "curthread k1 = Some c" "k_threads k1 c = Some cur" using assms(2,3) o1 by simp_all
  obtain sem k2 where s: "sem_create ''name'' 1 k1 = Ret (sem, k2)" and
    k': "k' = k2\<lparr>pidHead := pidHead k2 @ [pid_fresh v (t_pidValue cur) t sem], curspl := curspl k\<rparr>"
    using assms(1) 1 c
    by (auto simp: append_pid_def splhigh_def splx_def [of SPL_HIGH] andthen_Ret_iff pid_fresh_def
        split: if_splits prod.splits)
  from s show thesis
  proof (cases rule: sem_create_Ret)
    case (oom oo)
    then show ?thesis by (intro nosem [of oo]) (simp add: k' o1)
  next
    case (new oo)
    then show ?thesis by (intro sem [of oo]) (simp add: k' o1)
  qed
qed

lemma assign_pid_Ret:
  assumes "assign_pid t k = Ret (v, k')" "pids_wf (pidHead k)" "curthread k = Some c" "k_threads k c = Some cur"
  obtains (reuse) i where "0 < i" "i < length (pidHead k)" "isUsed (pidHead k ! i) = 0" "v = int i + 1"
      "k' = k\<lparr>pidHead := (pidHead k)[i := pid_reuse (t_pidValue cur) t (pidHead k ! i)]\<rparr>"
  | (nosem) oom where "v = int (length (pidHead k)) + 1"
      "k' = k\<lparr>k_oom := oom, pidHead := pidHead k @ [pid_fresh v (t_pidValue cur) t None]\<rparr>"
  | (sem) oom where "v = int (length (pidHead k)) + 1"
      "k' = k\<lparr>k_oom := oom, pidHead := pidHead k @ [pid_fresh v (t_pidValue cur) t (Some (k_next k))],
      k_sems := (k_sems k)(k_next k \<mapsto> \<lparr>sem_name = ''name'', sem_count = 1\<rparr>), k_next := k_next k + 1\<rparr>"
proof -
  let ?k = "k\<lparr>curspl := SPL_HIGH\<rparr>" and ?ps = "pidHead k"
  have ne: "?ps \<noteq> []" using assms(2) by (simp add: pids_wf_def)
  have c: "curthread ?k = Some c" "k_threads ?k c = Some cur" using assms(3,4) by simp_all
  from assign_scan_spec [OF ne, of 0] show thesis
  proof (elim disjE exE conjE)
    fix j assume j: "0 < j" "j < length ?ps" "isUsed (?ps ! j) = 0" "assign_scan 0 ?ps = Ret (Inl (0 + j))"
    have "v = pidValue (?ps ! j) \<and> k' = k\<lparr>pidHead := ?ps[j := pid_reuse (t_pidValue cur) t (?ps ! j)]\<rparr>"
      using assms(1) c j(4) by (simp add: assign_pid_def splhigh_def splx_def [of SPL_HIGH] pid_reuse_def)
    with j assms(2) show ?thesis by (intro reuse [of j]) (auto simp: pids_wf_def)
  next
    assume a: "assign_scan 0 ?ps = Ret (Inr (pidValue (last ?ps) + 1))"
    define w where "w = pidValue (last ?ps) + 1"
    have w: "w = int (length ?ps) + 1" using assms(2) ne by (cases "length ?ps") (simp_all add: w_def pids_wf_def last_conv_nth)
    obtain k1 where k1: "append_pid w t ?k = Ret k1" "v = w" "k' = k1\<lparr>curspl := curspl k\<rparr>"
      using assms(1) a
      by (auto simp: assign_pid_def splhigh_def splx_def [of SPL_HIGH] andthen_Ret_iff w_def)
    from k1(1) c show ?thesis
    proof (cases rule: append_pid_Ret)
      case (nosem oo)
      with w k1(2,3) show ?thesis by (intro that(2) [of oo]) simp_all
    next
      case (sem oo)
      with w k1(2,3) show ?thesis by (intro that(3) [of oo]) simp_all
    qed
  qed
qed

lemma release_pid_eq:
  "release_pid v k = k\<lparr>pidHead := release_scan v (pidHead k)\<rparr>"
  by (simp add: release_pid_def splhigh_def splx_def [of SPL_HIGH])

lemma release_scan_wf: "pids_wf ps \<Longrightarrow> pids_wf (release_scan v ps)"
  by (auto simp: release_scan_eq pids_wf_def split: option.splits)
    (metis (no_types, lifting) nth_list_update_eq nth_list_update_neq pid.select_convs(1) pid.surjective pid.update_convs)

lemma release_scan_nth:
  assumes "pids_wf ps" "i < length ps"
  shows "release_scan v ps ! i =
    (if int i + 1 = v then (ps ! i)\<lparr>isUsed := 0, pPid := 0, myThread := None\<rparr> else ps ! i)"
  using assms by (auto simp: release_scan_eq pid_scan_wf nth_list_update)

lemma release_scan_length [simp]: "length (release_scan v ps) = length ps"
  by (simp add: release_scan_eq split: option.splits)

end
