(* ===== verification/Threads.thy ===== *)
theory Threads
  imports PidSystem
begin

text \<open>
  The thread system: \<^verbatim>\<open>src/kern/thread/scheduler.c\<close>, \<^verbatim>\<open>thread.c\<close>,
  \<^verbatim>\<open>synch.c\<close> and \<^verbatim>\<open>hardclock.c\<close>, in the order in which the functions depend on
  each other.

  A function that may switch to another thread takes the frames \<open>frs\<close> of its callers.  When it
  returns without switching, the frames \<open>frs\<close> are left to run; when it switches, its own frame is
  pushed on top of them in the structure of the thread that is switched out, and the thread switched
  to has frames of its own.  The state in which the current thread has no frame left is the one in which
  it runs code outside the kernel routines modelled here.

  The kernel is configured as for assignment 3: no random yields in \<^verbatim>\<open>mi_threadstart\<close>.  The
  reference count of the current directory is updated in one step; the lock that protects it is taken
  to be free.
\<close>

section \<open>Scheduler\<close>

definition scheduler_bootstrap :: "kernel \<Rightarrow> kernel run" where
  "scheduler_bootstrap k =
     (case kmalloc k of (ok1, k) \<Rightarrow> case kmalloc k of (ok2, k) \<Rightarrow>
      case q_create ok1 ok2 32 of None \<Rightarrow> Panic | Some q \<Rightarrow> Ret (k\<lparr>runqueue := Some q\<rparr>))"

definition scheduler_preallocate :: "int \<Rightarrow> kernel \<Rightarrow> (status \<times> kernel) run" where
  "scheduler_preallocate nthreads k =
     assertk (curspl k > 0)
     (deref (runqueue k) (\<lambda>q. case kmalloc k of (ok, k) \<Rightarrow>
      andthen (q_preallocate ok q (nat nthreads)) (\<lambda>(r, q). Ret (r, k\<lparr>runqueue := Some q\<rparr>))))"

definition make_runnable :: "nat \<Rightarrow> kernel \<Rightarrow> (status \<times> kernel) run" where
  "make_runnable t k =
     assertk (curspl k > 0)
     (deref (runqueue k) (\<lambda>q. case kmalloc k of (ok, k) \<Rightarrow>
      andthen (q_addtail ok q t) (\<lambda>(r, q). Ret (r, k\<lparr>runqueue := Some q\<rparr>))))"

text \<open>The loop of \<^verbatim>\<open>scheduler_killall\<close>, at most once per slot of the queue.\<close>

fun scheduler_kill_loop :: "nat \<Rightarrow> kernel \<Rightarrow> kernel run" where
  "scheduler_kill_loop 0 k = Loops"
| "scheduler_kill_loop (Suc fuel) k =
     deref (runqueue k) (\<lambda>q. if q_empty q then Ret k else
     andthen (q_remhead q) (\<lambda>(t, q).
     deref t (\<lambda>t. deref (k_threads k t) (\<lambda>_. scheduler_kill_loop fuel (k\<lparr>runqueue := Some q\<rparr>)))))"

definition scheduler_killall :: "kernel \<Rightarrow> kernel run" where
  "scheduler_killall k =
     assertk (curspl k > 0) (deref (runqueue k) (\<lambda>q. scheduler_kill_loop (q_size q + 1) k))"

definition scheduler_shutdown :: "kernel \<Rightarrow> kernel run" where
  "scheduler_shutdown k =
     andthen (scheduler_killall k) (\<lambda>k.
     assertk (curspl k > 0)
     (deref (runqueue k) (\<lambda>q. andthen (q_destroy q) (\<lambda>_. Ret (k\<lparr>runqueue := None\<rparr>)))))"

section \<open>Wakeups\<close>

text \<open>The loop of \<^verbatim>\<open>thread_wakeup\<close>: every turn either advances \<open>i\<close> or shortens the array.\<close>

fun wakeup_loop :: "nat \<Rightarrow> waddr \<Rightarrow> int \<Rightarrow> kernel \<Rightarrow> kernel run" where
  "wakeup_loop 0 addr i k = Loops"
| "wakeup_loop (Suc fuel) addr i k =
     deref (sleepers k) (\<lambda>a.
     if i < array_getnum a then
       andthen (array_getguy a i) (\<lambda>t. deref t (\<lambda>t. deref (k_threads k t) (\<lambda>th.
       if t_sleepaddr th = Some addr then
         andthen (array_remove a i) (\<lambda>a.
         andthen (make_runnable t (k\<lparr>sleepers := Some a\<rparr>)) (\<lambda>(result, k).
         assertk (result = None) (wakeup_loop fuel addr i k)))
       else wakeup_loop fuel addr (i + 1) k)))
     else Ret k)"

definition thread_wakeup :: "waddr \<Rightarrow> kernel \<Rightarrow> kernel run" where
  "thread_wakeup addr k =
     assertk (curspl k > 0)
     (deref (sleepers k) (\<lambda>a. wakeup_loop (nat (array_getnum a) + 1) addr 0 k))"

fun hassleepers_loop :: "nat \<Rightarrow> waddr \<Rightarrow> int \<Rightarrow> kernel \<Rightarrow> bool run" where
  "hassleepers_loop 0 addr i k = Loops"
| "hassleepers_loop (Suc fuel) addr i k =
     deref (sleepers k) (\<lambda>a.
     if i < array_getnum a then
       andthen (array_getguy a i) (\<lambda>t. deref t (\<lambda>t. deref (k_threads k t) (\<lambda>th.
       if t_sleepaddr th = Some addr then Ret True else hassleepers_loop fuel addr (i + 1) k)))
     else Ret False)"

definition thread_hassleepers :: "waddr \<Rightarrow> kernel \<Rightarrow> bool run" where
  "thread_hassleepers addr k =
     assertk (curspl k > 0)
     (deref (sleepers k) (\<lambda>a. hassleepers_loop (nat (array_getnum a) + 1) addr 0 k))"

text \<open>\<^verbatim>\<open>V\<close> never blocks, so it can run in an interrupt handler.  The null pointer is \<open>None\<close>.\<close>

definition V :: "nat option \<Rightarrow> kernel \<Rightarrow> kernel run" where
  "V sem k =
     (case sem of None \<Rightarrow> Panic | Some s \<Rightarrow>
      case splhigh k of (spl, k) \<Rightarrow>
      deref (k_sems k s) (\<lambda>sm.
      let c = int_incr (sem_count sm); k = k\<lparr>k_sems := (k_sems k)(s \<mapsto> sm\<lparr>sem_count := c\<rparr>)\<rparr> in
      assertk (c > 0)
      (andthen (thread_wakeup (A_sem s) k) (\<lambda>k. Ret (snd (splx spl k))))))"

definition lock_release :: "nat option \<Rightarrow> kernel \<Rightarrow> kernel run" where
  "lock_release lock k =
     (case lock of None \<Rightarrow> Panic | Some l \<Rightarrow>
      case splhigh k of (spl, k) \<Rightarrow>
      deref (k_locks k l) (\<lambda>lk.
      let c = int_incr (lock_count lk);
          k = k\<lparr>k_locks := (k_locks k)(l \<mapsto> lk\<lparr>lock_count := c, lock_thread := Some None\<rparr>)\<rparr> in
      assertk (c > 0)
      (andthen (thread_wakeup (A_lock l) k) (\<lambda>k. Ret (snd (splx spl k))))))"

section \<open>Interrupts while the processor is idle\<close>

definition HZ :: int where
  "HZ = 100"

text \<open>\<^verbatim>\<open>hardclock\<close> up to its call of \<^verbatim>\<open>thread_yield\<close>.\<close>

definition hardclock_tick :: "kernel \<Rightarrow> kernel run" where
  "hardclock_tick k =
     (let k = k\<lparr>lbolt_counter := lbolt_counter k + 1\<rparr> in
      if lbolt_counter k \<ge> HZ then thread_wakeup A_lbolt (k\<lparr>lbolt_counter := 0\<rparr>) else Ret k)"

text \<open>
  \<^verbatim>\<open>mips_trap\<close> and \<^verbatim>\<open>mips_interrupt\<close> for an interrupt taken in \<^verbatim>\<open>cpu_idle\<close>.  There
  \<^verbatim>\<open>curthread\<close> is null, so that \<^verbatim>\<open>mi_switch\<close>, called from \<^verbatim>\<open>thread_yield\<close> in
  \<^verbatim>\<open>hardclock\<close>, returns at once.  Device handlers call \<^verbatim>\<open>V\<close>.
\<close>

definition idle_interrupt :: "irq \<Rightarrow> kernel \<Rightarrow> kernel run" where
  "idle_interrupt i k =
     (let savespl = curspl k; old_in = in_interrupt k;
          k = k\<lparr>curspl := SPL_HIGH, in_interrupt := 1\<rparr> in
      andthen (case i of
          Irq_clock \<Rightarrow> andthen (hardclock_tick k) (\<lambda>k. assertk (sleepers k \<noteq> None) (Ret k))
        | Irq_V s \<Rightarrow> V (Some s) k)
      (\<lambda>k. Ret (k\<lparr>in_interrupt := old_in, curspl := savespl\<rparr>)))"

text \<open>The loop \<^verbatim>\<open>while (q_empty(runqueue)) cpu_idle();\<close>  With no interrupt to come it does not end.\<close>

fun idle_loop :: "irq list \<Rightarrow> kernel \<Rightarrow> kernel run" where
  "idle_loop irqs k =
     deref (runqueue k) (\<lambda>q. if \<not> q_empty q then Ret (k\<lparr>k_irqs := irqs\<rparr>)
     else case irqs of [] \<Rightarrow> Loops
     | i # rest \<Rightarrow> assertk (curspl k > 0) (andthen (idle_interrupt i k) (idle_loop rest)))"

declare idle_loop.simps [simp del]

definition scheduler :: "kernel \<Rightarrow> (nat option \<times> kernel) run" where
  "scheduler k =
     assertk (curspl k > 0)
     (andthen (idle_loop (k_irqs k) k) (\<lambda>k.
      deref (runqueue k) (\<lambda>q. andthen (q_remhead q) (\<lambda>(t, q). Ret (t, k\<lparr>runqueue := Some q\<rparr>)))))"

section \<open>Context switch\<close>

datatype threadstate = S_RUN | S_READY | S_SLEEP | S_ZOMB

definition stack_magic :: "8 word list" where
  "stack_magic = [0xae, 0x11, 0xda, 0x33]"

definition stack_check :: "thread \<Rightarrow> bool" where
  "stack_check th \<longleftrightarrow> (case t_stack th of None \<Rightarrow> True | Some st \<Rightarrow> take 4 st = stack_magic)"

definition sleepers_add :: "nat \<Rightarrow> kernel \<Rightarrow> (status \<times> kernel) run" where
  "sleepers_add t k = deref (sleepers k) (\<lambda>a. case kmalloc k of (ok, k) \<Rightarrow>
     andthen (array_add ok a t) (\<lambda>(r, a). Ret (r, k\<lparr>sleepers := Some a\<rparr>)))"

definition zombies_add :: "nat \<Rightarrow> kernel \<Rightarrow> (status \<times> kernel) run" where
  "zombies_add t k = deref (zombies k) (\<lambda>a. case kmalloc k of (ok, k) \<Rightarrow>
     andthen (array_add ok a t) (\<lambda>(r, a). Ret (r, k\<lparr>zombies := Some a\<rparr>)))"

text \<open>\<^verbatim>\<open>md_switch\<close>: the flag \<^verbatim>\<open>in_interrupt\<close> belongs to the thread.\<close>

definition md_switch :: "nat \<Rightarrow> nat \<Rightarrow> kernel \<Rightarrow> kernel run" where
  "md_switch old nu k =
     (if old = nu then Ret k
      else deref (k_threads k old) (\<lambda>_. deref (k_threads k nu) (\<lambda>n.
        Ret ((upd_thread old (\<lambda>th. th\<lparr>t_ininterrupt := in_interrupt k\<rparr>) k)\<lparr>in_interrupt := t_ininterrupt n\<rparr>))))"

text \<open>\<^verbatim>\<open>mi_switch\<close> up to \<^verbatim>\<open>md_switch\<close>; the rest is the frame \<open>F_switch\<close>.\<close>

definition mi_switch :: "threadstate \<Rightarrow> frame list \<Rightarrow> kernel \<Rightarrow> kernel run" where
  "mi_switch nextstate frs k =
     assertk (curspl k > 0)
     (with_cur k (\<lambda>cur th.
      assertk (stack_check th)
      (let k = (upd_thread cur (\<lambda>th. th\<lparr>t_frames := F_switch # frs\<rparr>) k)\<lparr>curthread := None\<rparr> in
       andthen (case nextstate of
           S_READY \<Rightarrow> make_runnable cur k
         | S_SLEEP \<Rightarrow> sleepers_add cur k
         | S_ZOMB \<Rightarrow> zombies_add cur k
         | S_RUN \<Rightarrow> Panic)
       (\<lambda>(result, k).
        assertk (result = None)
        (andthen (scheduler k) (\<lambda>(nxt, k).
         deref nxt (\<lambda>nxt. md_switch cur nxt (k\<lparr>curthread := Some nxt\<rparr>))))))))"

definition thread_yield :: "frame list \<Rightarrow> kernel \<Rightarrow> kernel run" where
  "thread_yield frs k =
     (case splhigh k of (spl, k) \<Rightarrow>
      assertk (sleepers k \<noteq> None) (mi_switch S_READY (F_yield spl # frs) k))"

definition thread_sleep :: "waddr \<Rightarrow> frame list \<Rightarrow> kernel \<Rightarrow> kernel run" where
  "thread_sleep addr frs k =
     assertk (in_interrupt k = 0)
     (with_cur k (\<lambda>cur _.
      mi_switch S_SLEEP (F_sleep # frs) (upd_thread cur (\<lambda>th. th\<lparr>t_sleepaddr := Some addr\<rparr>) k)))"

text \<open>An interrupt taken while a thread runs: \<^verbatim>\<open>mips_trap\<close>, \<^verbatim>\<open>mips_interrupt\<close>, \<^verbatim>\<open>hardclock\<close>.\<close>

definition interrupt :: "irq \<Rightarrow> frame list \<Rightarrow> kernel \<Rightarrow> kernel run" where
  "interrupt i frs k =
     (let savespl = curspl k; old_in = in_interrupt k;
          k = k\<lparr>curspl := SPL_HIGH, in_interrupt := 1\<rparr>; frs = F_intr old_in savespl # frs in
      case i of
        Irq_clock \<Rightarrow> andthen (hardclock_tick k) (thread_yield frs)
      | Irq_V s \<Rightarrow> andthen (V (Some s) k) (return_to frs))"


section \<open>Exorcism\<close>

definition thread_destroy :: "nat \<Rightarrow> kernel \<Rightarrow> kernel run" where
  "thread_destroy t k =
     assertk (curspl k > 0)
     (assertk (curthread k \<noteq> Some t)
     (deref (k_threads k t) (\<lambda>th.
      assertk (t_vmspace th = None) (assertk (t_cwd th = None)
      (Ret (k\<lparr>k_threads := (k_threads k)(t := None)\<rparr>))))))"

text \<open>The loop of \<^verbatim>\<open>exorcise\<close> over the zombies \<open>i, i + 1, ...\<close>; the first argument counts them.\<close>

fun exorcise_loop :: "nat \<Rightarrow> nat karray \<Rightarrow> int \<Rightarrow> kernel \<Rightarrow> kernel run" where
  "exorcise_loop 0 a i k = Ret k"
| "exorcise_loop (Suc n) a i k =
     andthen (array_getguy a i) (\<lambda>z. deref z (\<lambda>z. deref (k_threads k z) (\<lambda>th.
     let k = release_pid (t_pidValue th) k in
     assertk (curthread k \<noteq> Some z)
     (andthen (thread_destroy z k) (exorcise_loop n a (i + 1))))))"

definition exorcise :: "kernel \<Rightarrow> kernel run" where
  "exorcise k =
     assertk (curspl k > 0)
     (deref (zombies k) (\<lambda>a.
      andthen (exorcise_loop (nat (array_getnum a)) a 0 k) (\<lambda>k.
      case kmalloc k of (ok, k) \<Rightarrow>
      andthen (array_setsize ok a 0) (\<lambda>(result, a).
      assertk (result = None) (Ret (k\<lparr>zombies := Some a\<rparr>))))))"

definition activate_cur :: "kernel \<Rightarrow> kernel run" where
  "activate_cur k = with_cur k (\<lambda>t th.
     Ret (if t_vmspace th \<noteq> None then as_activate (t_vmspace th) k else k))"

section \<open>Semaphores, locks, condition variables\<close>

text \<open>The loop of \<^verbatim>\<open>P\<close>, entered again by the frame \<open>F_P\<close> after each wakeup.\<close>

definition P_loop :: "nat \<Rightarrow> int \<Rightarrow> frame list \<Rightarrow> kernel \<Rightarrow> kernel run" where
  "P_loop s spl frs k =
     deref (k_sems k s) (\<lambda>sm.
     if sem_count sm = 0 then thread_sleep (A_sem s) (F_P s spl # frs) k
     else assertk (sem_count sm > 0)
       (return_to frs (snd (splx spl (k\<lparr>k_sems := (k_sems k)(s \<mapsto> sm\<lparr>sem_count := sem_count sm - 1\<rparr>)\<rparr>)))))"

definition P :: "nat option \<Rightarrow> frame list \<Rightarrow> kernel \<Rightarrow> kernel run" where
  "P sem frs k =
     (case sem of None \<Rightarrow> Panic | Some s \<Rightarrow>
      assertk (in_interrupt k = 0) (case splhigh k of (spl, k) \<Rightarrow> P_loop s spl frs k))"

definition acquire_loop :: "nat \<Rightarrow> int \<Rightarrow> frame list \<Rightarrow> kernel \<Rightarrow> kernel run" where
  "acquire_loop l spl frs k =
     deref (k_locks k l) (\<lambda>lk.
     if lock_count lk = 0 then thread_sleep (A_lock l) (F_acquire l spl # frs) k
     else assertk (lock_count lk > 0)
       (return_to frs (snd (splx spl (k\<lparr>k_locks := (k_locks k)(l \<mapsto>
          lk\<lparr>lock_count := lock_count lk - 1, lock_thread := Some (curthread k)\<rparr>)\<rparr>)))))"

definition lock_acquire :: "nat option \<Rightarrow> frame list \<Rightarrow> kernel \<Rightarrow> kernel run" where
  "lock_acquire lock frs k =
     (case lock of None \<Rightarrow> Panic | Some l \<Rightarrow>
      assertk (in_interrupt k = 0) (case splhigh k of (spl, k) \<Rightarrow> acquire_loop l spl frs k))"

text \<open>The holder of a lock just created is whatever was in memory.\<close>

definition lock_do_i_hold :: "nat \<Rightarrow> kernel \<Rightarrow> bool option run" where
  "lock_do_i_hold l k = deref (k_locks k l) (\<lambda>lk. Ret (map_option (\<lambda>h. h = curthread k) (lock_thread lk)))"

definition sem_destroy :: "nat option \<Rightarrow> kernel \<Rightarrow> kernel run" where
  "sem_destroy sem k =
     (case sem of None \<Rightarrow> Panic | Some s \<Rightarrow>
      case splhigh k of (spl, k) \<Rightarrow>
      andthen (thread_hassleepers (A_sem s) k) (\<lambda>b.
      assertk (\<not> b) (deref (k_sems k s) (\<lambda>_. Ret ((snd (splx spl k))\<lparr>k_sems := (k_sems k)(s := None)\<rparr>)))))"

definition lock_destroy :: "nat option \<Rightarrow> kernel \<Rightarrow> kernel run" where
  "lock_destroy lock k =
     (case lock of None \<Rightarrow> Panic | Some l \<Rightarrow>
      case splhigh k of (spl, k) \<Rightarrow>
      andthen (thread_hassleepers (A_lock l) k) (\<lambda>b.
      assertk (\<not> b) (deref (k_locks k l) (\<lambda>_. Ret ((snd (splx spl k))\<lparr>k_locks := (k_locks k)(l := None)\<rparr>)))))"

definition cv_destroy :: "nat option \<Rightarrow> kernel \<Rightarrow> kernel run" where
  "cv_destroy cv k =
     (case splhigh k of (spl, k) \<Rightarrow>
      case cv of None \<Rightarrow> Panic | Some c \<Rightarrow>
      deref (k_cvs k c) (\<lambda>_. Ret (snd (splx spl (k\<lparr>k_cvs := (k_cvs k)(c := None)\<rparr>)))))"

definition cv_wait :: "nat option \<Rightarrow> nat option \<Rightarrow> frame list \<Rightarrow> kernel \<Rightarrow> kernel run" where
  "cv_wait cv lock frs k =
     (case splhigh k of (spl, k) \<Rightarrow>
      case cv of None \<Rightarrow> Panic | Some c \<Rightarrow>
      case lock of None \<Rightarrow> Panic | Some l \<Rightarrow>
      andthen (lock_release lock k) (thread_sleep (A_cv c) (F_cv_wait l spl # frs)))"

definition cv_signal :: "nat option \<Rightarrow> nat option \<Rightarrow> kernel \<Rightarrow> kernel run" where
  "cv_signal cv lock k =
     (case splhigh k of (spl, k) \<Rightarrow>
      case cv of None \<Rightarrow> Panic | Some c \<Rightarrow>
      case lock of None \<Rightarrow> Panic | Some l \<Rightarrow>
      andthen (lock_release lock k) (\<lambda>k.
      andthen (thread_wakeup (A_cv c) k) (\<lambda>k. Ret (snd (splx spl k)))))"

definition cv_broadcast :: "nat option \<Rightarrow> nat option \<Rightarrow> kernel \<Rightarrow> kernel run" where
  "cv_broadcast cv lock k =
     (case splhigh k of (spl, k) \<Rightarrow>
      case cv of None \<Rightarrow> Panic | Some c \<Rightarrow>
      andthen (lock_release lock k) (\<lambda>k.
      andthen (thread_wakeup (A_cv c) k) (\<lambda>k. Ret (snd (splx spl k)))))"

section \<open>Clock\<close>

definition clock_loop :: "int \<Rightarrow> int \<Rightarrow> frame list \<Rightarrow> kernel \<Rightarrow> kernel run" where
  "clock_loop num_secs s frs k =
     (if num_secs > 0 then thread_sleep A_lbolt (F_clock num_secs s # frs) k
      else return_to frs (snd (splx s k)))"

definition clocksleep :: "int \<Rightarrow> frame list \<Rightarrow> kernel \<Rightarrow> kernel run" where
  "clocksleep num_secs frs k = (case splhigh k of (s, k) \<Rightarrow> clock_loop num_secs s frs k)"

text \<open>\<^verbatim>\<open>thread_join\<close> does not look at the thread: it sleeps for five seconds and reports success.\<close>

definition thread_join :: "nat \<Rightarrow> frame list \<Rightarrow> kernel \<Rightarrow> kernel run" where
  "thread_join t frs k = clocksleep 5 frs k"

section \<open>Creation and exit\<close>

definition thread_count :: "kernel \<Rightarrow> int" where
  "thread_count k = numthreads k"

definition tf_none :: trapframe where
  "tf_none = \<lparr>tf_v0 = 0, tf_a0 = 0, tf_a1 = 0, tf_a2 = 0, tf_a3 = 0, tf_epc = 0, tf_other = []\<rparr>"

text \<open>
  The call of \<^verbatim>\<open>P\<close> in \<^verbatim>\<open>thread_create\<close>.  If it had to wait, the creation would not return
  before the semaphore is raised; the model does not follow it there and reports \<open>Loops\<close>.  The
  invariant of the process table shows that the count is never zero at this point.
\<close>

definition P_now :: "nat option \<Rightarrow> kernel \<Rightarrow> kernel run" where
  "P_now sem k =
     (case sem of None \<Rightarrow> Panic | Some s \<Rightarrow>
      assertk (in_interrupt k = 0) (case splhigh k of (spl, k) \<Rightarrow>
      deref (k_sems k s) (\<lambda>sm.
      if sem_count sm = 0 then Loops
      else assertk (sem_count sm > 0)
        (Ret (snd (splx spl (k\<lparr>k_sems := (k_sems k)(s \<mapsto> sm\<lparr>sem_count := sem_count sm - 1\<rparr>)\<rparr>)))))))"

definition thread_new :: "string \<Rightarrow> int \<Rightarrow> thread" where
  "thread_new name pidval = \<lparr>t_name = name, t_sleepaddr = None, t_stack = None, t_ininterrupt = 0,
     t_pidValue = pidval, t_parentPid = None, t_exitStatus = 0, t_vmspace = None, t_cwd = None,
     t_frames = [], t_tf = tf_none, t_result = (None, 0)\<rparr>"

text \<open>On failure the interrupt level is not restored, as in the code.\<close>

definition thread_create :: "string \<Rightarrow> kernel \<Rightarrow> (nat option \<times> kernel) run" where
  "thread_create name k =
     (case splhigh k of (spl, k) \<Rightarrow>
      case kmalloc k of (ok, k) \<Rightarrow> if \<not> ok then Ret (None, k) else
      case kmalloc k of (ok, k) \<Rightarrow> if \<not> ok then Ret (None, k) else
      let t = k_next k; k = k\<lparr>k_next := k_next k + 1\<rparr> in
      andthen
        (if numthreads k = 0 then Ret (1, k)
         else andthen (assign_pid t k) (\<lambda>(v, k).
              deref (pid_search v k) (\<lambda>i.
              andthen (P_now (parentSem (pidHead k ! i)) k) (\<lambda>k. Ret (v, k)))))
        (\<lambda>(v, k). Ret (Some t, snd (splx spl (k\<lparr>k_threads := (k_threads k)(t \<mapsto> thread_new name v)\<rparr>)))))"

definition thread_bootstrap :: "kernel \<Rightarrow> (nat \<times> kernel) run" where
  "thread_bootstrap k =
     (case kmalloc k of (ok, k) \<Rightarrow> case array_create ok of None \<Rightarrow> Panic | Some sl \<Rightarrow>
      case kmalloc k of (ok, k) \<Rightarrow> case array_create ok of None \<Rightarrow> Panic | Some zb \<Rightarrow>
      let k = k\<lparr>sleepers := Some sl, zombies := Some zb, numthreads := 0\<rparr> in
      andthen (thread_create ''<boot/menu>'' k) (\<lambda>(me, k).
      case me of None \<Rightarrow> Panic
      | Some me \<Rightarrow> Ret (me, k\<lparr>curthread := Some me, numthreads := 1\<rparr>)))"

definition vnode_incref :: "nat \<Rightarrow> kernel \<Rightarrow> kernel run" where
  "vnode_incref v k = deref (k_vnodes k v) (\<lambda>vn.
     Ret (k\<lparr>k_vnodes := (k_vnodes k)(v \<mapsto> vn\<lparr>vn_refcount := vn_refcount vn + 1\<rparr>)\<rparr>))"

text \<open>The last reference is not dropped: the file system is asked to reclaim the vnode.\<close>

definition vnode_decref :: "nat \<Rightarrow> kernel \<Rightarrow> kernel run" where
  "vnode_decref v k = deref (k_vnodes k v) (\<lambda>vn.
     assertk (vn_refcount vn > 0)
     (Ret (if vn_refcount vn > 1
           then k\<lparr>k_vnodes := (k_vnodes k)(v \<mapsto> vn\<lparr>vn_refcount := vn_refcount vn - 1\<rparr>)\<rparr>
           else k\<lparr>k_reclaims := v # k_reclaims k\<rparr>)))"

text \<open>\<open>func\<close> are the frames that stand for the function the new thread starts in.\<close>

definition fork_fail :: "nat \<Rightarrow> status \<Rightarrow> int \<Rightarrow> kernel \<Rightarrow> ((status \<times> nat option) \<times> kernel) run" where
  "fork_fail t result s k =
     (let k = snd (splx s k) in
      deref (k_threads k t) (\<lambda>th.
      andthen (case t_cwd th of None \<Rightarrow> Ret k | Some v \<Rightarrow> vnode_decref v k) (\<lambda>k.
      Ret ((result, None), k\<lparr>k_threads := (k_threads k)(t := None)\<rparr>))))"

definition preallocate_sleepers :: "int \<Rightarrow> kernel \<Rightarrow> (status \<times> kernel) run" where
  "preallocate_sleepers n k = deref (sleepers k) (\<lambda>a. case kmalloc k of (ok, k) \<Rightarrow>
     andthen (array_preallocate ok a n) (\<lambda>(r, a). Ret (r, k\<lparr>sleepers := Some a\<rparr>)))"

definition preallocate_zombies :: "int \<Rightarrow> kernel \<Rightarrow> (status \<times> kernel) run" where
  "preallocate_zombies n k = deref (zombies k) (\<lambda>a. case kmalloc k of (ok, k) \<Rightarrow>
     andthen (array_preallocate ok a n) (\<lambda>(r, a). Ret (r, k\<lparr>zombies := Some a\<rparr>)))"

definition thread_fork :: "string \<Rightarrow> frame list \<Rightarrow> kernel \<Rightarrow> ((status \<times> nat option) \<times> kernel) run" where
  "thread_fork name func k =
     andthen (thread_create name k) (\<lambda>(newguy, k).
     case newguy of None \<Rightarrow> Ret ((Some ENOMEM, None), k)
     | Some t \<Rightarrow>
       case kmalloc k of (ok, k) \<Rightarrow>
       if \<not> ok then Ret ((Some ENOMEM, None), k\<lparr>k_threads := (k_threads k)(t := None)\<rparr>)
       else let k = upd_thread t (\<lambda>th. th\<lparr>t_stack := Some stack_magic\<rparr>) k in
       andthen (with_cur k (\<lambda>_ cur. case t_cwd cur of None \<Rightarrow> Ret k
         | Some v \<Rightarrow> andthen (vnode_incref v k) (\<lambda>k. Ret (upd_thread t (\<lambda>th. th\<lparr>t_cwd := Some v\<rparr>) k))))
       (\<lambda>k. let k = upd_thread t (\<lambda>th. th\<lparr>t_ininterrupt := 0, t_frames := F_start # func\<rparr>) k in
       case splhigh k of (s, k) \<Rightarrow>
       andthen (preallocate_sleepers (numthreads k + 1) k) (\<lambda>(result, k).
       if result \<noteq> None then fork_fail t result s k else
       andthen (preallocate_zombies (numthreads k + 1) k) (\<lambda>(result, k).
       if result \<noteq> None then fork_fail t result s k else
       andthen (scheduler_preallocate (numthreads k + 1) k) (\<lambda>(result, k).
       if result \<noteq> None then fork_fail t result s k else
       andthen (make_runnable t k) (\<lambda>(result, k).
       if result \<noteq> None then fork_fail t result s k else
       Ret ((None, Some t), snd (splx s (k\<lparr>numthreads := numthreads k + 1\<rparr>)))))))))"

definition thread_exit :: "int \<Rightarrow> kernel \<Rightarrow> kernel run" where
  "thread_exit code k =
     with_cur k (\<lambda>cur th.
     assertk (stack_check th)
     (let k = snd (splhigh k);
          k = upd_thread cur (\<lambda>th. th\<lparr>t_vmspace := None\<rparr>) k in
      andthen (case t_cwd th of None \<Rightarrow> Ret k
        | Some v \<Rightarrow> andthen (vnode_decref v k) (\<lambda>k. Ret (upd_thread cur (\<lambda>th. th\<lparr>t_cwd := None\<rparr>) k)))
      (\<lambda>k. let k = upd_thread cur (\<lambda>th. th\<lparr>t_exitStatus := 1\<rparr>) k in
      deref (pid_search (t_pidValue th) k) (\<lambda>i.
      let k = k\<lparr>pidHead := (pidHead k)[i := (pidHead k ! i)\<lparr>didExit := 1, exitCode := Some code\<rparr>]\<rparr> in
      andthen (V (parentSem (pidHead k ! i)) k) (\<lambda>k.
      assertk (numthreads k > 0)
      (mi_switch S_ZOMB [F_dead] (k\<lparr>numthreads := numthreads k - 1\<rparr>)))))))"

text \<open>The loop of \<^verbatim>\<open>thread_killall\<close> prints the name of every sleeper.\<close>

fun killall_loop :: "nat \<Rightarrow> nat karray \<Rightarrow> int \<Rightarrow> kernel \<Rightarrow> string list run" where
  "killall_loop 0 a i k = Ret []"
| "killall_loop (Suc n) a i k =
     andthen (array_getguy a i) (\<lambda>t. deref t (\<lambda>t. deref (k_threads k t) (\<lambda>th.
     andthen (killall_loop n a (i + 1) k) (\<lambda>names. Ret (t_name th # names)))))"

definition thread_killall :: "kernel \<Rightarrow> kernel run" where
  "thread_killall k =
     assertk (curspl k > 0)
     (deref (sleepers k) (\<lambda>a.
      andthen (killall_loop (nat (array_getnum a)) a 0 k) (\<lambda>_.
      case kmalloc k of (ok, k) \<Rightarrow>
      andthen (array_setsize ok a 0) (\<lambda>(result, a).
      assertk (result = None) (Ret (k\<lparr>sleepers := Some a\<rparr>))))))"

definition thread_panic :: "kernel \<Rightarrow> kernel run" where
  "thread_panic k =
     assertk (curspl k > 0) (andthen (thread_killall k) scheduler_killall)"

definition thread_shutdown :: "kernel \<Rightarrow> kernel run" where
  "thread_shutdown k =
     deref (sleepers k) (\<lambda>_. deref (zombies k) (\<lambda>_. Ret (k\<lparr>sleepers := None, zombies := None\<rparr>)))"

end
