(* ===== verification/ThreadLists.thy ===== *)
theory ThreadLists
  imports Threads
begin

text \<open>
  The lists of the thread system, seen as lists of threads.

  \<open>klists k rq sl zb\<close> says that the run queue, the array of sleepers and the array of zombies are
  well formed and hold the threads \<open>rq\<close>, \<open>sl\<close> and \<open>zb\<close>.  The lemmas read off the effect of
  the list operations of the kernel from a run that returns; they rest on the interfaces
  \<open>pointer_array\<close> and \<open>fifo_queue\<close>.
\<close>

section \<open>Queues and arrays of threads\<close>

definition que_is :: "nat kqueue \<Rightarrow> nat list \<Rightarrow> bool" where
  "que_is q ts \<longleftrightarrow> q_inv q \<and> q_list q = map Some ts"

definition arr_is :: "nat karray \<Rightarrow> nat list \<Rightarrow> bool" where
  "arr_is a ts \<longleftrightarrow> array_inv a \<and> array_list a = map Some ts"

definition klists :: "kernel \<Rightarrow> nat list \<Rightarrow> nat list \<Rightarrow> nat list \<Rightarrow> bool" where
  "klists k rq sl zb \<longleftrightarrow> (\<exists>q. runqueue k = Some q \<and> que_is q rq) \<and>
     (\<exists>a. sleepers k = Some a \<and> arr_is a sl) \<and> (\<exists>a. zombies k = Some a \<and> arr_is a zb)"

lemma klistsI: "runqueue k = Some q \<Longrightarrow> que_is q rq \<Longrightarrow> sleepers k = Some a \<Longrightarrow> arr_is a sl \<Longrightarrow>
    zombies k = Some z \<Longrightarrow> arr_is z zb \<Longrightarrow> klists k rq sl zb"
  by (simp add: klists_def)

lemma klistsE:
  assumes "klists k rq sl zb"
  obtains q a z where "runqueue k = Some q" "que_is q rq" "sleepers k = Some a" "arr_is a sl"
    "zombies k = Some z" "arr_is z zb"
  using assms by (auto simp: klists_def)

lemma arr_is_num: "arr_is a ts \<Longrightarrow> array_getnum a = int (length ts)"
  using ka.getnum_view [of a] by (simp add: arr_is_def)

lemma arr_is_getguy: "arr_is a ts \<Longrightarrow> i < length ts \<Longrightarrow> array_getguy a (int i) = Ret (Some (ts ! i))"
  using ka.getguy_view [of a i] by (simp add: arr_is_def)

lemma arr_is_remove:
  "arr_is a ts \<Longrightarrow> i < length ts \<Longrightarrow>
     \<exists>a'. array_remove a (int i) = Ret a' \<and> arr_is a' (take i ts @ drop (Suc i) ts)"
  using ka.remove_view [of a i] by (auto simp: arr_is_def take_map drop_map)

lemma arr_is_add:
  assumes "arr_is a ts" "array_add ok a t = Ret (r, a')"
  shows "if r = None then arr_is a' (ts @ [t]) else a' = a"
proof -
  from ka.add_total [of a ok t] assms obtain "array_inv a'"
    "r = None \<and> array_list a' = array_list a @ [Some t] \<or> r = Some ENOMEM \<and> a' = a"
    by (auto simp: arr_is_def)
  with assms(1) show ?thesis by (auto simp: arr_is_def)
qed

lemma arr_is_preallocate:
  assumes "arr_is a ts" "array_preallocate ok a n = Ret (r, a')"
  shows "arr_is a' ts"
  using assms ka.preallocate_view [of a n] ka.preallocate_fail [of a n]
  by (cases ok) (auto simp: arr_is_def)

lemma arr_is_clear:
  assumes "arr_is a ts"
  shows "\<exists>a'. array_setsize ok a 0 = Ret (None, a') \<and> arr_is a' []"
proof -
  from assms have "array_inv a" by (simp add: arr_is_def)
  then show ?thesis
    by (cases rule: array_invE)
      (auto simp: array_setsize_def arr_is_def array_inv_def array_list_def split: option.splits)
qed

lemma q_addtail_Ret:
  assumes "q_inv q" "q_addtail ok q x = Ret (r, q')"
  shows "q_inv q' \<and> (if r = None then q_list q' = q_list q @ [Some x] else q' = q)"
proof (cases "q_len q + 1 < q_size q \<or> q_size q < 2 ^ 30")
  case True
  then show ?thesis
  proof (cases "q_len q + 1 < q_size q")
    case True
    with assms q_addtail_room [OF assms(1), of ok x] q_put_room [OF assms(1), of "Some x"] show ?thesis by auto
  next
    case False
    with True q_len_less [OF assms(1)] have "q_len q + 1 = q_size q" "q_size q < 2 ^ 30" by auto
    from q_addtail_full [OF assms(1) this, of x] assms show ?thesis by (cases ok) auto
  qed
next
  case False
  with q_len_less [OF assms(1)] have full: "q_len q + 1 = q_size q" "2 ^ 30 \<le> q_size q" by auto
  then have "(q_nextwrite q + 1) mod q_size q = q_nextread q" using q_full_iff assms(1) by blast
  moreover have "q_newsize (q_size q) (q_size q + 1) = Panic" using full(2) by (simp add: q_newsize.simps)
  moreover have "q_size q + 3 = Suc (Suc (q_size q + 1))" by simp
  ultimately have "q_addtail ok q x = Panic \<or> q_size q = 0"
    unfolding q_addtail_def by (simp only: q_addtail_f.simps q_grow_f.simps) (simp add: Let_def assertk_def)
  with assms show ?thesis by (auto simp: q_inv_def)
qed

lemma que_is_addtail:
  assumes "que_is q ts" "q_addtail ok q t = Ret (r, q')"
  shows "if r = None then que_is q' (ts @ [t]) else q' = q"
  using q_addtail_Ret [of q ok t r q'] assms by (auto simp: que_is_def split: if_splits)

lemma que_is_preallocate:
  assumes "que_is q ts" "q_preallocate ok q n = Ret (r, q')"
  shows "que_is q' ts"
proof (cases "q_size q < n")
  case False
  with assms show ?thesis by (simp add: q_preallocate_def)
next
  case True
  then have g: "q_grow_f (q_size q + 2) ok q n = Ret (r, q')"
    using assms(2) by (simp add: q_preallocate_def q_grow_def)
  have fuel: "q_size q + 2 = Suc (q_size q + 1)" by simp
  from g obtain m where m: "q_newsize (q_size q) n = Ret m"
    unfolding fuel q_grow_f.simps by (auto simp: andthen_Ret_iff)
  show ?thesis
  proof (cases ok)
    case True
    have "q_inv q" "q_size q < q_size q + 2" using assms(1) by (simp_all add: que_is_def)
    from q_grow_f_newsize [OF this(1) \<open>q_size q < n\<close> m this(2)] g True assms(1) show ?thesis
      by (auto simp: que_is_def)
  next
    case False
    with g m have "q' = q" unfolding fuel q_grow_f.simps by simp
    with assms(1) show ?thesis by simp
  qed
qed

lemma que_is_remhead:
  assumes "que_is q (t # ts)"
  shows "\<exists>q'. q_remhead q = Ret (Some t, q') \<and> que_is q' ts"
  using q_remhead_list [of q "Some t" "map Some ts"] assms by (auto simp: que_is_def)

lemma que_is_empty: "que_is q ts \<Longrightarrow> q_empty q \<longleftrightarrow> ts = []"
  by (simp add: que_is_def q_empty_iff)

section \<open>Kernel operations on the lists\<close>

text \<open>Every run of these that returns changes the list named and the outcomes of \<open>kmalloc\<close> left.\<close>

lemma make_runnable_Ret:
  assumes "make_runnable t k = Ret (r, k')" "runqueue k = Some q" "que_is q rq"
  shows "curspl k > 0 \<and> (\<exists>oom q'. k' = k\<lparr>k_oom := oom, runqueue := Some q'\<rparr> \<and>
     que_is q' (if r = None then rq @ [t] else rq))"
proof -
  obtain ok k1 where km: "kmalloc k = (ok, k1)" by fastforce
  from kmalloc_frame [OF this] obtain oom where k1: "k1 = k\<lparr>k_oom := oom\<rparr>" by blast
  from assms km k1 obtain q' where q': "q_addtail ok q t = Ret (r, q')" "k' = k\<lparr>k_oom := oom, runqueue := Some q'\<rparr>"
    and spl: "curspl k > 0"
    by (auto simp: make_runnable_def andthen_Ret_iff)
  from que_is_addtail [OF assms(3) q'(1)] assms(3) have "que_is q' (if r = None then rq @ [t] else rq)"
    by (auto split: if_splits)
  with q'(2) spl show ?thesis by blast
qed

lemma sleepers_add_Ret:
  assumes "sleepers_add t k = Ret (r, k')" "sleepers k = Some a" "arr_is a sl"
  shows "\<exists>oom a'. k' = k\<lparr>k_oom := oom, sleepers := Some a'\<rparr> \<and> arr_is a' (if r = None then sl @ [t] else sl)"
proof -
  obtain ok k1 where km: "kmalloc k = (ok, k1)" by fastforce
  from kmalloc_frame [OF this] obtain oom where k1: "k1 = k\<lparr>k_oom := oom\<rparr>" by blast
  from assms km k1 obtain a' where a': "array_add ok a t = Ret (r, a')" "k' = k\<lparr>k_oom := oom, sleepers := Some a'\<rparr>"
    by (auto simp: sleepers_add_def andthen_Ret_iff)
  from arr_is_add [OF assms(3) a'(1)] assms(3) have "arr_is a' (if r = None then sl @ [t] else sl)"
    by (auto split: if_splits)
  with a'(2) show ?thesis by blast
qed

lemma zombies_add_Ret:
  assumes "zombies_add t k = Ret (r, k')" "zombies k = Some a" "arr_is a zb"
  shows "\<exists>oom a'. k' = k\<lparr>k_oom := oom, zombies := Some a'\<rparr> \<and> arr_is a' (if r = None then zb @ [t] else zb)"
proof -
  obtain ok k1 where km: "kmalloc k = (ok, k1)" by fastforce
  from kmalloc_frame [OF this] obtain oom where k1: "k1 = k\<lparr>k_oom := oom\<rparr>" by blast
  from assms km k1 obtain a' where a': "array_add ok a t = Ret (r, a')" "k' = k\<lparr>k_oom := oom, zombies := Some a'\<rparr>"
    by (auto simp: zombies_add_def andthen_Ret_iff)
  from arr_is_add [OF assms(3) a'(1)] assms(3) have "arr_is a' (if r = None then zb @ [t] else zb)"
    by (auto split: if_splits)
  with a'(2) show ?thesis by blast
qed

text \<open>A wakeup moves exactly the threads that sleep on the address, in order, to the run queue.\<close>

definition sleeps_on :: "kernel \<Rightarrow> waddr \<Rightarrow> nat \<Rightarrow> bool" where
  "sleeps_on k addr t \<longleftrightarrow> (\<exists>th. k_threads k t = Some th \<and> t_sleepaddr th = Some addr)"

lemma wakeup_loop_Ret:
  assumes "wakeup_loop fuel addr (int i) k = Ret k'" "runqueue k = Some q" "que_is q rq"
    "sleepers k = Some a" "arr_is a (ss @ ts)" "length ss = i"
  shows "\<exists>oom q' a'. k' = k\<lparr>k_oom := oom, runqueue := Some q', sleepers := Some a'\<rparr> \<and>
     que_is q' (rq @ filter (sleeps_on k addr) ts) \<and> arr_is a' (ss @ filter (\<lambda>t. \<not> sleeps_on k addr t) ts)"
  using assms
proof (induction fuel arbitrary: i k q rq a ss ts)
  case (Suc fuel)
  note run = Suc.prems(1) and q = Suc.prems(2,3) and a = Suc.prems(4,5) and i = Suc.prems(6)
  show ?case
  proof (cases ts)
    case Nil
    with run a i have "k' = k" by (simp add: arr_is_num)
    moreover have "k = k\<lparr>k_oom := k_oom k, runqueue := Some q, sleepers := Some a\<rparr>" using q a by simp
    ultimately show ?thesis using q a Nil
      by (intro exI [of _ "k_oom k"] exI [of _ q] exI [of _ a]) simp
  next
    case (Cons t ts')
    have g: "array_getguy a (int i) = Ret (Some t)" "int i < array_getnum a"
      using arr_is_getguy [OF a(2), of i] arr_is_num [OF a(2)] Cons i by (simp_all add: nth_append)
    with run a obtain th where th: "k_threads k t = Some th" by (auto simp: deref_Ret_iff)
    show ?thesis
    proof (cases "t_sleepaddr th = Some addr")
      case True
      from arr_is_remove [OF a(2), of i] Cons i
      obtain a' where a': "array_remove a (int i) = Ret a'" "arr_is a' (ss @ ts')" by auto
      from run a g th True a'(1) obtain k1 where k1: "make_runnable t (k\<lparr>sleepers := Some a'\<rparr>) = Ret (None, k1)"
        "wakeup_loop fuel addr (int i) k1 = Ret k'" by (auto simp: andthen_Ret_iff)
      from make_runnable_Ret [OF k1(1), of q rq] q
      obtain oom q' where k1': "k1 = k\<lparr>sleepers := Some a', k_oom := oom, runqueue := Some q'\<rparr>" "que_is q' (rq @ [t])"
        by auto
      have so: "sleeps_on k1 = sleeps_on k" by (intro ext) (simp add: k1' sleeps_on_def)
      from Suc.IH [OF k1(2), of q' "rq @ [t]" a' ss ts'] k1' a'(2) i
      show ?thesis using True th unfolding so by (auto simp: Cons sleeps_on_def)
    next
      case False
      with run a g th have "wakeup_loop fuel addr (int (i + 1)) k = Ret k'" by (simp add: add.commute)
      from Suc.IH [OF this q a(1), of "ss @ [t]" ts'] a(2) i Cons False th
      show ?thesis by (auto simp: sleeps_on_def)
    qed
  qed
qed simp

lemma thread_wakeup_Ret:
  assumes "thread_wakeup addr k = Ret k'" "klists k rq sl zb"
  obtains oom q a where "curspl k > 0" "k' = k\<lparr>k_oom := oom, runqueue := Some q, sleepers := Some a\<rparr>"
    "klists k' (rq @ filter (sleeps_on k addr) sl) (filter (\<lambda>t. \<not> sleeps_on k addr t) sl) zb"
proof -
  from assms(2) obtain q a z where l: "runqueue k = Some q" "que_is q rq" "sleepers k = Some a" "arr_is a sl"
    "zombies k = Some z" "arr_is z zb" by (rule klistsE)
  have run: "wakeup_loop (nat (array_getnum a) + 1) addr (int 0) k = Ret k'" and spl: "curspl k > 0"
    using assms(1) l(3) by (simp_all add: thread_wakeup_def)
  from wakeup_loop_Ret [OF run l(1-3), of "[]" sl] l(4) obtain oom q' a' where
    k': "k' = k\<lparr>k_oom := oom, runqueue := Some q', sleepers := Some a'\<rparr>"
      "que_is q' (rq @ filter (sleeps_on k addr) sl)" "arr_is a' (filter (\<lambda>t. \<not> sleeps_on k addr t) sl)" by auto
  have "klists k' (rq @ filter (sleeps_on k addr) sl) (filter (\<lambda>t. \<not> sleeps_on k addr t) sl) zb"
    using k' l by (intro klistsI [of k' q' _ a' _ z]) simp_all
  with spl k'(1) that show thesis by blast
qed

end
