(* ===== verification/ThreadInv.thy ===== *)
theory ThreadInv
  imports ThreadLists
begin

text \<open>
  The invariant of the thread system and its preservation by the context switch.

  \<open>tinv\<close>: every thread structure is on exactly one of the run queue, the sleepers and the zombies, or is
  the current thread; the counter \<^verbatim>\<open>numthreads\<close> is the number of those that are not zombies; a
  thread that is not running is parked inside \<^verbatim>\<open>mi_switch\<close> or has never run.  \<open>winv\<close>: no
  wakeup is lost, that is, a thread sleeps on a semaphore or lock only while its count is zero.
  \<open>pinv\<close>: every thread has a pid of its own, and the semaphore of a pid is down exactly while its
  process runs.
\<close>

section \<open>The invariant\<close>

definition cur_list :: "kernel \<Rightarrow> nat list" where
  "cur_list k = (case curthread k of None \<Rightarrow> [] | Some t \<Rightarrow> [t])"

definition parked :: "thread \<Rightarrow> bool" where
  "parked th \<longleftrightarrow> (\<exists>f fs. t_frames th = f # fs \<and> (f = F_start \<or> f = F_switch))"

definition thread_ok :: "kernel \<Rightarrow> nat list \<Rightarrow> nat list \<Rightarrow> nat \<Rightarrow> thread \<Rightarrow> bool" where
  "thread_ok k sl zb t th \<longleftrightarrow> stack_check th \<and> t < k_next k \<and>
     (curthread k \<noteq> Some t \<longrightarrow> parked th) \<and> (t \<in> set sl \<longrightarrow> t_sleepaddr th \<noteq> None) \<and>
     (t \<in> set zb \<longrightarrow> t_vmspace th = None \<and> t_cwd th = None \<and> t_frames th = [F_switch, F_dead])"

definition tinv :: "kernel \<Rightarrow> nat list \<Rightarrow> nat list \<Rightarrow> nat list \<Rightarrow> bool" where
  "tinv k rq sl zb \<longleftrightarrow> klists k rq sl zb \<and> distinct (cur_list k @ rq @ sl @ zb) \<and>
     set (cur_list k @ rq @ sl @ zb) = dom (k_threads k) \<and>
     numthreads k = int (length (cur_list k @ rq @ sl)) \<and>
     (\<forall>t th. k_threads k t = Some th \<longrightarrow> thread_ok k sl zb t th)"

definition winv :: "kernel \<Rightarrow> nat list \<Rightarrow> bool" where
  "winv k sl \<longleftrightarrow>
     (\<forall>t \<in> set sl. \<forall>s. sleeps_on k (A_sem s) t \<longrightarrow> (\<exists>sm. k_sems k s = Some sm \<and> sem_count sm = 0)) \<and>
     (\<forall>t \<in> set sl. \<forall>l. sleeps_on k (A_lock l) t \<longrightarrow> (\<exists>lk. k_locks k l = Some lk \<and> lock_count lk = 0)) \<and>
     (\<forall>s sm. k_sems k s = Some sm \<longrightarrow> 0 \<le> sem_count sm \<and> s < k_next k) \<and>
     (\<forall>l lk. k_locks k l = Some lk \<longrightarrow> 0 \<le> lock_count lk \<and> l < k_next k)"

definition pid_sems :: "kernel \<Rightarrow> nat set" where
  "pid_sems k = {s. \<exists>p \<in> set (pidHead k). parentSem p = Some s}"

definition pid_sem_ok :: "kernel \<Rightarrow> pid \<Rightarrow> bool" where
  "pid_sem_ok k p \<longleftrightarrow> (\<exists>s sm. parentSem p = Some s \<and> k_sems k s = Some sm \<and>
     sem_count sm = (if isUsed p = 1 \<and> didExit p = 0 then 0 else 1)) \<and> (isUsed p = 0 \<or> isUsed p = 1)"

definition pid_ok :: "kernel \<Rightarrow> nat list \<Rightarrow> nat \<Rightarrow> thread \<Rightarrow> bool" where
  "pid_ok k zb t th \<longleftrightarrow> 1 \<le> t_pidValue th \<and> t_pidValue th \<le> int (length (pidHead k)) \<and>
     (let p = pidHead k ! nat (t_pidValue th - 1) in
      isUsed p = 1 \<and> (t_pidValue th = 1 \<or> didExit p = (if t \<in> set zb then 1 else 0)))"

definition pinv :: "kernel \<Rightarrow> nat list \<Rightarrow> bool" where
  "pinv k zb \<longleftrightarrow> pids_wf (pidHead k) \<and> parentSem (pidHead k ! 0) = None \<and>
     (\<forall>t th. k_threads k t = Some th \<longrightarrow> pid_ok k zb t th) \<and>
     (\<forall>t u th uh. k_threads k t = Some th \<and> k_threads k u = Some uh \<and> t_pidValue th = t_pidValue uh \<longrightarrow> t = u) \<and>
     (\<forall>i. 0 < i \<and> i < length (pidHead k) \<longrightarrow> pid_sem_ok k (pidHead k ! i)) \<and>
     (\<forall>i j s. i < length (pidHead k) \<and> j < length (pidHead k) \<and> parentSem (pidHead k ! i) = Some s \<and>
        parentSem (pidHead k ! j) = Some s \<longrightarrow> i = j)"

lemma pinvD:
  assumes "pinv k zb"
  shows "pids_wf (pidHead k)" "parentSem (pidHead k ! 0) = None"
    "k_threads k t = Some th \<Longrightarrow> pid_ok k zb t th"
    "k_threads k t = Some th \<Longrightarrow> k_threads k u = Some uh \<Longrightarrow> t_pidValue th = t_pidValue uh \<Longrightarrow> t = u"
    "0 < i \<Longrightarrow> i < length (pidHead k) \<Longrightarrow> pid_sem_ok k (pidHead k ! i)"
    "i < length (pidHead k) \<Longrightarrow> j < length (pidHead k) \<Longrightarrow> parentSem (pidHead k ! i) = Some s \<Longrightarrow>
       parentSem (pidHead k ! j) = Some s \<Longrightarrow> i = j"
  using assms unfolding pinv_def by blast+

lemma pinvI:
  assumes "pids_wf (pidHead k)" "parentSem (pidHead k ! 0) = None"
    "\<And>t th. k_threads k t = Some th \<Longrightarrow> pid_ok k zb t th"
    "\<And>t u th uh. k_threads k t = Some th \<Longrightarrow> k_threads k u = Some uh \<Longrightarrow> t_pidValue th = t_pidValue uh \<Longrightarrow> t = u"
    "\<And>i. 0 < i \<Longrightarrow> i < length (pidHead k) \<Longrightarrow> pid_sem_ok k (pidHead k ! i)"
    "\<And>i j s. i < length (pidHead k) \<Longrightarrow> j < length (pidHead k) \<Longrightarrow> parentSem (pidHead k ! i) = Some s \<Longrightarrow>
       parentSem (pidHead k ! j) = Some s \<Longrightarrow> i = j"
  shows "pinv k zb"
  unfolding pinv_def using assms by blast

text \<open>Device interrupts raise semaphores of their drivers, none of the process table.\<close>

definition iinv :: "kernel \<Rightarrow> bool" where
  "iinv k \<longleftrightarrow> (\<forall>s. Irq_V s \<in> set (k_irqs k) \<longrightarrow> s \<notin> pid_sems k \<and> s < k_next k)"

definition kinv :: "kernel \<Rightarrow> nat list \<Rightarrow> nat list \<Rightarrow> nat list \<Rightarrow> bool" where
  "kinv k rq sl zb \<longleftrightarrow> tinv k rq sl zb \<and> winv k sl \<and> pinv k zb \<and> iinv k"

lemmas kinv_parts = kinv_def tinv_def winv_def pinv_def iinv_def

section \<open>Irrelevant fields\<close>

text \<open>The parts of the state the invariant looks at.\<close>

definition same_core :: "kernel \<Rightarrow> kernel \<Rightarrow> bool" where
  "same_core k k' \<longleftrightarrow> k_threads k' = k_threads k \<and> k_sems k' = k_sems k \<and> k_locks k' = k_locks k \<and>
     curthread k' = curthread k \<and> sleepers k' = sleepers k \<and> zombies k' = zombies k \<and> runqueue k' = runqueue k \<and>
     numthreads k' = numthreads k \<and> pidHead k' = pidHead k \<and> k_irqs k' = k_irqs k \<and> k_next k' = k_next k"

lemma klists_cong:
  "sleepers k' = sleepers k \<Longrightarrow> zombies k' = zombies k \<Longrightarrow> runqueue k' = runqueue k \<Longrightarrow>
     klists k' rq sl zb = klists k rq sl zb"
  by (simp add: klists_def)

lemma sleeps_on_cong: "k_threads k' = k_threads k \<Longrightarrow> sleeps_on k' = sleeps_on k"
  by (intro ext) (simp add: sleeps_on_def)

lemma kinv_same_core: "same_core k k' \<Longrightarrow> kinv k' rq sl zb = kinv k rq sl zb"
  by (simp add: same_core_def kinv_parts klists_def cur_list_def thread_ok_def sleeps_on_def
      pid_ok_def pid_sem_ok_def pid_sems_def)

lemma same_core_simps [simp]:
  "same_core k (k\<lparr>curspl := x\<rparr>)" "same_core k (k\<lparr>in_interrupt := i\<rparr>)" "same_core k (k\<lparr>lbolt_counter := n\<rparr>)"
  "same_core k (k\<lparr>k_oom := oom\<rparr>)" "same_core k (k\<lparr>tlb := t\<rparr>)" "same_core k (k\<lparr>ram := m\<rparr>)"
  "same_core k (k\<lparr>firstpaddr := p\<rparr>)" "same_core k (k\<lparr>k_vnodes := vn\<rparr>)" "same_core k (k\<lparr>k_reclaims := rs\<rparr>)"
  "same_core k (k\<lparr>k_cvs := cs\<rparr>)" "same_core k (k\<lparr>k_console := con\<rparr>)" "same_core k (k\<lparr>k_input := inp\<rparr>)"
  by (simp_all add: same_core_def)

lemma same_core_trans: "same_core k k' \<Longrightarrow> same_core k' k'' \<Longrightarrow> same_core k k''"
  by (simp add: same_core_def)

lemmas kinv_fields [simp] = same_core_simps [THEN kinv_same_core]

section \<open>Wakeups\<close>

lemma winv_subset: "winv k sl \<Longrightarrow> set sl' \<subseteq> set sl \<Longrightarrow> winv k sl'"
  by (auto simp: winv_def)

lemma tinv_wakeup:
  assumes "tinv k rq sl zb" "klists k' (rq @ filter Q sl) (filter (\<lambda>t. \<not> Q t) sl) zb"
    "k_threads k' = k_threads k" "curthread k' = curthread k" "numthreads k' = numthreads k" "k_next k' = k_next k"
  shows "tinv k' (rq @ filter Q sl) (filter (\<lambda>t. \<not> Q t) sl) zb"
proof -
  have cur: "cur_list k' = cur_list k" using assms(4) by (simp add: cur_list_def)
  have len: "length (filter Q sl) + length (filter (\<lambda>t. \<not> Q t) sl) = length sl" by (rule sum_length_filter_compl)
  have "thread_ok k' (filter (\<lambda>t. \<not> Q t) sl) zb t th" if "k_threads k t = Some th" for t th
    using assms(1) that unfolding tinv_def thread_ok_def assms(4,6) by auto
  moreover have "distinct (cur_list k @ (rq @ filter Q sl) @ filter (\<lambda>t. \<not> Q t) sl @ zb)"
    using assms(1) unfolding tinv_def by auto
  moreover have "set (cur_list k @ (rq @ filter Q sl) @ filter (\<lambda>t. \<not> Q t) sl @ zb) = dom (k_threads k)"
    using assms(1) unfolding tinv_def by auto
  ultimately show ?thesis using assms len unfolding tinv_def cur by simp
qed

lemma thread_wakeup_kinv:
  assumes "thread_wakeup addr k = Ret k'" "kinv k rq sl zb"
  obtains oom q a where "k' = k\<lparr>k_oom := oom, runqueue := Some q, sleepers := Some a\<rparr>" "curspl k > 0"
    "kinv k' (rq @ filter (sleeps_on k addr) sl) (filter (\<lambda>t. \<not> sleeps_on k addr t) sl) zb"
proof -
  have "klists k rq sl zb" using assms(2) by (simp add: kinv_def tinv_def)
  from assms(1) this obtain oom q a where k': "curspl k > 0" "k' = k\<lparr>k_oom := oom, runqueue := Some q, sleepers := Some a\<rparr>"
    "klists k' (rq @ filter (sleeps_on k addr) sl) (filter (\<lambda>t. \<not> sleeps_on k addr t) sl) zb"
    by (rule thread_wakeup_Ret)
  let ?sl = "filter (\<lambda>t. \<not> sleeps_on k addr t) sl"
  have "tinv k' (rq @ filter (sleeps_on k addr) sl) ?sl zb"
    using k' assms(2) by (intro tinv_wakeup [of k]) (simp_all add: kinv_def)
  moreover have "winv k ?sl" using assms(2) by (auto simp: kinv_def intro: winv_subset)
  then have "winv k' ?sl" unfolding winv_def k'(2) by (simp add: sleeps_on_def)
  moreover have "pinv k' zb" "iinv k'" using assms(2)
    unfolding k'(2) by (simp_all add: kinv_parts pid_ok_def pid_sem_ok_def pid_sems_def)
  ultimately show thesis using that k' by (simp add: kinv_def)
qed


lemma V_Ret:
  assumes "V sem k = Ret k'"
  obtains s sm k1 where "sem = Some s" "k_sems k s = Some sm" "0 < int_incr (sem_count sm)"
    "thread_wakeup (A_sem s) (k\<lparr>curspl := SPL_HIGH, k_sems := (k_sems k)(s \<mapsto> sm\<lparr>sem_count := int_incr (sem_count sm)\<rparr>)\<rparr>) = Ret k1"
    "k' = k1\<lparr>curspl := curspl k\<rparr>"
  using assms that
  by (auto simp: V_def splhigh_def splx_def [of SPL_HIGH] Let_def deref_Ret_iff andthen_Ret_iff
      split: option.splits)

text \<open>
  Raising a semaphore.  The count goes up by one, the sleepers on it move to the run queue; the invariants
  of threads and of wakeups hold again.
\<close>

lemma winv_raise:
  assumes "winv k sl" "k_sems k s = Some sm" "0 < int_incr (sem_count sm)"
  shows "winv (k\<lparr>k_sems := (k_sems k)(s \<mapsto> sm\<lparr>sem_count := int_incr (sem_count sm)\<rparr>)\<rparr>)
     (filter (\<lambda>t. \<not> sleeps_on k (A_sem s) t) sl)"
  using assms unfolding winv_def by (auto simp: sleeps_on_def)

definition V_effect :: "nat \<Rightarrow> kernel \<Rightarrow> kernel \<Rightarrow> nat list \<Rightarrow> nat list \<Rightarrow> nat list \<Rightarrow> nat list \<Rightarrow> bool" where
  "V_effect s k k' rq sl rq' sl' \<longleftrightarrow>
     rq' = rq @ filter (sleeps_on k (A_sem s)) sl \<and> sl' = filter (\<lambda>t. \<not> sleeps_on k (A_sem s) t) sl \<and>
     (\<exists>sm oom q a. k_sems k s = Some sm \<and> 0 < int_incr (sem_count sm) \<and>
        k' = k\<lparr>k_sems := (k_sems k)(s \<mapsto> sm\<lparr>sem_count := int_incr (sem_count sm)\<rparr>),
               k_oom := oom, runqueue := Some q, sleepers := Some a\<rparr>)"

lemma V_tinv_winv:
  assumes "V (Some s) k = Ret k'" "tinv k rq sl zb" "winv k sl"
  obtains rq' sl' where "V_effect s k k' rq sl rq' sl'" "tinv k' rq' sl' zb" "winv k' sl'"
proof -
  from assms(1) obtain sm k1 where v: "k_sems k s = Some sm" "0 < int_incr (sem_count sm)"
    "thread_wakeup (A_sem s) (k\<lparr>curspl := SPL_HIGH, k_sems := (k_sems k)(s \<mapsto> sm\<lparr>sem_count := int_incr (sem_count sm)\<rparr>)\<rparr>) = Ret k1"
    "k' = k1\<lparr>curspl := curspl k\<rparr>" by (auto elim: V_Ret)
  let ?k = "k\<lparr>curspl := SPL_HIGH, k_sems := (k_sems k)(s \<mapsto> sm\<lparr>sem_count := int_incr (sem_count sm)\<rparr>)\<rparr>"
  have on: "sleeps_on ?k = sleeps_on k" by (rule sleeps_on_cong) simp
  have t: "tinv ?k rq sl zb" using assms(2)
    by (simp add: tinv_def klists_def cur_list_def thread_ok_def)
  then have "klists ?k rq sl zb" by (simp add: tinv_def)
  from v(3) this obtain oom q a where k1: "k1 = ?k\<lparr>k_oom := oom, runqueue := Some q, sleepers := Some a\<rparr>"
    "klists k1 (rq @ filter (sleeps_on k (A_sem s)) sl) (filter (\<lambda>t. \<not> sleeps_on k (A_sem s) t) sl) zb"
    unfolding on [symmetric] by (rule thread_wakeup_Ret)
  let ?rq = "rq @ filter (sleeps_on k (A_sem s)) sl" and ?sl = "filter (\<lambda>t. \<not> sleeps_on k (A_sem s) t) sl"
  have "tinv k1 ?rq ?sl zb" using tinv_wakeup [OF t k1(2)] k1(1) by simp
  then have "tinv k' ?rq ?sl zb" unfolding v(4) by (simp add: tinv_def klists_def cur_list_def thread_ok_def)
  moreover have "winv k' ?sl" using winv_raise [OF assms(3) v(1,2)]
    unfolding v(4) k1(1) winv_def by (simp add: sleeps_on_def)
  moreover have "V_effect s k k' rq sl ?rq ?sl" unfolding V_effect_def using v k1(1) by auto
  ultimately show thesis using that by blast
qed

lemma pinv_other_sem:
  assumes "pinv k zb" "s \<notin> pid_sems k" "pidHead k' = pidHead k" "k_threads k' = k_threads k"
    "\<And>u. u \<noteq> s \<Longrightarrow> k_sems k' u = k_sems k u"
  shows "pinv k' zb"
proof -
  have "pid_sem_ok k' p" if "pid_sem_ok k p" "p \<in> set (pidHead k)" for p
    using that assms(2,5) unfolding pid_sem_ok_def pid_sems_def by fastforce
  then show ?thesis using assms(1) unfolding pinv_def assms(3,4) by (auto simp: pid_ok_def assms(3))
qed

lemma V_kinv:
  assumes "V (Some s) k = Ret k'" "kinv k rq sl zb" "s \<notin> pid_sems k"
  obtains rq' sl' where "V_effect s k k' rq sl rq' sl'" "kinv k' rq' sl' zb"
proof -
  from assms(2) have parts: "tinv k rq sl zb" "winv k sl" "pinv k zb" "iinv k" by (simp_all add: kinv_def)
  from assms(1) parts(1,2) obtain rq' sl' where e: "V_effect s k k' rq sl rq' sl'" "tinv k' rq' sl' zb" "winv k' sl'"
    by (rule V_tinv_winv)
  from e(1) obtain sm oom q a where
    k': "k' = k\<lparr>k_sems := (k_sems k)(s \<mapsto> sm\<lparr>sem_count := int_incr (sem_count sm)\<rparr>),
               k_oom := oom, runqueue := Some q, sleepers := Some a\<rparr>" by (auto simp: V_effect_def)
  have "pinv k' zb" using pinv_other_sem [OF parts(3) assms(3), of k'] by (simp add: k')
  moreover have "iinv k'" using parts(4) by (simp add: iinv_def pid_sems_def k')
  ultimately have "kinv k' rq' sl' zb" using e by (simp add: kinv_def)
  with e(1) that show thesis by blast
qed

section \<open>The idle loop and the scheduler\<close>

text \<open>What can change while the processor idles.\<close>

definition idle_frame :: "kernel \<Rightarrow> kernel \<Rightarrow> bool" where
  "idle_frame k k' \<longleftrightarrow> k_threads k' = k_threads k \<and> curthread k' = curthread k \<and> zombies k' = zombies k \<and>
     numthreads k' = numthreads k \<and> pidHead k' = pidHead k \<and> curspl k' = curspl k \<and> in_interrupt k' = in_interrupt k \<and>
     k_locks k' = k_locks k \<and> k_next k' = k_next k \<and> k_cvs k' = k_cvs k \<and> k_vnodes k' = k_vnodes k \<and>
     tlb k' = tlb k \<and> ram k' = ram k \<and> firstpaddr k' = firstpaddr k \<and> lastpaddr k' = lastpaddr k"

lemma idle_frame_trans: "idle_frame k k' \<Longrightarrow> idle_frame k' k'' \<Longrightarrow> idle_frame k k''"
  by (simp add: idle_frame_def)

lemma hardclock_tick_kinv:
  assumes "hardclock_tick k = Ret k'" "kinv k rq sl zb"
  obtains rq' sl' oom q a n where "k' = k\<lparr>k_oom := oom, runqueue := Some q, sleepers := Some a, lbolt_counter := n\<rparr>"
    "kinv k' rq' sl' zb"
proof (cases "HZ \<le> lbolt_counter k + 1")
  case True
  let ?k = "k\<lparr>lbolt_counter := 0\<rparr>"
  from True assms(1) have w: "thread_wakeup A_lbolt ?k = Ret k'" by (simp add: hardclock_tick_def Let_def)
  from assms(2) have "kinv ?k rq sl zb" by simp
  with w obtain oom q a where "k' = ?k\<lparr>k_oom := oom, runqueue := Some q, sleepers := Some a\<rparr>"
    "kinv k' (rq @ filter (sleeps_on ?k A_lbolt) sl) (filter (\<lambda>t. \<not> sleeps_on ?k A_lbolt t) sl) zb"
    by (rule thread_wakeup_kinv)
  then show thesis by (intro that [where oom = oom and q = q and a = a and n = 0]) simp_all
next
  case False
  then have k': "k' = k\<lparr>lbolt_counter := lbolt_counter k + 1\<rparr>" using assms(1) by (simp add: hardclock_tick_def Let_def)
  from assms(2) obtain q a where "runqueue k = Some q" "sleepers k = Some a"
    by (auto simp: kinv_def tinv_def klists_def)
  with k' assms(2) show thesis
    by (intro that [where oom = "k_oom k" and q = q and a = a and n = "lbolt_counter k + 1"]) simp_all
qed

lemma idle_interrupt_kinv:
  assumes "idle_interrupt i k = Ret k'" "kinv k rq sl zb" "\<And>s. i = Irq_V s \<Longrightarrow> s \<notin> pid_sems k"
  obtains rq' sl' where "idle_frame k k'" "kinv k' rq' sl' zb" "k_irqs k' = k_irqs k"
proof -
  let ?k = "k\<lparr>curspl := SPL_HIGH, in_interrupt := 1\<rparr>"
  have inv: "kinv ?k rq sl zb" using assms(2) by simp
  show thesis
  proof (cases i)
    case Irq_clock
    with assms(1) obtain k1 where k1: "hardclock_tick ?k = Ret k1" "k' = k1\<lparr>in_interrupt := in_interrupt k, curspl := curspl k\<rparr>"
      by (auto simp: idle_interrupt_def Let_def andthen_Ret_iff)
    from k1(1) inv obtain rq' sl' oom q a n where
      h: "k1 = ?k\<lparr>k_oom := oom, runqueue := Some q, sleepers := Some a, lbolt_counter := n\<rparr>" "kinv k1 rq' sl' zb"
      by (rule hardclock_tick_kinv)
    have "same_core k1 k'" by (simp add: same_core_def k1(2))
    from kinv_same_core [OF this] h(2) have "kinv k' rq' sl' zb" by blast
    moreover have "idle_frame k k'" "k_irqs k' = k_irqs k" by (simp_all add: idle_frame_def k1(2) h(1))
    ultimately show ?thesis by (intro that [of rq' sl'])
  next
    case (Irq_V s)
    with assms(1) obtain k1 where k1: "V (Some s) ?k = Ret k1" "k' = k1\<lparr>in_interrupt := in_interrupt k, curspl := curspl k\<rparr>"
      by (auto simp: idle_interrupt_def Let_def andthen_Ret_iff)
    have "s \<notin> pid_sems ?k" using assms(3) Irq_V by (simp add: pid_sems_def)
    with k1(1) inv obtain rq' sl' where e: "V_effect s ?k k1 rq sl rq' sl'" "kinv k1 rq' sl' zb" by (rule V_kinv)
    have "same_core k1 k'" by (simp add: same_core_def k1(2))
    from kinv_same_core [OF this] e(2) have "kinv k' rq' sl' zb" by blast
    moreover have "idle_frame k k'" "k_irqs k' = k_irqs k"
      using e(1) by (auto simp: idle_frame_def V_effect_def k1(2))
    ultimately show ?thesis by (intro that [of rq' sl'])
  qed
qed


lemma pid_sems_cong: "pidHead k' = pidHead k \<Longrightarrow> pid_sems k' = pid_sems k"
  by (simp add: pid_sems_def)

lemma idle_loop_kinv:
  assumes "idle_loop irqs k = Ret k'" "kinv k rq sl zb" "\<And>s. Irq_V s \<in> set irqs \<Longrightarrow> s \<notin> pid_sems k \<and> s < k_next k"
  shows "\<exists>rq' sl'. idle_frame k k' \<and> kinv k' rq' sl' zb \<and> rq' \<noteq> []"
  using assms
proof (induction irqs arbitrary: k rq sl)
  case Nil
  then obtain q where q: "runqueue k = Some q" "que_is q rq" by (auto simp: kinv_def tinv_def klists_def)
  with Nil(1) have "rq \<noteq> []" "k' = k\<lparr>k_irqs := []\<rparr>"
    by (auto simp: idle_loop.simps [of "[]"] que_is_empty split: if_splits)
  moreover from this(2) Nil(2) have "kinv k' rq sl zb"
    by (simp add: kinv_parts klists_def cur_list_def thread_ok_def sleeps_on_def pid_ok_def pid_sem_ok_def)
  ultimately show ?case by (intro exI [of _ rq] exI [of _ sl]) (simp add: idle_frame_def)
next
  case (Cons i irqs)
  from Cons.prems(2) obtain q where q: "runqueue k = Some q" "que_is q rq" by (auto simp: kinv_def tinv_def klists_def)
  show ?case
  proof (cases "rq = []")
    case False
    with q Cons.prems(1) have "k' = k\<lparr>k_irqs := i # irqs\<rparr>"
      by (simp add: idle_loop.simps [of "i # irqs"] que_is_empty)
    moreover from this Cons.prems(2,3) have "kinv k' rq sl zb"
      by (simp add: kinv_parts klists_def cur_list_def thread_ok_def sleeps_on_def pid_ok_def pid_sem_ok_def pid_sems_def)
    ultimately show ?thesis using False by (intro exI [of _ rq] exI [of _ sl]) (simp add: idle_frame_def)
  next
    case True
    with q Cons.prems(1) obtain k1 where k1: "idle_interrupt i k = Ret k1" "idle_loop irqs k1 = Ret k'"
      by (auto simp: idle_loop.simps [of "i # irqs"] que_is_empty andthen_Ret_iff)
    have "\<And>s. i = Irq_V s \<Longrightarrow> s \<notin> pid_sems k" using Cons.prems(3) by auto
    with k1(1) Cons.prems(2) obtain rq1 sl1 where f: "idle_frame k k1" "kinv k1 rq1 sl1 zb"
      by (rule idle_interrupt_kinv)
    have "pidHead k1 = pidHead k" and nx: "k_next k1 = k_next k" using f(1) by (simp_all add: idle_frame_def)
    from pid_sems_cong [OF this(1)] have "\<And>s. Irq_V s \<in> set irqs \<Longrightarrow> s \<notin> pid_sems k1 \<and> s < k_next k1"
      using Cons.prems(3) by (simp add: nx)
    from Cons.IH [OF k1(2) f(2) this] obtain rq' sl' where
      "idle_frame k1 k'" "kinv k' rq' sl' zb" "rq' \<noteq> []" by blast
    with idle_frame_trans [OF f(1)] show ?thesis by blast
  qed
qed

text \<open>The scheduler takes the first runnable thread off the queue; made current, it completes the invariant.\<close>

lemma kinv_dispatch:
  assumes "kinv k (t # rq) sl zb" "curthread k = None" "que_is q rq"
  shows "kinv (k\<lparr>runqueue := Some q, curthread := Some t\<rparr>) rq sl zb"
proof -
  let ?k = "k\<lparr>runqueue := Some q, curthread := Some t\<rparr>"
  have "thread_ok ?k sl zb u th" if "k_threads k u = Some th" for u th
    using assms(1,2) that by (auto simp: kinv_def tinv_def thread_ok_def)
  moreover have "klists ?k rq sl zb" using assms by (auto simp: kinv_def tinv_def klists_def)
  moreover have "cur_list ?k = [t]" "cur_list k = []" using assms(2) by (simp_all add: cur_list_def)
  ultimately have "tinv ?k rq sl zb" using assms(1) by (auto simp: kinv_def tinv_def)
  moreover have "winv ?k sl" "pinv ?k zb" "iinv ?k" using assms(1)
    by (simp_all add: kinv_parts sleeps_on_def pid_ok_def pid_sem_ok_def pid_sems_def)
  ultimately show ?thesis by (simp add: kinv_def)
qed

lemma scheduler_kinv:
  assumes "scheduler k = Ret (nxt, k')" "kinv k rq sl zb" "curthread k = None"
  obtains t rq' sl' where "nxt = Some t" "kinv (k'\<lparr>curthread := Some t\<rparr>) rq' sl' zb" "idle_frame k k'"
    "t \<in> dom (k_threads k)" "curspl k > 0"
proof -
  from assms(1) obtain k1 where k1: "curspl k > 0" "idle_loop (k_irqs k) k = Ret k1"
    "deref (runqueue k1) (\<lambda>q. andthen (q_remhead q) (\<lambda>(t, q). Ret (t, k1\<lparr>runqueue := Some q\<rparr>))) = Ret (nxt, k')"
    by (auto simp: scheduler_def andthen_Ret_iff)
  have "\<And>s. Irq_V s \<in> set (k_irqs k) \<Longrightarrow> s \<notin> pid_sems k \<and> s < k_next k" using assms(2) by (simp add: kinv_def iinv_def)
  from idle_loop_kinv [OF k1(2) assms(2) this] obtain rq1 sl' where
    f: "idle_frame k k1" "kinv k1 rq1 sl' zb" "rq1 \<noteq> []" by blast
  then obtain t rq' where rq1: "rq1 = t # rq'" by (cases rq1) auto
  from f(2) obtain q where q: "runqueue k1 = Some q" "que_is q rq1" by (auto simp: kinv_def tinv_def klists_def)
  with rq1 que_is_remhead [of q t rq'] obtain q' where q': "q_remhead q = Ret (Some t, q')" "que_is q' rq'" by auto
  with k1(3) q(1) have k': "nxt = Some t" "k' = k1\<lparr>runqueue := Some q'\<rparr>" by simp_all
  have "kinv (k'\<lparr>curthread := Some t\<rparr>) rq' sl' zb"
    using kinv_dispatch [OF f(2) [unfolded rq1] _ q'(2)] f(1) assms(3) unfolding k'(2) by (simp add: idle_frame_def)
  moreover have "idle_frame k k'" using f(1) unfolding k'(2) idle_frame_def by simp
  moreover have "t \<in> dom (k_threads k1)" using f(2) rq1 by (auto simp: kinv_def tinv_def)
  then have "t \<in> dom (k_threads k)" using f(1) by (simp add: idle_frame_def)
  ultimately show thesis using that k'(1) k1(1) by blast
qed


section \<open>The context switch\<close>

text \<open>Putting the current thread on one of the lists.\<close>

definition stash :: "nat \<Rightarrow> frame list \<Rightarrow> kernel \<Rightarrow> kernel" where
  "stash c frs k = (upd_thread c (\<lambda>th. th\<lparr>t_frames := F_switch # frs\<rparr>) k)\<lparr>curthread := None\<rparr>"

lemma stash_simps [simp]:
  "k_sems (stash c frs k) = k_sems k" "k_locks (stash c frs k) = k_locks k" "curthread (stash c frs k) = None"
  "sleepers (stash c frs k) = sleepers k" "zombies (stash c frs k) = zombies k" "runqueue (stash c frs k) = runqueue k"
  "numthreads (stash c frs k) = numthreads k" "pidHead (stash c frs k) = pidHead k" "k_irqs (stash c frs k) = k_irqs k"
  "k_next (stash c frs k) = k_next k" "curspl (stash c frs k) = curspl k" "in_interrupt (stash c frs k) = in_interrupt k"
  by (simp_all add: stash_def)

lemma stash_threads:
  "k_threads (stash c frs k) = (k_threads k)(c := map_option (\<lambda>th. th\<lparr>t_frames := F_switch # frs\<rparr>) (k_threads k c))"
  by (simp add: stash_def)

lemma mi_switch_Ret:
  assumes "mi_switch st frs k = Ret k'"
  obtains c th k1 nxt k2 where "curthread k = Some c" "k_threads k c = Some th" "curspl k > 0"
    "(case st of S_READY \<Rightarrow> make_runnable c (stash c frs k) | S_SLEEP \<Rightarrow> sleepers_add c (stash c frs k)
       | S_ZOMB \<Rightarrow> zombies_add c (stash c frs k) | S_RUN \<Rightarrow> Panic) = Ret (None, k1)"
    "scheduler k1 = Ret (Some nxt, k2)" "md_switch c nxt (k2\<lparr>curthread := Some nxt\<rparr>) = Ret k'"
  using assms that unfolding mi_switch_def Let_def stash_def [symmetric]
  by (auto simp: with_cur_Ret_iff andthen_Ret_iff deref_Ret_iff)

lemma tinv_stash:
  assumes all: "\<And>t th. k_threads k t = Some th \<Longrightarrow> thread_ok k sl zb t th"
    and c: "curthread k = Some c" and dom: "set (rq' @ sl' @ zb') = dom (k_threads k)" "distinct (rq' @ sl' @ zb')"
    and k': "k_threads k' = k_threads (stash c frs k)" "curthread k' = None" "k_next k' = k_next k"
    and lists: "klists k' rq' sl' zb'" "set sl' \<subseteq> insert c (set sl)" "set zb' \<subseteq> insert c (set zb)"
    and num: "numthreads k' = int (length (rq' @ sl'))"
    and sleep: "\<And>th. c \<in> set sl' \<Longrightarrow> k_threads k c = Some th \<Longrightarrow> t_sleepaddr th \<noteq> None"
    and zomb: "\<And>th. c \<in> set zb' \<Longrightarrow> k_threads k c = Some th \<Longrightarrow> t_vmspace th = None \<and> t_cwd th = None \<and> frs = [F_dead]"
  shows "tinv k' rq' sl' zb'"
proof -
  have "thread_ok k' sl' zb' t th" if t: "k_threads k' t = Some th" for t th
  proof (cases "t = c")
    case True
    with t k'(1) obtain th0 where th0: "k_threads k c = Some th0" "th = th0\<lparr>t_frames := F_switch # frs\<rparr>"
      by (auto simp: stash_threads)
    with all [OF th0(1)] sleep [OF _ th0(1)] zomb [OF _ th0(1)] True k' show ?thesis
      by (auto simp: thread_ok_def parked_def stack_check_def)
  next
    case False
    with t k'(1) have "k_threads k t = Some th" by (simp add: stash_threads)
    from all [OF this] False c k' lists(2,3) show ?thesis by (auto simp: thread_ok_def)
  qed
  moreover have "dom (k_threads k') = dom (k_threads k)" unfolding k'(1) stash_threads
    by (auto simp: dom_def)
  ultimately show ?thesis using dom lists(1) num k'(2) by (simp add: tinv_def cur_list_def)
qed

lemma sleeps_on_stash: "k_threads k' = k_threads (stash c frs k) \<Longrightarrow> sleeps_on k' = sleeps_on k"
  by (intro ext) (auto simp: sleeps_on_def stash_threads split: if_splits)

lemma pinv_stash:
  assumes "pinv k zb" "k_threads k' = k_threads (stash c frs k)" "pidHead k' = pidHead k" "k_sems k' = k_sems k"
  shows "pinv k' zb"
proof -
  have eq: "\<exists>th0. k_threads k t = Some th0 \<and> t_pidValue th0 = t_pidValue th" if "k_threads k' t = Some th" for t th
    using that assms(2) by (auto simp: stash_threads split: if_splits)
  note d = pinvD [OF assms(1)]
  show ?thesis
  proof (rule pinvI)
    fix t th assume "k_threads k' t = Some th"
    from eq [OF this] obtain th0 where th0: "k_threads k t = Some th0" "t_pidValue th0 = t_pidValue th" by blast
    from d(3) [OF th0(1)] show "pid_ok k' zb t th" unfolding pid_ok_def assms(3) th0(2) .
  next
    fix t u th uh assume e: "k_threads k' t = Some th" "k_threads k' u = Some uh" "t_pidValue th = t_pidValue uh"
    from eq [OF e(1)] eq [OF e(2)] obtain th0 uh0 where "k_threads k t = Some th0" "k_threads k u = Some uh0"
      "t_pidValue th0 = t_pidValue uh0" using e(3) by auto
    then show "t = u" by (rule d(4))
  next
    fix i assume "0 < i" "i < length (pidHead k')"
    then show "pid_sem_ok k' (pidHead k' ! i)" using d(5) by (simp add: assms(3,4) pid_sem_ok_def)
  next
    fix i j s assume "i < length (pidHead k')" "j < length (pidHead k')" "parentSem (pidHead k' ! i) = Some s"
      "parentSem (pidHead k' ! j) = Some s"
    then show "i = j" using d(6) by (simp add: assms(3))
  qed (use d in \<open>simp_all add: assms(3)\<close>)
qed

lemma iinv_cong: "k_irqs k' = k_irqs k \<Longrightarrow> pidHead k' = pidHead k \<Longrightarrow> k_next k' = k_next k \<Longrightarrow> iinv k' = iinv k"
  by (simp add: iinv_def pid_sems_def)

lemma kinv_current:
  assumes "kinv k rq sl zb" "curthread k = Some c"
  shows "distinct (c # rq @ sl @ zb)" "set (c # rq @ sl @ zb) = dom (k_threads k)"
    "numthreads k = int (length (c # rq @ sl))" "klists k rq sl zb"
    "\<And>t th. k_threads k t = Some th \<Longrightarrow> thread_ok k sl zb t th"
  using assms by (simp_all add: kinv_def tinv_def cur_list_def)

lemma stash_ready:
  assumes "kinv k rq sl zb" "curthread k = Some c" "make_runnable c (stash c frs k) = Ret (None, k')"
  shows "kinv k' (rq @ [c]) sl zb" "curthread k' = None"
proof -
  note cur = kinv_current [OF assms(1,2)]
  from cur(4) obtain q a z where l: "runqueue k = Some q" "que_is q rq" "sleepers k = Some a" "arr_is a sl"
    "zombies k = Some z" "arr_is z zb" by (rule klistsE)
  from make_runnable_Ret [OF assms(3), of q rq] l obtain oom q' where
    k': "k' = (stash c frs k)\<lparr>k_oom := oom, runqueue := Some q'\<rparr>" "que_is q' (rq @ [c])" by auto
  have "tinv k' (rq @ [c]) sl zb"
    by (rule tinv_stash [OF cur(5) assms(2)]) (use cur k' l in \<open>auto simp: klists_def\<close>)
  moreover have "winv k' sl"
    using assms(1) sleeps_on_stash [of k' c frs k] unfolding kinv_def winv_def by (simp add: k'(1))
  moreover have "pinv k' zb" using assms(1) pinv_stash [of k zb k' c frs] by (simp add: kinv_def k'(1))
  moreover have "iinv k'" using assms(1) iinv_cong [of k' k] by (simp add: kinv_def k'(1))
  ultimately show "kinv k' (rq @ [c]) sl zb" by (simp add: kinv_def)
  show "curthread k' = None" by (simp add: k'(1))
qed

text \<open>The current thread may go to sleep when its wakeup cannot have happened already.\<close>

definition may_sleep :: "kernel \<Rightarrow> waddr \<Rightarrow> bool" where
  "may_sleep k addr \<longleftrightarrow> (case addr of
       A_sem s \<Rightarrow> (\<exists>sm. k_sems k s = Some sm \<and> sem_count sm = 0)
     | A_lock l \<Rightarrow> (\<exists>lk. k_locks k l = Some lk \<and> lock_count lk = 0)
     | _ \<Rightarrow> True)"

lemma stash_sleep:
  assumes "kinv k rq sl zb" "curthread k = Some c" "sleepers_add c (stash c frs k) = Ret (None, k')"
    "k_threads k c = Some th" "t_sleepaddr th = Some addr" "may_sleep k addr"
  shows "kinv k' rq (sl @ [c]) zb" "curthread k' = None"
proof -
  note cur = kinv_current [OF assms(1,2)]
  from cur(4) obtain q a z where l: "runqueue k = Some q" "que_is q rq" "sleepers k = Some a" "arr_is a sl"
    "zombies k = Some z" "arr_is z zb" by (rule klistsE)
  from sleepers_add_Ret [OF assms(3), of a sl] l obtain oom a' where
    k': "k' = (stash c frs k)\<lparr>k_oom := oom, sleepers := Some a'\<rparr>" "arr_is a' (sl @ [c])" by auto
  have "tinv k' rq (sl @ [c]) zb"
    by (rule tinv_stash [OF cur(5) assms(2)]) (use cur k' l assms in \<open>auto simp: klists_def\<close>)
  moreover have "winv k' (sl @ [c])"
  proof -
    have on: "sleeps_on k' = sleeps_on k" by (rule sleeps_on_stash [of k' c frs]) (simp add: k'(1))
    have "sleeps_on k x c \<longleftrightarrow> x = addr" for x using assms(4,5) by (auto simp: sleeps_on_def)
    then show ?thesis using assms(1,6) unfolding kinv_def winv_def on may_sleep_def by (auto simp: k'(1))
  qed
  moreover have "pinv k' zb" using assms(1) pinv_stash [of k zb k' c frs] by (simp add: kinv_def k'(1))
  moreover have "iinv k'" using assms(1) iinv_cong [of k' k] by (simp add: kinv_def k'(1))
  ultimately show "kinv k' rq (sl @ [c]) zb" by (simp add: kinv_def)
  show "curthread k' = None" by (simp add: k'(1))
qed

end
