(* ===== verification/ThreadOps.thy ===== *)
theory ThreadOps
  imports ThreadInv
begin

text \<open>
  The invariant of \<open>ThreadInv\<close> is kept by every operation of the thread system: switching, sleeping,
  waking, semaphores, locks, condition variables and the clock.  Each lemma speaks of a run that returns.
\<close>

section \<open>Updates of a thread structure\<close>

lemma kinv_upd_thread:
  assumes inv: "kinv k rq sl zb"
    and f: "\<And>th. k_threads k t = Some th \<Longrightarrow> t_pidValue (f th) = t_pidValue th \<and> stack_check (f th) = stack_check th \<and>
      (curthread k = Some t \<or> t_frames (f th) = t_frames th \<and> t_sleepaddr (f th) = t_sleepaddr th \<and>
        (t \<in> set zb \<longrightarrow> t_vmspace (f th) = t_vmspace th \<and> t_cwd (f th) = t_cwd th))"
  shows "kinv (upd_thread t f k) rq sl zb"
proof -
  let ?k = "upd_thread t f k"
  from inv have tv: "tinv k rq sl zb" and wv: "winv k sl" and pv: "pinv k zb" and iv: "iinv k" by (simp_all add: kinv_def)
  have cur: "t \<notin> set sl" "t \<notin> set zb" if "curthread k = Some t" using kinv_current(1) [OF inv that] by auto
  have dom: "dom (k_threads ?k) = dom (k_threads k)" by (auto simp: dom_def)
  have get: "\<exists>uh. k_threads k u = Some uh \<and> th = (if u = t then f uh else uh)" if "k_threads ?k u = Some th" for u th
    using that by (auto split: if_splits)
  have "thread_ok ?k sl zb u th" if u: "k_threads ?k u = Some th" for u th
  proof -
    from get [OF u] obtain uh where uh: "k_threads k u = Some uh" "th = (if u = t then f uh else uh)" by blast
    with tv have ok: "thread_ok k sl zb u uh" by (simp add: tinv_def)
    show ?thesis
    proof (cases "u = t")
      case True
      with uh ok f [of uh] cur show ?thesis by (auto simp: thread_ok_def parked_def)
    next
      case False
      with uh ok show ?thesis by (simp add: thread_ok_def)
    qed
  qed
  moreover have "klists ?k rq sl zb" "cur_list ?k = cur_list k"
    using tv by (simp_all add: tinv_def klists_def cur_list_def)
  ultimately have "tinv ?k rq sl zb" using tv unfolding tinv_def dom by simp
  moreover have on: "sleeps_on ?k a u \<longleftrightarrow> sleeps_on k a u" if "u \<in> set sl" for a u
    using that cur(1) f by (cases "u = t"; cases "k_threads k t") (auto simp: sleeps_on_def)
  have "winv ?k sl" using wv on unfolding winv_def by simp
  moreover have "pinv ?k zb"
  proof (rule pinvI)
    fix u th assume "k_threads ?k u = Some th"
    from get [OF this] obtain uh where uh: "k_threads k u = Some uh" "th = (if u = t then f uh else uh)" by blast
    with f have "t_pidValue th = t_pidValue uh" by auto
    with pinvD(3) [OF pv uh(1)] show "pid_ok ?k zb u th" by (simp add: pid_ok_def)
  next
    fix u v th vh assume e: "k_threads ?k u = Some th" "k_threads ?k v = Some vh" "t_pidValue th = t_pidValue vh"
    from get [OF e(1)] get [OF e(2)] f obtain uh' vh' where "k_threads k u = Some uh'" "k_threads k v = Some vh'"
      "t_pidValue uh' = t_pidValue vh'" using e(3) by (metis (full_types))
    then show "u = v" by (rule pinvD(4) [OF pv])
  next
    fix i assume "0 < i" "i < length (pidHead ?k)"
    with pinvD(5) [OF pv, of i] show "pid_sem_ok ?k (pidHead ?k ! i)" by (simp add: pid_sem_ok_def)
  next
    fix i j s assume "i < length (pidHead ?k)" "j < length (pidHead ?k)" "parentSem (pidHead ?k ! i) = Some s"
      "parentSem (pidHead ?k ! j) = Some s"
    then show "i = j" using pinvD(6) [OF pv, of i j s] by simp
  qed (use pinvD(1,2) [OF pv] in simp_all)
  moreover have "iinv ?k" using iv by (simp add: iinv_def pid_sems_def)
  ultimately show ?thesis by (simp add: kinv_def)
qed

lemma return_to_kinv:
  assumes "return_to frs k = Ret k'" "kinv k rq sl zb"
  shows "kinv k' rq sl zb"
proof -
  from assms(1) obtain t th where "curthread k = Some t" "k' = upd_thread t (\<lambda>th. th\<lparr>t_frames := frs\<rparr>) k"
    by (auto simp: return_to_def with_cur_Ret_iff)
  then show ?thesis using assms(2) by (auto intro!: kinv_upd_thread simp: stack_check_def)
qed

section \<open>The context switch\<close>

lemma md_switch_kinv:
  assumes "md_switch c n k = Ret k'" "kinv k rq sl zb"
  shows "kinv k' rq sl zb" "curthread k' = curthread k" "curspl k' = curspl k"
proof -
  from assms(1) consider "k' = k" | nn where
    "k' = (upd_thread c (\<lambda>th. th\<lparr>t_ininterrupt := in_interrupt k\<rparr>) k)\<lparr>in_interrupt := nn\<rparr>"
    by (auto simp: md_switch_def deref_Ret_iff split: if_splits)
  then have "kinv k' rq sl zb \<and> curthread k' = curthread k \<and> curspl k' = curspl k"
  proof cases
    case 2
    have "kinv (upd_thread c (\<lambda>th. th\<lparr>t_ininterrupt := in_interrupt k\<rparr>) k) rq sl zb"
      using assms(2) by (intro kinv_upd_thread) (simp_all add: stack_check_def)
    with 2 show ?thesis by simp
  qed (use assms in simp)
  then show "kinv k' rq sl zb" "curthread k' = curthread k" "curspl k' = curspl k" by simp_all
qed

lemma dispatch_kinv:
  assumes "scheduler k1 = Ret (Some n, k2)" "md_switch c n (k2\<lparr>curthread := Some n\<rparr>) = Ret k'"
    "kinv k1 rq sl zb" "curthread k1 = None"
  shows "\<exists>rq' sl'. kinv k' rq' sl' zb"
proof -
  from assms(1,3,4) obtain rq' sl' where "kinv (k2\<lparr>curthread := Some n\<rparr>) rq' sl' zb"
    by (auto elim: scheduler_kinv)
  from md_switch_kinv(1) [OF assms(2) this] show ?thesis by blast
qed

lemma mi_switch_ready_kinv:
  assumes "mi_switch S_READY frs k = Ret k'" "kinv k rq sl zb"
  shows "\<exists>rq' sl'. kinv k' rq' sl' zb"
proof -
  from assms(1) obtain c k1 n k2 where m: "curthread k = Some c" "make_runnable c (stash c frs k) = Ret (None, k1)"
    "scheduler k1 = Ret (Some n, k2)" "md_switch c n (k2\<lparr>curthread := Some n\<rparr>) = Ret k'"
    by (rule mi_switch_Ret) auto
  from stash_ready [OF assms(2) m(1,2)] m(3,4) show ?thesis by (blast intro: dispatch_kinv)
qed

lemma thread_yield_kinv:
  assumes "thread_yield frs k = Ret k'" "kinv k rq sl zb"
  shows "\<exists>rq' sl'. kinv k' rq' sl' zb"
proof -
  from assms(1) have "mi_switch S_READY (F_yield (curspl k) # frs) (k\<lparr>curspl := SPL_HIGH\<rparr>) = Ret k'"
    by (simp add: thread_yield_def splhigh_def splx_def [of SPL_HIGH])
  from mi_switch_ready_kinv [OF this] assms(2) show ?thesis by simp
qed

lemma thread_sleep_kinv:
  assumes "thread_sleep addr frs k = Ret k'" "kinv k rq sl zb" "may_sleep k addr"
  shows "\<exists>rq' sl'. kinv k' rq' sl' zb"
proof -
  from assms(1) obtain c th where c: "curthread k = Some c" "k_threads k c = Some th"
    "mi_switch S_SLEEP (F_sleep # frs) (upd_thread c (\<lambda>th. th\<lparr>t_sleepaddr := Some addr\<rparr>) k) = Ret k'"
    by (auto simp: thread_sleep_def with_cur_Ret_iff)
  let ?k = "upd_thread c (\<lambda>th. th\<lparr>t_sleepaddr := Some addr\<rparr>) k"
  have inv: "kinv ?k rq sl zb" using assms(2) c(1) by (intro kinv_upd_thread) (simp_all add: stack_check_def)
  from c(3) obtain k1 n k2 where m: "sleepers_add c (stash c (F_sleep # frs) ?k) = Ret (None, k1)"
    "scheduler k1 = Ret (Some n, k2)" "md_switch c n (k2\<lparr>curthread := Some n\<rparr>) = Ret k'"
    by (rule mi_switch_Ret) (use c(1) in auto)
  have "may_sleep ?k addr" using assms(3) by (simp add: may_sleep_def split: waddr.splits)
  with c(1,2) have "kinv k1 rq (sl @ [c]) zb" "curthread k1 = None"
    using stash_sleep [OF inv _ m(1), of "th\<lparr>t_sleepaddr := Some addr\<rparr>" addr] by auto
  with m(2,3) show ?thesis by (blast intro: dispatch_kinv)
qed


lemma return_spl_kinv:
  assumes "return_to frs (k\<lparr>curspl := s\<rparr>) = Ret k'" "kinv k rq sl zb"
  shows "\<exists>rq' sl'. kinv k' rq' sl' zb"
  using return_to_kinv [OF assms(1)] assms(2) kinv_fields(1) by blast

section \<open>Semaphores\<close>

lemma may_sleep_curspl [simp]: "may_sleep (k\<lparr>curspl := x\<rparr>) addr = may_sleep k addr"
  by (simp add: may_sleep_def split: waddr.splits)

lemma winvD:
  assumes "winv k sl"
  shows "t \<in> set sl \<Longrightarrow> sleeps_on k (A_sem s) t \<Longrightarrow> \<exists>sm. k_sems k s = Some sm \<and> sem_count sm = 0"
    "t \<in> set sl \<Longrightarrow> sleeps_on k (A_lock l) t \<Longrightarrow> \<exists>lk. k_locks k l = Some lk \<and> lock_count lk = 0"
    "k_sems k s = Some sm \<Longrightarrow> 0 \<le> sem_count sm \<and> s < k_next k"
    "k_locks k l = Some lk \<Longrightarrow> 0 \<le> lock_count lk \<and> l < k_next k"
  using assms unfolding winv_def by blast+

lemma winvI:
  assumes "\<And>t s. t \<in> set sl \<Longrightarrow> sleeps_on k (A_sem s) t \<Longrightarrow> \<exists>sm. k_sems k s = Some sm \<and> sem_count sm = 0"
    "\<And>t l. t \<in> set sl \<Longrightarrow> sleeps_on k (A_lock l) t \<Longrightarrow> \<exists>lk. k_locks k l = Some lk \<and> lock_count lk = 0"
    "\<And>s sm. k_sems k s = Some sm \<Longrightarrow> 0 \<le> sem_count sm \<and> s < k_next k"
    "\<And>l lk. k_locks k l = Some lk \<Longrightarrow> 0 \<le> lock_count lk \<and> l < k_next k"
  shows "winv k sl"
  unfolding winv_def using assms by blast

lemma winv_set_sem:
  assumes "winv k sl" "k_sems k s \<noteq> None" "0 \<le> sem_count sm"
    "\<And>t. t \<in> set sl \<Longrightarrow> sleeps_on k (A_sem s) t \<Longrightarrow> sem_count sm = 0"
  shows "winv (k\<lparr>k_sems := (k_sems k)(s \<mapsto> sm)\<rparr>) sl"
proof -
  have on: "sleeps_on (k\<lparr>k_sems := (k_sems k)(s \<mapsto> sm)\<rparr>) = sleeps_on k" by (rule sleeps_on_cong) simp
  show ?thesis
  proof (rule winvI)
    fix t u assume "t \<in> set sl" "sleeps_on (k\<lparr>k_sems := (k_sems k)(s \<mapsto> sm)\<rparr>) (A_sem u) t"
    then show "\<exists>sm'. k_sems (k\<lparr>k_sems := (k_sems k)(s \<mapsto> sm)\<rparr>) u = Some sm' \<and> sem_count sm' = 0"
      using assms(4) winvD(1) [OF assms(1)] unfolding on by auto
  qed (use assms(2,3) winvD(2-4) [OF assms(1)] in \<open>auto simp: on split: if_splits\<close>)
qed

lemma winv_set_lock:
  assumes "winv k sl" "k_locks k l \<noteq> None" "0 \<le> lock_count lk"
    "\<And>t. t \<in> set sl \<Longrightarrow> sleeps_on k (A_lock l) t \<Longrightarrow> lock_count lk = 0"
  shows "winv (k\<lparr>k_locks := (k_locks k)(l \<mapsto> lk)\<rparr>) sl"
proof -
  have on: "sleeps_on (k\<lparr>k_locks := (k_locks k)(l \<mapsto> lk)\<rparr>) = sleeps_on k" by (rule sleeps_on_cong) simp
  show ?thesis
  proof (rule winvI)
    fix t u assume "t \<in> set sl" "sleeps_on (k\<lparr>k_locks := (k_locks k)(l \<mapsto> lk)\<rparr>) (A_lock u) t"
    then show "\<exists>lk'. k_locks (k\<lparr>k_locks := (k_locks k)(l \<mapsto> lk)\<rparr>) u = Some lk' \<and> lock_count lk' = 0"
      using assms(4) winvD(2) [OF assms(1)] unfolding on by auto
  qed (use assms(2,3) winvD(1,3,4) [OF assms(1)] in \<open>auto simp: on split: if_splits\<close>)
qed

lemma winv_cong:
  "k_threads k' = k_threads k \<Longrightarrow> k_sems k' = k_sems k \<Longrightarrow> k_locks k' = k_locks k \<Longrightarrow> k_next k' = k_next k \<Longrightarrow>
     winv k' sl = winv k sl"
  unfolding winv_def by (simp add: sleeps_on_cong [of k' k])

lemma kinv_sem_down:
  assumes "kinv k rq sl zb" "k_sems k s = Some sm" "0 < sem_count sm" "s \<notin> pid_sems k"
  shows "kinv (k\<lparr>k_sems := (k_sems k)(s \<mapsto> sm\<lparr>sem_count := sem_count sm - 1\<rparr>)\<rparr>) rq sl zb"
proof -
  let ?k = "k\<lparr>k_sems := (k_sems k)(s \<mapsto> sm\<lparr>sem_count := sem_count sm - 1\<rparr>)\<rparr>"
  from assms(1) have p: "tinv k rq sl zb" "winv k sl" "pinv k zb" "iinv k" by (simp_all add: kinv_def)
  have "tinv ?k rq sl zb" using p(1) by (simp add: tinv_def klists_def cur_list_def thread_ok_def)
  moreover have "winv ?k sl" using winvD(1) [OF p(2)] assms(2,3) by (intro winv_set_sem [OF p(2)]) fastforce+
  moreover have "pinv ?k zb" using pinv_other_sem [OF p(3) assms(4), of ?k] by simp
  moreover have "iinv ?k" using p(4) by (simp add: iinv_def pid_sems_def)
  ultimately show ?thesis by (simp add: kinv_def)
qed

lemma P_loop_kinv:
  assumes "P_loop s spl frs k = Ret k'" "kinv k rq sl zb" "s \<notin> pid_sems k"
  shows "\<exists>rq' sl'. kinv k' rq' sl' zb"
proof -
  from assms(1) obtain sm where sm: "k_sems k s = Some sm"
    "if sem_count sm = 0 then thread_sleep (A_sem s) (F_P s spl # frs) k = Ret k'
     else 0 < sem_count sm \<and>
       return_to frs ((k\<lparr>k_sems := (k_sems k)(s \<mapsto> sm\<lparr>sem_count := sem_count sm - 1\<rparr>)\<rparr>)\<lparr>curspl := spl\<rparr>) = Ret k'"
    by (auto simp: P_loop_def deref_Ret_iff split: if_splits)
  show ?thesis
  proof (cases "sem_count sm = 0")
    case True
    with sm assms(2) show ?thesis by (intro thread_sleep_kinv) (auto simp: may_sleep_def)
  next
    case False
    with sm have "0 < sem_count sm" by simp
    from return_spl_kinv [where frs = frs and s = spl and k' = k', OF _ kinv_sem_down [OF assms(2) sm(1) this assms(3)]] sm(2) False show ?thesis
      by simp
  qed
qed

lemma P_kinv:
  assumes "P (Some s) frs k = Ret k'" "kinv k rq sl zb" "s \<notin> pid_sems k"
  shows "\<exists>rq' sl'. kinv k' rq' sl' zb"
proof -
  from assms(1) have "P_loop s (curspl k) frs (k\<lparr>curspl := SPL_HIGH\<rparr>) = Ret k'"
    by (simp add: P_def splhigh_def splx_def [of SPL_HIGH])
  from P_loop_kinv [OF this] assms(2,3) show ?thesis by (simp add: pid_sems_def)
qed

section \<open>Locks and condition variables\<close>

lemma kinv_lock_set:
  assumes "kinv k rq sl zb" "k_locks k l \<noteq> None" "0 \<le> lock_count lk"
    "\<And>t. t \<in> set sl \<Longrightarrow> sleeps_on k (A_lock l) t \<Longrightarrow> lock_count lk = 0"
  shows "kinv (k\<lparr>k_locks := (k_locks k)(l \<mapsto> lk)\<rparr>) rq sl zb"
proof -
  let ?k = "k\<lparr>k_locks := (k_locks k)(l \<mapsto> lk)\<rparr>"
  from assms(1) have p: "tinv k rq sl zb" "winv k sl" "pinv k zb" "iinv k" by (simp_all add: kinv_def)
  have "tinv ?k rq sl zb" using p(1) by (simp add: tinv_def klists_def cur_list_def thread_ok_def)
  moreover have "winv ?k sl" by (rule winv_set_lock [OF p(2) assms(2-4)])
  moreover have "pinv ?k zb" using p(3) by (simp add: pinv_def pid_ok_def pid_sem_ok_def)
  moreover have "iinv ?k" using p(4) by (simp add: iinv_def pid_sems_def)
  ultimately show ?thesis by (simp add: kinv_def)
qed

lemma lock_sleepers_zero:
  assumes "kinv k rq sl zb" "t \<in> set sl" "sleeps_on k (A_lock l) t" "k_locks k l = Some lk"
  shows "lock_count lk = 0"
  using assms(4) winvD(2) [of k sl t l] assms(1-3) by (auto simp: kinv_def)

lemma acquire_loop_kinv:
  assumes "acquire_loop l spl frs k = Ret k'" "kinv k rq sl zb"
  shows "\<exists>rq' sl'. kinv k' rq' sl' zb"
proof -
  from assms(1) obtain lk where lk: "k_locks k l = Some lk"
    "if lock_count lk = 0 then thread_sleep (A_lock l) (F_acquire l spl # frs) k = Ret k'
     else 0 < lock_count lk \<and> return_to frs ((k\<lparr>k_locks := (k_locks k)(l \<mapsto>
          lk\<lparr>lock_count := lock_count lk - 1, lock_thread := Some (curthread k)\<rparr>)\<rparr>)\<lparr>curspl := spl\<rparr>) = Ret k'"
    by (auto simp: acquire_loop_def deref_Ret_iff split: if_splits)
  show ?thesis
  proof (cases "lock_count lk = 0")
    case True
    with lk assms(2) show ?thesis by (intro thread_sleep_kinv) (auto simp: may_sleep_def)
  next
    case False
    let ?lk = "lk\<lparr>lock_count := lock_count lk - 1, lock_thread := Some (curthread k)\<rparr>"
    have "kinv (k\<lparr>k_locks := (k_locks k)(l \<mapsto> ?lk)\<rparr>) rq sl zb"
      using False lk lock_sleepers_zero [OF assms(2) _ _ lk(1)] by (intro kinv_lock_set [OF assms(2)]) auto
    from return_spl_kinv [where frs = frs and s = spl and k' = k', OF _ this] lk(2) False show ?thesis by simp
  qed
qed

lemma lock_acquire_kinv:
  assumes "lock_acquire (Some l) frs k = Ret k'" "kinv k rq sl zb"
  shows "\<exists>rq' sl'. kinv k' rq' sl' zb"
proof -
  from assms(1) have "acquire_loop l (curspl k) frs (k\<lparr>curspl := SPL_HIGH\<rparr>) = Ret k'"
    by (simp add: lock_acquire_def splhigh_def splx_def [of SPL_HIGH])
  from acquire_loop_kinv [OF this] assms(2) show ?thesis by simp
qed

text \<open>A release raises the count, forgets the holder and wakes all the threads that sleep on the lock.\<close>

lemma lock_release_effect:
  assumes "lock_release lock k = Ret k'" "kinv k rq sl zb"
  obtains l lk where "lock = Some l" "k_locks k l = Some lk"
    "k_locks k' = (k_locks k)(l \<mapsto> lk\<lparr>lock_count := int_incr (lock_count lk), lock_thread := Some None\<rparr>)"
    "k_threads k' = k_threads k" "curthread k' = curthread k" "curspl k' = curspl k" "in_interrupt k' = in_interrupt k"
    "kinv k' (rq @ filter (sleeps_on k (A_lock l)) sl) (filter (\<lambda>t. \<not> sleeps_on k (A_lock l) t) sl) zb"
proof -
  from assms(1) obtain l lk k1 where l: "lock = Some l" "k_locks k l = Some lk" "0 < int_incr (lock_count lk)"
    "thread_wakeup (A_lock l) (k\<lparr>curspl := SPL_HIGH, k_locks := (k_locks k)(l \<mapsto>
       lk\<lparr>lock_count := int_incr (lock_count lk), lock_thread := Some None\<rparr>)\<rparr>) = Ret k1" "k' = k1\<lparr>curspl := curspl k\<rparr>"
    by (auto simp: lock_release_def splhigh_def splx_def [of SPL_HIGH] Let_def deref_Ret_iff andthen_Ret_iff
        split: option.splits)
  let ?lk = "lk\<lparr>lock_count := int_incr (lock_count lk), lock_thread := Some None\<rparr>"
  let ?k = "k\<lparr>curspl := SPL_HIGH, k_locks := (k_locks k)(l \<mapsto> ?lk)\<rparr>"
  from assms(2) have p: "tinv k rq sl zb" "winv k sl" "pinv k zb" "iinv k" by (simp_all add: kinv_def)
  have on: "sleeps_on ?k = sleeps_on k" by (rule sleeps_on_cong) simp
  have t: "tinv ?k rq sl zb" using p(1) by (simp add: tinv_def klists_def cur_list_def thread_ok_def)
  then have "klists ?k rq sl zb" by (simp add: tinv_def)
  from l(4) this obtain oom q a where k1: "k1 = ?k\<lparr>k_oom := oom, runqueue := Some q, sleepers := Some a\<rparr>"
    "klists k1 (rq @ filter (sleeps_on k (A_lock l)) sl) (filter (\<lambda>t. \<not> sleeps_on k (A_lock l) t) sl) zb"
    unfolding on [symmetric] by (rule thread_wakeup_Ret)
  let ?rq = "rq @ filter (sleeps_on k (A_lock l)) sl" and ?sl = "filter (\<lambda>t. \<not> sleeps_on k (A_lock l) t) sl"
  have "winv k ?sl" by (rule winv_subset [OF p(2)]) auto
  then have "winv (k\<lparr>k_locks := (k_locks k)(l \<mapsto> ?lk)\<rparr>) ?sl" by (rule winv_set_lock) (use l(2,3) in auto)
  then have "winv k1 ?sl" by (subst winv_cong) (simp_all add: k1(1))
  moreover have "tinv k1 ?rq ?sl zb" using tinv_wakeup [OF t k1(2)] k1(1) by simp
  moreover have "pinv k1 zb" using p(3) by (simp add: k1(1) pinv_def pid_ok_def pid_sem_ok_def)
  moreover have "iinv k1" using p(4) by (simp add: k1(1) iinv_def pid_sems_def)
  ultimately have "kinv k1 ?rq ?sl zb" by (simp add: kinv_def)
  then have "kinv k' ?rq ?sl zb" unfolding l(5) by simp
  then show thesis by (rule that [OF l(1,2), rotated -1]) (simp_all add: l(5) k1(1))
qed

lemma lock_release_kinv:
  assumes "lock_release lock k = Ret k'" "kinv k rq sl zb"
  shows "\<exists>rq' sl'. kinv k' rq' sl' zb \<and> curthread k' = curthread k"
  by (rule lock_release_effect [OF assms]) blast

lemma wakeup_kinv:
  assumes "thread_wakeup addr k = Ret k'" "kinv k rq sl zb"
  shows "\<exists>rq' sl'. kinv k' rq' sl' zb"
  using thread_wakeup_kinv [OF assms] by metis

lemma cv_wait_kinv:
  assumes "cv_wait cv lock frs k = Ret k'" "kinv k rq sl zb"
  shows "\<exists>rq' sl'. kinv k' rq' sl' zb"
proof -
  from assms(1) obtain c l k1 where c: "lock_release lock (k\<lparr>curspl := SPL_HIGH\<rparr>) = Ret k1"
    "thread_sleep (A_cv c) (F_cv_wait l (curspl k) # frs) k1 = Ret k'"
    by (auto simp: cv_wait_def splhigh_def splx_def [of SPL_HIGH] andthen_Ret_iff split: option.splits)
  from lock_release_kinv [OF c(1), of rq sl zb] assms(2) obtain rq1 sl1 where "kinv k1 rq1 sl1 zb" by auto
  from thread_sleep_kinv [OF c(2) this] show ?thesis by (simp add: may_sleep_def)
qed

lemma cv_wake_kinv:
  assumes "andthen (lock_release lock (k\<lparr>curspl := SPL_HIGH\<rparr>)) (\<lambda>k.
      andthen (thread_wakeup addr k) (\<lambda>k. Ret (snd (splx spl k)))) = Ret k'" "kinv k rq sl zb"
  shows "\<exists>rq' sl'. kinv k' rq' sl' zb"
proof -
  from assms(1) obtain k1 k2 where c: "lock_release lock (k\<lparr>curspl := SPL_HIGH\<rparr>) = Ret k1"
    "thread_wakeup addr k1 = Ret k2" "k' = k2\<lparr>curspl := spl\<rparr>" by (auto simp: andthen_Ret_iff)
  from lock_release_kinv [OF c(1), of rq sl zb] assms(2) obtain rq1 sl1 where "kinv k1 rq1 sl1 zb" by auto
  from wakeup_kinv [OF c(2) this] c(3) show ?thesis by simp
qed

lemma cv_signal_kinv:
  assumes "cv_signal cv lock k = Ret k'" "kinv k rq sl zb"
  shows "\<exists>rq' sl'. kinv k' rq' sl' zb"
proof -
  from assms(1) obtain c where "andthen (lock_release lock (k\<lparr>curspl := SPL_HIGH\<rparr>)) (\<lambda>k'.
      andthen (thread_wakeup (A_cv c) k') (\<lambda>k'. Ret (snd (splx (curspl k) k')))) = Ret k'"
    by (auto simp: cv_signal_def splhigh_def splx_def [of SPL_HIGH] split: option.splits)
  from cv_wake_kinv [OF this assms(2)] show ?thesis .
qed

lemma cv_broadcast_kinv:
  assumes "cv_broadcast cv lock k = Ret k'" "kinv k rq sl zb"
  shows "\<exists>rq' sl'. kinv k' rq' sl' zb"
proof -
  from assms(1) obtain c where "andthen (lock_release lock (k\<lparr>curspl := SPL_HIGH\<rparr>)) (\<lambda>k'.
      andthen (thread_wakeup (A_cv c) k') (\<lambda>k'. Ret (snd (splx (curspl k) k')))) = Ret k'"
    by (auto simp: cv_broadcast_def splhigh_def splx_def [of SPL_HIGH] split: option.splits)
  from cv_wake_kinv [OF this assms(2)] show ?thesis .
qed

section \<open>The clock\<close>

lemma clock_loop_kinv:
  assumes "clock_loop n s frs k = Ret k'" "kinv k rq sl zb"
  shows "\<exists>rq' sl'. kinv k' rq' sl' zb"
proof (cases "n > 0")
  case True
  with assms(1) have "thread_sleep A_lbolt (F_clock n s # frs) k = Ret k'" by (simp add: clock_loop_def)
  from thread_sleep_kinv [OF this assms(2)] show ?thesis by (simp add: may_sleep_def)
next
  case False
  with assms(1) have "return_to frs (k\<lparr>curspl := s\<rparr>) = Ret k'" by (simp add: clock_loop_def)
  from return_spl_kinv [OF this assms(2)] show ?thesis .
qed

lemma clocksleep_kinv:
  assumes "clocksleep n frs k = Ret k'" "kinv k rq sl zb"
  shows "\<exists>rq' sl'. kinv k' rq' sl' zb"
proof -
  from assms(1) have "clock_loop n (curspl k) frs (k\<lparr>curspl := SPL_HIGH\<rparr>) = Ret k'"
    by (simp add: clocksleep_def splhigh_def splx_def [of SPL_HIGH])
  from clock_loop_kinv [OF this] assms(2) show ?thesis by simp
qed

lemma interrupt_kinv:
  assumes "interrupt i frs k = Ret k'" "kinv k rq sl zb" "\<And>s. i = Irq_V s \<Longrightarrow> s \<notin> pid_sems k"
  shows "\<exists>rq' sl'. kinv k' rq' sl' zb"
proof -
  let ?k = "k\<lparr>curspl := SPL_HIGH, in_interrupt := 1\<rparr>" and ?frs = "F_intr (in_interrupt k) (curspl k) # frs"
  have inv: "kinv ?k rq sl zb" using assms(2) by simp
  show ?thesis
  proof (cases i)
    case Irq_clock
    with assms(1) obtain k1 where k1: "hardclock_tick ?k = Ret k1" "thread_yield ?frs k1 = Ret k'"
      by (auto simp: interrupt_def Let_def andthen_Ret_iff)
    from k1(1) inv obtain rq1 sl1 where "kinv k1 rq1 sl1 zb" by (rule hardclock_tick_kinv)
    from thread_yield_kinv [OF k1(2) this] show ?thesis .
  next
    case (Irq_V s)
    with assms(1) obtain k1 where k1: "V (Some s) ?k = Ret k1" "return_to ?frs k1 = Ret k'"
      by (auto simp: interrupt_def Let_def andthen_Ret_iff)
    have "s \<notin> pid_sems ?k" using assms(3) Irq_V by (simp add: pid_sems_def)
    with k1(1) inv obtain rq1 sl1 where "kinv k1 rq1 sl1 zb" by (rule V_kinv)
    from return_to_kinv [OF k1(2) this] show ?thesis by blast
  qed
qed

end
