(* ===== verification/ThreadLife.thy ===== *)
theory ThreadLife
  imports ThreadOps
begin

text \<open>
  Birth and death of threads: \<^verbatim>\<open>exorcise\<close>, \<^verbatim>\<open>thread_create\<close>, \<^verbatim>\<open>thread_fork\<close> and
  \<^verbatim>\<open>thread_exit\<close> keep the invariant of \<open>ThreadInv\<close>.  While a thread is being created it is on
  none of the lists; the invariant then holds of the kernel without it.
\<close>

section \<open>Exorcism\<close>

definition arr_of :: "nat list \<Rightarrow> nat karray" where
  "arr_of ts = \<lparr>a_num = int (length ts), a_max = int (length ts), a_v = Some (map Some ts)\<rparr>"

lemma arr_is_arr_of: "arr_is (arr_of ts) ts"
  by (simp add: arr_is_def arr_of_def array_inv_def array_list_def)

lemma kinv_zombies:
  assumes "kinv (k\<lparr>zombies := Some a\<rparr>) rq sl zb" "arr_is a' zb"
  shows "kinv (k\<lparr>zombies := Some a'\<rparr>) rq sl zb"
  using assms by (simp add: kinv_parts klists_def cur_list_def thread_ok_def sleeps_on_def pid_ok_def pid_sem_ok_def
      pid_sems_def)

lemma pid_sems_nth: "pid_sems k = {s. \<exists>i < length (pidHead k). parentSem (pidHead k ! i) = Some s}"
  by (auto simp: pid_sems_def set_conv_nth)

text \<open>The state after one turn of the loop of \<^verbatim>\<open>exorcise\<close>.\<close>

definition buried :: "nat \<Rightarrow> thread \<Rightarrow> kernel \<Rightarrow> kernel" where
  "buried z th k = k\<lparr>pidHead := release_scan (t_pidValue th) (pidHead k), k_threads := (k_threads k)(z := None)\<rparr>"

lemma pinv_buried:
  assumes "pinv k (z # zb)" "k_threads k z = Some th" "z \<notin> set zb"
  shows "pinv (buried z th k) zb" "pid_sems (buried z th k) = pid_sems k"
proof -
  let ?k = "buried z th k" and ?v = "t_pidValue th"
  note d = pinvD [OF assms(1)]
  have sel: "k_sems ?k = k_sems k" "length (pidHead ?k) = length (pidHead k)"
    and ps: "\<And>i. i < length (pidHead k) \<Longrightarrow> pidHead ?k ! i =
      (if int i + 1 = ?v then (pidHead k ! i)\<lparr>isUsed := 0, pPid := 0, myThread := None\<rparr> else pidHead k ! i)"
    using release_scan_nth [OF d(1)] by (simp_all add: buried_def)
  have sem: "parentSem (pidHead ?k ! i) = parentSem (pidHead k ! i)" if "i < length (pidHead k)" for i
    using ps [OF that] by simp
  show "pid_sems ?k = pid_sems k" using sem sel(2) by (auto simp: pid_sems_nth)
  have ne: "0 < length (pidHead k)" using d(1) by (simp add: pids_wf_def)
  show "pinv ?k zb"
  proof (rule pinvI)
    show "pids_wf (pidHead ?k)" using release_scan_wf [OF d(1)] by (simp add: buried_def)
    show "parentSem (pidHead ?k ! 0) = None" using sem [OF ne] d(2) by simp
  next
    fix t uh assume "k_threads ?k t = Some uh"
    then have t: "t \<noteq> z" "k_threads k t = Some uh" by (auto simp: buried_def split: if_splits)
    with d(4) [OF t(2) assms(2)] have "t_pidValue uh \<noteq> ?v" by auto
    with d(3) [OF t(2)] t(1) ps [of "nat (t_pidValue uh - 1)"] ne show "pid_ok ?k zb t uh"
      by (auto simp: pid_ok_def sel Let_def)
  next
    fix t u uh vh assume "k_threads ?k t = Some uh" "k_threads ?k u = Some vh" "t_pidValue uh = t_pidValue vh"
    then show "t = u" using d(4) [of t uh u vh] by (auto simp: buried_def split: if_splits)
  next
    fix i assume i: "0 < i" "i < length (pidHead ?k)"
    with d(5) [of i] have ok: "pid_sem_ok k (pidHead k ! i)" by (simp add: sel)
    show "pid_sem_ok ?k (pidHead ?k ! i)"
    proof (cases "int i + 1 = ?v")
      case True
      then have "nat (?v - 1) = i" by simp
      with True d(3) [OF assms(2)] i have "isUsed (pidHead k ! i) = 1" "didExit (pidHead k ! i) = 1"
        by (auto simp: pid_ok_def Let_def)
      with ok True i ps [of i] show ?thesis by (auto simp: pid_sem_ok_def sel)
    next
      case False
      with ok i ps [of i] show ?thesis by (simp add: pid_sem_ok_def sel)
    qed
  next
    fix i j s assume "i < length (pidHead ?k)" "j < length (pidHead ?k)" "parentSem (pidHead ?k ! i) = Some s"
      "parentSem (pidHead ?k ! j) = Some s"
    then show "i = j" using d(6) [of i j s] sem by (simp add: sel)
  qed
qed

lemma kinv_buried:
  assumes "kinv k rq sl (z # zb)" "k_threads k z = Some th" "arr_is a zb"
  shows "kinv ((buried z th k)\<lparr>zombies := Some a\<rparr>) rq sl zb"
proof -
  let ?k = "(buried z th k)\<lparr>zombies := Some a\<rparr>"
  from assms(1) have p: "tinv k rq sl (z # zb)" "winv k sl" "pinv k (z # zb)" "iinv k" by (simp_all add: kinv_def)
  have dis: "distinct (cur_list k @ rq @ sl @ z # zb)" "set (cur_list k @ rq @ sl @ z # zb) = dom (k_threads k)"
    using p(1) by (simp_all add: tinv_def)
  have "thread_ok ?k sl zb t uh" if "k_threads ?k t = Some uh" for t uh
  proof -
    from that have "t \<noteq> z" "k_threads k t = Some uh" by (auto simp: buried_def split: if_splits)
    with p(1) have "thread_ok k sl (z # zb) t uh" by (simp add: tinv_def)
    then show ?thesis by (simp add: thread_ok_def buried_def)
  qed
  moreover have "dom (k_threads ?k) = dom (k_threads k) - {z}" by (auto simp: buried_def)
  then have "set (cur_list k @ rq @ sl @ zb) = dom (k_threads ?k)" using dis by auto
  moreover have "klists ?k rq sl zb" "cur_list ?k = cur_list k" "numthreads ?k = numthreads k"
    using p(1) assms(3) by (simp_all add: tinv_def klists_def cur_list_def buried_def)
  ultimately have "tinv ?k rq sl zb" using p(1) dis(1) by (simp add: tinv_def)
  moreover have "z \<notin> set sl" using dis(1) by auto
  then have "sleeps_on ?k x t = sleeps_on k x t" if "t \<in> set sl" for x t
    using that by (auto simp: sleeps_on_def buried_def)
  then have "winv ?k sl" using p(2) by (simp add: winv_def buried_def)
  moreover have pz: "z \<notin> set zb" using dis(1) by auto
  have "pinv ?k zb" using pinv_buried(1) [OF p(3) assms(2) pz] by (simp add: pinv_def pid_ok_def pid_sem_ok_def)
  moreover have "pid_sems ?k = pid_sems k" using pinv_buried(2) [OF p(3) assms(2) pz] by (simp add: pid_sems_def)
  then have "iinv ?k" using p(4) by (simp add: iinv_def buried_def)
  ultimately show ?thesis by (simp add: kinv_def)
qed

text \<open>What exorcism leaves alone.\<close>

definition exo_frame :: "kernel \<Rightarrow> kernel \<Rightarrow> bool" where
  "exo_frame k k' \<longleftrightarrow> curthread k' = curthread k \<and> curspl k' = curspl k \<and> in_interrupt k' = in_interrupt k \<and>
     k_next k' = k_next k \<and> k_sems k' = k_sems k"

lemma exorcise_loop_kinv:
  assumes "exorcise_loop (length zs) a (int (length ys)) k = Ret k'" "arr_is a (ys @ zs)"
    "kinv (k\<lparr>zombies := Some (arr_of zs)\<rparr>) rq sl zs"
  shows "kinv (k'\<lparr>zombies := Some (arr_of [])\<rparr>) rq sl [] \<and> exo_frame k k'"
  using assms
proof (induction zs arbitrary: ys k)
  case Nil
  then show ?case by (simp add: exo_frame_def)
next
  case (Cons z zs)
  have "array_getguy a (int (length ys)) = Ret (Some z)" using arr_is_getguy [OF Cons.prems(2), of "length ys"] by simp
  with Cons.prems(1) obtain th where th: "k_threads k z = Some th"
    "exorcise_loop (length zs) a (int (length ys) + 1) (buried z th k) = Ret k'"
    by (auto simp: deref_Ret_iff Let_def release_pid_eq assertk_Ret_iff andthen_Ret_iff thread_destroy_def
        buried_def split: if_splits)
  have "kinv ((buried z th (k\<lparr>zombies := Some (arr_of (z # zs))\<rparr>))\<lparr>zombies := Some (arr_of zs)\<rparr>) rq sl zs"
    by (rule kinv_buried [OF Cons.prems(3)]) (simp_all add: th arr_is_arr_of)
  then have "kinv ((buried z th k)\<lparr>zombies := Some (arr_of zs)\<rparr>) rq sl zs" by (simp add: buried_def)
  from Cons.IH [of "ys @ [z]", OF _ _ this] th(2) Cons.prems(2) show ?case
    by (simp add: add.commute exo_frame_def buried_def)
qed

lemma exorcise_kinv:
  assumes "exorcise k = Ret k'" "kinv k rq sl zb"
  shows "kinv k' rq sl []" "exo_frame k k'"
proof -
  from assms(2) obtain a where a: "zombies k = Some a" "arr_is a zb" by (auto simp: kinv_def tinv_def klists_def)
  from assms(1) a arr_is_num [OF a(2)] obtain k1 where k1: "exorcise_loop (length zb) a 0 k = Ret k1"
    "(case kmalloc k1 of (ok, k) \<Rightarrow> andthen (array_setsize ok a 0) (\<lambda>(result, a).
       assertk (result = None) (Ret (k\<lparr>zombies := Some a\<rparr>)))) = Ret k'"
    by (auto simp: exorcise_def andthen_Ret_iff)
  have "k = k\<lparr>zombies := Some a\<rparr>" using a(1) by simp
  with assms(2) have "kinv (k\<lparr>zombies := Some a\<rparr>) rq sl zb" by metis
  then have "kinv (k\<lparr>zombies := Some (arr_of zb)\<rparr>) rq sl zb" by (rule kinv_zombies) (rule arr_is_arr_of)
  with exorcise_loop_kinv [of zb a "[]" k k1 rq sl] k1(1) a(2)
  have e: "kinv (k1\<lparr>zombies := Some (arr_of [])\<rparr>) rq sl []" "exo_frame k k1" by auto
  obtain ok k2 where km: "kmalloc k1 = (ok, k2)" by fastforce
  from kmalloc_frame [OF this] obtain oom where k2: "k2 = k1\<lparr>k_oom := oom\<rparr>" by blast
  from arr_is_clear [OF a(2), of ok] obtain a' where a': "array_setsize ok a 0 = Ret (None, a')" "arr_is a' []" by blast
  have k': "k' = k1\<lparr>k_oom := oom, zombies := Some a'\<rparr>" using k1(2) km a'(1) k2 by simp
  have "same_core (k1\<lparr>zombies := Some a'\<rparr>) k'" by (simp add: same_core_def k')
  with kinv_zombies [OF e(1) a'(2)] kinv_same_core show "kinv k' rq sl []" by blast
  show "exo_frame k k'" using e(2) by (simp add: exo_frame_def k')
qed

text \<open>The pid of a buried process has no parent any more, and keeps none.\<close>

lemma release_scan_orphan: "pPid (ps ! j) = 0 \<Longrightarrow> pPid (release_scan v ps ! j) = 0"
proof (induction v ps arbitrary: j rule: release_scan.induct)
  case (2 v p ps)
  then show ?case by (cases j) auto
qed simp

lemma exorcise_loop_step:
  assumes "exorcise_loop (Suc n) a i k = Ret k'"
  obtains z th where "array_getguy a i = Ret (Some z)" "k_threads k z = Some th"
    "exorcise_loop n a (i + 1) (buried z th k) = Ret k'"
  using assms by (auto simp: deref_Ret_iff Let_def release_pid_eq assertk_Ret_iff andthen_Ret_iff thread_destroy_def
      buried_def split: if_splits)

lemma exorcise_loop_keeps_orphan:
  "exorcise_loop n a i k = Ret k' \<Longrightarrow> pPid (pidHead k ! j) = 0 \<Longrightarrow> pPid (pidHead k' ! j) = 0"
proof (induction n arbitrary: i k)
  case (Suc n)
  from Suc.prems(1) obtain z th where "exorcise_loop n a (i + 1) (buried z th k) = Ret k'" by (rule exorcise_loop_step)
  then show ?case by (rule Suc.IH) (simp add: buried_def release_scan_orphan Suc.prems(2))
qed simp

lemma exorcise_loop_orphans:
  assumes "exorcise_loop (length zs) a (int (length ys)) k = Ret k'" "arr_is a (ys @ zs)" "distinct zs" "z \<in> set zs"
    "k_threads k z = Some th" "pids_wf (pidHead k)" "1 \<le> t_pidValue th" "t_pidValue th \<le> int (length (pidHead k))"
  shows "pPid (pidHead k' ! nat (t_pidValue th - 1)) = 0"
  using assms
proof (induction zs arbitrary: ys k)
  case (Cons y zs)
  have g: "array_getguy a (int (length ys)) = Ret (Some y)" using arr_is_getguy [OF Cons.prems(2), of "length ys"] by simp
  from Cons.prems(1) obtain yh where y: "k_threads k y = Some yh"
    "exorcise_loop (length zs) a (int (length ys) + 1) (buried y yh k) = Ret k'"
    unfolding length_Cons by (rule exorcise_loop_step) (use g in auto)
  let ?k = "buried y yh k"
  show ?case
  proof (cases "z = y")
    case True
    with y(1) Cons.prems(5-8) have "pPid (pidHead ?k ! nat (t_pidValue th - 1)) = 0"
      by (auto simp: buried_def release_scan_eq pid_scan_wf)
    from exorcise_loop_keeps_orphan [OF y(2) this] show ?thesis .
  next
    case False
    with Cons.prems y(2) show ?thesis
      by (intro Cons.IH [of "ys @ [y]" ?k]) (simp_all add: add.commute buried_def release_scan_wf)
  qed
qed simp

lemma exorcise_orphans:
  assumes "exorcise k = Ret k'" "kinv k rq sl zb" "z \<in> set zb" "k_threads k z = Some th"
  shows "pPid (pidHead k' ! nat (t_pidValue th - 1)) = 0"
proof -
  from assms(2) obtain a where a: "zombies k = Some a" "arr_is a zb" by (auto simp: kinv_def tinv_def klists_def)
  from assms(1) a arr_is_num [OF a(2)] obtain k1 where k1: "exorcise_loop (length zb) a 0 k = Ret k1"
    "(case kmalloc k1 of (ok, k) \<Rightarrow> andthen (array_setsize ok a 0) (\<lambda>(result, a).
       assertk (result = None) (Ret (k\<lparr>zombies := Some a\<rparr>)))) = Ret k'"
    by (auto simp: exorcise_def andthen_Ret_iff)
  have p: "pinv k zb" "distinct zb" using assms(2) by (simp_all add: kinv_def tinv_def)
  have "pPid (pidHead k1 ! nat (t_pidValue th - 1)) = 0"
    by (rule exorcise_loop_orphans [where ys = "[]", OF _ _ p(2) assms(3,4)])
      (use k1(1) a(2) pinvD(1) [OF p(1)] pinvD(3) [OF p(1) assms(4)] in \<open>simp_all add: pid_ok_def\<close>)
  moreover have "pidHead k' = pidHead k1" using k1(2)
    by (cases "kmalloc k1") (auto simp: andthen_Ret_iff assertk_Ret_iff dest!: kmalloc_frame)
  ultimately show ?thesis by simp
qed

section \<open>Exit\<close>

lemma stash_zomb:
  assumes "tinv k rq sl zb" "winv k sl" "pinv k (c # zb)" "iinv k" "curthread k = Some c"
    "zombies_add c (stash c [F_dead] (k\<lparr>numthreads := numthreads k - 1\<rparr>)) = Ret (None, k')"
    "k_threads k c = Some th" "t_vmspace th = None" "t_cwd th = None"
  shows "kinv k' rq sl (zb @ [c])" "curthread k' = None"
proof -
  let ?k = "k\<lparr>numthreads := numthreads k - 1\<rparr>"
  from assms(1) have "klists k rq sl zb" by (simp add: tinv_def)
  then obtain q a z where l: "runqueue k = Some q" "que_is q rq" "sleepers k = Some a" "arr_is a sl"
    "zombies k = Some z" "arr_is z zb" by (rule klistsE)
  from zombies_add_Ret [OF assms(6), of z zb] l obtain oom z' where
    k': "k' = (stash c [F_dead] ?k)\<lparr>k_oom := oom, zombies := Some z'\<rparr>" "arr_is z' (zb @ [c])" by auto
  have thr: "k_threads k' = k_threads (stash c [F_dead] k)" by (simp add: k' stash_threads)
  have "tinv k' rq sl (zb @ [c])"
    by (rule tinv_stash [of k sl zb c rq]) (use assms k' l thr in \<open>auto simp: klists_def tinv_def cur_list_def\<close>)
  moreover have "winv k' sl"
    using assms(2) sleeps_on_stash [OF thr] unfolding winv_def by (simp add: k'(1))
  moreover have "pinv k' (c # zb)" using pinv_stash [OF assms(3) thr] by (simp add: k'(1))
  then have "pinv k' (zb @ [c])" by (simp add: pinv_def pid_ok_def)
  moreover have "iinv k'" using assms(4) iinv_cong [of k' k] by (simp add: k'(1))
  ultimately show "kinv k' rq sl (zb @ [c])" by (simp add: kinv_def)
  show "curthread k' = None" by (simp add: k'(1))
qed

text \<open>Marking the current process as exited, and raising its semaphore.\<close>

definition exited :: "nat \<Rightarrow> int \<Rightarrow> kernel \<Rightarrow> kernel" where
  "exited i code k = k\<lparr>pidHead := (pidHead k)[i := (pidHead k ! i)\<lparr>didExit := 1, exitCode := Some code\<rparr>]\<rparr>"

lemma exited_nth:
  "i < length (pidHead k) \<Longrightarrow> pidHead (exited i code k) ! j =
     (if j = i then (pidHead k ! i)\<lparr>didExit := 1, exitCode := Some code\<rparr> else pidHead k ! j)"
  by (simp add: exited_def nth_list_update)

lemma pinv_exited:
  assumes p: "pinv k zb" and c: "k_threads k c = Some th" "c \<notin> set zb" "i = nat (t_pidValue th - 1)"
    and s: "parentSem (pidHead k ! i) = Some s" "k_sems k s = Some sm"
    and k': "pidHead k' = pidHead (exited i code k)" "k_threads k' = k_threads k"
      "k_sems k' = (k_sems k)(s \<mapsto> sm\<lparr>sem_count := int_incr (sem_count sm)\<rparr>)"
  shows "pinv k' (c # zb)"
proof -
  note d = pinvD [OF p]
  have ci: "1 \<le> t_pidValue th" "i < length (pidHead k)" using d(3) [OF c(1)] c(3) by (auto simp: pid_ok_def)
  have i0: "0 < i" using d(2) s(1) by (cases "i = 0") auto
  have used: "isUsed (pidHead k ! i) = 1" "didExit (pidHead k ! i) = 0"
    using d(3) [OF c(1)] c(2) i0 unfolding pid_ok_def Let_def c(3) [symmetric] by (auto simp: c(3))
  have cnt: "sem_count sm = 0" using d(5) [OF i0 ci(2)] s used by (auto simp: pid_sem_ok_def)
  have nth: "pidHead k' ! j = (if j = i then (pidHead k ! i)\<lparr>didExit := 1, exitCode := Some code\<rparr> else pidHead k ! j)" for j
    unfolding k'(1) by (rule exited_nth [OF ci(2)])
  have len: "length (pidHead k') = length (pidHead k)" by (simp add: k'(1) exited_def)
  have sem: "parentSem (pidHead k' ! j) = parentSem (pidHead k ! j)" for j by (simp add: nth)
  show ?thesis
  proof (rule pinvI)
    show "pids_wf (pidHead k')" using d(1) len by (auto simp: pids_wf_def nth)
    show "parentSem (pidHead k' ! 0) = None" using sem d(2) by simp
  next
    fix t uh assume "k_threads k' t = Some uh"
    then have t: "k_threads k t = Some uh" by (simp add: k'(2))
    show "pid_ok k' (c # zb) t uh"
    proof (cases "t = c")
      case True
      with t c d(3) [OF c(1)] used show ?thesis by (auto simp: pid_ok_def len nth Let_def)
    next
      case False
      with d(4) [OF t c(1)] have "t_pidValue uh \<noteq> t_pidValue th" by blast
      then have "nat (t_pidValue uh - 1) \<noteq> i" using d(3) [OF t] ci(1) c(3) by (auto simp: pid_ok_def)
      with False d(3) [OF t] show ?thesis by (simp add: pid_ok_def len nth Let_def)
    qed
  next
    fix t u uh vh assume "k_threads k' t = Some uh" "k_threads k' u = Some vh" "t_pidValue uh = t_pidValue vh"
    then show "t = u" using d(4) [of t uh u vh] by (simp add: k'(2))
  next
    fix j assume j: "0 < j" "j < length (pidHead k')"
    show "pid_sem_ok k' (pidHead k' ! j)"
    proof (cases "j = i")
      case True
      with s used cnt show ?thesis by (simp add: pid_sem_ok_def nth k'(3) int_incr_def)
    next
      case False
      with d(6) [of j i s] j s(1) ci(2) have "parentSem (pidHead k ! j) \<noteq> Some s" by (auto simp: len)
      with False d(5) [of j] j show ?thesis by (auto simp: pid_sem_ok_def nth k'(3) len)
    qed
  next
    fix a b u assume "a < length (pidHead k')" "b < length (pidHead k')" "parentSem (pidHead k' ! a) = Some u"
      "parentSem (pidHead k' ! b) = Some u"
    then show "a = b" using d(6) [of a b u] by (simp add: len sem)
  qed
qed

lemma exited_V:
  assumes "kinv k rq sl zb" "curthread k = Some c" "k_threads k c = Some th" "i = nat (t_pidValue th - 1)"
    "V (parentSem (pidHead (exited i code k) ! i)) (exited i code k) = Ret k'"
  shows "\<exists>rq' sl'. tinv k' rq' sl' zb \<and> winv k' sl' \<and> pinv k' (c # zb) \<and> iinv k' \<and>
    k_threads k' = k_threads k \<and> curthread k' = curthread k \<and> pidHead k' = pidHead (exited i code k)"
proof -
  let ?k = "exited i code k"
  from assms(1) have p: "tinv k rq sl zb" "winv k sl" "pinv k zb" "iinv k" by (simp_all add: kinv_def)
  have il: "i < length (pidHead k)" using pinvD(3) [OF p(3) assms(3)] assms(4) by (auto simp: pid_ok_def)
  have sem: "parentSem (pidHead ?k ! i) = parentSem (pidHead k ! i)" by (simp add: exited_nth [OF il])
  from assms(5) obtain s where s: "parentSem (pidHead k ! i) = Some s" "V (Some s) ?k = Ret k'"
    unfolding sem by (cases "parentSem (pidHead k ! i)") (auto simp: V_def)
  have "tinv ?k rq sl zb" using p(1) by (simp add: exited_def tinv_def klists_def cur_list_def thread_ok_def)
  moreover have "winv ?k sl" by (rule iffD2 [OF winv_cong p(2)]) (simp_all add: exited_def)
  ultimately obtain rq' sl' where v: "V_effect s ?k k' rq sl rq' sl'" "tinv k' rq' sl' zb" "winv k' sl'"
    using V_tinv_winv [OF s(2)] by blast
  from v(1) obtain sm oom q a where sm: "k_sems k s = Some sm" and
    k': "k' = ?k\<lparr>k_sems := (k_sems ?k)(s \<mapsto> sm\<lparr>sem_count := int_incr (sem_count sm)\<rparr>),
      k_oom := oom, runqueue := Some q, sleepers := Some a\<rparr>" by (auto simp: V_effect_def exited_def)
  have "c \<notin> set zb" using kinv_current(1) [OF assms(1,2)] by auto
  from pinv_exited [OF p(3) assms(3) this assms(4) s(1) sm, of k' code] have "pinv k' (c # zb)"
    by (simp add: k') (simp add: exited_def)
  moreover have "pid_sems k' = pid_sems k"
    using il by (auto simp: pid_sems_nth k' exited_def nth_list_update split: if_splits)
  then have "iinv k'" using p(4) by (simp add: iinv_def k' exited_def)
  moreover have "k_threads k' = k_threads k" "curthread k' = curthread k" "pidHead k' = pidHead ?k"
    by (simp_all add: k' exited_def)
  ultimately show ?thesis using v(2,3) by blast
qed


text \<open>The first part of \<^verbatim>\<open>thread_exit\<close> gives up the address space and the current directory.\<close>

definition exit_strip :: "nat \<Rightarrow> thread \<Rightarrow> kernel \<Rightarrow> kernel run" where
  "exit_strip cur th k =
     (let k = upd_thread cur (\<lambda>th. th\<lparr>t_vmspace := None\<rparr>) (snd (splhigh k)) in
      andthen (case t_cwd th of None \<Rightarrow> Ret k
        | Some v \<Rightarrow> andthen (vnode_decref v k) (\<lambda>k. Ret (upd_thread cur (\<lambda>th. th\<lparr>t_cwd := None\<rparr>) k)))
      (\<lambda>k. Ret (upd_thread cur (\<lambda>th. th\<lparr>t_exitStatus := 1\<rparr>) k)))"

lemma vnode_decref_core: "vnode_decref v k = Ret k' \<Longrightarrow> same_core k k'"
  by (auto simp: vnode_decref_def deref_Ret_iff assertk_Ret_iff)

lemma vnode_incref_core: "vnode_incref v k = Ret k' \<Longrightarrow> same_core k k'"
  by (auto simp: vnode_incref_def deref_Ret_iff)

lemma kinv_cur_upd:
  assumes "kinv k rq sl zb" "curthread k = Some c"
    "\<And>th. t_pidValue (f th) = t_pidValue th \<and> t_stack (f th) = t_stack th"
  shows "kinv (upd_thread c f k) rq sl zb"
  using assms by (intro kinv_upd_thread) (simp_all add: stack_check_def)

lemma exit_strip_kinv:
  assumes "exit_strip c th k = Ret k'" "kinv k rq sl zb" "curthread k = Some c" "k_threads k c = Some th"
  shows "kinv k' rq sl zb \<and> curthread k' = Some c \<and> pidHead k' = pidHead k \<and> (\<exists>th'. k_threads k' c = Some th' \<and>
     t_vmspace th' = None \<and> t_cwd th' = None \<and> t_pidValue th' = t_pidValue th)"
proof -
  let ?k1 = "upd_thread c (\<lambda>th. th\<lparr>t_vmspace := None\<rparr>) (k\<lparr>curspl := SPL_HIGH\<rparr>)"
  have k1: "kinv ?k1 rq sl zb" by (rule kinv_cur_upd) (use assms in simp_all)
  obtain k2 where k2: "kinv k2 rq sl zb" "curthread k2 = Some c" "k' = upd_thread c (\<lambda>th. th\<lparr>t_exitStatus := 1\<rparr>) k2"
    "pidHead k2 = pidHead k" "\<exists>th'. k_threads k2 c = Some th' \<and> t_vmspace th' = None \<and> t_cwd th' = None \<and> t_pidValue th' = t_pidValue th"
  proof (cases "t_cwd th")
    case None
    with assms k1 show thesis by (intro that [of ?k1]) (auto simp: exit_strip_def Let_def splhigh_def splx_def [of SPL_HIGH])
  next
    case (Some v)
    with assms(1) obtain kv where kv: "vnode_decref v ?k1 = Ret kv"
      "k' = upd_thread c (\<lambda>th. th\<lparr>t_exitStatus := 1\<rparr>) (upd_thread c (\<lambda>th. th\<lparr>t_cwd := None\<rparr>) kv)"
      by (auto simp: exit_strip_def Let_def andthen_Ret_iff splhigh_def splx_def [of SPL_HIGH])
    note core = vnode_decref_core [OF kv(1)]
    have cur: "curthread kv = Some c" "k_threads kv = k_threads ?k1" "pidHead kv = pidHead k"
      using core assms(3) by (simp_all add: same_core_def)
    have "kinv kv rq sl zb" using kinv_same_core [OF core] k1 by blast
    then have "kinv (upd_thread c (\<lambda>th. th\<lparr>t_cwd := None\<rparr>) kv) rq sl zb" by (rule kinv_cur_upd) (use cur in simp_all)
    then show thesis by (rule that [OF _ _ kv(2)]) (use cur assms(4) in auto)
  qed
  have "kinv k' rq sl zb" unfolding k2(3) by (rule kinv_cur_upd [OF k2(1,2)]) simp_all
  with k2 show ?thesis by auto
qed

lemma thread_exit_strip:
  "thread_exit code k = with_cur k (\<lambda>c th. assertk (stack_check th)
     (andthen (exit_strip c th k) (\<lambda>k. deref (pid_search (t_pidValue th) k) (\<lambda>i.
      andthen (V (parentSem (pidHead (exited i code k) ! i)) (exited i code k)) (\<lambda>k.
      assertk (numthreads k > 0) (mi_switch S_ZOMB [F_dead] (k\<lparr>numthreads := numthreads k - 1\<rparr>)))))))"
  unfolding thread_exit_def exit_strip_def Let_def andthen_assoc andthen.simps exited_def ..

lemma dispatch_pids:
  assumes "scheduler k1 = Ret (Some n, k2)" "md_switch c n (k2\<lparr>curthread := Some n\<rparr>) = Ret k'"
    "kinv k1 rq sl zb" "curthread k1 = None"
  shows "pidHead k' = pidHead k1"
proof -
  from assms(1,3,4) have "pidHead k2 = pidHead k1" by (auto elim: scheduler_kinv simp: idle_frame_def)
  with assms(2) show ?thesis by (auto simp: md_switch_def deref_Ret_iff split: if_splits)
qed

lemma zombies_add_pids: "zombies_add t k = Ret (r, k') \<Longrightarrow> pidHead k' = pidHead k"
  by (cases "kmalloc k") (auto simp: zombies_add_def deref_Ret_iff andthen_Ret_iff dest!: kmalloc_frame)

text \<open>An exit leaves the thread as the last zombie and its exit code in the table.\<close>

lemma thread_exit_spec:
  assumes "thread_exit code k = Ret k'" "kinv k rq sl zb" "curthread k = Some c" "k_threads k c = Some th"
  shows "\<exists>rq' sl'. kinv k' rq' sl' (zb @ [c]) \<and> pidHead k' = pidHead (exited (nat (t_pidValue th - 1)) code k)"
proof -
  from assms obtain k1 i k2 where e:
    "exit_strip c th k = Ret k1" "pid_search (t_pidValue th) k1 = Some i"
    "V (parentSem (pidHead (exited i code k1) ! i)) (exited i code k1) = Ret k2"
    "mi_switch S_ZOMB [F_dead] (k2\<lparr>numthreads := numthreads k2 - 1\<rparr>) = Ret k'"
    by (auto simp: thread_exit_strip with_cur_Ret_iff andthen_Ret_iff deref_Ret_iff assertk_Ret_iff)
  from exit_strip_kinv [OF e(1) assms(2-4)] obtain th1 where k1: "kinv k1 rq sl zb" "curthread k1 = Some c"
    "k_threads k1 c = Some th1" "t_vmspace th1 = None" "t_cwd th1 = None" "t_pidValue th1 = t_pidValue th"
    "pidHead k1 = pidHead k" by blast
  have "pids_wf (pidHead k1)" using k1(1) by (simp add: kinv_def pinv_def)
  with e(2) have i: "i = nat (t_pidValue th1 - 1)" unfolding k1(6) by (simp add: pid_search_wf split: if_splits)
  from exited_V [OF k1(1-3) i e(3)] obtain rq' sl' where k2: "tinv k2 rq' sl' zb" "winv k2 sl'" "pinv k2 (c # zb)"
    "iinv k2" "k_threads k2 = k_threads k1" "curthread k2 = curthread k1" "pidHead k2 = pidHead (exited i code k1)" by blast
  from e(4) obtain k3 n k4 where m: "zombies_add c (stash c [F_dead] (k2\<lparr>numthreads := numthreads k2 - 1\<rparr>)) = Ret (None, k3)"
    "scheduler k3 = Ret (Some n, k4)" "md_switch c n (k4\<lparr>curthread := Some n\<rparr>) = Ret k'"
    by (rule mi_switch_Ret) (use k2(6) k1(2) in auto)
  have k3: "kinv k3 rq' sl' (zb @ [c])" "curthread k3 = None"
    using stash_zomb [OF k2(1-4) _ m(1)] k2(5,6) k1(2-5) by auto
  have "pidHead k' = pidHead (exited i code k)"
    using dispatch_pids [OF m(2,3) k3] zombies_add_pids [OF m(1)] k2(7) k1(7) by (simp add: exited_def)
  with dispatch_kinv [OF m(2,3) k3] show ?thesis by (auto simp: i k1(6))
qed

lemma thread_exit_kinv:
  assumes "thread_exit code k = Ret k'" "kinv k rq sl zb"
  shows "\<exists>rq' sl' zb'. kinv k' rq' sl' zb'"
proof -
  from assms(1) obtain c th where "curthread k = Some c" "k_threads k c = Some th"
    by (auto simp: thread_exit_strip with_cur_Ret_iff)
  from thread_exit_spec [OF assms this] show ?thesis by blast
qed


section \<open>Creation\<close>

lemma pids_wf_iff: "pids_wf ps \<longleftrightarrow> 0 < length ps \<and> (\<forall>i < length ps. pidValue (ps ! i) = int i + 1)"
  by (simp add: pids_wf_def)

lemma pids_wf_append: "pids_wf ps \<Longrightarrow> pidValue p = int (length ps) + 1 \<Longrightarrow> pids_wf (ps @ [p])"
  by (auto simp: pids_wf_def nth_append less_Suc_eq)

text \<open>A pid that has been given out and has no thread yet.\<close>

definition pid_given :: "kernel \<Rightarrow> int \<Rightarrow> bool" where
  "pid_given k v \<longleftrightarrow> 2 \<le> v \<and> v \<le> int (length (pidHead k)) \<and>
     isUsed (pidHead k ! nat (v - 1)) = 1 \<and> didExit (pidHead k ! nat (v - 1)) = 0 \<and>
     (\<forall>t th. k_threads k t = Some th \<longrightarrow> t_pidValue th \<noteq> v)"

definition sem_down :: "nat \<Rightarrow> kernel \<Rightarrow> kernel" where
  "sem_down s k = k\<lparr>k_sems := (k_sems k)(s := map_option (\<lambda>sm. sm\<lparr>sem_count := 0\<rparr>) (k_sems k s))\<rparr>"

lemma kinv_tables:
  assumes "kinv k rq sl zb" "k_threads k' = k_threads k" "curthread k' = curthread k" "k_locks k' = k_locks k"
    "sleepers k' = sleepers k" "zombies k' = zombies k" "runqueue k' = runqueue k" "numthreads k' = numthreads k"
    "k_irqs k' = k_irqs k" "k_next k \<le> k_next k'"
    and sems: "\<And>s sm. k_sems k' s = Some sm \<Longrightarrow> s < k_next k' \<and> 0 \<le> sem_count sm \<and>
        (sem_count sm = 0 \<or> k_sems k s = Some sm \<or> k_sems k s = None)"
      "\<And>s. k_sems k s \<noteq> None \<Longrightarrow> k_sems k' s \<noteq> None"
    and pids: "pinv k' zb" "pid_sems k' \<subseteq> insert (k_next k) (pid_sems k)"
  shows "kinv k' rq sl zb"
proof -
  from assms(1) have p: "tinv k rq sl zb" "winv k sl" "iinv k" by (simp_all add: kinv_def)
  note w = winvD [OF p(2)]
  have "thread_ok k' sl zb t th" if "thread_ok k sl zb t th" for t th
    using that assms(3,10) by (simp add: thread_ok_def)
  with p(1) assms(2-9) have "tinv k' rq sl zb" by (simp add: tinv_def klists_def cur_list_def)
  moreover have on: "sleeps_on k' = sleeps_on k" by (rule sleeps_on_cong) (rule assms)
  have "winv k' sl"
  proof (rule winvI)
    fix t s assume "t \<in> set sl" "sleeps_on k' (A_sem s) t"
    with w(1) obtain sm where "k_sems k s = Some sm" "sem_count sm = 0" unfolding on by blast
    moreover from this sems(2) obtain sm' where "k_sems k' s = Some sm'" by fastforce
    ultimately show "\<exists>sm. k_sems k' s = Some sm \<and> sem_count sm = 0" using sems(1) [of s sm'] by auto
  next
    fix s sm assume "k_sems k' s = Some sm"
    then show "0 \<le> sem_count sm \<and> s < k_next k'" using sems(1) [of s sm] w(3) by auto
  next
    fix l lk assume "k_locks k' l = Some lk"
    then show "0 \<le> lock_count lk \<and> l < k_next k'" using w(4) [of l lk] assms(4,10) by auto
  qed (use w(2) assms(4) in \<open>auto simp: on\<close>)
  moreover have "iinv k'" using p(3) pids(2) assms(9,10) unfolding iinv_def by fastforce
  ultimately show ?thesis using pids(1) by (simp add: kinv_def)
qed

lemma pinv_reuse:
  assumes p: "pinv k zb" and i: "0 < i" "i < length (pidHead k)" "isUsed (pidHead k ! i) = 0"
    and s: "parentSem (pidHead k ! i) = Some s"
    and k': "k' = sem_down s (k\<lparr>pidHead := (pidHead k)[i := pid_reuse par t (pidHead k ! i)]\<rparr>)"
  shows "pinv k' zb" "pid_given k' (int i + 1)" "pid_sems k' = pid_sems k"
proof -
  note d = pinvD [OF p]
  have nth: "pidHead k' ! j = (if j = i then pid_reuse par t (pidHead k ! i) else pidHead k ! j)" for j
    using i by (simp add: k' sem_down_def nth_list_update)
  have len: "length (pidHead k') = length (pidHead k)" and thr: "k_threads k' = k_threads k"
    and sems: "k_sems k' = (k_sems k)(s := map_option (\<lambda>sm. sm\<lparr>sem_count := 0\<rparr>) (k_sems k s))"
    by (simp_all add: k' sem_down_def)
  have sem: "parentSem (pidHead k' ! j) = parentSem (pidHead k ! j)" for j by (simp add: nth pid_reuse_def)
  have other: "nat (t_pidValue th - 1) \<noteq> i" if "k_threads k t = Some th" for t th
    using d(3) [OF that] i(3) by (auto simp: pid_ok_def Let_def)
  show "pid_sems k' = pid_sems k" by (simp add: pid_sems_nth len sem)
  have "t_pidValue th \<noteq> int i + 1" if "k_threads k t = Some th" for t th using other [OF that] by auto
  then show "pid_given k' (int i + 1)" using i by (simp add: pid_given_def len nth pid_reuse_def thr)
  show "pinv k' zb"
  proof (rule pinvI)
    show "pids_wf (pidHead k')" using d(1) i by (auto simp: pids_wf_iff nth len pid_reuse_def)
    show "parentSem (pidHead k' ! 0) = None" using sem d(2) by simp
  next
    fix t th assume "k_threads k' t = Some th"
    then have "k_threads k t = Some th" by (simp add: thr)
    with d(3) [OF this] other [OF this] show "pid_ok k' zb t th" by (simp add: pid_ok_def len nth Let_def)
  next
    fix t u uh vh assume "k_threads k' t = Some uh" "k_threads k' u = Some vh" "t_pidValue uh = t_pidValue vh"
    then show "t = u" using d(4) [of t uh u vh] by (simp add: thr)
  next
    fix j assume j: "0 < j" "j < length (pidHead k')"
    with d(5) [of j] have ok: "pid_sem_ok k (pidHead k ! j)" by (simp add: len)
    show "pid_sem_ok k' (pidHead k' ! j)"
    proof (cases "j = i")
      case True
      with ok s show ?thesis by (auto simp: pid_sem_ok_def nth pid_reuse_def sems)
    next
      case False
      with d(6) [of j i s] j s i(2) have "parentSem (pidHead k ! j) \<noteq> Some s" by (auto simp: len)
      with False ok show ?thesis by (auto simp: pid_sem_ok_def nth sems)
    qed
  next
    fix a b u assume "a < length (pidHead k')" "b < length (pidHead k')" "parentSem (pidHead k' ! a) = Some u"
      "parentSem (pidHead k' ! b) = Some u"
    then show "a = b" using d(6) [of a b u] by (simp add: len sem)
  qed
qed

lemma pinv_fresh:
  assumes p: "pinv k zb" "winv k sl"
    and k': "pidHead k' = pidHead k @ [pid_fresh (int (length (pidHead k)) + 1) par t (Some (k_next k))]"
      "k_threads k' = k_threads k" "k_sems k' = (k_sems k)(k_next k \<mapsto> \<lparr>sem_name = nm, sem_count = 0\<rparr>)"
  shows "pinv k' zb" "pid_given k' (int (length (pidHead k)) + 1)" "pid_sems k' = insert (k_next k) (pid_sems k)"
proof -
  note d = pinvD [OF p(1)]
  let ?n = "length (pidHead k)" and ?p = "pid_fresh (int (length (pidHead k)) + 1) par t (Some (k_next k))"
  have ne: "0 < ?n" using d(1) by (simp add: pids_wf_def)
  have nth: "pidHead k' ! j = (if j < ?n then pidHead k ! j else ?p)" if "j < Suc ?n" for j
    using that by (auto simp: k' nth_append less_Suc_eq)
  have len: "length (pidHead k') = Suc ?n" by (simp add: k')
  have old: "s \<noteq> k_next k" if "i < ?n" "parentSem (pidHead k ! i) = Some s" for i s
  proof -
    from that d(2) have "0 < i" by (cases "i = 0") auto
    from d(5) [OF this that(1)] that(2) obtain sm where "k_sems k s = Some sm" by (auto simp: pid_sem_ok_def)
    from winvD(3) [OF p(2) this] show ?thesis by simp
  qed
  show "pid_sems k' = insert (k_next k) (pid_sems k)" by (auto simp: pid_sems_def k'(1) pid_fresh_def)
  have "t_pidValue th \<noteq> int ?n + 1" if "k_threads k t = Some th" for t th using d(3) [OF that] by (auto simp: pid_ok_def)
  then show "pid_given k' (int ?n + 1)" using ne by (simp add: pid_given_def len nth pid_fresh_def k'(2) Suc_le_eq)
  show "pinv k' zb"
  proof (rule pinvI)
    show "pids_wf (pidHead k')" using d(1) by (auto simp: pids_wf_iff len nth less_Suc_eq pid_fresh_def)
    show "parentSem (pidHead k' ! 0) = None" using nth [of 0] ne d(2) by simp
  next
    fix t th assume "k_threads k' t = Some th"
    then have t: "k_threads k t = Some th" by (simp add: k'(2))
    from d(3) [OF t] have "nat (t_pidValue th - 1) < ?n" by (auto simp: pid_ok_def)
    then have "pidHead k' ! nat (t_pidValue th - 1) = pidHead k ! nat (t_pidValue th - 1)" by (simp add: nth)
    with d(3) [OF t] show "pid_ok k' zb t th" by (simp add: pid_ok_def len)
  next
    fix t u uh vh assume "k_threads k' t = Some uh" "k_threads k' u = Some vh" "t_pidValue uh = t_pidValue vh"
    then show "t = u" using d(4) [of t uh u vh] by (simp add: k'(2))
  next
    fix j assume j: "0 < j" "j < length (pidHead k')"
    show "pid_sem_ok k' (pidHead k' ! j)"
    proof (cases "j < ?n")
      case True
      from d(5) [OF j(1) True] old [OF True] True j show ?thesis by (auto simp: pid_sem_ok_def nth len k'(3))
    next
      case False
      with j show ?thesis by (simp add: pid_sem_ok_def nth len k'(3) pid_fresh_def)
    qed
  next
    fix a b u assume e: "a < length (pidHead k')" "b < length (pidHead k')" "parentSem (pidHead k' ! a) = Some u"
      "parentSem (pidHead k' ! b) = Some u"
    show "a = b"
    proof (cases "a < ?n \<and> b < ?n")
      case True
      with e d(6) [of a b u] show ?thesis by (simp add: nth)
    next
      case False
      with e old [of a u] old [of b u] show ?thesis
        by (auto simp: nth len pid_fresh_def less_Suc_eq split: if_splits)
    qed
  qed
qed

text \<open>
  The pid of a new thread and the call of \<^verbatim>\<open>P\<close> on its semaphore, which never waits: the semaphore
  of a free entry has been raised by the exit of the process that had it.
\<close>

lemma P_now_one:
  assumes "k_sems k s = Some sm" "sem_count sm = 1" "in_interrupt k = 0"
  shows "P_now (Some s) k = Ret (sem_down s k)"
  using assms by (simp add: P_now_def splhigh_def splx_def [of SPL_HIGH] sem_down_def)

lemma sem_down_simps [simp]:
  "pidHead (sem_down s k) = pidHead k" "k_threads (sem_down s k) = k_threads k" "curthread (sem_down s k) = curthread k"
  "k_locks (sem_down s k) = k_locks k" "sleepers (sem_down s k) = sleepers k" "zombies (sem_down s k) = zombies k"
  "runqueue (sem_down s k) = runqueue k" "numthreads (sem_down s k) = numthreads k" "k_irqs (sem_down s k) = k_irqs k"
  "k_next (sem_down s k) = k_next k" "curspl (sem_down s k) = curspl k" "in_interrupt (sem_down s k) = in_interrupt k"
  "k_vnodes (sem_down s k) = k_vnodes k" "k_oom (sem_down s k) = k_oom k"
  "k_sems (sem_down s k) = (k_sems k)(s := map_option (\<lambda>sm. sm\<lparr>sem_count := 0\<rparr>) (k_sems k s))"
  by (simp_all add: sem_down_def)

text \<open>What giving out a pid does not change.\<close>

definition new_frame :: "kernel \<Rightarrow> kernel \<Rightarrow> bool" where
  "new_frame k k' \<longleftrightarrow> k_threads k' = k_threads k \<and> curthread k' = curthread k \<and> k_next k \<le> k_next k' \<and>
     numthreads k' = numthreads k \<and> curspl k' = curspl k \<and> in_interrupt k' = in_interrupt k \<and>
     k_vnodes k' = k_vnodes k \<and> runqueue k' = runqueue k \<and> sleepers k' = sleepers k \<and> zombies k' = zombies k \<and>
     k_locks k' = k_locks k \<and> k_irqs k' = k_irqs k"

lemma new_pid_kinv:
  assumes "assign_pid t k = Ret (v, k1)" "kinv k rq sl zb" "curthread k = Some c" "k_threads k c = Some cur"
    "in_interrupt k = 0"
  obtains (nosem) i where "pid_search v k1 = Some i" "parentSem (pidHead k1 ! i) = None"
  | (sem) i s where "pid_search v k1 = Some i" "parentSem (pidHead k1 ! i) = Some s"
      "P_now (Some s) k1 = Ret (sem_down s k1)" "kinv (sem_down s k1) rq sl zb" "pid_given (sem_down s k1) v"
      "new_frame k (sem_down s k1)"
proof -
  from assms(2) have p: "pinv k zb" "winv k sl" by (simp_all add: kinv_def)
  note d = pinvD [OF p(1)]
  from assms(1) d(1) assms(3,4) show thesis
  proof (cases rule: assign_pid_Ret)
    case (reuse i)
    from d(5) [OF reuse(1,2)] reuse(3) obtain s sm where s: "parentSem (pidHead k ! i) = Some s" "k_sems k s = Some sm"
      "sem_count sm = 1" by (auto simp: pid_sem_ok_def)
    let ?k1 = "k\<lparr>pidHead := (pidHead k)[i := pid_reuse (t_pidValue cur) t (pidHead k ! i)]\<rparr>"
    note r = pinv_reuse [OF p(1) reuse(1-3) s(1), of "sem_down s ?k1" "t_pidValue cur" t, OF refl]
    have "kinv (sem_down s ?k1) rq sl zb"
      by (rule kinv_tables [OF assms(2)])
        (use r winvD(3) [OF p(2)] s in \<open>auto split: if_splits\<close>)
    moreover have "P_now (Some s) ?k1 = Ret (sem_down s ?k1)" by (rule P_now_one) (use s assms(5) in simp_all)
    moreover have "pid_search v ?k1 = Some i" "parentSem (pidHead ?k1 ! i) = Some s"
      using pinvD(1) [OF r(1)] reuse(1,2,4) s(1) by (simp_all add: pid_search_wf pid_reuse_def)
    moreover have "new_frame k (sem_down s ?k1)" by (simp add: new_frame_def)
    ultimately show ?thesis using r(2) reuse(4,5) that(2) by blast
  next
    case (nosem oom)
    have "pids_wf (pidHead k1)" using nosem d(1) by (simp add: pids_wf_append pid_fresh_def)
    with nosem show ?thesis by (intro that(1) [of "length (pidHead k)"]) (simp_all add: pid_search_wf pid_fresh_def)
  next
    case (sem oom)
    let ?n = "length (pidHead k)" and ?s = "k_next k"
    note f = pinv_fresh [OF p, of "sem_down ?s k1" "t_pidValue cur" t "''name''"]
    have r: "pinv (sem_down ?s k1) zb" "pid_given (sem_down ?s k1) (int ?n + 1)"
      "pid_sems (sem_down ?s k1) = insert ?s (pid_sems k)"
      by (rule f; simp add: sem)+
    have "kinv (sem_down ?s k1) rq sl zb"
      by (rule kinv_tables [OF assms(2)])
        (use r winvD(3) [OF p(2)] sem in \<open>auto split: if_splits simp: less_SucI\<close>)
    moreover have "P_now (Some ?s) k1 = Ret (sem_down ?s k1)" 
      by (rule P_now_one [where sm = "\<lparr>sem_name = ''name'', sem_count = 1\<rparr>"]) (use sem assms(5) in simp_all)
    moreover have "pid_search v k1 = Some ?n" "parentSem (pidHead k1 ! ?n) = Some ?s"
      using pinvD(1) [OF r(1)] sem by (simp_all add: pid_search_wf pid_fresh_def)
    moreover have "new_frame k (sem_down ?s k1)" by (simp add: new_frame_def sem)
    ultimately show ?thesis using r(2) sem(1) that(2) by blast
  qed
qed


lemma assign_pid_interrupt:
  assumes "assign_pid t k = Ret (v, k')" "pids_wf (pidHead k)" "curthread k = Some c" "k_threads k c = Some cur"
  shows "in_interrupt k' = in_interrupt k"
  using assms by (cases rule: assign_pid_Ret) simp_all

lemma P_now_interrupt: "P_now sem k = Ret k' \<Longrightarrow> sem \<noteq> None \<and> in_interrupt k = 0"
  by (auto simp: P_now_def assertk_Ret_iff split: option.splits)

lemma kinv_next: "kinv k rq sl zb \<Longrightarrow> kinv (k\<lparr>k_next := Suc (k_next k)\<rparr>) rq sl zb"
proof -
  assume inv: "kinv k rq sl zb"
  then have p: "pinv k zb" "winv k sl" by (simp_all add: kinv_def)
  show ?thesis
    by (rule kinv_tables [OF inv])
      (use p winvD(3) [OF p(2)] in \<open>auto simp: pinv_def pid_ok_def pid_sem_ok_def pid_sems_def less_SucI\<close>)
qed

text \<open>The kernel with a new thread that is on none of its lists.\<close>

definition with_new :: "nat \<Rightarrow> thread \<Rightarrow> kernel \<Rightarrow> kernel" where
  "with_new t th k = k\<lparr>k_threads := (k_threads k)(t \<mapsto> th)\<rparr>"

definition newborn :: "nat \<Rightarrow> thread \<Rightarrow> kernel \<Rightarrow> bool" where
  "newborn t th k \<longleftrightarrow> t < k_next k \<and> k_threads k t = None \<and> pid_given k (t_pidValue th)"

lemma thread_create_Ret:
  assumes "thread_create name k = Ret (g, k')" "kinv k rq sl zb" "curthread k = Some c"
  obtains (oom) oom where "g = None" "k' = k\<lparr>curspl := SPL_HIGH, k_oom := oom\<rparr>" "kinv k' rq sl zb"
  | (new) v k1 where "g = Some (k_next k)" "k' = with_new (k_next k) (thread_new name v) k1"
      "kinv k1 rq sl zb" "newborn (k_next k) (thread_new name v) k1" "new_frame k k1"
proof -
  note cur = kinv_current [OF assms(2,3)]
  from cur(2) obtain th where th: "k_threads k c = Some th" by auto
  let ?k0 = "k\<lparr>curspl := SPL_HIGH\<rparr>"
  obtain b1 ka where 1: "kmalloc ?k0 = (b1, ka)" by fastforce
  obtain b2 kb where 2: "kmalloc ka = (b2, kb)" by fastforce
  from kmalloc_frame [OF 1] obtain o1 where o1: "ka = ?k0\<lparr>k_oom := o1\<rparr>" by blast
  from kmalloc_frame [OF 2] obtain o2 where o2: "kb = ?k0\<lparr>k_oom := o2\<rparr>" unfolding o1 by auto
  have inv: "kinv (?k0\<lparr>k_oom := x\<rparr>) rq sl zb" for x using assms(2) by simp
  show thesis
  proof (cases "b1 \<and> b2")
    case False
    with assms(1) 1 2 have "g = None" "k' = ka \<or> k' = kb"
      by (auto simp: thread_create_def splhigh_def splx_def [of SPL_HIGH] split: if_splits)
    with inv o1 o2 show ?thesis by (auto intro: oom)
  next
    case True
    let ?kn = "kb\<lparr>k_next := Suc (k_next kb)\<rparr>"
    have nz: "numthreads ?kn \<noteq> 0" using cur(3) by (simp add: o2)
    have kn: "kinv ?kn rq sl zb" using kinv_next [OF inv [of o2]] by (simp add: o2)
    have c: "curthread ?kn = Some c" "k_threads ?kn c = Some th" using assms(3) th by (simp_all add: o2)
    from assms(1) 1 2 True nz obtain v k1 i k2 where
      a: "assign_pid (k_next kb) ?kn = Ret (v, k1)" "pid_search v k1 = Some i" "P_now (parentSem (pidHead k1 ! i)) k1 = Ret k2"
      "g = Some (k_next kb)" "k' = k2\<lparr>k_threads := (k_threads k2)(k_next kb \<mapsto> thread_new name v), curspl := curspl k\<rparr>"
      by (auto simp: thread_create_def splhigh_def splx_def [of SPL_HIGH] Let_def andthen_Ret_iff deref_Ret_iff)
    have wf: "pids_wf (pidHead ?kn)" using kn by (simp add: kinv_def pinv_def)
    have int: "in_interrupt ?kn = 0"
      using assign_pid_interrupt [OF a(1) wf c] P_now_interrupt [OF a(3)] by simp
    from a(1) kn c int show ?thesis
    proof (cases rule: new_pid_kinv)
      case (nosem i')
      with a(2) P_now_interrupt [OF a(3)] show ?thesis by simp
    next
      case (sem i' s)
      with a(2,3) have k2: "k2 = sem_down s k1" by simp
      let ?k = "k2\<lparr>curspl := curspl k\<rparr>" and ?t = "k_next k"
      have fr: "new_frame k ?k" using sem(6) by (simp add: k2 new_frame_def o2)
      have "k_threads k ?t = None"
      proof (cases "k_threads k ?t")
        case (Some uh)
        from cur(5) [OF this] show ?thesis by (simp add: thread_ok_def)
      qed
      then have "newborn ?t (thread_new name v) ?k"
        using sem(5,6) by (simp add: newborn_def new_frame_def k2 o2 pid_given_def thread_new_def)
      moreover have "kinv ?k rq sl zb" using sem(4) by (simp add: k2)
      moreover have "k' = with_new ?t (thread_new name v) ?k" using a(5) by (simp add: with_new_def o2)
      moreover have "g = Some ?t" using a(4) by (simp add: o2)
      ultimately show ?thesis using fr that(2) by blast
    qed
  qed
qed


section \<open>Fork\<close>

definition without :: "nat \<Rightarrow> kernel \<Rightarrow> kernel" where
  "without t k = k\<lparr>k_threads := (k_threads k)(t := None)\<rparr>"

text \<open>A kernel in the middle of \<^verbatim>\<open>thread_fork\<close>: the thread \<open>t\<close> exists and is on no list.\<close>

definition pend :: "nat \<Rightarrow> thread \<Rightarrow> kernel \<Rightarrow> nat list \<Rightarrow> nat list \<Rightarrow> nat list \<Rightarrow> bool" where
  "pend t th k rq sl zb \<longleftrightarrow> k_threads k t = Some th \<and> kinv (without t k) rq sl zb \<and> t < k_next k \<and>
     pid_given (without t k) (t_pidValue th)"

lemma pend_new: "kinv k rq sl zb \<Longrightarrow> newborn t th k \<Longrightarrow> pend t th (with_new t th k) rq sl zb"
proof -
  assume a: "kinv k rq sl zb" "newborn t th k"
  have "without t (with_new t th k) = k" using a(2) by (simp add: without_def with_new_def newborn_def fun_upd_idem)
  then show ?thesis using a by (simp add: pend_def newborn_def) (simp add: with_new_def)
qed

lemma pend_drop: "pend t th k rq sl zb \<Longrightarrow> kinv (k\<lparr>k_threads := (k_threads k)(t := None)\<rparr>) rq sl zb"
  by (simp add: pend_def without_def)

lemma pend_upd:
  assumes "pend t th k rq sl zb" "t_pidValue (f th) = t_pidValue th"
  shows "pend t (f th) (upd_thread t f k) rq sl zb"
proof -
  have "without t (upd_thread t f k) = without t k" by (simp add: without_def upd_thread_def)
  then show ?thesis using assms by (simp add: pend_def)
qed

lemma pend_core:
  assumes "pend t th k rq sl zb" "same_core k k'"
  shows "pend t th k' rq sl zb"
proof -
  have "same_core (without t k) (without t k')" using assms(2) by (simp add: same_core_def without_def)
  from kinv_same_core [OF this] assms show ?thesis
    by (simp add: pend_def same_core_def pid_given_def without_def)
qed

lemma kinv_lists:
  assumes "kinv k rq sl zb" "klists k' rq sl zb" "k_threads k' = k_threads k" "k_sems k' = k_sems k"
    "k_locks k' = k_locks k" "curthread k' = curthread k" "numthreads k' = numthreads k" "pidHead k' = pidHead k"
    "k_irqs k' = k_irqs k" "k_next k' = k_next k"
  shows "kinv k' rq sl zb"
  using assms by (simp add: kinv_parts cur_list_def thread_ok_def sleeps_on_def pid_ok_def pid_sem_ok_def pid_sems_def)

lemma pend_lists:
  assumes "pend t th k rq sl zb" "klists k' rq sl zb" "k_threads k' = k_threads k" "k_sems k' = k_sems k"
    "k_locks k' = k_locks k" "curthread k' = curthread k" "numthreads k' = numthreads k" "pidHead k' = pidHead k"
    "k_irqs k' = k_irqs k" "k_next k' = k_next k"
  shows "pend t th k' rq sl zb"
proof -
  have "kinv (without t k') rq sl zb"
    by (rule kinv_lists [of "without t k"]) (use assms in \<open>simp_all add: pend_def without_def klists_def\<close>)
  with assms show ?thesis by (simp add: pend_def pid_given_def without_def)
qed

lemma pend_klists: "pend t th k rq sl zb \<Longrightarrow> klists k rq sl zb"
  by (simp add: pend_def kinv_def tinv_def without_def klists_def)

text \<open>The new thread joins the run queue.\<close>

lemma pend_run:
  assumes "pend t th k rq sl zb" "que_is q (rq @ [t])" "parked th" "stack_check th"
  shows "kinv (k\<lparr>runqueue := Some q, numthreads := numthreads k + 1\<rparr>) (rq @ [t]) sl zb"
proof -
  let ?kw = "without t k" and ?k = "k\<lparr>runqueue := Some q, numthreads := numthreads k + 1\<rparr>"
  from assms(1) have inv: "kinv ?kw rq sl zb" and t: "k_threads k t = Some th" "t < k_next k"
    "pid_given ?kw (t_pidValue th)" by (simp_all add: pend_def)
  then have p: "tinv ?kw rq sl zb" "winv ?kw sl" "pinv ?kw zb" "iinv ?kw" by (simp_all add: kinv_def)
  have dom: "t \<notin> set (cur_list k @ rq @ sl @ zb)" "distinct (cur_list k @ rq @ sl @ zb)"
    "set (cur_list k @ rq @ sl @ zb) = dom (k_threads ?kw)"
    using p(1) by (auto simp: tinv_def without_def cur_list_def)
  have get: "u \<noteq> t \<Longrightarrow> k_threads ?k u = k_threads ?kw u" for u by (simp add: without_def)
  have "thread_ok ?k sl zb u uh" if u: "k_threads ?k u = Some uh" for u uh
  proof (cases "u = t")
    case True
    with t u assms(3,4) dom(1) show ?thesis by (simp add: thread_ok_def)
  next
    case False
    with u get have "k_threads ?kw u = Some uh" by simp
    with p(1) have "thread_ok ?kw sl zb u uh" by (simp add: tinv_def)
    then show ?thesis by (simp add: thread_ok_def without_def)
  qed
  moreover have "klists ?k (rq @ [t]) sl zb" "cur_list ?k = cur_list k"
    using pend_klists [OF assms(1)] assms(2) by (simp_all add: klists_def cur_list_def)
  moreover have "dom (k_threads k) = insert t (dom (k_threads ?kw))" using t(1) by (auto simp: without_def)
  then have "set (cur_list k @ (rq @ [t]) @ sl @ zb) = dom (k_threads ?k)" using dom(3) by auto
  moreover have "numthreads k = int (length (cur_list k @ rq @ sl))"
    using p(1) by (simp add: tinv_def cur_list_def without_def)
  ultimately have "tinv ?k (rq @ [t]) sl zb" using dom by (simp add: tinv_def)
  moreover have "sleeps_on ?k a u = sleeps_on ?kw a u" if "u \<in> set sl" for a u
    using that dom(1) by (auto simp: sleeps_on_def without_def)
  then have "winv ?k sl" using p(2) by (simp add: winv_def without_def)
  moreover have "pinv ?k zb"
  proof (rule pinvI)
    note d = pinvD [OF p(3)]
    show "pids_wf (pidHead ?k)" "parentSem (pidHead ?k ! 0) = None" using d(1,2) by (simp_all add: without_def)
    show "pid_sem_ok ?k (pidHead ?k ! i)" if "0 < i" "i < length (pidHead ?k)" for i
      using d(5) [of i] that by (simp add: without_def pid_sem_ok_def)
    show "i = j" if "i < length (pidHead ?k)" "j < length (pidHead ?k)" "parentSem (pidHead ?k ! i) = Some s"
      "parentSem (pidHead ?k ! j) = Some s" for i j s using d(6) [of i j s] that by (simp add: without_def)
    show "pid_ok ?k zb u uh" if u: "k_threads ?k u = Some uh" for u uh
    proof (cases "u = t")
      case True
      with u t dom(1) show ?thesis by (auto simp: pid_ok_def pid_given_def without_def Let_def)
    next
      case False
      with u get d(3) [of u uh] show ?thesis by (simp add: pid_ok_def without_def)
    qed
    have none: "t_pidValue uh \<noteq> t_pidValue th" if "k_threads ?kw u = Some uh" for u uh
      using t(3) that by (simp add: pid_given_def)
    show "u = v" if "k_threads ?k u = Some uh" "k_threads ?k v = Some vh" "t_pidValue uh = t_pidValue vh" for u v uh vh
      using that t(1) d(4) [of u uh v vh] get [of u] get [of v] none [of u uh] none [of v vh]
      by (cases "u = t"; cases "v = t") simp_all
  qed
  moreover have "iinv ?k" using p(4) by (simp add: iinv_def pid_sems_def without_def)
  ultimately show ?thesis by (simp add: kinv_def)
qed


lemma preallocate_pend:
  assumes "pend t th k rq sl zb"
  shows "preallocate_sleepers n k = Ret (r, k') \<Longrightarrow> pend t th k' rq sl zb \<and> new_frame (k\<lparr>sleepers := sleepers k'\<rparr>) k'"
    "preallocate_zombies n k = Ret (r, k') \<Longrightarrow> pend t th k' rq sl zb \<and> new_frame (k\<lparr>zombies := zombies k'\<rparr>) k'"
    "scheduler_preallocate n k = Ret (r, k') \<Longrightarrow> pend t th k' rq sl zb \<and> new_frame (k\<lparr>runqueue := runqueue k'\<rparr>) k'"
proof -
  from pend_klists [OF assms] obtain q a z where l: "runqueue k = Some q" "que_is q rq" "sleepers k = Some a" "arr_is a sl"
    "zombies k = Some z" "arr_is z zb" by (rule klistsE)
  obtain ok ka where km: "kmalloc k = (ok, ka)" by fastforce
  from kmalloc_frame [OF km] obtain oom where ka: "ka = k\<lparr>k_oom := oom\<rparr>" by blast
  show "pend t th k' rq sl zb \<and> new_frame (k\<lparr>sleepers := sleepers k'\<rparr>) k'" if "preallocate_sleepers n k = Ret (r, k')"
  proof -
    from that km l obtain a' where a': "array_preallocate ok a n = Ret (r, a')" "k' = ka\<lparr>sleepers := Some a'\<rparr>"
      by (auto simp: preallocate_sleepers_def andthen_Ret_iff)
    have "pend t th k' rq sl zb"
      by (rule pend_lists [OF assms]) (use a' ka l arr_is_preallocate [OF l(4) a'(1)] in \<open>simp_all add: klists_def\<close>)
    then show ?thesis by (simp add: new_frame_def a' ka)
  qed
  show "pend t th k' rq sl zb \<and> new_frame (k\<lparr>zombies := zombies k'\<rparr>) k'" if "preallocate_zombies n k = Ret (r, k')"
  proof -
    from that km l obtain a' where a': "array_preallocate ok z n = Ret (r, a')" "k' = ka\<lparr>zombies := Some a'\<rparr>"
      by (auto simp: preallocate_zombies_def andthen_Ret_iff)
    have "pend t th k' rq sl zb"
      by (rule pend_lists [OF assms]) (use a' ka l arr_is_preallocate [OF l(6) a'(1)] in \<open>simp_all add: klists_def\<close>)
    then show ?thesis by (simp add: new_frame_def a' ka)
  qed
  show "pend t th k' rq sl zb \<and> new_frame (k\<lparr>runqueue := runqueue k'\<rparr>) k'" if "scheduler_preallocate n k = Ret (r, k')"
  proof -
    from that km l obtain q' where q': "q_preallocate ok q (nat n) = Ret (r, q')" "k' = ka\<lparr>runqueue := Some q'\<rparr>"
      by (auto simp: scheduler_preallocate_def andthen_Ret_iff assertk_Ret_iff)
    have "pend t th k' rq sl zb"
      by (rule pend_lists [OF assms]) (use q' ka l que_is_preallocate [OF l(2) q'(1)] in \<open>simp_all add: klists_def\<close>)
    then show ?thesis by (simp add: new_frame_def q' ka)
  qed
qed

lemma fork_fail_kinv:
  assumes "fork_fail t result s k = Ret (r, k')" "pend t th k rq sl zb"
  shows "kinv k' rq sl zb \<and> curthread k' = curthread k \<and> r = (result, None) \<and> curspl k' = s"
proof -
  from assms(2) have t: "k_threads k t = Some th" by (simp add: pend_def)
  from assms(1) t obtain k1 where k1: "(case t_cwd th of None \<Rightarrow> Ret (k\<lparr>curspl := s\<rparr>) | Some v \<Rightarrow> vnode_decref v (k\<lparr>curspl := s\<rparr>)) = Ret k1"
    "r = (result, None)" "k' = k1\<lparr>k_threads := (k_threads k1)(t := None)\<rparr>"
    by (auto simp: fork_fail_def Let_def andthen_Ret_iff)
  have "same_core (k\<lparr>curspl := s\<rparr>) k1" using k1(1) vnode_decref_core
    by (cases "t_cwd th") (auto simp: same_core_def)
  moreover have "curspl k1 = s" using k1(1)
    by (auto simp: vnode_decref_def deref_Ret_iff assertk_Ret_iff split: option.splits)
  moreover have "same_core k (k\<lparr>curspl := s\<rparr>)" by simp
  ultimately have "same_core k k1" by (blast intro: same_core_trans)
  from pend_drop [OF pend_core [OF assms(2) this]] this k1 \<open>curspl k1 = s\<close> show ?thesis by (simp add: same_core_def)
qed


lemma make_runnable_pend:
  assumes "make_runnable t k = Ret (r, k')" "pend t th k rq sl zb" "parked th" "stack_check th"
  shows "if r = None then kinv (k'\<lparr>numthreads := numthreads k' + 1\<rparr>) (rq @ [t]) sl zb else pend t th k' rq sl zb"
    "new_frame (k\<lparr>runqueue := runqueue k'\<rparr>) k'"
proof -
  from pend_klists [OF assms(2)] obtain q a z where l: "runqueue k = Some q" "que_is q rq" "sleepers k = Some a"
    "arr_is a sl" "zombies k = Some z" "arr_is z zb" by (rule klistsE)
  from make_runnable_Ret [OF assms(1) l(1,2)] obtain oom q' where
    k': "k' = k\<lparr>k_oom := oom, runqueue := Some q'\<rparr>" "que_is q' (if r = None then rq @ [t] else rq)" by auto
  show "if r = None then kinv (k'\<lparr>numthreads := numthreads k' + 1\<rparr>) (rq @ [t]) sl zb else pend t th k' rq sl zb"
  proof (cases "r = None")
    case True
    with k'(2) have q': "que_is q' (rq @ [t])" by simp
    have "same_core (k\<lparr>runqueue := Some q', numthreads := numthreads k + 1\<rparr>) (k'\<lparr>numthreads := numthreads k' + 1\<rparr>)"
      by (simp add: same_core_def k'(1))
    from kinv_same_core [OF this] pend_run [OF assms(2) q' assms(3,4)] True show ?thesis by simp
  next
    case False
    have "pend t th k' rq sl zb" by (rule pend_lists [OF assms(2)]) (use k' l False in \<open>simp_all add: klists_def\<close>)
    with False show ?thesis by auto
  qed
  show "new_frame (k\<lparr>runqueue := runqueue k'\<rparr>) k'" by (simp add: new_frame_def k'(1))
qed

text \<open>\<^verbatim>\<open>thread_fork\<close> from the preallocation on.\<close>

definition fork_enlist :: "nat \<Rightarrow> kernel \<Rightarrow> ((status \<times> nat option) \<times> kernel) run" where
  "fork_enlist t k =
     (case splhigh k of (s, k) \<Rightarrow>
       andthen (preallocate_sleepers (numthreads k + 1) k) (\<lambda>(result, k).
       if result \<noteq> None then fork_fail t result s k else
       andthen (preallocate_zombies (numthreads k + 1) k) (\<lambda>(result, k).
       if result \<noteq> None then fork_fail t result s k else
       andthen (scheduler_preallocate (numthreads k + 1) k) (\<lambda>(result, k).
       if result \<noteq> None then fork_fail t result s k else
       andthen (make_runnable t k) (\<lambda>(result, k).
       if result \<noteq> None then fork_fail t result s k else
       Ret ((None, Some t), snd (splx s (k\<lparr>numthreads := numthreads k + 1\<rparr>))))))))"

text \<open>What holds after \<^verbatim>\<open>thread_fork\<close>, and one step of its chain of checked calls.\<close>

definition forked :: "nat \<Rightarrow> thread \<Rightarrow> int \<Rightarrow> nat option \<Rightarrow> status \<times> nat option \<Rightarrow> kernel \<Rightarrow>
    nat list \<Rightarrow> nat list \<Rightarrow> nat list \<Rightarrow> bool" where
  "forked t th s c r k rq sl zb \<longleftrightarrow> curthread k = c \<and> curspl k = s \<and>
     (if fst r = None then kinv k (rq @ [t]) sl zb \<and> snd r = Some t \<and> k_threads k t = Some th else kinv k rq sl zb)"

lemma fork_stepE:
  assumes "andthen R (\<lambda>(result, k). if result \<noteq> None then fork_fail t result s k else G k) = Ret (r, k')"
    "\<And>res k1. R = Ret (res, k1) \<Longrightarrow> res \<noteq> None \<Longrightarrow> pend t th k1 rq sl zb \<and> curthread k1 = c"
    "\<not> forked t th s c r k' rq sl zb"
  obtains k1 where "R = Ret (None, k1)" "G k1 = Ret (r, k')"
proof -
  from assms(1) obtain res k1 where R: "R = Ret (res, k1)"
    "(if res \<noteq> None then fork_fail t res s k1 else G k1) = Ret (r, k')" by (auto simp: andthen_Ret_iff)
  show thesis
  proof (cases "res = None")
    case False
    with R assms(2) [OF R(1)] fork_fail_kinv [of t res s k1 r k' th rq sl zb] assms(3) show ?thesis
      by (auto simp: forked_def)
  qed (use R that in auto)
qed

lemma fork_enlist_kinv:
  assumes "fork_enlist t k = Ret (r, k')" "pend t th k rq sl zb" "parked th" "stack_check th"
  shows "forked t th (curspl k) (curthread k) r k' rq sl zb"
proof (rule ccontr)
  assume no: "\<not> ?thesis"
  let ?s = "curspl k" and ?k = "k\<lparr>curspl := SPL_HIGH\<rparr>" and ?c = "curthread k"
  have p0: "pend t th ?k rq sl zb" by (rule pend_core [OF assms(2)]) simp
  have g1: "pend t th kx rq sl zb \<and> curthread kx = ?c" if "preallocate_sleepers n ?k = Ret (res, kx)" for n res kx
    using preallocate_pend(1) [OF p0 that] by (simp add: new_frame_def)
  from assms(1) [unfolded fork_enlist_def splhigh_def splx_def [of SPL_HIGH] prod.case]
  obtain k1 where k1: "preallocate_sleepers (numthreads ?k + 1) ?k = Ret (None, k1)" and
    e1: "andthen (preallocate_zombies (numthreads k1 + 1) k1) (\<lambda>(result, k).
       if result \<noteq> None then fork_fail t result ?s k else
       andthen (scheduler_preallocate (numthreads k + 1) k) (\<lambda>(result, k).
       if result \<noteq> None then fork_fail t result ?s k else
       andthen (make_runnable t k) (\<lambda>(result, k).
       if result \<noteq> None then fork_fail t result ?s k else
       Ret ((None, Some t), snd (splx ?s (k\<lparr>numthreads := numthreads k + 1\<rparr>)))))) = Ret (r, k')"
    by (rule fork_stepE [OF _ _ no]) (erule g1)
  have g2: "pend t th kx rq sl zb \<and> curthread kx = ?c" if "preallocate_zombies n k1 = Ret (res, kx)" for n res kx
    using preallocate_pend(2) [OF conjunct1 [OF g1 [OF k1]] that] g1 [OF k1] by (simp add: new_frame_def)
  from e1 obtain k2 where k2: "preallocate_zombies (numthreads k1 + 1) k1 = Ret (None, k2)" and
    e2: "andthen (scheduler_preallocate (numthreads k2 + 1) k2) (\<lambda>(result, k).
       if result \<noteq> None then fork_fail t result ?s k else
       andthen (make_runnable t k) (\<lambda>(result, k).
       if result \<noteq> None then fork_fail t result ?s k else
       Ret ((None, Some t), snd (splx ?s (k\<lparr>numthreads := numthreads k + 1\<rparr>))))) = Ret (r, k')"
    by (rule fork_stepE [OF _ _ no]) (erule g2)
  have g3: "pend t th kx rq sl zb \<and> curthread kx = ?c" if "scheduler_preallocate n k2 = Ret (res, kx)" for n res kx
    using preallocate_pend(3) [OF conjunct1 [OF g2 [OF k2]] that] g2 [OF k2] by (simp add: new_frame_def)
  from e2 obtain k3 where k3: "scheduler_preallocate (numthreads k2 + 1) k2 = Ret (None, k3)" and
    e3: "andthen (make_runnable t k3) (\<lambda>(result, k).
       if result \<noteq> None then fork_fail t result ?s k else
       Ret ((None, Some t), snd (splx ?s (k\<lparr>numthreads := numthreads k + 1\<rparr>)))) = Ret (r, k')"
    by (rule fork_stepE [OF _ _ no]) (erule g3)
  note p4 = make_runnable_pend [OF _ conjunct1 [OF g3 [OF k3]] assms(3,4)]
  have g4: "pend t th kx rq sl zb \<and> curthread kx = ?c" if "make_runnable t k3 = Ret (res, kx)" "res \<noteq> None" for res kx
    using p4 [OF that(1)] that(2) g3 [OF k3] by (auto simp: new_frame_def)
  from e3 obtain k4 where k4: "make_runnable t k3 = Ret (None, k4)" and
    e4: "Ret ((None, Some t), snd (splx ?s (k4\<lparr>numthreads := numthreads k4 + 1\<rparr>))) = Ret (r, k')"
    by (rule fork_stepE [OF _ _ no]) (erule (1) g4)
  have "k_threads k4 t = Some th" "curthread k4 = ?c"
    using p4(2) [OF k4] g3 [OF k3] by (simp_all add: new_frame_def pend_def)
  with p4(1) [OF k4] e4 no show False by (auto simp: forked_def)
qed


lemma thread_fork_enlist:
  "thread_fork name func k =
     andthen (thread_create name k) (\<lambda>(newguy, k).
     case newguy of None \<Rightarrow> Ret ((Some ENOMEM, None), k)
     | Some t \<Rightarrow>
       case kmalloc k of (ok, k) \<Rightarrow>
       if \<not> ok then Ret ((Some ENOMEM, None), k\<lparr>k_threads := (k_threads k)(t := None)\<rparr>)
       else let k = upd_thread t (\<lambda>th. th\<lparr>t_stack := Some stack_magic\<rparr>) k in
       andthen (with_cur k (\<lambda>_ cur. case t_cwd cur of None \<Rightarrow> Ret k
         | Some v \<Rightarrow> andthen (vnode_incref v k) (\<lambda>k. Ret (upd_thread t (\<lambda>th. th\<lparr>t_cwd := Some v\<rparr>) k))))
       (\<lambda>k. fork_enlist t (upd_thread t (\<lambda>th. th\<lparr>t_ininterrupt := 0, t_frames := F_start # func\<rparr>) k)))"
  unfolding thread_fork_def fork_enlist_def Let_def ..

lemma pend_cur_other:
  assumes "pend t th k rq sl zb" "curthread k = Some c"
  shows "c \<noteq> t" "\<exists>cur. k_threads k c = Some cur"
proof -
  have "c \<in> dom (k_threads (without t k))"
    using assms by (auto simp: pend_def kinv_def tinv_def cur_list_def without_def)
  then show "c \<noteq> t" "\<exists>cur. k_threads k c = Some cur" by (auto simp: without_def split: if_splits)
qed

lemma fork_cwd_pend:
  assumes "with_cur k (\<lambda>_ cur. case t_cwd cur of None \<Rightarrow> Ret k
      | Some v \<Rightarrow> andthen (vnode_incref v k) (\<lambda>k. Ret (upd_thread t (\<lambda>th. th\<lparr>t_cwd := Some v\<rparr>) k))) = Ret k'"
    "pend t th k rq sl zb"
  shows "\<exists>cwd. pend t (th\<lparr>t_cwd := cwd\<rparr>) k' rq sl zb \<and> curthread k' = curthread k \<and> curspl k' = curspl k"
proof -
  from assms(1) obtain c cur where c: "curthread k = Some c" "k_threads k c = Some cur"
    "(case t_cwd cur of None \<Rightarrow> Ret k
      | Some v \<Rightarrow> andthen (vnode_incref v k) (\<lambda>k. Ret (upd_thread t (\<lambda>th. th\<lparr>t_cwd := Some v\<rparr>) k))) = Ret k'"
    by (auto simp: with_cur_Ret_iff)
  show ?thesis
  proof (cases "t_cwd cur")
    case None
    with c(3) assms(2) show ?thesis by (intro exI [of _ "t_cwd th"]) simp
  next
    case (Some v)
    with c(3) obtain k1 where k1: "vnode_incref v k = Ret k1" "k' = upd_thread t (\<lambda>th. th\<lparr>t_cwd := Some v\<rparr>) k1"
      by (auto simp: andthen_Ret_iff)
    note core = vnode_incref_core [OF k1(1)]
    have "curspl k1 = curspl k" using k1(1) by (auto simp: vnode_incref_def deref_Ret_iff)
    moreover have "pend t (th\<lparr>t_cwd := Some v\<rparr>) k' rq sl zb"
      unfolding k1(2) by (rule pend_upd [OF pend_core [OF assms(2) core], of "\<lambda>th. th\<lparr>t_cwd := Some v\<rparr>"]) simp
    ultimately show ?thesis using core k1(2) by (intro exI [of _ "Some v"]) (simp add: same_core_def)
  qed
qed

lemma thread_fork_kinv:
  assumes "thread_fork name func k = Ret (r, k')" "kinv k rq sl zb" "curthread k = Some c"
  shows "(fst r \<noteq> None \<and> kinv k' rq sl zb \<or>
      (\<exists>t th. r = (None, Some t) \<and> kinv k' (rq @ [t]) sl zb \<and> k_threads k' t = Some th \<and> t_frames th = F_start # func \<and>
         t_vmspace th = None \<and> curspl k' = curspl k)) \<and> curthread k' = Some c"
proof -
  from assms(1) obtain g kc where kc: "thread_create name k = Ret (g, kc)"
    by (auto simp: thread_fork_enlist andthen_Ret_iff)
  from kc assms(2,3) show ?thesis
  proof (cases rule: thread_create_Ret)
    case (oom oo)
    with assms(1) kc have "r = (Some ENOMEM, None)" "k' = kc" by (simp_all add: thread_fork_enlist)
    with oom assms(3) show ?thesis by simp
  next
    case (new v k1)
    let ?t = "k_next k" and ?th = "thread_new name v"
    obtain ok kd where kd: "kmalloc kc = (ok, kd)" by fastforce
    from kmalloc_frame [OF kd] obtain oo where oo: "kd = kc\<lparr>k_oom := oo\<rparr>" by blast
    have p1: "pend ?t ?th kd rq sl zb"
      unfolding oo new(2) by (rule pend_core [OF pend_new [OF new(3,4)]]) simp
    have cd: "curthread kd = Some c" "curspl kd = curspl k"
      using new(2,5) assms(3) by (simp_all add: oo with_new_def new_frame_def)
    show ?thesis
    proof (cases ok)
      case False
      with assms(1) kc new(1) kd have "r = (Some ENOMEM, None)" "k' = kd\<lparr>k_threads := (k_threads kd)(?t := None)\<rparr>"
        by (simp_all add: thread_fork_enlist)
      with pend_drop [OF p1] cd show ?thesis by simp
    next
      case True
      let ?ke = "upd_thread ?t (\<lambda>th. th\<lparr>t_stack := Some stack_magic\<rparr>) kd"
      from assms(1) kc new(1) kd True obtain kf where
        f: "with_cur ?ke (\<lambda>_ cur. case t_cwd cur of None \<Rightarrow> Ret ?ke
          | Some v \<Rightarrow> andthen (vnode_incref v ?ke) (\<lambda>k. Ret (upd_thread ?t (\<lambda>th. th\<lparr>t_cwd := Some v\<rparr>) k))) = Ret kf"
        "fork_enlist ?t (upd_thread ?t (\<lambda>th. th\<lparr>t_ininterrupt := 0, t_frames := F_start # func\<rparr>) kf) = Ret (r, k')"
        by (auto simp: thread_fork_enlist andthen_Ret_iff Let_def)
      have "pend ?t (?th\<lparr>t_stack := Some stack_magic\<rparr>) ?ke rq sl zb"
        by (rule pend_upd [OF p1, of "\<lambda>th. th\<lparr>t_stack := Some stack_magic\<rparr>"]) simp
      from fork_cwd_pend [OF f(1) this] cd obtain cwd where
        p2: "pend ?t (?th\<lparr>t_stack := Some stack_magic, t_cwd := cwd\<rparr>) kf rq sl zb" "curthread kf = Some c" "curspl kf = curspl k"
        by auto
      let ?thn = "?th\<lparr>t_stack := Some stack_magic, t_cwd := cwd, t_ininterrupt := 0, t_frames := F_start # func\<rparr>"
      have "pend ?t ?thn (upd_thread ?t (\<lambda>th. th\<lparr>t_ininterrupt := 0, t_frames := F_start # func\<rparr>) kf) rq sl zb"
        using pend_upd [OF p2(1), of "\<lambda>th. th\<lparr>t_ininterrupt := 0, t_frames := F_start # func\<rparr>"] by simp
      from fork_enlist_kinv [OF f(2) this] p2(2,3) show ?thesis
        by (cases r) (auto simp: parked_def stack_check_def stack_magic_def thread_new_def forked_def split: if_splits)
    qed
  qed
qed

end
