(* ===== verification/ThreadFrames.thy ===== *)
theory ThreadFrames
  imports ThreadLife
begin

text \<open>
  Which semaphores threads wait for.  A thread in the loop of \<^verbatim>\<open>P\<close> has a frame \<open>F_P\<close>; no
  operation of the thread system makes up such a frame, and the table of pids takes up new semaphores only.
  A thread that called \<^verbatim>\<open>P\<close> on a semaphore outside the table therefore never lowers one of the table.
\<close>

section \<open>Growth of frames and of the pid table\<close>

definition pfr :: "frame list \<Rightarrow> nat set" where
  "pfr frs = {s. \<exists>spl. F_P s spl \<in> set frs}"

definition psems :: "kernel \<Rightarrow> nat \<Rightarrow> nat set" where
  "psems k t = (case k_threads k t of None \<Rightarrow> {} | Some th \<Rightarrow> pfr (t_frames th))"

definition grow :: "nat set \<Rightarrow> kernel \<Rightarrow> kernel \<Rightarrow> bool" where
  "grow X k k' \<longleftrightarrow> (\<forall>t. psems k' t \<subseteq> psems k t \<union> X) \<and> pid_sems k' \<subseteq> pid_sems k \<union> {k_next k..} \<and> k_next k \<le> k_next k'"

definition finv :: "kernel \<Rightarrow> bool" where
  "finv k \<longleftrightarrow> (\<forall>t. \<forall>s \<in> psems k t. s \<notin> pid_sems k \<and> s < k_next k)"

lemma finv_grow:
  assumes "finv k" "grow X k k'" "\<And>s. s \<in> X \<Longrightarrow> s \<notin> pid_sems k \<and> s < k_next k"
  shows "finv k'"
  unfolding finv_def
proof (intro allI ballI)
  fix t s assume "s \<in> psems k' t"
  with assms have "s \<notin> pid_sems k \<and> s < k_next k" unfolding grow_def finv_def by blast
  with assms(2) show "s \<notin> pid_sems k' \<and> s < k_next k'" unfolding grow_def by auto
qed

lemma pfr_simps [simp]: "pfr [] = {}" "pfr (F_P s spl # frs) = insert s (pfr frs)"
  "\<not> (\<exists>s spl. f = F_P s spl) \<Longrightarrow> pfr (f # frs) = pfr frs"
  by (auto simp: pfr_def)

lemma grow_refl [simp]: "grow X k k"
  by (auto simp: grow_def)

lemma grow_trans: "grow X k k' \<Longrightarrow> grow X k' k'' \<Longrightarrow> grow X k k''"
  unfolding grow_def by fastforce

lemma grow_cong:
  assumes "k_threads k' = k_threads k" "pidHead k' = pidHead k" "k_next k' = k_next k"
  shows "grow X k1 k' = grow X k1 k"
  using assms by (simp add: grow_def psems_def pid_sems_def)

lemma grow_fields [simp]:
  "grow X k1 (k\<lparr>curspl := x1\<rparr>) = grow X k1 k" "grow X k1 (k\<lparr>k_oom := x2\<rparr>) = grow X k1 k"
  "grow X k1 (k\<lparr>runqueue := x3\<rparr>) = grow X k1 k" "grow X k1 (k\<lparr>sleepers := x4\<rparr>) = grow X k1 k"
  "grow X k1 (k\<lparr>zombies := x5\<rparr>) = grow X k1 k" "grow X k1 (k\<lparr>in_interrupt := x6\<rparr>) = grow X k1 k"
  "grow X k1 (k\<lparr>lbolt_counter := x7\<rparr>) = grow X k1 k" "grow X k1 (k\<lparr>k_irqs := x8\<rparr>) = grow X k1 k"
  "grow X k1 (k\<lparr>k_sems := x9\<rparr>) = grow X k1 k" "grow X k1 (k\<lparr>k_locks := x10\<rparr>) = grow X k1 k"
  "grow X k1 (k\<lparr>curthread := x11\<rparr>) = grow X k1 k" "grow X k1 (k\<lparr>numthreads := x12\<rparr>) = grow X k1 k"
  "grow X k1 (k\<lparr>k_vnodes := x13\<rparr>) = grow X k1 k" "grow X k1 (k\<lparr>k_reclaims := x14\<rparr>) = grow X k1 k"
  "grow X k1 (k\<lparr>tlb := x15\<rparr>) = grow X k1 k" "grow X k1 (k\<lparr>k_console := x16\<rparr>) = grow X k1 k"
  "grow X k1 (k\<lparr>k_input := x17\<rparr>) = grow X k1 k" "grow X k1 (k\<lparr>k_cvs := x18\<rparr>) = grow X k1 k"
  by (rule grow_cong; simp)+

lemma grow_upd:
  assumes "grow X k1 k" "\<And>th. t_frames (f th) = t_frames th \<or> pfr (t_frames (f th)) \<subseteq> X"
  shows "grow X k1 (upd_thread t f k)"
proof (rule grow_trans [OF assms(1)])
  have "psems (upd_thread t f k) u \<subseteq> psems k u \<union> X" for u
  proof (cases "k_threads k t")
    case (Some th)
    with assms(2) [of th] show ?thesis by (auto simp: psems_def)
  qed (auto simp: psems_def)
  then show "grow X k (upd_thread t f k)" by (auto simp: grow_def pid_sems_def)
qed

lemma grow_drop:
  assumes "grow X k1 k"
  shows "grow X k1 (k\<lparr>k_threads := (k_threads k)(t := None)\<rparr>)"
  by (rule grow_trans [OF assms]) (auto simp: grow_def psems_def pid_sems_def)

lemma grow_new:
  assumes "grow X k1 k" "pfr (t_frames th) \<subseteq> X"
  shows "grow X k1 (k\<lparr>k_threads := (k_threads k)(t \<mapsto> th)\<rparr>)"
  using assms(2) by (intro grow_trans [OF assms(1)]) (auto simp: grow_def psems_def pid_sems_def)

lemma grow_pids:
  assumes "grow X k1 k" "\<And>p s. p \<in> set ps \<Longrightarrow> parentSem p = Some s \<Longrightarrow> s \<in> pid_sems k \<or> k_next k \<le> s"
  shows "grow X k1 (k\<lparr>pidHead := ps\<rparr>)"
  by (rule grow_trans [OF assms(1)]) (use assms(2) in \<open>auto simp: grow_def psems_def pid_sems_def\<close>)

lemma grow_next: "grow X k1 k \<Longrightarrow> k_next k \<le> n \<Longrightarrow> grow X k1 (k\<lparr>k_next := n\<rparr>)"
  by (erule grow_trans) (auto simp: grow_def psems_def pid_sems_def)

section \<open>Rules\<close>

definition growk :: "nat set \<Rightarrow> kernel \<Rightarrow> kernel run \<Rightarrow> bool" where
  "growk X k1 R \<longleftrightarrow> (\<forall>k. R = Ret k \<longrightarrow> grow X k1 k)"

definition grows :: "nat set \<Rightarrow> kernel \<Rightarrow> ('a \<times> kernel) run \<Rightarrow> bool" where
  "grows X k1 R \<longleftrightarrow> (\<forall>x k. R = Ret (x, k) \<longrightarrow> grow X k1 k)"

named_theorems grow_intros \<open>rules for runs that bring in no frames of their own\<close>

lemma growk_basic [grow_intros]:
  "grow X k1 k \<Longrightarrow> growk X k1 (Ret k)" "growk X k1 Panic" "growk X k1 Fault" "growk X k1 Loops"
  "growk X k1 R \<Longrightarrow> growk X k1 (assertk b R)" "(\<And>x. p = Some x \<Longrightarrow> growk X k1 (f x)) \<Longrightarrow> growk X k1 (deref p f)"
  "(\<And>t th. curthread k = Some t \<Longrightarrow> growk X k1 (g t th)) \<Longrightarrow> growk X k1 (with_cur k g)"
  "(c \<Longrightarrow> growk X k1 R) \<Longrightarrow> (\<not> c \<Longrightarrow> growk X k1 R') \<Longrightarrow> growk X k1 (if c then R else R')"
  by (auto simp: growk_def assertk_Ret_iff deref_Ret_iff with_cur_Ret_iff)

lemma grows_basic [grow_intros]:
  "grow X k1 k \<Longrightarrow> grows X k1 (Ret (x, k))" "grows X k1 Panic" "grows X k1 Fault" "grows X k1 Loops"
  "grows X k1 R \<Longrightarrow> grows X k1 (assertk b R)" "(\<And>x. p = Some x \<Longrightarrow> grows X k1 (f x)) \<Longrightarrow> grows X k1 (deref p f)"
  "(\<And>t th. curthread k = Some t \<Longrightarrow> grows X k1 (g t th)) \<Longrightarrow> grows X k1 (with_cur k g)"
  "(c \<Longrightarrow> grows X k1 R) \<Longrightarrow> (\<not> c \<Longrightarrow> grows X k1 R') \<Longrightarrow> grows X k1 (if c then R else R')"
  by (auto simp: grows_def assertk_Ret_iff deref_Ret_iff with_cur_Ret_iff)

lemma grow_andthen [grow_intros]:
  "grows X k1 R \<Longrightarrow> (\<And>x k. grow X k1 k \<Longrightarrow> grows X k1 (f (x, k))) \<Longrightarrow> grows X k1 (andthen R f)"
  "grows X k1 R \<Longrightarrow> (\<And>x k. grow X k1 k \<Longrightarrow> growk X k1 (g (x, k))) \<Longrightarrow> growk X k1 (andthen R g)"
  "growk X k1 Q \<Longrightarrow> (\<And>k. grow X k1 k \<Longrightarrow> growk X k1 (h k)) \<Longrightarrow> growk X k1 (andthen Q h)"
  "growk X k1 Q \<Longrightarrow> (\<And>k. grow X k1 k \<Longrightarrow> grows X k1 (j k)) \<Longrightarrow> grows X k1 (andthen Q j)"
  by (auto simp: growk_def grows_def andthen_Ret_iff)

text \<open>A run over something else than a kernel state.\<close>

lemma grow_other:
  "(\<And>x. R = Ret x \<Longrightarrow> growk X k1 (f x)) \<Longrightarrow> growk X k1 (andthen R f)"
  "(\<And>x. R = Ret x \<Longrightarrow> grows X k1 (g x)) \<Longrightarrow> grows X k1 (andthen R g)"
  by (auto simp: growk_def grows_def andthen_Ret_iff)

lemma grow_kmalloc: "kmalloc k = (ok, k') \<Longrightarrow> grow X k1 k \<Longrightarrow> grow X k1 k'"
  using kmalloc_frame grow_fields(2) by metis

lemma grow_case [grow_intros]:
  "(\<And>ok k'. grow X k1 k' \<Longrightarrow> k_threads k' = k_threads k \<Longrightarrow> pidHead k' = pidHead k \<Longrightarrow> k_next k' = k_next k \<Longrightarrow> grows X k1 (f ok k')) \<Longrightarrow> grow X k1 k \<Longrightarrow> grows X k1 (case kmalloc k of (ok, k') \<Rightarrow> f ok k')"
  "(\<And>ok k'. grow X k1 k' \<Longrightarrow> growk X k1 (h ok k')) \<Longrightarrow> grow X k1 k \<Longrightarrow> growk X k1 (case kmalloc k of (ok, k') \<Rightarrow> h ok k')"
  using grow_kmalloc kmalloc_frame by (fastforce split: prod.split)+

lemma growk_return [grow_intros]: "grow X k1 k \<Longrightarrow> pfr frs \<subseteq> X \<Longrightarrow> growk X k1 (return_to frs k)"
  unfolding return_to_def by (rule grow_intros)+ (rule grow_upd, auto)

section \<open>Operations\<close>

lemma grow_lists [grow_intros]:
  "grow X k1 k \<Longrightarrow> grows X k1 (make_runnable t k)" "grow X k1 k \<Longrightarrow> grows X k1 (sleepers_add t k)"
  "grow X k1 k \<Longrightarrow> grows X k1 (zombies_add t k)" "grow X k1 k \<Longrightarrow> grows X k1 (preallocate_sleepers n k)"
  "grow X k1 k \<Longrightarrow> grows X k1 (preallocate_zombies n k)" "grow X k1 k \<Longrightarrow> grows X k1 (scheduler_preallocate n k)"
  unfolding make_runnable_def sleepers_add_def zombies_add_def preallocate_sleepers_def preallocate_zombies_def
    scheduler_preallocate_def
  by (assumption | rule grow_intros | rule grow_other | clarsimp)+

lemma grow_wakeup_loop: "grow X k1 k \<Longrightarrow> growk X k1 (wakeup_loop n addr i k)"
proof (induction n arbitrary: i k)
  case (Suc n)
  show ?case unfolding wakeup_loop.simps using Suc.prems
    by - (assumption | rule grow_intros | rule Suc.IH | rule grow_other | clarsimp split del: if_split)+
qed (simp add: grow_intros)

lemma grow_thread_wakeup [grow_intros]: "grow X k1 k \<Longrightarrow> growk X k1 (thread_wakeup addr k)"
  unfolding thread_wakeup_def by (assumption | rule grow_intros grow_wakeup_loop)+

lemma grow_V [grow_intros]: "grow X k1 k \<Longrightarrow> growk X k1 (V sem k)"
  unfolding V_def splhigh_def splx_def [of SPL_HIGH] Let_def
  by (cases sem) (assumption | rule grow_intros | clarsimp)+

lemma grow_lock_release [grow_intros]: "grow X k1 k \<Longrightarrow> growk X k1 (lock_release lock k)"
  unfolding lock_release_def splhigh_def splx_def [of SPL_HIGH] Let_def
  by (cases lock) (assumption | rule grow_intros | clarsimp)+

lemma grow_hardclock [grow_intros]: "grow X k1 k \<Longrightarrow> growk X k1 (hardclock_tick k)"
  unfolding hardclock_tick_def Let_def by (assumption | rule grow_intros | clarsimp split del: if_split)+

lemma grow_idle_interrupt [grow_intros]: "grow X k1 k \<Longrightarrow> growk X k1 (idle_interrupt i k)"
  unfolding idle_interrupt_def Let_def by (cases i) (assumption | rule grow_intros | clarsimp)+

lemma grow_idle_loop [grow_intros]: "grow X k1 k \<Longrightarrow> growk X k1 (idle_loop irqs k)"
proof (induction irqs arbitrary: k)
  case Nil
  then show ?case unfolding idle_loop.simps [of "[]"] by - (assumption | rule grow_intros | clarsimp split del: if_split)+
next
  case (Cons i irqs)
  show ?case unfolding idle_loop.simps [of "i # irqs"] using Cons.prems
    by - (assumption | rule grow_intros Cons.IH | clarsimp split del: if_split)+
qed

lemma grow_scheduler [grow_intros]: "grow X k1 k \<Longrightarrow> grows X k1 (scheduler k)"
  unfolding scheduler_def
  by (assumption | rule grow_intros | rule grow_other | clarsimp)+


lemma grow_md_switch [grow_intros]: "grow X k1 k \<Longrightarrow> growk X k1 (md_switch old nu k)"
  unfolding md_switch_def
  by (assumption | rule grow_intros | rule grow_upd | clarsimp split del: if_split)+

lemma grow_mi_switch [grow_intros]: "grow X k1 k \<Longrightarrow> pfr frs \<subseteq> X \<Longrightarrow> growk X k1 (mi_switch st frs k)"
  unfolding mi_switch_def Let_def
  by (cases st) (assumption | rule grow_intros | rule grow_upd | clarsimp)+

lemma grow_thread_yield [grow_intros]: "grow X k1 k \<Longrightarrow> pfr frs \<subseteq> X \<Longrightarrow> growk X k1 (thread_yield frs k)"
  unfolding thread_yield_def splhigh_def splx_def [of SPL_HIGH]
  by (assumption | rule grow_intros | clarsimp)+

lemma grow_thread_sleep [grow_intros]: "grow X k1 k \<Longrightarrow> pfr frs \<subseteq> X \<Longrightarrow> growk X k1 (thread_sleep addr frs k)"
  unfolding thread_sleep_def
  by (assumption | rule grow_intros | rule grow_upd | clarsimp)+

lemma grow_P_loop [grow_intros]: "grow X k1 k \<Longrightarrow> pfr frs \<subseteq> X \<Longrightarrow> s \<in> X \<Longrightarrow> growk X k1 (P_loop s spl frs k)"
  unfolding P_loop_def
  by (assumption | rule grow_intros | clarsimp split del: if_split)+

lemma grow_P [grow_intros]: "grow X k1 k \<Longrightarrow> pfr frs \<subseteq> X \<Longrightarrow> s \<in> X \<Longrightarrow> growk X k1 (P (Some s) frs k)"
  unfolding P_def splhigh_def splx_def [of SPL_HIGH]
  by (assumption | rule grow_intros | clarsimp)+

lemma grow_acquire [grow_intros]:
  "grow X k1 k \<Longrightarrow> pfr frs \<subseteq> X \<Longrightarrow> growk X k1 (acquire_loop l spl frs k)"
  unfolding acquire_loop_def
  by (assumption | rule grow_intros | clarsimp split del: if_split)+

lemma grow_lock_acquire [grow_intros]:
  "grow X k1 k \<Longrightarrow> pfr frs \<subseteq> X \<Longrightarrow> growk X k1 (lock_acquire lock frs k)"
  unfolding lock_acquire_def splhigh_def splx_def [of SPL_HIGH]
  by (cases lock) (assumption | rule grow_intros | clarsimp)+

lemma grow_cv [grow_intros]:
  "grow X k1 k \<Longrightarrow> pfr frs \<subseteq> X \<Longrightarrow> growk X k1 (cv_wait cv lock frs k)"
  "grow X k1 k \<Longrightarrow> growk X k1 (cv_signal cv lock k)" "grow X k1 k \<Longrightarrow> growk X k1 (cv_broadcast cv lock k)"
  unfolding cv_wait_def cv_signal_def cv_broadcast_def splhigh_def splx_def [of SPL_HIGH]
  by (cases cv; cases lock; (assumption | rule grow_intros | clarsimp)+)+

lemma grow_clock [grow_intros]:
  "grow X k1 k \<Longrightarrow> pfr frs \<subseteq> X \<Longrightarrow> growk X k1 (clock_loop n s frs k)"
  "grow X k1 k \<Longrightarrow> pfr frs \<subseteq> X \<Longrightarrow> growk X k1 (clocksleep n frs k)"
  unfolding clocksleep_def clock_loop_def splhigh_def splx_def [of SPL_HIGH]
  by (assumption | rule grow_intros | clarsimp split del: if_split)+

lemma grow_interrupt [grow_intros]: "grow X k1 k \<Longrightarrow> pfr frs \<subseteq> X \<Longrightarrow> growk X k1 (interrupt i frs k)"
  unfolding interrupt_def Let_def
  by (cases i) (assumption | rule grow_intros | clarsimp)+

lemma release_scan_sems: "p \<in> set (release_scan v ps) \<Longrightarrow> \<exists>q \<in> set ps. parentSem q = parentSem p"
  by (induction v ps rule: release_scan.induct) (auto split: if_splits)

lemma grow_release: "grow X k1 k \<Longrightarrow> grow X k1 (release_pid v k)"
  unfolding release_pid_eq by (erule grow_pids) (use release_scan_sems in \<open>fastforce simp: pid_sems_def\<close>)

lemma grow_destroy [grow_intros]: "grow X k1 k \<Longrightarrow> growk X k1 (thread_destroy t k)"
  unfolding thread_destroy_def by (assumption | rule grow_intros grow_drop)+

lemma grow_exorcise_loop: "grow X k1 k \<Longrightarrow> growk X k1 (exorcise_loop n a i k)"
proof (induction n arbitrary: i k)
  case (Suc n)
  show ?case unfolding exorcise_loop.simps Let_def using Suc.prems
    by - (assumption | rule grow_intros | rule Suc.IH | rule grow_other | rule grow_release | clarsimp)+
qed (simp add: grow_intros)

lemma grow_exorcise [grow_intros]: "grow X k1 k \<Longrightarrow> growk X k1 (exorcise k)"
  unfolding exorcise_def
  by (assumption | rule grow_intros grow_exorcise_loop | rule grow_other | clarsimp)+


lemma grow_activate_cur [grow_intros]: "grow X k1 k \<Longrightarrow> growk X k1 (activate_cur k)"
  unfolding activate_cur_def as_activate_kernel by (rule grow_intros)+ simp

lemma grow_append_pid [grow_intros]: "grow X k1 k \<Longrightarrow> growk X k1 (append_pid v t k)"
  unfolding growk_def
proof (intro allI impI)
  fix k' assume g: "grow X k1 k" and e: "append_pid v t k = Ret k'"
  from e obtain c cur where c: "curthread k = Some c" "k_threads k c = Some cur"
    by (auto simp: append_pid_def splhigh_def splx_def [of SPL_HIGH] with_cur_Ret_iff kmalloc_def split: list.splits if_splits)
  from e c have "k_threads k' = k_threads k \<and> k_next k \<le> k_next k' \<and> pid_sems k' \<subseteq> pid_sems k \<union> {k_next k..}"
    by (cases rule: append_pid_Ret) (auto simp: pid_sems_def pid_fresh_def)
  then have "grow X k k'" by (simp add: grow_def psems_def)
  with g show "grow X k1 k'" by (rule grow_trans)
qed

lemma grow_pid_entry:
  assumes "grow X k1 k" "parentSem q = parentSem (pidHead k ! i)"
  shows "grow X k1 (k\<lparr>pidHead := (pidHead k)[i := q]\<rparr>)"
proof (cases "i < length (pidHead k)")
  case True
  show ?thesis
  proof (rule grow_pids [OF assms(1)])
    fix p s assume p: "p \<in> set ((pidHead k)[i := q])" "parentSem p = Some s"
    then have "p = q \<or> p \<in> set (pidHead k)" using set_update_subset_insert by fastforce
    then show "s \<in> pid_sems k \<or> k_next k \<le> s" using p(2) assms(2) True by (auto simp: pid_sems_def)
  qed
next
  case False
  then have "k\<lparr>pidHead := (pidHead k)[i := q]\<rparr> = k" by (simp add: list_update_beyond)
  with assms(1) show ?thesis by metis
qed

lemma grow_assign_pid [grow_intros]: "grow X k1 k \<Longrightarrow> grows X k1 (assign_pid t k)"
  unfolding assign_pid_def splhigh_def splx_def [of SPL_HIGH]
  by (assumption | rule grow_intros | rule grow_other | rule grow_pid_entry | intro conjI | clarsimp split: sum.split)+

lemma grow_P_now [grow_intros]: "grow X k1 k \<Longrightarrow> growk X k1 (P_now sem k)"
  unfolding P_now_def splhigh_def splx_def [of SPL_HIGH]
  by (cases sem) (assumption | rule grow_intros | clarsimp split del: if_split)+

lemma grow_thread_create [grow_intros]: "grow X k1 k \<Longrightarrow> grows X k1 (thread_create name k)"
  unfolding thread_create_def splhigh_def splx_def [of SPL_HIGH] Let_def
  by (assumption | rule grow_intros | rule grow_next grow_new | clarsimp simp: thread_new_def split del: if_split)+

lemma grow_vnodes [grow_intros]:
  "grow X k1 k \<Longrightarrow> growk X k1 (vnode_incref v k)" "grow X k1 k \<Longrightarrow> growk X k1 (vnode_decref v k)"
  unfolding vnode_incref_def vnode_decref_def by (assumption | rule grow_intros | clarsimp)+

lemma grow_case_cwd [grow_intros]:
  "(cwd = None \<Longrightarrow> growk X k1 R) \<Longrightarrow> (\<And>v. cwd = Some v \<Longrightarrow> growk X k1 (f v)) \<Longrightarrow>
     growk X k1 (case cwd of None \<Rightarrow> R | Some v \<Rightarrow> f v)"
  "(cwd = None \<Longrightarrow> grows X k1 R') \<Longrightarrow> (\<And>v. cwd = Some v \<Longrightarrow> grows X k1 (g v)) \<Longrightarrow>
     grows X k1 (case cwd of None \<Rightarrow> R' | Some v \<Rightarrow> g v)"
  by (cases cwd; simp)+

lemma grow_fork_fail [grow_intros]: "grow X k1 k \<Longrightarrow> grows X k1 (fork_fail t r s k)"
  unfolding fork_fail_def Let_def
  by (assumption | rule grow_intros grow_drop | clarsimp)+

lemma grow_thread_fork [grow_intros]: "grow X k1 k \<Longrightarrow> pfr func \<subseteq> X \<Longrightarrow> grows X k1 (thread_fork name func k)"
  unfolding thread_fork_def splhigh_def splx_def [of SPL_HIGH] Let_def
  by (assumption | rule grow_intros grow_drop | rule grow_upd | clarsimp split del: if_split)+

lemma grow_thread_exit [grow_intros]: "grow X k1 k \<Longrightarrow> growk X k1 (thread_exit code k)"
  unfolding thread_exit_strip exit_strip_def exited_def splhigh_def splx_def [of SPL_HIGH] Let_def
  by (assumption | rule grow_intros | rule grow_upd | rule grow_pid_entry | clarsimp)+

end
