(* ===== verification/Syscalls.thy ===== *)
theory Syscalls
  imports ThreadFrames UserMem
begin

text \<open>
  System calls and traps: \<^verbatim>\<open>src/kern/userprog/system_calls_PI.c\<close>,
  \<^verbatim>\<open>src/kern/arch/mips/mips/syscall.c\<close>, the traps of user mode of \<^verbatim>\<open>trap.c\<close>, the boot
  sequence of \<^verbatim>\<open>main.c\<close>, and \<open>run_frame\<close>, which resumes a thread after the call that
  switched away from it.

  A call that may sleep takes the frames of its callers and leaves the current thread to continue with
  them; its values \<^verbatim>\<open>err\<close> and \<^verbatim>\<open>retval\<close> are put into \<open>t_result\<close>, from where
  the frame \<open>F_sysret\<close> copies them into the trap frame.  Console input is the list \<open>k_input\<close>;
  waiting for a character that never comes is \<open>Loops\<close>.  The step relation and the theorems about all
  reachable states are in \<open>KernelSteps\<close>.
\<close>

unbundle bit_operations_syntax

section \<open>Calls that do not sleep\<close>

definition STDIN_FILENO :: int where
  "STDIN_FILENO = 0"

definition STDOUT_FILENO :: int where
  "STDOUT_FILENO = 1"

definition STDERR_FILENO :: int where
  "STDERR_FILENO = 2"

text \<open>\<^verbatim>\<open>kprintf("%s")\<close> prints up to the first null byte.\<close>

definition sys_write :: "int \<Rightarrow> u32 \<Rightarrow> u32 \<Rightarrow> kernel \<Rightarrow> ((status \<times> int) \<times> kernel) run" where
  "sys_write fd buf nbytes k =
     (if fd \<noteq> STDOUT_FILENO \<and> fd \<noteq> STDERR_FILENO then Ret ((Some EBADF, -1), k)
      else if buf = 0 then Ret ((Some EFAULT, -1), k)
      else case kmalloc k of (ok, k) \<Rightarrow>
      if \<not> ok then Ret ((Some ENOSPC, -1), k)
      else with_cur k (\<lambda>_ th.
        andthen (copyin (t_vmspace th) buf nbytes k) (\<lambda>(r, k).
        case r of Inl e \<Rightarrow> Ret ((Some e, -1), k)
        | Inr bs \<Rightarrow> Ret ((None, sint nbytes), k\<lparr>k_console := k_console k @ takeWhile (\<lambda>b. b \<noteq> 0) bs\<rparr>))))"

definition sys_read :: "int \<Rightarrow> u32 \<Rightarrow> u32 \<Rightarrow> kernel \<Rightarrow> ((status \<times> int) \<times> kernel) run" where
  "sys_read fd buf buflen k =
     (if fd \<noteq> STDIN_FILENO then Ret ((Some EBADF, -1), k)
      else if buf = 0 then Ret ((Some EFAULT, -1), k)
      else if buflen \<noteq> 1 then Ret ((Some EUNIMP, -1), k)
      else case k_input k of [] \<Rightarrow> Loops
      | c # rest \<Rightarrow> let k = k\<lparr>k_input := rest\<rparr> in
        with_cur k (\<lambda>_ th.
        andthen (copyout (t_vmspace th) [c] buf buflen k) (\<lambda>(e, k).
        if e \<noteq> None then Ret ((e, -1), k)
        else Ret ((None, sint buflen), k\<lparr>k_console := k_console k @ [c]\<rparr>))))"

text \<open>A 32-bit integer in memory; the machine is big-endian.\<close>

definition int_bytes :: "int \<Rightarrow> 8 word list" where
  "int_bytes x = (let w = (of_int x :: u32) in
     [ucast (drop_bit 24 w), ucast (drop_bit 16 w), ucast (drop_bit 8 w), ucast w])"

definition sys__time :: "u32 \<Rightarrow> u32 \<Rightarrow> kernel \<Rightarrow> ((status \<times> int) \<times> kernel) run" where
  "sys__time seconds nanoseconds k =
     with_cur k (\<lambda>_ th.
     case k_clock k of (kernSeconds, kernNanoseconds) \<Rightarrow>
     andthen (if seconds \<noteq> 0 then copyout (t_vmspace th) (int_bytes kernSeconds) seconds 4 k else Ret (None, k))
     (\<lambda>(e, k). if e \<noteq> None then Ret ((e, 0), k) else
     andthen (if nanoseconds \<noteq> 0 then copyout (t_vmspace th) (int_bytes kernNanoseconds) nanoseconds 4 k
              else Ret (None, k))
     (\<lambda>(e, k). if e \<noteq> None then Ret ((e, 0), k) else Ret ((None, kernSeconds), k))))"

definition sys_getpid :: "kernel \<Rightarrow> ((status \<times> int) \<times> kernel) run" where
  "sys_getpid k = with_cur k (\<lambda>_ th. Ret ((None, t_pidValue th), k))"

definition sys_fork :: "trapframe \<Rightarrow> kernel \<Rightarrow> ((status \<times> int) \<times> kernel) run" where
  "sys_fork tf k =
     (case splhigh k of (s, k) \<Rightarrow>
      with_cur k (\<lambda>_ th.
      case kmalloc k of (ok, k) \<Rightarrow>
      if \<not> ok then Ret ((Some ENOMEM, -1), snd (splx s k))
      else deref (t_vmspace th) (\<lambda>as.
      case kmalloc k of (ok, k) \<Rightarrow>
      andthen (as_copy ok as k) (\<lambda>((e, new), k).
      if e \<noteq> None then Ret ((e, -1), snd (splx s k)) else
      andthen (thread_fork (t_name th) [F_child tf] k) (\<lambda>((e, child), k).
      if e \<noteq> None then Ret ((e, -1), snd (splx s k))
      else deref child (\<lambda>t. deref (k_threads k t) (\<lambda>ch.
        let k = upd_thread t (\<lambda>x. x\<lparr>t_parentPid := Some (t_pidValue th), t_vmspace := new\<rparr>) k;
            k = as_activate (t_vmspace th) k
        in Ret ((None, t_pidValue ch), snd (splx s k))))))))) "

text \<open>
  \<^verbatim>\<open>sys_reboot\<close>: a valid code takes the system down, after which nothing runs any more; the
  outcome is the one of a stopped machine.
\<close>

definition sys_reboot :: "int \<Rightarrow> kernel \<Rightarrow> ((status \<times> int) \<times> kernel) run" where
  "sys_reboot code k = (if code = 0 \<or> code = 1 \<or> code = 2 then Panic else Ret ((Some EINVAL, 0), k))"

section \<open>Calls that sleep\<close>

definition sys_done :: "status \<times> int \<Rightarrow> frame list \<Rightarrow> kernel \<Rightarrow> kernel run" where
  "sys_done r frs k = with_cur k (\<lambda>t _. return_to frs (upd_thread t (\<lambda>th. th\<lparr>t_result := r\<rparr>) k))"

definition sys_sleep :: "int \<Rightarrow> frame list \<Rightarrow> kernel \<Rightarrow> kernel run" where
  "sys_sleep seconds frs k =
     with_cur k (\<lambda>t _. clocksleep seconds frs (upd_thread t (\<lambda>th. th\<lparr>t_result := (None, 0)\<rparr>) k))"

text \<open>
  The assignment \<^verbatim>\<open>*status = ...\<close> stores straight to the address the user gave.  Nothing catches a
  fault there, so that a bad address stops the kernel.  An address of the kernel's own segments overwrites
  kernel memory; the model does not follow the kernel past that and reports \<open>Fault\<close>.
\<close>

definition store_int :: "addrspace option \<Rightarrow> u32 \<Rightarrow> int \<Rightarrow> kernel \<Rightarrow> kernel run" where
  "store_int as addr v k =
     (if addr mod 4 \<noteq> 0 then Panic
      else if addr \<ge> USERTOP then Fault
      else andthen (user_write as (int_bytes v) addr k) (\<lambda>(fin, k). if fin then Ret k else Panic))"

text \<open>The entry a pointer into the table points to; entries are never freed.\<close>

definition pid_at :: "nat \<Rightarrow> kernel \<Rightarrow> pid option" where
  "pid_at i k = (if i < length (pidHead k) then Some (pidHead k ! i) else None)"

text \<open>The end of \<^verbatim>\<open>sys_waitpid\<close>; an exit code that was never set is not a defined value.\<close>

definition waitpid_done :: "nat \<Rightarrow> int \<Rightarrow> u32 \<Rightarrow> frame list \<Rightarrow> kernel \<Rightarrow> kernel run" where
  "waitpid_done i s status frs k =
     with_cur k (\<lambda>_ th. deref (pid_at i k) (\<lambda>p. deref (exitCode p) (\<lambda>code.
     andthen (store_int (t_vmspace th) status code k) (\<lambda>k.
     sys_done (None, pidValue p) frs (snd (splx s k))))))"

text \<open>
  \<^verbatim>\<open>P(checkChild->parentSem); V(checkChild->parentSem);\<close> and what follows.  The body of
  \<^verbatim>\<open>P\<close> is written out, so that the loop comes back here when the thread is woken.
\<close>

definition waitpid_wait :: "nat \<Rightarrow> int \<Rightarrow> int \<Rightarrow> u32 \<Rightarrow> frame list \<Rightarrow> kernel \<Rightarrow> kernel run" where
  "waitpid_wait i spl s status frs k =
     deref (pid_at i k) (\<lambda>p.
     case parentSem p of None \<Rightarrow> Panic | Some sem \<Rightarrow>
      deref (k_sems k sem) (\<lambda>sm.
      if sem_count sm = 0 then thread_sleep (A_sem sem) (F_waitpid i spl s status # frs) k
      else assertk (sem_count sm > 0)
        (andthen (V (Some sem)
           (snd (splx spl (k\<lparr>k_sems := (k_sems k)(sem \<mapsto> sm\<lparr>sem_count := sem_count sm - 1\<rparr>)\<rparr>))))
         (waitpid_done i s status frs))))"

definition sys_waitpid :: "int \<Rightarrow> u32 \<Rightarrow> u32 \<Rightarrow> frame list \<Rightarrow> kernel \<Rightarrow> kernel run" where
  "sys_waitpid pid status options frs k =
     (case splhigh k of (s, k) \<Rightarrow>
      if options \<noteq> 0 then sys_done (Some EINVAL, -1) frs (snd (splx s k))
      else if status = 0 then sys_done (Some EFAULT, -1) frs (snd (splx s k))
      else case pid_search pid k of None \<Rightarrow> sys_done (Some EINVAL, -1) frs (snd (splx s k))
      | Some i \<Rightarrow> with_cur k (\<lambda>_ th.
        if t_pidValue th = pPid (pidHead k ! i)
        then if didExit (pidHead k ! i) = 1 then waitpid_done i s status frs k
             else case parentSem (pidHead k ! i) of None \<Rightarrow> Panic
             | Some _ \<Rightarrow> assertk (in_interrupt k = 0)
                 (case splhigh k of (spl, k) \<Rightarrow> waitpid_wait i spl s status frs k)
        else sys_done (Some EINVAL, -1) frs (snd (splx s k))))"

definition sys_exit :: "int \<Rightarrow> kernel \<Rightarrow> kernel run" where
  "sys_exit exitcode k = thread_exit exitcode k"

section \<open>Dispatch\<close>

definition sys_now :: "((status \<times> int) \<times> kernel) run \<Rightarrow> frame list \<Rightarrow> kernel run" where
  "sys_now r frs = andthen r (\<lambda>(r, k). sys_done r frs k)"

definition mips_syscall :: "kernel \<Rightarrow> kernel run" where
  "mips_syscall k =
     assertk (curspl k = 0)
     (with_cur k (\<lambda>_ th. let tf = t_tf th; callno = sint (tf_v0 tf); frs = [F_sysret] in
      if callno = 8 then sys_now (sys_reboot (sint (tf_a0 tf)) k) frs
      else if callno = 6 then sys_now (sys_write (sint (tf_a0 tf)) (tf_a1 tf) (tf_a2 tf) k) frs
      else if callno = 5 then sys_now (sys_read (sint (tf_a0 tf)) (tf_a1 tf) (tf_a2 tf) k) frs
      else if callno = 32 then sys_sleep (sint (tf_a0 tf)) frs k
      else if callno = 28 then sys_now (sys__time (tf_a0 tf) (tf_a1 tf) k) frs
      else if callno = 0 then sys_exit (sint (tf_a0 tf)) k
      else if callno = 11 then sys_now (sys_getpid k) frs
      else if callno = 2 then sys_now (sys_fork tf k) frs
      else if callno = 3 then sys_waitpid (sint (tf_a0 tf)) (tf_a1 tf) (tf_a2 tf) frs k
      else sys_now (Ret ((Some ENOSYS, 0), k)) frs))"

text \<open>\<^verbatim>\<open>mips_syscall\<close> after the call of the handler.\<close>

definition syscall_return :: "frame list \<Rightarrow> kernel \<Rightarrow> kernel run" where
  "syscall_return frs k =
     with_cur k (\<lambda>t th. let (err, retval) = t_result th; tf = t_tf th;
          tf = (case err of Some e \<Rightarrow> tf\<lparr>tf_v0 := of_nat (errno_code e), tf_a3 := 1\<rparr>
                | None \<Rightarrow> tf\<lparr>tf_v0 := of_int retval, tf_a3 := 0\<rparr>);
          tf = tf\<lparr>tf_epc := tf_epc tf + 4\<rparr> in
      assertk (curspl k = 0) (return_to frs (upd_thread t (\<lambda>th. th\<lparr>t_tf := tf\<rparr>) k)))"

text \<open>The first code of a forked process, up to user mode.\<close>

definition childProcstub :: "trapframe \<Rightarrow> frame list \<Rightarrow> kernel \<Rightarrow> kernel run" where
  "childProcstub tf frs k =
     (case splhigh k of (s, k) \<Rightarrow>
      with_cur k (\<lambda>t th.
      let k = as_activate (t_vmspace th) k; tf = tf\<lparr>tf_v0 := 0, tf_a3 := 0, tf_epc := tf_epc tf + 4\<rparr>;
          k = snd (splx s k); k = (snd (splhigh k))\<lparr>curspl := 0\<rparr>
      in return_to frs (upd_thread t (\<lambda>th. th\<lparr>t_tf := tf\<rparr>) k)))"

text \<open>\<^verbatim>\<open>mi_threadstart\<close> up to the call of the function the thread was created with.\<close>

definition mi_threadstart :: "frame list \<Rightarrow> kernel \<Rightarrow> kernel run" where
  "mi_threadstart frs k = andthen (activate_cur k) (\<lambda>k. return_to frs (snd (spl0 k)))"

fun run_frame :: "frame \<Rightarrow> frame list \<Rightarrow> kernel \<Rightarrow> kernel run" where
  "run_frame F_start frs k = mi_threadstart frs k"
| "run_frame F_switch frs k = andthen (exorcise k) (\<lambda>k. andthen (activate_cur k) (return_to frs))"
| "run_frame F_sleep frs k =
     with_cur k (\<lambda>t _. return_to frs (upd_thread t (\<lambda>th. th\<lparr>t_sleepaddr := None\<rparr>) k))"
| "run_frame (F_yield spl) frs k = return_to frs (snd (splx spl k))"
| "run_frame F_dead frs k = Panic"
| "run_frame (F_intr old_in spl) frs k = return_to frs (k\<lparr>in_interrupt := old_in, curspl := spl\<rparr>)"
| "run_frame (F_P s spl) frs k = P_loop s spl frs k"
| "run_frame (F_acquire l spl) frs k = acquire_loop l spl frs k"
| "run_frame (F_cv_wait l spl) frs k = lock_acquire (Some l) frs (snd (splx spl k))"
| "run_frame (F_clock n s) frs k = clock_loop (n - 1) s frs k"
| "run_frame (F_waitpid i spl s status) frs k = waitpid_wait i spl s status frs k"
| "run_frame F_sysret frs k = syscall_return frs k"
| "run_frame (F_child tf) frs k = childProcstub tf frs k"

section \<open>Traps of user mode\<close>

definition NTRAPCODES :: nat where
  "NTRAPCODES = 13"

definition kill_curthread :: "nat \<Rightarrow> kernel \<Rightarrow> kernel run" where
  "kill_curthread code k = assertk (code < NTRAPCODES) (thread_exit 0 (snd (splhigh k)))"

text \<open>
  \<^verbatim>\<open>mips_trap\<close> for an exception other than an interrupt that comes from user mode, where the level
  is zero; \<open>frs\<close> is empty there.  The last statements of the function set the level to the value it has.
\<close>

definition user_trap :: "nat \<Rightarrow> u32 \<Rightarrow> kernel \<Rightarrow> kernel run" where
  "user_trap code vaddr k =
     (let savespl = curspl k in
      assertk (code < NTRAPCODES)
      (if code = 8 then assertk (curspl k = 0) (mips_syscall k)
       else if code = 1 \<or> code = 2 \<or> code = 3 then with_cur k (\<lambda>_ th.
         andthen (vm_fault (t_vmspace th)
            (if code = 1 then VM_FAULT_READONLY else if code = 2 then VM_FAULT_READ else VM_FAULT_WRITE) vaddr k)
         (\<lambda>(e, k). if e = None then Ret (k\<lparr>curspl := savespl\<rparr>) else kill_curthread code k))
       else if code = 6 \<or> code = 7 then Panic
       else kill_curthread code k))"

section \<open>Boot\<close>

text \<open>The part of \<^verbatim>\<open>boot\<close> that sets up the thread system and the process table.\<close>

definition boot :: "kernel \<Rightarrow> kernel run" where
  "boot k =
     andthen (scheduler_bootstrap k) (\<lambda>k.
     case create_pid_list k of (head, k) \<Rightarrow>
     andthen (thread_bootstrap (k\<lparr>pidHead := head\<rparr>)) (\<lambda>(_, k). Ret k))"

end
