(* ===== verification/KernelSteps.thy ===== *)
theory KernelSteps
  imports Syscalls
begin

text \<open>
  The kernel as a step relation, and the theorems about every state it can reach.

  A step runs one frame of the current thread, takes an interrupt, or, when the thread is in its own code,
  performs an operation of the thread system or a trap.  The invariant \<open>kinv\<close> holds after boot and is
  kept by every step.
\<close>

section \<open>Memory operations keep the thread system\<close>

definition vm_frame :: "'s vmstate_scheme \<Rightarrow> 's vmstate_scheme \<Rightarrow> bool" where
  "vm_frame s s' \<longleftrightarrow> (\<exists>t spl m. s' = s\<lparr>tlb := t, curspl := spl, ram := m\<rparr>)"

lemma vm_frame_refl [simp]: "vm_frame s s"
  unfolding vm_frame_def by (intro exI [of _ "tlb s"] exI [of _ "curspl s"] exI [of _ "ram s"]) simp

lemma vm_frame_upd [simp]: "vm_frame s (s\<lparr>curspl := x\<rparr>)" "vm_frame s (s\<lparr>tlb := t\<rparr>)" "vm_frame s (s\<lparr>ram := m\<rparr>)"
  "vm_frame s (s\<lparr>tlb := t, curspl := x\<rparr>)" "vm_frame s (s\<lparr>curspl := x, tlb := t\<rparr>)"
  unfolding vm_frame_def
  by ((intro exI [of _ "tlb s"] exI [of _ x] exI [of _ "ram s"], simp),
      (intro exI [of _ t] exI [of _ "curspl s"] exI [of _ "ram s"], simp),
      (intro exI [of _ "tlb s"] exI [of _ "curspl s"] exI [of _ m], simp),
      (intro exI [of _ t] exI [of _ x] exI [of _ "ram s"], simp),
      (intro exI [of _ t] exI [of _ x] exI [of _ "ram s"], simp))

lemma vm_frame_trans: "vm_frame s s' \<Longrightarrow> vm_frame s' s'' \<Longrightarrow> vm_frame s s''"
  unfolding vm_frame_def by (elim exE, simp, intro exI, rule refl)

lemma vm_fault_frame: "vm_fault as ft va s = Ret (st, s') \<Longrightarrow> vm_frame s s'"
  by (auto simp: vm_fault_def Let_def splhigh_def splx_def andthen_Ret_iff assertk_Ret_iff
      split: if_splits option.splits)

lemma user_paddr_frame: "user_paddr as ft va s = Ret (pa, s') \<Longrightarrow> vm_frame s s'"
  by (auto simp: user_paddr_def andthen_Ret_iff dest: vm_fault_frame split: option.splits if_splits)

lemma user_read_frame: "user_read as n va s = Ret (r, s') \<Longrightarrow> vm_frame s s'"
proof (induction n arbitrary: va s r)
  case (Suc n)
  from Suc.prems obtain pa s1 where s1: "user_paddr as VM_FAULT_READ va s = Ret (pa, s1)"
    by (auto simp: andthen_Ret_iff)
  note f = user_paddr_frame [OF s1]
  show ?case
  proof (cases pa)
    case None
    with Suc.prems s1 f show ?thesis by simp
  next
    case (Some p)
    with Suc.prems s1 obtain r' where "user_read as n (va + 1) s1 = Ret (r', s')" by (auto simp: andthen_Ret_iff)
    from vm_frame_trans [OF f Suc.IH [OF this]] show ?thesis .
  qed
qed simp

lemma user_write_frame: "user_write as bs va s = Ret (r, s') \<Longrightarrow> vm_frame s s'"
proof (induction bs arbitrary: va s r)
  case (Cons b bs)
  from Cons.prems obtain pa s1 where s1: "user_paddr as VM_FAULT_WRITE va s = Ret (pa, s1)"
    by (auto simp: andthen_Ret_iff)
  note f = user_paddr_frame [OF s1]
  show ?case
  proof (cases pa)
    case None
    with Cons.prems s1 f show ?thesis by simp
  next
    case (Some p)
    with Cons.prems s1 have "user_write as bs (va + 1) (s1\<lparr>ram := (ram s1)(p := b)\<rparr>) = Ret (r, s')" by simp
    from vm_frame_trans [OF vm_frame_trans [OF f vm_frame_upd(3)] Cons.IH [OF this]] show ?thesis .
  qed
qed simp

lemma copyin_frame: "copyin as src len s = Ret (r, s') \<Longrightarrow> vm_frame s s'"
  by (auto simp: copyin_def andthen_Ret_iff dest: user_read_frame split: sum.splits if_splits)

lemma copyout_frame: "copyout as bs dst len s = Ret (r, s') \<Longrightarrow> vm_frame s s'"
  by (auto simp: copyout_def andthen_Ret_iff dest: user_write_frame split: sum.splits if_splits)

text \<open>What the thread system sees of a kernel state, the interrupt level apart.\<close>

definition same_threads :: "kernel \<Rightarrow> kernel \<Rightarrow> bool" where
  "same_threads k k' \<longleftrightarrow> same_core k k' \<and> in_interrupt k' = in_interrupt k \<and> k_oom k' = k_oom k"

lemma vm_frame_core: "vm_frame k k' \<Longrightarrow> same_threads k k'"
  by (auto simp: vm_frame_def same_threads_def same_core_def)

lemma as_copy_core: "as_copy ok as k = Ret (r, k') \<Longrightarrow> same_threads k k'"
  unfolding as_copy_def as_prepare_load_def getppages_def ram_stealmem_def ram_move_def splhigh_def splx_def
  by (auto simp: Let_def andthen_Ret_iff assertk_Ret_iff same_threads_def same_core_def split: option.splits if_splits prod.splits)

lemma same_threads_kinv: "same_threads k k' \<Longrightarrow> kinv k rq sl zb \<Longrightarrow> kinv k' rq sl zb"
  using kinv_same_core by (auto simp: same_threads_def)

section \<open>System calls keep the invariant\<close>

definition kept :: "kernel \<Rightarrow> bool" where
  "kept k \<longleftrightarrow> (\<exists>rq sl zb. kinv k rq sl zb)"

lemma keptI: "kinv k rq sl zb \<Longrightarrow> kept k"
  by (auto simp: kept_def)

lemma kept_core: "same_core k k' \<Longrightarrow> kept k' = kept k"
  by (simp add: kept_def kinv_same_core)

lemma kept_fields [simp]:
  "kept (k\<lparr>curspl := x\<rparr>) = kept k" "kept (k\<lparr>in_interrupt := i\<rparr>) = kept k" "kept (k\<lparr>k_oom := oom\<rparr>) = kept k"
  "kept (k\<lparr>k_console := con\<rparr>) = kept k" "kept (k\<lparr>k_input := inp\<rparr>) = kept k" "kept (k\<lparr>tlb := t\<rparr>) = kept k"
  by (simp_all add: kept_def)

lemma kept_cur_upd:
  assumes "kept k" "curthread k = Some c"
    "\<And>th. t_pidValue (f th) = t_pidValue th \<and> t_stack (f th) = t_stack th"
  shows "kept (upd_thread c f k)"
  using assms kinv_cur_upd unfolding kept_def by metis

lemma kept_return_to: "return_to frs k = Ret k' \<Longrightarrow> kept k \<Longrightarrow> kept k'"
  unfolding kept_def using return_to_kinv by blast

lemma kept_vm: "vm_frame k k' \<Longrightarrow> kept k \<Longrightarrow> kept k'"
  using kept_core vm_frame_core unfolding same_threads_def by blast

lemma kept_kmalloc: "kmalloc k = (ok, k') \<Longrightarrow> kept k \<Longrightarrow> kept k'"
  using kmalloc_frame kept_fields(3) by metis

text \<open>A run that keeps the invariant in the state it returns; the rules follow the structure of the code.\<close>

definition keepk :: "kernel run \<Rightarrow> bool" where
  "keepk R \<longleftrightarrow> (\<forall>k. R = Ret k \<longrightarrow> kept k)"

definition keeps :: "('a \<times> kernel) run \<Rightarrow> bool" where
  "keeps R \<longleftrightarrow> (\<forall>x k. R = Ret (x, k) \<longrightarrow> kept k)"

named_theorems keep_intros \<open>rules for runs that keep the invariant\<close>

lemma keepk_basic [keep_intros]:
  "kept k \<Longrightarrow> keepk (Ret k)" "keepk Panic" "keepk Fault" "keepk Loops"
  "keepk R \<Longrightarrow> keepk (assertk b R)" "(\<And>x. p = Some x \<Longrightarrow> keepk (f x)) \<Longrightarrow> keepk (deref p f)"
  "(\<And>t th. curthread k = Some t \<Longrightarrow> k_threads k t = Some th \<Longrightarrow> keepk (g t th)) \<Longrightarrow> keepk (with_cur k g)"
  "(c \<Longrightarrow> keepk R) \<Longrightarrow> (\<not> c \<Longrightarrow> keepk R') \<Longrightarrow> keepk (if c then R else R')"
  by (auto simp: keepk_def assertk_Ret_iff deref_Ret_iff with_cur_Ret_iff)

lemma keeps_basic [keep_intros]:
  "kept k \<Longrightarrow> keeps (Ret (x, k))" "keeps Panic" "keeps Fault" "keeps Loops"
  "keeps R \<Longrightarrow> keeps (assertk b R)" "(\<And>x. p = Some x \<Longrightarrow> keeps (f x)) \<Longrightarrow> keeps (deref p f)"
  "(\<And>t th. curthread k = Some t \<Longrightarrow> k_threads k t = Some th \<Longrightarrow> keeps (g t th)) \<Longrightarrow> keeps (with_cur k g)"
  "(c \<Longrightarrow> keeps R) \<Longrightarrow> (\<not> c \<Longrightarrow> keeps R') \<Longrightarrow> keeps (if c then R else R')"
  by (auto simp: keeps_def assertk_Ret_iff deref_Ret_iff with_cur_Ret_iff)

lemma keeps_andthen [keep_intros]:
  "keeps R \<Longrightarrow> (\<And>x k. kept k \<Longrightarrow> keeps (f (x, k))) \<Longrightarrow> keeps (andthen R f)"
  "keeps R \<Longrightarrow> (\<And>x k. kept k \<Longrightarrow> keepk (g (x, k))) \<Longrightarrow> keepk (andthen R g)"
  by (auto simp: keeps_def keepk_def andthen_Ret_iff)

lemma keepk_andthen [keep_intros]:
  "keepk R \<Longrightarrow> (\<And>k. kept k \<Longrightarrow> keepk (g k)) \<Longrightarrow> keepk (andthen R g)"
  "keepk R \<Longrightarrow> (\<And>k. kept k \<Longrightarrow> keeps (f k)) \<Longrightarrow> keeps (andthen R f)"
  by (auto simp: keeps_def keepk_def andthen_Ret_iff)

lemma keeps_case [keep_intros]:
  "(\<And>ok k'. kmalloc k = (ok, k') \<Longrightarrow> kept k' \<Longrightarrow> keeps (f ok k')) \<Longrightarrow> kept k \<Longrightarrow> keeps (case kmalloc k of (ok, k') \<Rightarrow> f ok k')"
  "(p = None \<Longrightarrow> keeps R) \<Longrightarrow> (\<And>x. p = Some x \<Longrightarrow> keeps (g x)) \<Longrightarrow> keeps (case p of None \<Rightarrow> R | Some x \<Rightarrow> g x)"
  "(p = None \<Longrightarrow> keepk Q) \<Longrightarrow> (\<And>x. p = Some x \<Longrightarrow> keepk (h x)) \<Longrightarrow> keepk (case p of None \<Rightarrow> Q | Some x \<Rightarrow> h x)"
  "(\<And>e. r = Inl e \<Longrightarrow> keeps (a e)) \<Longrightarrow> (\<And>x. r = Inr x \<Longrightarrow> keeps (b x)) \<Longrightarrow> keeps (case r of Inl e \<Rightarrow> a e | Inr x \<Rightarrow> b x)"
  "(xs = [] \<Longrightarrow> keeps U) \<Longrightarrow> (\<And>y ys. xs = y # ys \<Longrightarrow> keeps (c y ys)) \<Longrightarrow> keeps (case xs of [] \<Rightarrow> U | y # ys \<Rightarrow> c y ys)"
  by (auto simp: kept_kmalloc split: prod.split option.split sum.split list.split)

lemma keepk_return [keep_intros]: "kept k \<Longrightarrow> keepk (return_to frs k)"
  using kept_return_to by (auto simp: keepk_def)

lemma keeps_vm [keep_intros]:
  "kept k \<Longrightarrow> keeps (copyin as src len k)" "kept k \<Longrightarrow> keeps (copyout as bs dst len k)"
  "kept k \<Longrightarrow> keeps (vm_fault as ft va k)" "kept k \<Longrightarrow> keeps (user_write as bs va k)"
  "kept k \<Longrightarrow> keeps (as_copy ok a k)"
  unfolding keeps_def
      apply (metis copyin_frame kept_vm)
     apply (metis copyout_frame kept_vm)
    apply (metis vm_fault_frame kept_vm)
   apply (metis user_write_frame kept_vm)
  apply (metis as_copy_core kept_core same_threads_def)
  done

lemma sys_done_keep [keep_intros]: "kept k \<Longrightarrow> keepk (sys_done r frs k)"
  unfolding sys_done_def by (intro keep_intros) (auto intro: kept_cur_upd)

lemma sys_now_keep [keep_intros]: "keeps R \<Longrightarrow> keepk (sys_now R frs)"
  unfolding sys_now_def by (intro keep_intros) (auto intro: keep_intros)

lemma sys_write_keep [keep_intros]: "kept k \<Longrightarrow> keeps (sys_write fd buf n k)"
  unfolding sys_write_def
  by (assumption | rule keep_intros | clarsimp split del: if_split | simp)+

lemma sys_read_keep [keep_intros]: "kept k \<Longrightarrow> keeps (sys_read fd buf n k)"
  unfolding sys_read_def Let_def
  by (assumption | rule keep_intros | clarsimp split del: if_split | simp)+

lemma sys__time_keep [keep_intros]: "kept k \<Longrightarrow> keeps (sys__time sec nsec k)"
  unfolding sys__time_def
  by (cases "k_clock k") (assumption | rule keep_intros | clarsimp split del: if_split)+


lemma keep_thread_ops [keep_intros]:
  "kept k \<Longrightarrow> keepk (thread_exit code k)" "kept k \<Longrightarrow> keepk (thread_yield frs k)"
  "kept k \<Longrightarrow> may_sleep k addr \<Longrightarrow> keepk (thread_sleep addr frs k)"
  "kept k \<Longrightarrow> keepk (acquire_loop l spl frs k)" "kept k \<Longrightarrow> keepk (lock_acquire (Some l) frs k)"
  "kept k \<Longrightarrow> keepk (lock_release lock k)" "kept k \<Longrightarrow> keepk (cv_wait cv lock frs k)"
  "kept k \<Longrightarrow> keepk (cv_signal cv lock k)" "kept k \<Longrightarrow> keepk (cv_broadcast cv lock k)"
  "kept k \<Longrightarrow> keepk (clock_loop n s frs k)" "kept k \<Longrightarrow> keepk (clocksleep n frs k)"
  "kept k \<Longrightarrow> keepk (exorcise k)"
  unfolding keepk_def kept_def
  by (metis thread_exit_kinv, metis thread_yield_kinv, metis thread_sleep_kinv, metis acquire_loop_kinv,
      metis lock_acquire_kinv, metis lock_release_kinv, metis cv_wait_kinv, metis cv_signal_kinv,
      metis cv_broadcast_kinv, metis clock_loop_kinv, metis clocksleep_kinv, metis exorcise_kinv(1))

lemma keep_sems:
  "kept k \<Longrightarrow> s \<notin> pid_sems k \<Longrightarrow> keepk (P (Some s) frs k)" "kept k \<Longrightarrow> s \<notin> pid_sems k \<Longrightarrow> keepk (V (Some s) k)"
  "kept k \<Longrightarrow> s \<notin> pid_sems k \<Longrightarrow> keepk (P_loop s spl frs k)"
  unfolding keepk_def kept_def
  by (metis P_kinv, metis V_kinv, metis P_loop_kinv)

lemma thread_fork_keep: "kept k \<Longrightarrow> curthread k = Some c \<Longrightarrow> keeps (thread_fork name func k)"
  unfolding keeps_def kept_def using thread_fork_kinv by (metis prod.collapse)

lemma activate_cur_keep [keep_intros]: "kept k \<Longrightarrow> keepk (activate_cur k)"
  unfolding activate_cur_def by (rule keep_intros)+ (simp add: as_activate_kernel)

lemma sys_fork_keep [keep_intros]:
  assumes "kept k"
  shows "keeps (sys_fork tf k)"
  unfolding keeps_def
proof (intro allI impI)
  fix r k' assume e: "sys_fork tf k = Ret (r, k')"
  let ?k = "k\<lparr>curspl := SPL_HIGH\<rparr>" and ?s = "curspl k"
  from e obtain c th where c: "curthread k = Some c" "k_threads k c = Some th"
    by (auto simp: sys_fork_def splhigh_def splx_def [of SPL_HIGH] with_cur_Ret_iff)
  obtain b1 k1 where m1: "kmalloc ?k = (b1, k1)" by fastforce
  obtain b2 k2 where m2: "kmalloc k1 = (b2, k2)" by fastforce
  from kmalloc_frame [OF m1] obtain o1 where o1: "k1 = ?k\<lparr>k_oom := o1\<rparr>" by blast
  from kmalloc_frame [OF m2] obtain o2 where o2: "k2 = ?k\<lparr>k_oom := o2\<rparr>" unfolding o1 by auto
  have kept2: "kept k1" "kept k2" using assms by (simp_all add: o1 o2)
  show "kept k'"
  proof (cases "b1 \<and> t_vmspace th \<noteq> None")
    case False
    with e c m1 kept2(1) show ?thesis
      by (cases "t_vmspace th") (auto simp: sys_fork_def splhigh_def splx_def [of SPL_HIGH] split: if_splits)
  next
    case True
    then obtain as where as: "t_vmspace th = Some as" by auto
    with e c m1 m2 True obtain ec new k3 where k3: "as_copy b2 as k2 = Ret ((ec, new), k3)"
      by (auto simp: sys_fork_def splhigh_def splx_def [of SPL_HIGH] andthen_Ret_iff)
    have core: "same_core k2 k3" using as_copy_core [OF k3] by (simp add: same_threads_def)
    have kept3: "kept k3" "curthread k3 = Some c"
      using kept_core [OF core] kept2(2) core c(1) by (simp_all add: same_core_def o2)
    show ?thesis
    proof (cases "ec = None")
      case False
      with e c m1 m2 True as k3 kept3 show ?thesis
        by (auto simp: sys_fork_def splhigh_def splx_def [of SPL_HIGH])
    next
      case ec: True
      with e c m1 m2 True as k3 obtain ef child k4 where k4: "thread_fork (t_name th) [F_child tf] k3 = Ret ((ef, child), k4)"
        "(if ef \<noteq> None then Ret ((ef, -1), snd (splx ?s k4))
          else deref child (\<lambda>t. deref (k_threads k4 t) (\<lambda>ch.
            let k = upd_thread t (\<lambda>x. x\<lparr>t_parentPid := Some (t_pidValue th), t_vmspace := new\<rparr>) k4;
                k = as_activate (t_vmspace th) k
            in Ret ((None, t_pidValue ch), snd (splx ?s k))))) = Ret (r, k')"
        by (auto simp: sys_fork_def splhigh_def splx_def [of SPL_HIGH] andthen_Ret_iff)
      from kept3(1) obtain rq sl zb where inv: "kinv k3 rq sl zb" by (auto simp: kept_def)
      note f = thread_fork_kinv [OF k4(1) inv kept3(2)]
      show ?thesis
      proof (cases "ef = None")
        case False
        with f have "kept k4" by (auto intro: keptI)
        with k4(2) False show ?thesis by auto
      next
        case ef: True
        with f obtain t tth where t: "child = Some t" "kinv k4 (rq @ [t]) sl zb" "k_threads k4 t = Some tth" by auto
        from t(2) have "t \<notin> set zb" by (auto simp: kinv_def tinv_def)
        then have "kinv (upd_thread t (\<lambda>x. x\<lparr>t_parentPid := Some (t_pidValue th), t_vmspace := new\<rparr>) k4) (rq @ [t]) sl zb"
          by (intro kinv_upd_thread [OF t(2)]) (simp add: stack_check_def)
        then have "kept (upd_thread t (\<lambda>x. x\<lparr>t_parentPid := Some (t_pidValue th), t_vmspace := new\<rparr>) k4)"
          by (rule keptI)
        with k4(2) ef t(1,3) show ?thesis by (auto simp: as_activate_kernel Let_def)
      qed
    qed
  qed
qed


lemma store_int_keep [keep_intros]: "kept k \<Longrightarrow> keepk (store_int as addr v k)"
  unfolding store_int_def by (assumption | rule keep_intros | clarsimp split del: if_split)+

lemma waitpid_done_keep [keep_intros]: "kept k \<Longrightarrow> keepk (waitpid_done i s status frs k)"
  unfolding waitpid_done_def by (assumption | rule keep_intros | clarsimp)+

text \<open>\<^verbatim>\<open>P\<close> and \<^verbatim>\<open>V\<close> on the semaphore of an exited process leave everything as it was.\<close>

lemma P_V_keep:
  assumes "kept k" "pid_at i k = Some p" "parentSem p = Some s" "k_sems k s = Some sm" "sem_count sm \<noteq> 0"
    "V (Some s) (k\<lparr>k_sems := (k_sems k)(s \<mapsto> sm\<lparr>sem_count := sem_count sm - 1\<rparr>)\<rparr>) = Ret k'"
  shows "kept k'"
proof -
  from assms(1) obtain rq sl zb where inv: "kinv k rq sl zb" by (auto simp: kept_def)
  then have p: "tinv k rq sl zb" "winv k sl" "pinv k zb" "iinv k" by (simp_all add: kinv_def)
  have i: "i < length (pidHead k)" "p = pidHead k ! i" using assms(2) by (auto simp: pid_at_def split: if_splits)
  have "0 < i" using pinvD(2) [OF p(3)] assms(3) i(2) by (cases "i = 0") auto
  from pinvD(5) [OF p(3) this i(1)] assms(3-5) i(2) have cnt: "sem_count sm = 1"
    by (auto simp: pid_sem_ok_def split: if_splits)
  let ?k = "k\<lparr>k_sems := (k_sems k)(s \<mapsto> sm\<lparr>sem_count := sem_count sm - 1\<rparr>)\<rparr>"
  have "tinv ?k rq sl zb" using p(1) by (simp add: tinv_def klists_def cur_list_def thread_ok_def)
  moreover have "winv ?k sl" by (rule winv_set_sem [OF p(2)]) (use assms(4) cnt in simp_all)
  ultimately obtain rq' sl' where v: "V_effect s ?k k' rq sl rq' sl'" "tinv k' rq' sl' zb" "winv k' sl'"
    using V_tinv_winv [OF assms(6)] by blast
  from v(1) obtain oom q a where
    k': "k' = ?k\<lparr>k_sems := (k_sems ?k)(s \<mapsto> sm\<lparr>sem_count := 1\<rparr>), k_oom := oom, runqueue := Some q, sleepers := Some a\<rparr>"
    by (auto simp: V_effect_def cnt int_incr_def)
  have "sm\<lparr>sem_count := 1\<rparr> = sm" using cnt by simp
  then have "(k_sems k)(s \<mapsto> sm\<lparr>sem_count := 1\<rparr>) = k_sems k" using assms(4) by auto
  then have "k_sems k' = k_sems k" "pidHead k' = pidHead k" "k_threads k' = k_threads k" by (simp_all add: k')
  with p(3) have "pinv k' zb" by (simp add: pinv_def pid_ok_def pid_sem_ok_def)
  moreover have "iinv k'" using p(4) by (simp add: iinv_def pid_sems_def k')
  ultimately have "kinv k' rq' sl' zb" using v by (simp add: kinv_def)
  then show ?thesis by (rule keptI)
qed

lemma sems_then_spl: "k\<lparr>k_sems := x, curspl := y\<rparr> = k\<lparr>curspl := y, k_sems := x\<rparr>" for k :: kernel
  by (cases k) simp

lemma waitpid_wait_keep [keep_intros]:
  assumes "kept k"
  shows "keepk (waitpid_wait i spl s status frs k)"
proof (cases "pid_at i k")
  case (Some p)
  show ?thesis
  proof (cases "parentSem p")
    case (Some sem)
    note sem = this
    show ?thesis
    proof (cases "k_sems k sem")
      case (Some sm)
      let ?k = "k\<lparr>curspl := spl\<rparr>"
      have "keepk (V (Some sem) (?k\<lparr>k_sems := (k_sems ?k)(sem \<mapsto> sm\<lparr>sem_count := sem_count sm - 1\<rparr>)\<rparr>))" if "sem_count sm \<noteq> 0"
      proof -
        have "pid_at i ?k = Some p" using \<open>pid_at i k = Some p\<close> by (simp add: pid_at_def split: if_splits)
        then show ?thesis using P_V_keep [of ?k i p sem sm] assms sem Some that by (simp add: keepk_def)
      qed
      then have "keepk (V (Some sem) (k\<lparr>k_sems := (k_sems k)(sem \<mapsto> sm\<lparr>sem_count := sem_count sm - 1\<rparr>), curspl := spl\<rparr>))"
        if "sem_count sm \<noteq> 0" using that by (simp add: sems_then_spl)
      moreover have "keepk (thread_sleep (A_sem sem) (F_waitpid i spl s status # frs) k)" if "sem_count sm = 0"
        by (rule keep_intros) (use assms Some that in \<open>simp_all add: may_sleep_def\<close>)
      ultimately show ?thesis using Some sem \<open>pid_at i k = Some p\<close>
        by (auto simp: waitpid_wait_def intro: keep_intros)
    qed (simp add: waitpid_wait_def sem \<open>pid_at i k = Some p\<close> keepk_def)
  qed (simp add: waitpid_wait_def Some keepk_def)
qed (simp add: waitpid_wait_def keepk_def)

lemma sys_waitpid_keep [keep_intros]: "kept k \<Longrightarrow> keepk (sys_waitpid pid status options frs k)"
  unfolding sys_waitpid_def splhigh_def splx_def [of SPL_HIGH]
  by (assumption | rule keep_intros | clarsimp split del: if_split)+

lemma sys_sleep_keep [keep_intros]: "kept k \<Longrightarrow> keepk (sys_sleep n frs k)"
  unfolding sys_sleep_def by (assumption | rule keep_intros | rule kept_cur_upd | clarsimp)+

lemma sys_easy_keep [keep_intros]:
  "kept k \<Longrightarrow> keeps (sys_getpid k)" "kept k \<Longrightarrow> keeps (sys_reboot code k)" "kept k \<Longrightarrow> keepk (sys_exit code k)"
  unfolding sys_getpid_def sys_reboot_def sys_exit_def by (assumption | rule keep_intros | clarsimp split del: if_split)+

lemma mips_syscall_keep [keep_intros]: "kept k \<Longrightarrow> keepk (mips_syscall k)"
  unfolding mips_syscall_def Let_def by (assumption | rule keep_intros)+

lemma kill_curthread_keep [keep_intros]: "kept k \<Longrightarrow> keepk (kill_curthread code k)"
  unfolding kill_curthread_def by (assumption | rule keep_intros | simp add: splhigh_def splx_def)+

lemma user_trap_keep [keep_intros]: "kept k \<Longrightarrow> keepk (user_trap code vaddr k)"
  unfolding user_trap_def Let_def by (assumption | rule keep_intros | clarsimp split del: if_split)+

section \<open>Frames keep the invariant\<close>

lemma syscall_return_keep [keep_intros]: "kept k \<Longrightarrow> keepk (syscall_return frs k)"
  unfolding syscall_return_def Let_def prod.case_eq_if
  by (assumption | rule keep_intros | rule kept_cur_upd | simp)+

lemma childProcstub_keep [keep_intros]: "kept k \<Longrightarrow> keepk (childProcstub tf frs k)"
  unfolding childProcstub_def Let_def splhigh_def splx_def as_activate_kernel
  by (assumption | rule keep_intros | rule kept_cur_upd | simp)+

lemma mi_threadstart_keep [keep_intros]: "kept k \<Longrightarrow> keepk (mi_threadstart frs k)"
  unfolding mi_threadstart_def spl0_def splx_def by (assumption | rule keep_intros | simp)+

lemma sleep_frame_keep:
  "kept k \<Longrightarrow> keepk (with_cur k (\<lambda>t _. return_to frs (upd_thread t (\<lambda>th. th\<lparr>t_sleepaddr := None\<rparr>) k)))"
  by (assumption | rule keep_intros | rule kept_cur_upd | simp)+

lemma run_frame_keep:
  assumes "kept k" "\<And>s spl. f = F_P s spl \<Longrightarrow> s \<notin> pid_sems k"
  shows "keepk (run_frame f frs k)"
proof (cases f)
  case (F_P s spl)
  with assms show ?thesis by (simp add: keep_sems(3))
next
  case F_switch
  have "keepk (andthen (exorcise k) (\<lambda>k. andthen (activate_cur k) (return_to frs)))"
    using assms(1) by (intro keep_intros)
  then show ?thesis by (simp add: F_switch)
qed (use assms(1) sleep_frame_keep [OF assms(1)] in \<open>simp_all add: keep_intros\<close>)

section \<open>Frames and pids grow\<close>

lemma grow_vm_frame: "vm_frame k k' \<Longrightarrow> grow X k1 k' = grow X k1 k"
  by (rule grow_cong) (auto simp: vm_frame_def)

lemma grow_vm [grow_intros]:
  "grow X k1 k \<Longrightarrow> grows X k1 (copyin as src len k)" "grow X k1 k \<Longrightarrow> grows X k1 (copyout as bs dst len k)"
  "grow X k1 k \<Longrightarrow> grows X k1 (vm_fault as ft va k)" "grow X k1 k \<Longrightarrow> grows X k1 (user_write as bs va k)"
  unfolding grows_def
     apply (metis copyin_frame grow_vm_frame)
    apply (metis copyout_frame grow_vm_frame)
   apply (metis vm_fault_frame grow_vm_frame)
  apply (metis user_write_frame grow_vm_frame)
  done

lemma grow_as_copy [grow_intros]: "grow X k1 k \<Longrightarrow> grows X k1 (as_copy ok a k)"
  unfolding grows_def using grow_cong as_copy_core unfolding same_threads_def same_core_def by metis

lemma grow_sys_done [grow_intros]: "grow X k1 k \<Longrightarrow> pfr frs \<subseteq> X \<Longrightarrow> growk X k1 (sys_done r frs k)"
  unfolding sys_done_def by (assumption | rule grow_intros | rule grow_upd | simp)+

lemma grow_sys_now [grow_intros]: "grows X k1 R \<Longrightarrow> pfr frs \<subseteq> X \<Longrightarrow> growk X k1 (sys_now R frs)"
  unfolding sys_now_def by (assumption | rule grow_intros | clarsimp)+

lemma grow_sys_write [grow_intros]: "grow X k1 k \<Longrightarrow> grows X k1 (sys_write fd buf n k)"
  unfolding sys_write_def
  by (assumption | rule grow_intros | intro conjI | clarsimp split: sum.split)+

lemma grow_sys_read [grow_intros]: "grow X k1 k \<Longrightarrow> grows X k1 (sys_read fd buf n k)"
  unfolding sys_read_def Let_def
  by (cases "k_input k") (assumption | rule grow_intros | clarsimp split del: if_split)+

lemma grow_sys__time [grow_intros]: "grow X k1 k \<Longrightarrow> grows X k1 (sys__time a b k)"
  unfolding sys__time_def
  by (cases "k_clock k") (assumption | rule grow_intros | clarsimp split del: if_split)+

lemma grow_sys_fork [grow_intros]: "grow X k1 k \<Longrightarrow> grows X k1 (sys_fork tf k)"
  unfolding sys_fork_def splhigh_def splx_def [of SPL_HIGH] Let_def as_activate_kernel
  by (assumption | rule grow_intros | rule grow_upd | clarsimp split del: if_split)+

lemma grow_waitpid_done [grow_intros]: "grow X k1 k \<Longrightarrow> pfr frs \<subseteq> X \<Longrightarrow> growk X k1 (waitpid_done i s st frs k)"
  unfolding waitpid_done_def store_int_def
  by (assumption | rule grow_intros | clarsimp split del: if_split)+

lemma grow_waitpid_wait [grow_intros]:
  "grow X k1 k \<Longrightarrow> pfr frs \<subseteq> X \<Longrightarrow> growk X k1 (waitpid_wait i spl s st frs k)"
  unfolding waitpid_wait_def
  by (assumption | rule grow_intros | clarsimp split del: if_split)+

lemma grow_sys_waitpid [grow_intros]:
  "grow X k1 k \<Longrightarrow> pfr frs \<subseteq> X \<Longrightarrow> growk X k1 (sys_waitpid pid st opt frs k)"
  unfolding sys_waitpid_def splhigh_def splx_def [of SPL_HIGH]
  by (assumption | rule grow_intros | clarsimp split del: if_split)+

lemma grow_sys_easy [grow_intros]:
  "grow X k1 k \<Longrightarrow> pfr frs \<subseteq> X \<Longrightarrow> growk X k1 (sys_sleep n frs k)" "grow X k1 k \<Longrightarrow> grows X k1 (sys_getpid k)"
  "grow X k1 k \<Longrightarrow> grows X k1 (sys_reboot code k)" "grow X k1 k \<Longrightarrow> growk X k1 (sys_exit code k)"
  unfolding sys_sleep_def sys_getpid_def sys_reboot_def sys_exit_def
  by (assumption | rule grow_intros | rule grow_upd | clarsimp split del: if_split)+

lemma grow_mips_syscall [grow_intros]: "grow X k1 k \<Longrightarrow> growk X k1 (mips_syscall k)"
  unfolding mips_syscall_def Let_def by (assumption | rule grow_intros | simp)+

lemma grow_user_trap [grow_intros]: "grow X k1 k \<Longrightarrow> growk X k1 (user_trap code va k)"
  unfolding user_trap_def kill_curthread_def Let_def splhigh_def splx_def
  by (assumption | rule grow_intros | clarsimp split del: if_split)+

lemma grow_small_frames [grow_intros]:
  "grow X k1 k \<Longrightarrow> pfr frs \<subseteq> X \<Longrightarrow> growk X k1 (syscall_return frs k)"
  "grow X k1 k \<Longrightarrow> pfr frs \<subseteq> X \<Longrightarrow> growk X k1 (childProcstub tf frs k)"
  "grow X k1 k \<Longrightarrow> pfr frs \<subseteq> X \<Longrightarrow> growk X k1 (mi_threadstart frs k)"
  "grow X k1 k \<Longrightarrow> pfr frs \<subseteq> X \<Longrightarrow>
     growk X k1 (with_cur k (\<lambda>t _. return_to frs (upd_thread t (\<lambda>th. th\<lparr>t_sleepaddr := None\<rparr>) k)))"
  unfolding syscall_return_def childProcstub_def mi_threadstart_def Let_def splhigh_def splx_def spl0_def
    as_activate_kernel prod.case_eq_if
  by (assumption | rule grow_intros | rule grow_upd | simp)+

lemma grow_run_frame:
  assumes "grow X k1 k" "pfr (f # frs) \<subseteq> X"
  shows "growk X k1 (run_frame f frs k)"
proof -
  have frs: "pfr frs \<subseteq> X" using assms(2) by (auto simp: pfr_def)
  show ?thesis
  proof (cases f)
    case F_switch
    have "growk X k1 (andthen (exorcise k) (\<lambda>k. andthen (activate_cur k) (return_to frs)))"
      using assms(1) frs by (intro grow_intros)
    then show ?thesis by (simp add: F_switch)
  qed (use assms frs grow_small_frames(4) [OF assms(1) frs] in \<open>simp_all add: grow_intros\<close>)
qed

section \<open>The step relation\<close>

text \<open>The calls a kernel thread makes from its own code.\<close>

datatype kcall = K_sem string int | K_lock string | K_cv string | K_P nat | K_V nat | K_acquire nat | K_release nat
  | K_wait nat nat | K_signal nat nat | K_broadcast nat nat | K_yield | K_sleep int | K_fork string | K_exit int

fun kcall_run :: "kcall \<Rightarrow> kernel \<Rightarrow> kernel run" where
  "kcall_run (K_sem name n) k = andthen (sem_create name n k) (\<lambda>(_, k). Ret k)"
| "kcall_run (K_lock name) k = Ret (snd (lock_create name k))"
| "kcall_run (K_cv name) k = Ret (snd (cv_create name k))"
| "kcall_run (K_P s) k = P (Some s) [] k"
| "kcall_run (K_V s) k = V (Some s) k"
| "kcall_run (K_acquire l) k = lock_acquire (Some l) [] k"
| "kcall_run (K_release l) k = lock_release (Some l) k"
| "kcall_run (K_wait c l) k = cv_wait (Some c) (Some l) [] k"
| "kcall_run (K_signal c l) k = cv_signal (Some c) (Some l) k"
| "kcall_run (K_broadcast c l) k = cv_broadcast (Some c) (Some l) k"
| "kcall_run K_yield k = thread_yield [] k"
| "kcall_run (K_sleep n) k = clocksleep n [] k"
| "kcall_run (K_fork name) k = andthen (thread_fork name [] k) (\<lambda>(_, k). Ret k)"
| "kcall_run (K_exit code) k = thread_exit code k"

text \<open>
  The semaphores of the process table are reachable from the table only: no other code, and no device
  handler, calls \<^verbatim>\<open>P\<close> or \<^verbatim>\<open>V\<close> on one of them.  This is what the premises on
  \<open>pid_sems\<close> say; the system calls, which do use them, have no such premise.  The rule \<open>world\<close>
  lets the environment choose which allocations fail, which interrupts arrive and what is typed.
\<close>

inductive kstep :: "kernel \<Rightarrow> kernel \<Rightarrow> bool" where
  frame: "curthread k = Some t \<Longrightarrow> k_threads k t = Some th \<Longrightarrow> t_frames th = f # frs \<Longrightarrow>
    run_frame f frs k = Ret k' \<Longrightarrow> kstep k k'"
| irq: "curthread k = Some t \<Longrightarrow> k_threads k t = Some th \<Longrightarrow> curspl k = 0 \<Longrightarrow>
    (\<forall>s. i = Irq_V s \<longrightarrow> s \<notin> pid_sems k) \<Longrightarrow> interrupt i (t_frames th) k = Ret k' \<Longrightarrow> kstep k k'"
| trap: "curthread k = Some t \<Longrightarrow> k_threads k t = Some th \<Longrightarrow> t_frames th = [] \<Longrightarrow> curspl k = 0 \<Longrightarrow>
    user_trap code va (upd_thread t (\<lambda>th. th\<lparr>t_tf := tf\<rparr>) k) = Ret k' \<Longrightarrow> kstep k k'"
| call: "curthread k = Some t \<Longrightarrow> k_threads k t = Some th \<Longrightarrow> t_frames th = [] \<Longrightarrow>
    (\<forall>s. c = K_P s \<or> c = K_V s \<longrightarrow> s \<notin> pid_sems k) \<Longrightarrow> kcall_run c k = Ret k' \<Longrightarrow> kstep k k'"
| world: "(\<forall>s. Irq_V s \<in> set irqs \<longrightarrow> s \<notin> pid_sems k \<and> s < k_next k) \<Longrightarrow>
    kstep k (k\<lparr>k_oom := oom, k_irqs := irqs, k_input := inp, k_clock := now\<rparr>)"

inductive_cases kstepE: "kstep k k'"

section \<open>Creation of synchronisation objects\<close>

lemma kinv_new_sem:
  assumes "kinv k rq sl zb" "0 \<le> n"
  shows "kinv (k\<lparr>k_sems := (k_sems k)(k_next k \<mapsto> \<lparr>sem_name = nm, sem_count = n\<rparr>), k_next := Suc (k_next k)\<rparr>) rq sl zb"
proof -
  from assms(1) have p: "pinv k zb" "winv k sl" by (simp_all add: kinv_def)
  have no: "k_sems k (k_next k) = None" using winvD(3) [OF p(2), of "k_next k"] by (cases "k_sems k (k_next k)") auto
  let ?k = "k\<lparr>k_sems := (k_sems k)(k_next k \<mapsto> \<lparr>sem_name = nm, sem_count = n\<rparr>), k_next := Suc (k_next k)\<rparr>"
  have "pid_sem_ok ?k q" if "pid_sem_ok k q" for q using that no by (auto simp: pid_sem_ok_def)
  then have "pinv ?k zb" using p(1) by (simp add: pinv_def pid_ok_def)
  then show ?thesis
    by (intro kinv_tables [OF assms(1)])
      (use no assms(2) winvD(3) [OF p(2)] in \<open>auto simp: pid_sems_def less_SucI split: if_splits\<close>)
qed

lemma kinv_new_lock:
  assumes "kinv k rq sl zb"
  shows "kinv (k\<lparr>k_locks := (k_locks k)(k_next k \<mapsto> \<lparr>lock_name = nm, lock_count = 1, lock_thread = None\<rparr>),
     k_next := Suc (k_next k)\<rparr>) rq sl zb"
proof -
  have inv: "kinv (k\<lparr>k_next := Suc (k_next k)\<rparr>) rq sl zb" by (rule kinv_next [OF assms])
  let ?k = "k\<lparr>k_locks := (k_locks k)(k_next k \<mapsto> \<lparr>lock_name = nm, lock_count = 1, lock_thread = None\<rparr>),
     k_next := Suc (k_next k)\<rparr>"
  from inv have p: "tinv (k\<lparr>k_next := Suc (k_next k)\<rparr>) rq sl zb" "winv (k\<lparr>k_next := Suc (k_next k)\<rparr>) sl"
    "pinv (k\<lparr>k_next := Suc (k_next k)\<rparr>) zb" "iinv (k\<lparr>k_next := Suc (k_next k)\<rparr>)" by (simp_all add: kinv_def)
  have w: "winv k sl" using assms by (simp add: kinv_def)
  have no: "k_locks k (k_next k) = None" using winvD(4) [OF w, of "k_next k"] by (cases "k_locks k (k_next k)") auto
  have on: "sleeps_on ?k = sleeps_on k" by (rule sleeps_on_cong) simp
  have "winv ?k sl"
  proof (rule winvI)
    fix t l assume "t \<in> set sl" "sleeps_on ?k (A_lock l) t"
    with winvD(2) [OF w] no show "\<exists>lk. k_locks ?k l = Some lk \<and> lock_count lk = 0" unfolding on by fastforce
  qed (use winvD(1,3,4) [OF w] in \<open>auto simp: on less_SucI split: if_splits\<close>)
  moreover have "tinv ?k rq sl zb" using p(1) by (simp add: tinv_def klists_def cur_list_def thread_ok_def)
  moreover have "pinv ?k zb" "iinv ?k" using p(3,4) by (simp_all add: pinv_def pid_ok_def pid_sem_ok_def iinv_def pid_sems_def)
  ultimately show ?thesis by (simp add: kinv_def)
qed

lemma create_keep:
  "kept k \<Longrightarrow> keeps (sem_create name n k)" "kept k \<Longrightarrow> kept (snd (lock_create name k))" "kept k \<Longrightarrow> kept (snd (cv_create name k))"
proof -
  assume k: "kept k"
  obtain b1 k1 where 1: "kmalloc k = (b1, k1)" by fastforce
  obtain b2 k2 where 2: "kmalloc k1 = (b2, k2)" by fastforce
  have k12: "kept k1" "kept k2" using kept_kmalloc [OF 1 k] kept_kmalloc [OF 2] by blast+
  from k12(2) obtain rq sl zb where k2: "kinv k2 rq sl zb" by (auto simp: kept_def)
  show "keeps (sem_create name n k)"
    using k12 keptI [OF kinv_new_sem [OF k2, of n name]] by (auto simp: sem_create_def 1 2 keeps_def assertk_Ret_iff)
  show "kept (snd (lock_create name k))"
    using k12 keptI [OF kinv_new_lock [OF k2, of name]] by (auto simp: lock_create_def 1 2)
  show "kept (snd (cv_create name k))"
  proof (cases "b1 \<and> b2")
    case True
    from kinv_next [OF k2] have "kinv (k2\<lparr>k_cvs := (k_cvs k2)(k_next k2 \<mapsto> name), k_next := Suc (k_next k2)\<rparr>) rq sl zb"
      by (simp add: kinv_parts klists_def cur_list_def thread_ok_def sleeps_on_def pid_ok_def pid_sem_ok_def pid_sems_def)
    from keptI [OF this] show ?thesis using True by (auto simp: cv_create_def 1 2)
  qed (use k12 in \<open>auto simp: cv_create_def 1 2\<close>)
qed


lemma grow_create:
  "grow X k1 k \<Longrightarrow> grows X k1 (sem_create name n k)" "grow X k1 k \<Longrightarrow> grow X k1 (snd (lock_create name k))"
  "grow X k1 k \<Longrightarrow> grow X k1 (snd (cv_create name k))"
proof -
  assume g: "grow X k1 k"
  obtain b1 ka where 1: "kmalloc k = (b1, ka)" by fastforce
  obtain b2 kb where 2: "kmalloc ka = (b2, kb)" by fastforce
  have ka: "grow X k1 ka" by (rule grow_kmalloc [OF 1 g])
  have kb: "grow X k1 kb" by (rule grow_kmalloc [OF 2 ka])
  have nx: "grow X k1 (k'\<lparr>k_next := Suc (k_next k')\<rparr>)" if "grow X k1 k'" for k' by (rule grow_next [OF that]) simp
  show "grows X k1 (sem_create name n k)" "grow X k1 (snd (lock_create name k))" "grow X k1 (snd (cv_create name k))"
    using ka kb nx [of "kb\<lparr>k_sems := x\<rparr>" for x] nx [of "kb\<lparr>k_locks := x\<rparr>" for x] nx [of "kb\<lparr>k_cvs := x\<rparr>" for x]
    by (auto simp: sem_create_def lock_create_def cv_create_def 1 2 grows_def assertk_Ret_iff)
qed

section \<open>Every step keeps the invariants\<close>

lemma kcall_keep:
  assumes "kept k" "curthread k = Some t" "\<forall>s. c = K_P s \<or> c = K_V s \<longrightarrow> s \<notin> pid_sems k"
  shows "keepk (kcall_run c k)"
proof (cases c)
  case (K_fork name)
  have "keepk (andthen (thread_fork name [] k) (\<lambda>(_, k). Ret k))"
    by (rule keep_intros thread_fork_keep assms | clarsimp)+
  with K_fork show ?thesis by simp
next
  case (K_sem name n)
  have "keepk (andthen (sem_create name n k) (\<lambda>(_, k). Ret k))"
    by (rule keep_intros create_keep assms | clarsimp)+
  with K_sem show ?thesis by simp
qed (use assms in \<open>simp_all add: keep_intros keep_sems create_keep\<close>)

lemma kcall_grow:
  assumes "\<And>s. c = K_P s \<Longrightarrow> s \<in> X"
  shows "growk X k (kcall_run c k)"
proof (cases c)
  case (K_fork name)
  have "growk X k (andthen (thread_fork name [] k) (\<lambda>(_, k). Ret k))"
    by (rule grow_refl grow_intros | clarsimp)+
  with K_fork show ?thesis by simp
next
  case (K_sem name n)
  have "growk X k (andthen (sem_create name n k) (\<lambda>(_, k). Ret k))"
    by (rule grow_refl grow_intros grow_create | clarsimp)+
  with K_sem show ?thesis by simp
qed (use assms in \<open>simp_all add: grow_intros grow_create\<close>)

text \<open>A thread calls \<^verbatim>\<open>P\<close> on a semaphore that exists, else the call faults.\<close>

lemma P_sem_exists: "P (Some s) frs k = Ret k' \<Longrightarrow> k_sems k s \<noteq> None"
  by (auto simp: P_def P_loop_def splhigh_def splx_def [of SPL_HIGH] assertk_Ret_iff deref_Ret_iff)

lemma kept_sem_bound: "kept k \<Longrightarrow> k_sems k s \<noteq> None \<Longrightarrow> s < k_next k"
  by (auto simp: kept_def kinv_def dest: winvD(3))

definition kgood :: "kernel \<Rightarrow> bool" where
  "kgood k \<longleftrightarrow> kept k \<and> finv k"

lemma finv_frame: "finv k \<Longrightarrow> k_threads k t = Some th \<Longrightarrow> s \<in> pfr (t_frames th) \<Longrightarrow> s \<notin> pid_sems k \<and> s < k_next k"
  unfolding finv_def psems_def by (auto split: option.splits)

lemma interrupt_keep:
  assumes "kept k" "\<forall>s. i = Irq_V s \<longrightarrow> s \<notin> pid_sems k"
  shows "keepk (interrupt i frs k)"
  using assms interrupt_kinv unfolding keepk_def kept_def by metis

lemma kstep_good:
  assumes "kstep k k'" "kgood k"
  shows "kgood k'"
proof -
  from assms(2) have k: "kept k" "finv k" by (simp_all add: kgood_def)
  from assms(1) show ?thesis
  proof cases
    case (frame t th f frs)
    have fr: "s \<notin> pid_sems k \<and> s < k_next k" if "s \<in> pfr (f # frs)" for s
      using finv_frame [OF k(2) frame(2)] that frame(3) by simp
    have "s \<notin> pid_sems k" if "f = F_P s spl" for s spl using fr [of s] that by simp
    then have "keepk (run_frame f frs k)" by (rule run_frame_keep [OF k(1)])
    with frame(4) have "kept k'" by (simp add: keepk_def)
    moreover have "grow (pfr (f # frs)) k k'" using grow_run_frame [OF grow_refl subset_refl] frame(4) by (simp add: growk_def)
    ultimately show ?thesis using finv_grow [OF k(2)] fr by (auto simp: kgood_def)
  next
    case (irq t th i)
    have "kept k'" using interrupt_keep [OF k(1) irq(4)] irq(5) by (auto simp: keepk_def)
    moreover have "grow (pfr (t_frames th)) k k'" using grow_interrupt [OF grow_refl subset_refl] irq(5) by (simp add: growk_def)
    ultimately show ?thesis using finv_grow [OF k(2)] finv_frame [OF k(2) irq(2)] by (auto simp: kgood_def)
  next
    case (trap t th code va tf)
    let ?k = "upd_thread t (\<lambda>th. th\<lparr>t_tf := tf\<rparr>) k"
    have kk: "kept ?k" by (rule kept_cur_upd [OF k(1) trap(1)]) simp
    have g: "grow {} k ?k" by (rule grow_upd) simp_all
    have "kept k'" using user_trap_keep [OF kk] trap(5) by (auto simp: keepk_def)
    moreover have "grow {} k k'" using grow_user_trap [OF g] trap(5) by (simp add: growk_def)
    ultimately show ?thesis using finv_grow [OF k(2)] by (auto simp: kgood_def)
  next
    case (call t th c)
    let ?X = "{s. c = K_P s}"
    have "kept k'" using kcall_keep [OF k(1) call(1,4)] call(5) by (auto simp: keepk_def)
    moreover have "grow ?X k k'" using kcall_grow [of c ?X k] call(5) by (auto simp: growk_def)
    moreover have "s \<notin> pid_sems k \<and> s < k_next k" if "s \<in> ?X" for s
      using that call(4,5) P_sem_exists [of s "[]" k k'] kept_sem_bound [OF k(1)] by auto
    ultimately show ?thesis using finv_grow [OF k(2)] by (auto simp: kgood_def)
  next
    case (world irqs oom inp now)
    from k(1) obtain rq sl zb where inv: "kinv k rq sl zb" by (auto simp: kept_def)
    have "kinv k' rq sl zb" using inv world(2) unfolding world(1)
      by (simp add: kinv_parts klists_def cur_list_def thread_ok_def sleeps_on_def pid_ok_def pid_sem_ok_def pid_sems_def)
    moreover have "grow {} k k'" unfolding world(1) by (simp add: grow_def psems_def pid_sems_def)
    ultimately show ?thesis using finv_grow [OF k(2)] by (auto simp: kgood_def kept_def)
  qed
qed

section \<open>Boot\<close>

text \<open>Memory before \<^verbatim>\<open>boot\<close>: no object has been created, no interrupt is pending, allocation works.\<close>

definition boot_ok :: "kernel \<Rightarrow> bool" where
  "boot_ok k \<longleftrightarrow> k_oom k = [] \<and> k_irqs k = [] \<and> k_threads k = Map.empty \<and> k_sems k = Map.empty \<and> k_locks k = Map.empty \<and>
     curthread k = None"

lemma kmalloc_free [simp]: "k_oom k = [] \<Longrightarrow> kmalloc k = (True, k)"
  by (simp add: kmalloc_def)

lemma q_create_is: "\<exists>q. q_create True True 32 = Some q \<and> que_is q []"
  by (simp add: q_create_def que_is_def q_inv_def q_list_def ring_list_def q_len_def)

lemma array_create_is: "\<exists>a. array_create True = Some a \<and> arr_is a []"
  by (simp add: array_create_def arr_is_def array_inv_def array_list_def)

lemma boot_kgood:
  assumes "boot_ok k"
  shows "\<exists>k'. boot k = Ret k' \<and> kgood k' \<and> kinv k' [] [] []"
proof -
  from q_create_is obtain q :: "nat kqueue" where q: "q_create True True 32 = Some q" "que_is q []" by blast
  from array_create_is obtain a :: "nat karray" where a: "array_create True = Some a" "arr_is a []" by blast
  let ?p = "\<lparr>pidValue = 1, isUsed = 1, pPid = 0, didExit = 0, exitCode = None, myThread = None, parentSem = None\<rparr>"
  let ?th = "thread_new ''<boot/menu>'' 1"
  let ?k = "k\<lparr>runqueue := Some q, pidHead := [?p], sleepers := Some a, zombies := Some a, numthreads := 1,
     k_next := Suc (k_next k), k_threads := (k_threads k)(k_next k \<mapsto> ?th), curthread := Some (k_next k)\<rparr>"
  have b: "boot k = Ret ?k"
    using assms q(1) a(1)
    by (cases k) (simp add: boot_ok_def boot_def scheduler_bootstrap_def create_pid_list_def thread_bootstrap_def
        thread_create_def splhigh_def splx_def kmalloc_def Let_def)
  have "tinv ?k [] [] []" using assms q(2) a(2)
    by (auto simp: tinv_def klists_def cur_list_def thread_ok_def boot_ok_def thread_new_def stack_check_def)
  moreover have "winv ?k []" using assms by (simp add: winv_def boot_ok_def)
  moreover have "pinv ?k []" using assms
    by (auto simp: pinv_def pids_wf_def pid_ok_def boot_ok_def thread_new_def Let_def split: if_splits)
  moreover have "iinv ?k" using assms by (simp add: iinv_def boot_ok_def)
  moreover have "finv ?k" using assms
    by (auto simp: finv_def psems_def boot_ok_def thread_new_def split: if_splits)
  ultimately show ?thesis using b by (auto simp: kinv_def kgood_def kept_def)
qed

section \<open>Reachable states\<close>

definition reachable :: "kernel \<Rightarrow> bool" where
  "reachable k \<longleftrightarrow> (\<exists>k1 k2. boot_ok k1 \<and> boot k1 = Ret k2 \<and> kstep\<^sup>*\<^sup>* k2 k)"

lemma reachable_good: "reachable k \<Longrightarrow> kgood k"
proof -
  assume "reachable k"
  then obtain k1 k2 where r: "boot_ok k1" "boot k1 = Ret k2" "kstep\<^sup>*\<^sup>* k2 k" by (auto simp: reachable_def)
  from boot_kgood [OF r(1)] r(2) have "kgood k2" by auto
  with r(3) show ?thesis by (induction rule: rtranclp_induct) (auto dest: kstep_good)
qed

lemma reachable_kinv: "reachable k \<Longrightarrow> \<exists>rq sl zb. kinv k rq sl zb"
  using reachable_good by (auto simp: kgood_def kept_def)

end
