(* ===== verification/KernelExamples.thy ===== *)
theory KernelExamples
  imports KernelSteps
begin

text \<open>
  A sample run of the kernel, evaluated step by step: it boots, the boot thread forks a thread, which
  exits; in a second run the boot thread goes to sleep on a semaphore.  The states of the run are the
  concrete inputs on which the theorems of \<open>KernelProps\<close> are instantiated.
\<close>

section \<open>States\<close>

definition k_start :: kernel where
  "k_start = \<lparr>curspl = 0, firstpaddr = 0x50000, lastpaddr = 0x100000, tlb = replicate NUM_TLB (0, 0),
     ram = (\<lambda>_. 0), k_oom = [], k_irqs = [], k_next = 1, k_threads = Map.empty, k_sems = Map.empty,
     k_locks = Map.empty, k_cvs = Map.empty, k_vnodes = Map.empty, k_reclaims = [], curthread = None,
     sleepers = None, zombies = None, runqueue = None, numthreads = 0, pidHead = [], in_interrupt = 0,
     lbolt_counter = 0, k_console = [], k_input = [], k_clock = (0, 0)\<rparr>"

definition arr_ex :: "nat list \<Rightarrow> nat karray" where
  "arr_ex ts = \<lparr>a_num = int (length ts), a_max = 2, a_v = Some (map Some ts @ replicate (2 - length ts) None)\<rparr>"

definition que_ex :: "nat \<Rightarrow> nat \<Rightarrow> nat option list \<Rightarrow> nat kqueue" where
  "que_ex w r d = \<lparr>q_size = 32, q_nextwrite = w, q_nextread = r, q_data = d\<rparr>"

definition boot_thread :: thread where
  "boot_thread = thread_new ''<boot/menu>'' 1"

definition child_thread :: thread where
  "child_thread = (thread_new ''a'' 2)\<lparr>t_stack := Some stack_magic, t_frames := [F_start]\<rparr>"

definition k_boot :: kernel where
  "k_boot = k_start\<lparr>k_next := 2, k_threads := [1 \<mapsto> boot_thread], curthread := Some 1,
     sleepers := array_create True, zombies := array_create True, runqueue := q_create True True 32, numthreads := 1,
     pidHead := [\<lparr>pidValue = 1, isUsed = 1, pPid = 0, didExit = 0, exitCode = None, myThread = None, parentSem = None\<rparr>]\<rparr>"

definition k_fork :: kernel where
  "k_fork = k_boot\<lparr>k_next := 4, k_threads := [1 \<mapsto> boot_thread, 2 \<mapsto> child_thread],
     k_sems := [3 \<mapsto> \<lparr>sem_name = ''name'', sem_count = 0\<rparr>],
     sleepers := Some (arr_ex []), zombies := Some (arr_ex []),
     runqueue := Some (que_ex 1 0 ((replicate 32 None)[0 := Some 2])), numthreads := 2,
     pidHead := pidHead k_boot @ [\<lparr>pidValue = 2, isUsed = 1, pPid = 1, didExit = 0, exitCode = None,
       myThread = Some 2, parentSem = Some 3\<rparr>]\<rparr>"

text \<open>After \<^verbatim>\<open>thread_yield\<close>, and after the new thread has started.\<close>

definition k_yield :: kernel where
  "k_yield = k_fork\<lparr>curspl := 15,
     k_threads := [2 \<mapsto> child_thread, 1 \<mapsto> boot_thread\<lparr>t_frames := [F_switch, F_yield 0]\<rparr>],
     curthread := Some 2, runqueue := Some (que_ex 2 1 ((replicate 32 None)[0 := Some 2, 1 := Some 1]))\<rparr>"

definition k_child :: kernel where
  "k_child = k_yield\<lparr>curspl := 0,
     k_threads := [1 \<mapsto> boot_thread\<lparr>t_frames := [F_switch, F_yield 0]\<rparr>, 2 \<mapsto> child_thread\<lparr>t_frames := []\<rparr>]\<rparr>"

text \<open>After the exit of the new thread with code 7.\<close>

definition k_exit :: kernel where
  "k_exit = k_child\<lparr>curspl := 15, curthread := Some 1,
     k_threads := [1 \<mapsto> boot_thread\<lparr>t_frames := [F_switch, F_yield 0]\<rparr>,
       2 \<mapsto> child_thread\<lparr>t_frames := [F_switch, F_dead], t_exitStatus := 1\<rparr>],
     k_sems := [3 \<mapsto> \<lparr>sem_name = ''name'', sem_count = 1\<rparr>], zombies := Some (arr_ex [2]), numthreads := 1,
     runqueue := Some (que_ex 2 2 ((replicate 32 None)[0 := Some 2, 1 := Some 1])),
     pidHead := pidHead k_boot @ [\<lparr>pidValue = 2, isUsed = 1, pPid = 1, didExit = 1, exitCode = Some 7,
       myThread = Some 2, parentSem = Some 3\<rparr>]\<rparr>"

text \<open>After the fork, the boot thread creates a semaphore and sleeps on it.\<close>

definition k_sem :: kernel where
  "k_sem = k_fork\<lparr>k_next := 5,
     k_sems := [3 \<mapsto> \<lparr>sem_name = ''name'', sem_count = 0\<rparr>, 4 \<mapsto> \<lparr>sem_name = ''s'', sem_count = 0\<rparr>]\<rparr>"

definition k_slept :: kernel where
  "k_slept = k_sem\<lparr>curspl := 15, curthread := Some 2,
     k_threads := [2 \<mapsto> child_thread,
       1 \<mapsto> boot_thread\<lparr>t_sleepaddr := Some (A_sem 4), t_frames := [F_switch, F_sleep, F_P 4 0]\<rparr>],
     sleepers := Some (arr_ex [1]), runqueue := Some (que_ex 1 1 ((replicate 32 None)[0 := Some 2]))\<rparr>"

text \<open>After the fork, the boot thread creates a lock and a condition variable and takes the lock; then it
  yields, or waits on the condition variable.\<close>

definition k_lock :: kernel where
  "k_lock = k_fork\<lparr>k_next := 5, k_locks := [4 \<mapsto> \<lparr>lock_name = ''l'', lock_count = 1, lock_thread = None\<rparr>]\<rparr>"

definition k_cv :: kernel where
  "k_cv = k_lock\<lparr>k_next := 6, k_cvs := [5 \<mapsto> ''c'']\<rparr>"

definition k_held :: kernel where
  "k_held = k_cv\<lparr>k_locks := [4 \<mapsto> \<lparr>lock_name = ''l'', lock_count = 0, lock_thread = Some (Some 1)\<rparr>]\<rparr>"

definition k_other :: kernel where
  "k_other = k_held\<lparr>curspl := 15,
     k_threads := [2 \<mapsto> child_thread, 1 \<mapsto> boot_thread\<lparr>t_frames := [F_switch, F_yield 0]\<rparr>],
     curthread := Some 2, runqueue := Some (que_ex 2 1 ((replicate 32 None)[0 := Some 2, 1 := Some 1]))\<rparr>"

definition k_cvwait :: kernel where
  "k_cvwait = k_held\<lparr>curspl := 15, curthread := Some 2,
     k_threads := [2 \<mapsto> child_thread,
       1 \<mapsto> boot_thread\<lparr>t_sleepaddr := Some (A_cv 5), t_frames := [F_switch, F_sleep, F_cv_wait 4 0]\<rparr>],
     k_locks := [4 \<mapsto> \<lparr>lock_name = ''l'', lock_count = 1, lock_thread = Some None\<rparr>],
     sleepers := Some (arr_ex [1]), runqueue := Some (que_ex 1 1 ((replicate 32 None)[0 := Some 2]))\<rparr>"

section \<open>Evaluation\<close>

lemma numeral_4_eq_4: "4 = Suc (Suc (Suc (Suc 0)))"
  by simp

lemma numeral_5_eq_5: "5 = Suc (Suc (Suc (Suc (Suc 0))))"
  by simp

lemma numeral_6_eq_6: "6 = Suc (Suc (Suc (Suc (Suc (Suc 0)))))"
  by simp

lemmas k_states = k_cvwait_def k_other_def k_held_def k_cv_def k_lock_def k_slept_def k_sem_def k_exit_def k_child_def k_yield_def k_fork_def k_boot_def k_start_def
  boot_thread_def child_thread_def arr_ex_def que_ex_def thread_new_def stack_magic_def SPL_HIGH_def
  numeral_2_eq_2 numeral_3_eq_3 numeral_4_eq_4 numeral_5_eq_5 numeral_6_eq_6

lemmas k_run = kmalloc_def Let_def splhigh_def splx_def with_cur_def deref_def assertk_def upd_thread_def return_to_def

lemmas k_lists = make_runnable_def array_preallocate_def q_preallocate_def q_addtail_def array_newmax.simps q_grow_def
  slot_read_def slot_write_def q_create_def array_create_def q_remhead_def q_empty_def zombies_add_def sleepers_add_def
  array_add_def array_setsize_def array_setguy_def array_getnum_def array_getguy_def

lemmas k_create = thread_fork_def thread_create_def assign_pid_def append_pid_def sem_create_def pid_search_def P_now_def
  preallocate_sleepers_def preallocate_zombies_def scheduler_preallocate_def

lemmas k_switch = scheduler_def idle_loop.simps mi_switch_def md_switch_def stack_check_def

lemma boot_run: "boot k_start = Ret k_boot"
  by (simp add: k_states k_run q_create_def array_create_def boot_def scheduler_bootstrap_def create_pid_list_def
      thread_bootstrap_def thread_create_def)

lemma fork_run: "kcall_run (K_fork ''a'') k_boot = Ret k_fork"
  by (simp add: k_states k_run k_lists k_create)

lemma yield_run: "kcall_run K_yield k_fork = Ret k_yield"
  by (simp add: k_states k_run k_lists k_switch thread_yield_def)

lemma start_run: "run_frame F_start [] k_yield = Ret k_child"
  by (simp add: k_states k_run mi_threadstart_def activate_cur_def spl0_def)

lemma exit_run: "kcall_run (K_exit 7) k_child = Ret k_exit"
  by (simp add: k_states k_run k_lists k_switch thread_exit_def V_def thread_wakeup_def int_incr_def pid_search_def)

lemma sem_run: "kcall_run (K_sem ''s'' 0) k_fork = Ret k_sem"
  by (simp add: k_states k_run sem_create_def)

lemma P_run: "kcall_run (K_P 4) k_sem = Ret k_slept"
  by (simp add: k_states k_run k_lists k_switch P_def P_loop_def thread_sleep_def)

lemma lock_run: "kcall_run (K_lock ''l'') k_fork = Ret k_lock"
  by (simp add: k_states k_run lock_create_def)

lemma cv_run: "kcall_run (K_cv ''c'') k_lock = Ret k_cv"
  by (simp add: k_states k_run cv_create_def)

lemma acquire_run: "kcall_run (K_acquire 4) k_cv = Ret k_held"
  by (simp add: k_states k_run lock_acquire_def acquire_loop_def) (simp add: fun_eq_iff)

lemma other_run: "kcall_run K_yield k_held = Ret k_other"
  by (simp add: k_states k_run k_lists k_switch thread_yield_def)

lemma cvwait_run: "kcall_run (K_wait 5 4) k_held = Ret k_cvwait"
  by (simp add: k_states k_run k_lists k_switch cv_wait_def lock_release_def thread_wakeup_def int_incr_def thread_sleep_def)

section \<open>The states are reachable\<close>

lemma reachable_step: "reachable k \<Longrightarrow> kstep k k' \<Longrightarrow> reachable k'"
  unfolding reachable_def by (meson rtranclp.rtrancl_into_rtrancl)

lemma reachable_call:
  "reachable k \<Longrightarrow> kcall_run c k = Ret k' \<Longrightarrow> curthread k = Some t \<Longrightarrow> k_threads k t = Some th \<Longrightarrow> t_frames th = [] \<Longrightarrow>
     \<forall>s. c = K_P s \<or> c = K_V s \<longrightarrow> s \<notin> pid_sems k \<Longrightarrow> reachable k'"
  by (rule reachable_step) (auto intro: kstep.call)

lemma k_boot_reachable: "reachable k_boot"
proof -
  have "boot_ok k_start" by (simp add: boot_ok_def k_start_def)
  with boot_run show ?thesis unfolding reachable_def by blast
qed

lemma k_fork_reachable: "reachable k_fork"
  by (rule reachable_call [OF k_boot_reachable fork_run, of 1 boot_thread]) (simp_all add: k_states)

lemma k_yield_reachable: "reachable k_yield"
  by (rule reachable_call [OF k_fork_reachable yield_run, of 1 boot_thread]) (simp_all add: k_states)

lemma k_child_reachable: "reachable k_child"
  by (rule reachable_step [OF k_yield_reachable kstep.frame [OF _ _ _ start_run, of 2 child_thread]])
    (simp_all add: k_states)

lemma k_exit_reachable: "reachable k_exit"
  by (rule reachable_call [OF k_child_reachable exit_run, of 2 "child_thread\<lparr>t_frames := []\<rparr>"]) (simp_all add: k_states)

lemma k_sem_reachable: "reachable k_sem"
  by (rule reachable_call [OF k_fork_reachable sem_run, of 1 boot_thread]) (simp_all add: k_states)

lemma k_slept_reachable: "reachable k_slept"
  by (rule reachable_call [OF k_sem_reachable P_run, of 1 boot_thread]) (simp_all add: k_states pid_sems_def)

lemma k_held_reachable: "reachable k_held"
proof -
  have b: "t_frames boot_thread = []" by (simp add: boot_thread_def thread_new_def)
  have "reachable k_lock" by (rule reachable_call [OF k_fork_reachable lock_run _ _ b, of 1]) (simp_all add: k_states)
  from reachable_call [OF this cv_run _ _ b, of 1] have "reachable k_cv" by (simp add: k_states)
  from reachable_call [OF this acquire_run, of 1 boot_thread] show ?thesis by (simp add: k_states)
qed

lemma k_other_reachable: "reachable k_other"
  by (rule reachable_call [OF k_held_reachable other_run, of 1 boot_thread]) (simp_all add: k_states)

lemma k_cvwait_reachable: "reachable k_cvwait"
  by (rule reachable_call [OF k_held_reachable cvwait_run, of 1 boot_thread]) (simp_all add: k_states)

lemmas k_views = klists_def que_is_def q_inv_def q_list_def ring_list_def q_len_def arr_is_def array_inv_def array_list_def

lemma k_slept_lists: "klists k_slept [] [1] []"
  by (simp add: k_states k_views)

lemma k_fork_lists: "klists k_fork [2] [] []"
  by (simp add: k_states k_views)

lemma k_child_lists: "klists k_child [1] [] []"
  by (simp add: k_states k_views)

lemma k_exit_lists: "klists k_exit [] [] [2]"
  by (simp add: k_states k_views)

lemma k_other_lists: "klists k_other [1] [] []"
  by (simp add: k_states k_views)

lemma k_cvwait_lists: "klists k_cvwait [] [1] []"
  by (simp add: k_states k_views)

lemma k_boot_lists: "klists k_boot [] [] []"
  by (simp add: k_states k_views q_create_def array_create_def)

end
