(* ===== verification/KernelProps.thy ===== *)
theory KernelProps
  imports KernelExamples
begin

text \<open>
  The theorems about the running kernel: what holds in every reachable state, that creating a thread
  neither waits nor fails while there is memory, how processes end and are waited for, and what the
  synchronisation primitives do where they differ from their description.
\<close>

section \<open>Thread creation with enough memory\<close>

lemma append_pid_mem:
  assumes "k_oom k = []" "curthread k = Some c" "k_threads k c = Some cur" "pidHead k \<noteq> []"
  shows "append_pid v t k = Ret (k\<lparr>pidHead := pidHead k @ [pid_fresh v (t_pidValue cur) t (Some (k_next k))],
    k_sems := (k_sems k)(k_next k \<mapsto> \<lparr>sem_name = ''name'', sem_count = 1\<rparr>), k_next := Suc (k_next k)\<rparr>)"
  using assms by (cases k) (simp add: append_pid_def splhigh_def splx_def sem_create_def pid_fresh_def)

lemma assign_pid_mem:
  assumes "k_oom k = []" "pinv k zb" "curthread k = Some c" "k_threads k c = Some cur"
  shows "\<exists>v k1. assign_pid t k = Ret (v, k1) \<and> k_oom k1 = [] \<and> (\<forall>i. pid_search v k1 = Some i \<longrightarrow> parentSem (pidHead k1 ! i) \<noteq> None)"
proof -
  note d = pinvD [OF assms(2)]
  let ?ps = "pidHead k" and ?k = "k\<lparr>curspl := SPL_HIGH\<rparr>"
  have ne: "?ps \<noteq> []" using d(1) by (simp add: pids_wf_def)
  have sem: "parentSem (?ps ! i) \<noteq> None" if "0 < i" "i < length ?ps" for i using d(5) [OF that] by (auto simp: pid_sem_ok_def)
  from assign_scan_spec [OF ne, of 0] show ?thesis
  proof (elim disjE exE conjE)
    fix j assume j: "0 < j" "j < length ?ps" "assign_scan 0 ?ps = Ret (Inl (0 + j))"
    let ?k1 = "k\<lparr>pidHead := ?ps[j := pid_reuse (t_pidValue cur) t (?ps ! j)]\<rparr>"
    have "assign_pid t k = Ret (pidValue (?ps ! j), ?k1)"
      using assms(3,4) j(3) by (simp add: assign_pid_def splhigh_def splx_def [of SPL_HIGH] pid_reuse_def)
    moreover have "pids_wf (pidHead ?k1)" using d(1) j(2) by (auto simp: pids_wf_iff nth_list_update pid_reuse_def)
    ultimately show ?thesis using assms(1) sem [OF j(1,2)] d(1) j(2)
      by (intro exI [of _ "pidValue (?ps ! j)"] exI [of _ ?k1])
        (auto simp: pid_search_wf pids_wf_iff pid_reuse_def)
  next
    assume a: "assign_scan 0 ?ps = Ret (Inr (pidValue (last ?ps) + 1))"
    have v: "pidValue (last ?ps) + 1 = int (length ?ps) + 1" using d(1) ne by (cases "length ?ps") (simp_all add: pids_wf_def last_conv_nth)
    let ?p = "pid_fresh (int (length ?ps) + 1) (t_pidValue cur) t (Some (k_next k))"
    have c: "curthread ?k = Some c" "k_threads ?k c = Some cur" "k_oom ?k = []" "pidHead ?k \<noteq> []" using assms ne by simp_all
    obtain k1 where k1: "assign_pid t k = Ret (int (length ?ps) + 1, k1)" "pidHead k1 = ?ps @ [?p]" "k_oom k1 = []"
      using a v append_pid_mem [OF c(3,1,2,4), of "int (length ?ps) + 1" t] assms(1)
      by (auto simp: assign_pid_def splhigh_def splx_def [of SPL_HIGH])
    have "pids_wf (pidHead k1)" unfolding k1(2) by (rule pids_wf_append [OF d(1)]) (simp add: pid_fresh_def)
    then show ?thesis using k1 by (intro exI conjI) (auto simp: pid_search_wf pid_fresh_def)
  qed
qed

lemma thread_create_mem:
  assumes "k_oom k = []" "kinv k rq sl zb" "curthread k = Some c" "in_interrupt k = 0"
  shows "\<exists>k'. thread_create name k = Ret (Some (k_next k), k') \<and> k_oom k' = []"
proof -
  note cur = kinv_current [OF assms(2,3)]
  from cur(2) obtain th where th: "k_threads k c = Some th" by auto
  let ?k = "k\<lparr>curspl := SPL_HIGH, k_next := Suc (k_next k)\<rparr>"
  have inv: "kinv ?k rq sl zb" using kinv_next [of "k\<lparr>curspl := SPL_HIGH\<rparr>"] assms(2) by simp
  have c: "curthread ?k = Some c" "k_threads ?k c = Some th" "k_oom ?k = []" "in_interrupt ?k = 0" using assms th by simp_all
  from assign_pid_mem [OF c(3) _ c(1,2), of zb "k_next k"] inv obtain v k1 where
    a: "assign_pid (k_next k) ?k = Ret (v, k1)" "k_oom k1 = []" "\<forall>i. pid_search v k1 = Some i \<longrightarrow> parentSem (pidHead k1 ! i) \<noteq> None"
    by (auto simp: kinv_def)
  from a(1) inv c(1,2,4) obtain i s where i: "pid_search v k1 = Some i" "parentSem (pidHead k1 ! i) = Some s"
    "P_now (Some s) k1 = Ret (sem_down s k1)"
    using a(3) by (cases rule: new_pid_kinv) auto
  have "numthreads k \<noteq> 0" using cur(3) by simp
  then show ?thesis using assms(1) a i
    by (simp add: thread_create_def splhigh_def splx_def [of SPL_HIGH] Let_def)
qed

lemma preallocate_mem:
  assumes "k_oom k = []" "klists k rq sl zb" "n \<le> 2 ^ 30"
  shows "\<exists>k'. preallocate_sleepers n k = Ret (None, k') \<and> k_oom k' = []"
    "\<exists>k'. preallocate_zombies n k = Ret (None, k') \<and> k_oom k' = []"
    "curspl k > 0 \<Longrightarrow> \<exists>k' q'. scheduler_preallocate n k = Ret (None, k') \<and> k_oom k' = [] \<and> runqueue k' = Some q' \<and> nat n \<le> q_size q'"
proof -
  from assms(2) obtain q a z where l: "runqueue k = Some q" "que_is q rq" "sleepers k = Some a" "arr_is a sl"
    "zombies k = Some z" "arr_is z zb" by (rule klistsE)
  from ka.preallocate_view [of a n] l(4) obtain a' where a': "array_preallocate True a n = Ret (None, a')" by (auto simp: arr_is_def)
  from ka.preallocate_view [of z n] l(6) obtain z' where z': "array_preallocate True z n = Ret (None, z')" by (auto simp: arr_is_def)
  have "nat n \<le> 2 ^ 30" using assms(3) by simp
  then have "\<exists>q'. q_preallocate True q (nat n) = Ret (None, q') \<and> nat n \<le> q_size q'"
    using q_grow_f_spec [of q "nat n" "q_size q + 2"] l(2)
    by (auto simp: q_preallocate_def q_grow_def q_inv_def que_is_def)
  then obtain q' where q': "q_preallocate True q (nat n) = Ret (None, q')" "nat n \<le> q_size q'" by blast
  show "\<exists>k'. preallocate_sleepers n k = Ret (None, k') \<and> k_oom k' = []"
    using a' l assms(1) by (simp add: preallocate_sleepers_def)
  show "\<exists>k'. preallocate_zombies n k = Ret (None, k') \<and> k_oom k' = []"
    using z' l assms(1) by (simp add: preallocate_zombies_def)
  show "\<exists>k' q'. scheduler_preallocate n k = Ret (None, k') \<and> k_oom k' = [] \<and> runqueue k' = Some q' \<and> nat n \<le> q_size q'"
    if "curspl k > 0" using q' l assms(1) that by (simp add: scheduler_preallocate_def)
qed

lemma make_runnable_mem:
  assumes "k_oom k = []" "klists k rq sl zb" "runqueue k = Some q" "length rq + 1 < q_size q" "curspl k > 0"
  shows "\<exists>k'. make_runnable t k = Ret (None, k')"
proof -
  from assms(2,3) have q: "que_is q rq" by (auto simp: klists_def)
  then have "q_len q + 1 < q_size q" using assms(4) by (auto simp: que_is_def q_list_length [symmetric])
  with q kq.addtail_view [of q True t] obtain q' where "q_addtail True q t = Ret (None, q')" by (auto simp: que_is_def)
  with assms show ?thesis by (simp add: make_runnable_def)
qed

lemma fork_enlist_mem:
  assumes "pend t th k rq sl zb" "k_oom k = []" "numthreads k < 2 ^ 30" "length rq < nat (numthreads k)"
  shows "\<exists>k'. fork_enlist t k = Ret ((None, Some t), k')"
proof -
  let ?k = "k\<lparr>curspl := SPL_HIGH\<rparr>" and ?n = "numthreads k + 1"
  have p0: "pend t th ?k rq sl zb" by (rule pend_core [OF assms(1)]) simp
  have o: "k_oom ?k = []" "?n \<le> 2 ^ 30" using assms(2,3) by simp_all
  from preallocate_mem(1) [OF o(1) pend_klists [OF p0] o(2)] obtain k1 where
    k1: "preallocate_sleepers ?n ?k = Ret (None, k1)" "k_oom k1 = []" by blast
  note p1 = preallocate_pend(1) [OF p0 k1(1)]
  from preallocate_mem(2) [OF k1(2) pend_klists [OF conjunct1 [OF p1]] o(2)] obtain k2 where
    k2: "preallocate_zombies ?n k1 = Ret (None, k2)" "k_oom k2 = []" by blast
  note p2 = preallocate_pend(2) [OF conjunct1 [OF p1] k2(1)]
  have spl: "curspl k2 > 0" using p1 p2 by (simp add: new_frame_def SPL_HIGH_def)
  from preallocate_mem(3) [OF k2(2) pend_klists [OF conjunct1 [OF p2]] o(2) spl] obtain k3 q where
    k3: "scheduler_preallocate ?n k2 = Ret (None, k3)" "k_oom k3 = []" "runqueue k3 = Some q" "nat ?n \<le> q_size q" by blast
  note p3 = preallocate_pend(3) [OF conjunct1 [OF p2] k3(1)]
  have "curspl k3 > 0" "length rq + 1 < q_size q" using p3 spl k3(4) assms(4) by (simp_all add: new_frame_def)
  from make_runnable_mem [OF k3(2) pend_klists [OF conjunct1 [OF p3]] k3(3) this(2,1)] obtain k4 where
    k4: "make_runnable t k3 = Ret (None, k4)" by blast
  have "numthreads k1 = numthreads k" "numthreads k2 = numthreads k" using p1 p2 by (simp_all add: new_frame_def)
  with k1(1) k2(1) k3(1) k4 show ?thesis
    by (simp add: fork_enlist_def splhigh_def splx_def [of SPL_HIGH])
qed

lemma thread_fork_mem:
  assumes "k_oom k = []" "kinv k rq sl zb" "curthread k = Some c" "k_threads k c = Some cur" "in_interrupt k = 0"
    "numthreads k < 2 ^ 30" "\<And>v. t_cwd cur = Some v \<Longrightarrow> k_vnodes k v \<noteq> None"
  shows "\<exists>k'. thread_fork name func k = Ret ((None, Some (k_next k)), k')"
proof -
  let ?t = "k_next k"
  from thread_create_mem [OF assms(1,2,3,5)] obtain kc where kc: "thread_create name k = Ret (Some ?t, kc)" "k_oom kc = []" by blast
  from kc(1) assms(2,3) obtain v k1 where new: "kc = with_new ?t (thread_new name v) k1"
    "kinv k1 rq sl zb" "newborn ?t (thread_new name v) k1" "new_frame k k1"
    by (cases rule: thread_create_Ret) auto
  let ?ke = "upd_thread ?t (\<lambda>th. th\<lparr>t_stack := Some stack_magic\<rparr>) kc"
  have pc: "pend ?t (thread_new name v) kc rq sl zb" unfolding new(1) by (rule pend_new [OF new(2,3)])
  have pe: "pend ?t ((thread_new name v)\<lparr>t_stack := Some stack_magic\<rparr>) ?ke rq sl zb"
    by (rule pend_upd [OF pc, of "\<lambda>th. th\<lparr>t_stack := Some stack_magic\<rparr>"]) simp
  have cur: "curthread ?ke = Some c" using new(1,4) assms(3) by (simp add: with_new_def new_frame_def)
  have "c \<noteq> ?t" using pend_cur_other(1) [OF pe cur] .
  then have ck: "k_threads ?ke c = Some cur" "k_vnodes ?ke = k_vnodes k"
    using new(1,4) assms(4) by (simp_all add: with_new_def new_frame_def)
  have "\<exists>kf. with_cur ?ke (\<lambda>_ cur. case t_cwd cur of None \<Rightarrow> Ret ?ke
      | Some v \<Rightarrow> andthen (vnode_incref v ?ke) (\<lambda>k. Ret (upd_thread ?t (\<lambda>th. th\<lparr>t_cwd := Some v\<rparr>) k))) = Ret kf \<and>
      k_oom kf = [] \<and> numthreads kf = numthreads ?ke"
    using cur ck assms(7) kc(2) by (cases "t_cwd cur") (auto simp: vnode_incref_def)
  then obtain kf where kf: "with_cur ?ke (\<lambda>_ cur. case t_cwd cur of None \<Rightarrow> Ret ?ke
      | Some v \<Rightarrow> andthen (vnode_incref v ?ke) (\<lambda>k. Ret (upd_thread ?t (\<lambda>th. th\<lparr>t_cwd := Some v\<rparr>) k))) = Ret kf"
      "k_oom kf = []" "numthreads kf = numthreads ?ke" by blast
  from fork_cwd_pend [OF kf(1) pe] obtain cwd where
    pf: "pend ?t ((thread_new name v)\<lparr>t_stack := Some stack_magic, t_cwd := cwd\<rparr>) kf rq sl zb" by auto
  let ?kg = "upd_thread ?t (\<lambda>th. th\<lparr>t_ininterrupt := 0, t_frames := F_start # func\<rparr>) kf"
  have n: "numthreads ?kg = numthreads k" using kf(3) new(1,4) by (simp add: with_new_def new_frame_def)
  have "length rq < nat (numthreads k)" using kinv_current(3) [OF assms(2,3)] by simp
  with fork_enlist_mem [OF pend_upd [OF pf, of "\<lambda>th. th\<lparr>t_ininterrupt := 0, t_frames := F_start # func\<rparr>"]] kf(2) n assms(6)
  obtain k' where "fork_enlist ?t ?kg = Ret ((None, Some ?t), k')" by auto
  with kc kf(1) show ?thesis by (simp add: thread_fork_enlist Let_def)
qed


section \<open>Reachable states\<close>

lemma klists_unique:
  assumes "klists k rq sl zb" "klists k rq' sl' zb'"
  shows "rq' = rq" "sl' = sl" "zb' = zb"
  using assms by (auto simp: klists_def que_is_def arr_is_def inj_map_eq_map)

lemma reachable_lists: "reachable k \<Longrightarrow> klists k rq sl zb \<Longrightarrow> kinv k rq sl zb"
  using reachable_kinv klists_unique unfolding kinv_def tinv_def by metis

text \<open>C1: in every state the kernel can reach, each thread structure is in exactly one place: it is the
  current thread or it is on exactly one of the run queue, the array of sleepers and the array of zombies,
  once; these lists hold nothing but threads that exist; and \<^verbatim>\<open>numthreads\<close> counts the
  threads that are not zombies.\<close>

theorem reachable_threads:
  assumes "reachable k"
  shows "\<exists>rq sl zb. klists k rq sl zb \<and> distinct (cur_list k @ rq @ sl @ zb) \<and>
     set (cur_list k @ rq @ sl @ zb) = dom (k_threads k) \<and> numthreads k = int (length (cur_list k @ rq @ sl))"
  using reachable_kinv [OF assms] by (auto simp: kinv_def tinv_def)

theorem reachable_threads_witness:
  "reachable k_slept \<and> (\<exists>rq sl zb. klists k_slept rq sl zb \<and> distinct (cur_list k_slept @ rq @ sl @ zb) \<and>
     set (cur_list k_slept @ rq @ sl @ zb) = dom (k_threads k_slept) \<and> numthreads k_slept = int (length (cur_list k_slept @ rq @ sl)))"
  using k_slept_reachable reachable_threads [OF k_slept_reachable] by blast

text \<open>C2: no wakeup is lost.  In every reachable state a thread on the array of sleepers has an address
  it sleeps on, and if that is a semaphore or a lock, the semaphore or lock exists and its count is zero:
  nobody sleeps on something that is available.\<close>

theorem reachable_no_lost_wakeup:
  assumes "reachable k" "klists k rq sl zb" "t \<in> set sl"
  shows "\<exists>th. k_threads k t = Some th \<and> (case t_sleepaddr th of None \<Rightarrow> False
     | Some (A_sem s) \<Rightarrow> \<exists>sm. k_sems k s = Some sm \<and> sem_count sm = 0
     | Some (A_lock l) \<Rightarrow> \<exists>lk. k_locks k l = Some lk \<and> lock_count lk = 0
     | Some _ \<Rightarrow> True)"
proof -
  from reachable_lists [OF assms(1,2)] have p: "tinv k rq sl zb" "winv k sl" by (simp_all add: kinv_def)
  with assms(3) obtain th where th: "k_threads k t = Some th" "thread_ok k sl zb t th" by (auto simp: tinv_def)
  then obtain addr where a: "t_sleepaddr th = Some addr" using assms(3) by (auto simp: thread_ok_def)
  with th(1) have "sleeps_on k addr t" by (simp add: sleeps_on_def)
  with winvD(1,2) [OF p(2)] assms(3) th(1) a show ?thesis by (cases addr) auto
qed

theorem reachable_no_lost_wakeup_witness:
  "reachable k_slept \<and> klists k_slept [] [1] [] \<and> (\<exists>sm. k_sems k_slept 4 = Some sm \<and> sem_count sm = 0)"
  using k_slept_reachable k_slept_lists reachable_no_lost_wakeup [OF k_slept_reachable k_slept_lists, of 1]
  by (simp add: k_states)




section \<open>Fork\<close>



section \<open>Exit and wait\<close>

lemma thread_exit_sem:
  assumes "thread_exit code k = Ret k'" "kinv k rq sl zb" "curthread k = Some c" "k_threads k c = Some th"
  shows "parentSem (pidHead k ! nat (t_pidValue th - 1)) \<noteq> None"
proof -
  from assms obtain k1 i k2 where e:
    "exit_strip c th k = Ret k1" "pid_search (t_pidValue th) k1 = Some i"
    "V (parentSem (pidHead (exited i code k1) ! i)) (exited i code k1) = Ret k2"
    by (auto simp: thread_exit_strip with_cur_Ret_iff andthen_Ret_iff deref_Ret_iff assertk_Ret_iff)
  from exit_strip_kinv [OF e(1) assms(2-4)] have k1: "kinv k1 rq sl zb" "pidHead k1 = pidHead k" by auto
  have "pids_wf (pidHead k1)" using k1(1) by (simp add: kinv_def pinv_def)
  with e(2) have i: "i = nat (t_pidValue th - 1)" "i < length (pidHead k1)" by (auto simp: pid_search_wf split: if_splits)
  from e(3) have "parentSem (pidHead (exited i code k1) ! i) \<noteq> None" by (auto elim: V_Ret)
  then show ?thesis using i k1(2) by (simp add: exited_nth)
qed

text \<open>C5: an exit is never missed.  When the current thread exits with a code, its entry of the process
  table holds the code and the mark of exit, no other entry changes, the thread is the last of the
  zombies, and no thread sleeps on the semaphore of the entry any more: a parent that was waiting for it
  has been made runnable, and the semaphore is up for one that comes later.\<close>

theorem thread_exit_reports:
  assumes "reachable k" "klists k rq sl zb" "curthread k = Some c" "k_threads k c = Some th" "thread_exit code k = Ret k'"
  shows "\<exists>rq' sl' i s sm. klists k' rq' sl' (zb @ [c]) \<and> pid_search (t_pidValue th) k = Some i \<and>
     pidHead k' = (pidHead k)[i := (pidHead k ! i)\<lparr>didExit := 1, exitCode := Some code\<rparr>] \<and>
     parentSem (pidHead k ! i) = Some s \<and> k_sems k' s = Some sm \<and> sem_count sm = 1 \<and>
     (\<forall>t \<in> set sl'. \<not> sleeps_on k' (A_sem s) t)"
proof -
  note inv = reachable_lists [OF assms(1,2)]
  let ?i = "nat (t_pidValue th - 1)"
  from inv have p: "pinv k zb" by (simp add: kinv_def)
  have i: "pid_search (t_pidValue th) k = Some ?i" "?i < length (pidHead k)"
    using pinvD(1) [OF p] pinvD(3) [OF p assms(4)] by (auto simp: pid_search_wf pid_ok_def)
  from thread_exit_spec [OF assms(5) inv assms(3,4)] obtain rq' sl' where
    e: "kinv k' rq' sl' (zb @ [c])" "pidHead k' = pidHead (exited ?i code k)" by blast
  from thread_exit_sem [OF assms(5) inv assms(3,4)] obtain s where s: "parentSem (pidHead k ! ?i) = Some s" by blast
  have i0: "0 < ?i" using pinvD(2) [OF p] s by (cases "?i = 0") auto
  from e(1) have p': "pinv k' (zb @ [c])" "winv k' sl'" by (simp_all add: kinv_def)
  have nth: "pidHead k' ! ?i = (pidHead k ! ?i)\<lparr>didExit := 1, exitCode := Some code\<rparr>"
    using e(2) exited_nth [OF i(2)] by simp
  have "?i < length (pidHead k')" using e(2) i(2) by (simp add: exited_def)
  from pinvD(5) [OF p'(1) i0 this] s obtain sm where sm: "k_sems k' s = Some sm" "sem_count sm = 1"
    by (auto simp: pid_sem_ok_def nth)
  have "\<not> sleeps_on k' (A_sem s) t" if "t \<in> set sl'" for t using winvD(1) [OF p'(2) that, of s] sm by auto
  then show ?thesis using e i(1) s sm by (auto simp: kinv_def tinv_def exited_def)
qed

theorem thread_exit_reports_witness:
  "reachable k_child \<and> thread_exit 7 k_child = Ret k_exit \<and>
     (\<exists>rq' sl'. klists k_exit rq' sl' [2] \<and> exitCode (pidHead k_exit ! 1) = Some 7)"
proof -
  have c: "curthread k_child = Some 2" "k_threads k_child 2 = Some (child_thread\<lparr>t_frames := []\<rparr>)" by (simp_all add: k_states)
  have "thread_exit 7 k_child = Ret k_exit" using exit_run by simp
  note e = this
  from thread_exit_reports [OF k_child_reachable k_child_lists c e] obtain rq' sl' i where r: "klists k_exit rq' sl' [2]"
    "pid_search 2 k_child = Some i" "pidHead k_exit = (pidHead k_child)[i := (pidHead k_child ! i)\<lparr>didExit := 1, exitCode := Some 7\<rparr>]"
    by (auto simp: child_thread_def thread_new_def)
  have "i = 1" using r(2) by (simp add: k_states pid_search_def)
  with r(3) have "exitCode (pidHead k_exit ! 1) = Some 7" by (simp add: k_states)
  with e r(1) k_child_reachable show ?thesis by blast
qed

text \<open>Storing an aligned \<^verbatim>\<open>int\<close> touches one page only.\<close>

unbundle bit_operations_syntax

lemma user_paddr_Some:
  assumes "user_paddr as ft va s = Ret (Some pa, s')"
  shows "tlb_hit va (tlb s') = Some pa" "\<exists>t spl. s' = s\<lparr>tlb := t, curspl := spl\<rparr>"
proof -
  have e: "\<exists>t spl. s' = s\<lparr>tlb := t, curspl := spl\<rparr>" if "vm_fault as ft va s = Ret (None, s')"
    using that by (elim vm_fault_Ret) (auto intro!: exI [of _ "curspl s"])
  show "tlb_hit va (tlb s') = Some pa"
    using assms by (auto simp: user_paddr_def andthen_Ret_iff split: option.splits if_splits)
  show "\<exists>t spl. s' = s\<lparr>tlb := t, curspl := spl\<rparr>"
  proof (cases "tlb_hit va (tlb s)")
    case None
    with assms have "vm_fault as ft va s = Ret (None, s')"
      by (auto simp: user_paddr_def andthen_Ret_iff split: option.splits if_splits)
    then show ?thesis by (rule e)
  next
    case (Some p)
    with assms have "s' = s\<lparr>tlb := tlb s, curspl := curspl s\<rparr>" by (simp add: user_paddr_def)
    then show ?thesis by blast
  qed
qed

text \<open>The bytes of an aligned word lie on one page.\<close>

lemma aligned_plus:
  assumes "va mod 4 = (0::u32)" "j = 1 \<or> j = 2 \<or> j = 3"
  shows "va AND j = 0" "va + j = va OR j"
proof -
  have t: "take_bit 2 va = 0" "take_bit 2 j = j" using assms by (auto simp: take_bit_eq_mod)
  have "\<not> (bit va n \<and> bit j n)" for n
    using arg_cong [OF t(1), of "\<lambda>w. bit w n"] arg_cong [OF t(2), of "\<lambda>w. bit w n"] by (auto simp: bit_take_bit_iff)
  then show "va AND j = 0" by (intro bit_word_eqI) (simp add: bit_and_iff)
  then show "va + j = va OR j" by (simp add: disjunctive_add_eq_or)
qed

lemma tlb_hit_word:
  assumes "va mod 4 = (0::u32)" "j = 1 \<or> j = 2 \<or> j = 3"
  shows "tlb_hit (va + j) t = map_option (\<lambda>pa. pa + j) (tlb_hit va t)"
proof -
  note a = aligned_plus [OF assms]
  have j: "j AND PAGE_FRAME = 0" "j AND NOT PAGE_FRAME = j" using assms(2) by (auto simp: PAGE_FRAME_def)
  have pf: "(va + j) AND PAGE_FRAME = va AND PAGE_FRAME" "(va + j) AND NOT PAGE_FRAME = (va AND NOT PAGE_FRAME) OR j"
    unfolding a(2) by (simp_all add: bit.conj_disj_distrib2 j)
  have "((lo AND PAGE_FRAME) OR (va AND NOT PAGE_FRAME)) AND j = 0" for lo
  proof -
    have "((lo AND PAGE_FRAME) OR (va AND NOT PAGE_FRAME)) AND j =
        (lo AND (j AND PAGE_FRAME)) OR ((va AND j) AND NOT PAGE_FRAME)" by (intro bit_word_eqI) (auto simp: bit_simps)
    then show ?thesis by (simp add: j a(1))
  qed
  then have "(lo AND PAGE_FRAME) OR ((va AND NOT PAGE_FRAME) OR j) = ((lo AND PAGE_FRAME) OR (va AND NOT PAGE_FRAME)) + j" for lo
    by (simp add: disjunctive_add_eq_or or.assoc)
  then show ?thesis by (auto simp: tlb_hit_def tlb_lookup_def pf split: option.splits)
qed

lemma user_write_word:
  assumes "user_paddr as VM_FAULT_WRITE va s = Ret (Some pa, s')" "va mod 4 = 0"
  shows "user_write as [b0, b1, b2, b3] va s =
    Ret (True, s'\<lparr>ram := (ram s')(pa := b0, pa + 1 := b1, pa + 2 := b2, pa + 3 := b3)\<rparr>)"
proof -
  note h = user_paddr_Some(1) [OF assms(1)]
  have w: "va + 1 + 1 = va + 2" "va + 2 + 1 = va + 3" by simp_all
  have "tlb_hit (va + 1) (tlb s') = Some (pa + 1)" "tlb_hit (va + 2) (tlb s') = Some (pa + 2)"
    "tlb_hit (va + 3) (tlb s') = Some (pa + 3)" using tlb_hit_word [OF assms(2), of _ "tlb s'"] h by simp_all
  then have hit: "user_paddr as VM_FAULT_WRITE (va + 1) (s'\<lparr>ram := m\<rparr>) = Ret (Some (pa + 1), s'\<lparr>ram := m\<rparr>)"
    "user_paddr as VM_FAULT_WRITE (va + 2) (s'\<lparr>ram := m\<rparr>) = Ret (Some (pa + 2), s'\<lparr>ram := m\<rparr>)"
    "user_paddr as VM_FAULT_WRITE (va + 3) (s'\<lparr>ram := m\<rparr>) = Ret (Some (pa + 3), s'\<lparr>ram := m\<rparr>)" for m
    by (simp_all add: user_paddr_def)
  show ?thesis
    unfolding user_write.simps assms(1) w by (simp add: hit)
qed


text \<open>The end of \<^verbatim>\<open>sys_waitpid\<close>: the code is stored, the call returns the pid.\<close>

lemma int_bytes_4: "\<exists>b0 b1 b2 b3. int_bytes x = [b0, b1, b2, b3]"
  by (simp add: int_bytes_def Let_def)

lemma waitpid_done_spec:
  assumes "curthread k = Some c" "k_threads k c = Some th" "i < length (pidHead k)" "exitCode (pidHead k ! i) = Some code"
    "user_paddr (t_vmspace th) VM_FAULT_WRITE status k = Ret (Some pa, k1)" "status mod 4 = 0" "status < USERTOP"
  shows "\<exists>k'. waitpid_done i s status frs k = Ret k' \<and> curthread k' = Some c \<and> curspl k' = s \<and> pidHead k' = pidHead k \<and>
     k_threads k' = (k_threads k)(c \<mapsto> th\<lparr>t_result := (None, pidValue (pidHead k ! i)), t_frames := frs\<rparr>) \<and>
     [ram k' pa, ram k' (pa + 1), ram k' (pa + 2), ram k' (pa + 3)] = int_bytes code \<and>
     (\<forall>p. p \<noteq> pa \<and> p \<noteq> pa + 1 \<and> p \<noteq> pa + 2 \<and> p \<noteq> pa + 3 \<longrightarrow> ram k' p = ram k p)"
proof -
  obtain b0 b1 b2 b3 where b: "int_bytes code = [b0, b1, b2, b3]" using int_bytes_4 by blast
  from user_paddr_Some(2) [OF assms(5)] obtain t spl where k1: "k1 = k\<lparr>tlb := t, curspl := spl\<rparr>" by blast
  define m where "m = (ram k)(pa := b0, pa + 1 := b1, pa + 2 := b2, pa + 3 := b3)"
  have st: "store_int (t_vmspace th) status code k = Ret (k1\<lparr>ram := m\<rparr>)"
    using assms(6,7) user_write_word [OF assms(5,6)] b by (simp add: store_int_def not_le [symmetric] m_def k1)
  have ne: "pa \<noteq> pa + 1" "pa \<noteq> pa + 2" "pa \<noteq> pa + 3" "pa + 1 \<noteq> pa + 2" "pa + 1 \<noteq> pa + 3" "pa + 2 \<noteq> pa + 3"
    by (simp_all flip: diff_eq_eq)
  have "waitpid_done i s status frs k = sys_done (None, pidValue (pidHead k ! i)) frs (snd (splx s (k1\<lparr>ram := m\<rparr>)))"
    using assms(1-4) st by (simp add: waitpid_done_def pid_at_def)
  also have "\<dots> = Ret (upd_thread c (\<lambda>th. th\<lparr>t_frames := frs\<rparr>) (upd_thread c (\<lambda>th. th\<lparr>t_result := (None, pidValue (pidHead k ! i))\<rparr>)
      (k1\<lparr>ram := m, curspl := s\<rparr>)))"
    using assms(1,2) by (simp add: sys_done_def return_to_def splx_def k1)
  finally have w: "waitpid_done i s status frs k = \<dots>" .
  have m: "[m pa, m (pa + 1), m (pa + 2), m (pa + 3)] = int_bytes code"
    "\<forall>p. p \<noteq> pa \<and> p \<noteq> pa + 1 \<and> p \<noteq> pa + 2 \<and> p \<noteq> pa + 3 \<longrightarrow> m p = ram k p" using ne by (simp_all add: m_def b)
  show ?thesis by (rule exI, rule conjI [OF w]) (use assms(1,2) m in \<open>simp add: k1\<close>)
qed

lemma wakeup_loop_none:
  assumes "sleepers k = Some a" "arr_is a sl" "\<And>t. t \<in> set sl \<Longrightarrow> k_threads k t \<noteq> None \<and> \<not> sleeps_on k addr t"
  shows "length sl - i < n \<Longrightarrow> i \<le> length sl \<Longrightarrow> wakeup_loop n addr (int i) k = Ret k"
proof (induction n arbitrary: i)
  case (Suc n)
  show ?case
  proof (cases "i < length sl")
    case True
    obtain th where "k_threads k (sl ! i) = Some th" "t_sleepaddr th \<noteq> Some addr"
      using assms(3) [of "sl ! i"] True by (auto simp: sleeps_on_def)
    moreover have "wakeup_loop n addr (int (Suc i)) k = Ret k" by (rule Suc.IH) (use Suc.prems True in auto)
    ultimately show ?thesis
      using assms(1) arr_is_num [OF assms(2)] arr_is_getguy [OF assms(2) True] True by (simp add: add.commute)
  qed (use assms(1) arr_is_num [OF assms(2)] in simp)
qed simp

lemma thread_wakeup_none:
  assumes "klists k rq sl zb" "curspl k > 0" "\<And>t. t \<in> set sl \<Longrightarrow> k_threads k t \<noteq> None \<and> \<not> sleeps_on k addr t"
  shows "thread_wakeup addr k = Ret k"
proof -
  from assms(1) obtain a where a: "sleepers k = Some a" "arr_is a sl" by (auto simp: klists_def)
  from wakeup_loop_none [where i = 0 and addr = addr, OF a assms(3)] show ?thesis
    using a arr_is_num [OF a(2)] assms(2) by (simp add: thread_wakeup_def del: wakeup_loop.simps)
qed

text \<open>\<^verbatim>\<open>P\<close> and \<^verbatim>\<open>V\<close> on the semaphore of an exited process.\<close>

lemma waitpid_wait_done:
  assumes "kinv k rq sl zb" "0 < i" "i < length (pidHead k)" "didExit (pidHead k ! i) = 1"
  shows "waitpid_wait i spl s status frs k = waitpid_done i s status frs (k\<lparr>curspl := spl\<rparr>)"
proof -
  from assms(1) have p: "pinv k zb" "winv k sl" "tinv k rq sl zb" by (simp_all add: kinv_def)
  from pinvD(5) [OF p(1) assms(2,3)] assms(4) obtain u sm where u: "parentSem (pidHead k ! i) = Some u"
    "k_sems k u = Some sm" "sem_count sm = 1" by (auto simp: pid_sem_ok_def)
  let ?kv = "k\<lparr>curspl := SPL_HIGH, k_sems := (k_sems k)(u \<mapsto> sm\<lparr>sem_count := 1\<rparr>)\<rparr>"
  have sm: "(k_sems k)(u \<mapsto> sm\<lparr>sem_count := 1\<rparr>) = k_sems k" using u by (auto simp: fun_eq_iff)
  have "thread_wakeup (A_sem u) ?kv = Ret ?kv"
  proof (rule thread_wakeup_none)
    show "klists ?kv rq sl zb" "0 < curspl ?kv" using p(3) by (simp_all add: tinv_def klists_def SPL_HIGH_def)
    fix t assume t: "t \<in> set sl"
    with p(3) have "k_threads k t \<noteq> None" by (auto simp: tinv_def)
    moreover have "\<not> sleeps_on k (A_sem u) t" using winvD(1) [OF p(2) t, of u] u by auto
    ultimately show "k_threads ?kv t \<noteq> None \<and> \<not> sleeps_on ?kv (A_sem u) t" by (simp add: sleeps_on_def)
  qed
  then have "V (Some u) (k\<lparr>k_sems := (k_sems k)(u \<mapsto> sm\<lparr>sem_count := 0\<rparr>), curspl := spl\<rparr>) = Ret (k\<lparr>curspl := spl\<rparr>)"
    by (simp add: V_def splhigh_def splx_def [of SPL_HIGH] splx_def [of spl] int_incr_def sems_then_spl sm)
  then show ?thesis using u assms(3) by (simp add: waitpid_wait_def pid_at_def splx_def)
qed


text \<open>The state after the exit of the sample run, the parent with an address space.\<close>

definition k_wait :: kernel where
  "k_wait = (upd_thread 1 (\<lambda>th. th\<lparr>t_vmspace := Some as_example\<rparr>) k_exit)\<lparr>tlb := [(0x10000000, 0x42200)]\<rparr>"


text \<open>a child that has exited before the parent waits is lost.  After the zombies have been buried,
  which happens at every switch to a thread that has run before, \<^verbatim>\<open>waitpid\<close> on the pid of any of them is
  refused with \<open>EINVAL\<close>, to whichever thread calls it: the entry keeps the exit code but has forgotten the
  parent.\<close>

theorem waitpid_orphan:
  assumes "reachable k" "klists k rq sl zb" "exorcise k = Ret k'" "z \<in> set zb" "k_threads k z = Some zh"
    "curthread k' = Some c" "k_threads k' c = Some th" "status \<noteq> 0"
  shows "sys_waitpid (t_pidValue zh) status 0 frs k' = sys_done (Some EINVAL, -1) frs k'"
proof -
  note inv = reachable_lists [OF assms(1,2)]
  have o: "pPid (pidHead k' ! nat (t_pidValue zh - 1)) = 0" by (rule exorcise_orphans [OF assms(3) inv assms(4,5)])
  from exorcise_kinv(1) [OF assms(3) inv] have p: "pinv k' []" by (simp add: kinv_def)
  have "t_pidValue th \<noteq> 0" using pinvD(3) [OF p assms(7)] by (auto simp: pid_ok_def)
  moreover have "pids_wf (pidHead k')" by (rule pinvD(1) [OF p])
  ultimately show ?thesis using assms(6-8) o
    by (auto simp: sys_waitpid_def splhigh_def splx_def pid_search_wf)
qed


theorem waitpid_orphan_witness:
  "reachable k_exit \<and> klists k_exit [] [] [2] \<and> (\<exists>k' k''. exorcise k_exit = Ret k' \<and>
     sys_waitpid 2 4 0 [] k' = Ret k'' \<and> map_option t_result (k_threads k'' 1) = Some (Some EINVAL, -1))"
proof -
  have z: "k_threads k_exit 2 = Some (child_thread\<lparr>t_frames := [F_switch, F_dead], t_exitStatus := 1\<rparr>)" by (simp add: k_states)
  obtain k' where k': "exorcise k_exit = Ret k'" "curthread k' = Some 1"
    "k_threads k' 1 = Some (boot_thread\<lparr>t_frames := [F_switch, F_yield 0]\<rparr>)"
    by (simp add: k_states k_run k_lists exorcise_def release_pid_def thread_destroy_def)
  have "sys_waitpid 2 4 0 [] k' = sys_done (Some EINVAL, -1) [] k'"
    using waitpid_orphan [OF k_exit_reachable k_exit_lists k'(1) _ z k'(2,3), of 4 "[]"] by (simp add: child_thread_def thread_new_def)
  with k' k_exit_reachable k_exit_lists show ?thesis by (simp add: sys_done_def return_to_def)
qed

end
