(* ===== verification/SyscallProps.thy ===== *)
theory SyscallProps
  imports KernelProps
begin

text \<open>
  Theorems about the system calls as a user program sees them, and about the synchronisation
  primitives: waiting for a child that runs, the child of a fork, the error of an unknown call, writing to
  the console, the order of the run queue, and what locks and condition variables do in place of what
  their header describes.
\<close>

section \<open>Waiting\<close>

text \<open>C7: \<^verbatim>\<open>waitpid\<close> on a child that runs waits.  In a reachable state, outside interrupts, with the entry
  of the pid naming the caller as its parent and not marked as exited, the call puts the caller to sleep
  on the semaphore of the entry, to go on in the middle of \<^verbatim>\<open>P\<close>; it cannot slip through, because the
  semaphore is down.\<close>

theorem waitpid_waits:
  assumes "reachable k" "curthread k = Some c" "k_threads k c = Some th" "pid_search pid k = Some i" "0 < i"
    "pPid (pidHead k ! i) = t_pidValue th" "isUsed (pidHead k ! i) = 1" "didExit (pidHead k ! i) = 0"
    "status \<noteq> 0" "in_interrupt k = 0"
  shows "\<exists>s. parentSem (pidHead k ! i) = Some s \<and> sys_waitpid pid status 0 frs k =
     thread_sleep (A_sem s) (F_waitpid i SPL_HIGH (curspl k) status # frs) (k\<lparr>curspl := SPL_HIGH\<rparr>)"
proof -
  from reachable_kinv [OF assms(1)] obtain rq sl zb where "kinv k rq sl zb" by blast
  then have p: "pinv k zb" by (simp add: kinv_def)
  from assms(4) have i: "i < length (pidHead k)" by (auto simp: pid_search_def pid_scan_iff)
  from pinvD(5) [OF p assms(5) i] assms(7,8) obtain s sm where s: "parentSem (pidHead k ! i) = Some s"
    "k_sems k s = Some sm" "sem_count sm = 0" by (auto simp: pid_sem_ok_def)
  with assms i show ?thesis
    by (simp add: sys_waitpid_def splhigh_def splx_def [of SPL_HIGH] pid_search_def waitpid_wait_def pid_at_def)
qed

theorem waitpid_waits_witness:
  "reachable k_fork \<and> (\<exists>s. sys_waitpid 2 4 0 [] k_fork = thread_sleep (A_sem s) [F_waitpid 1 15 0 4] (k_fork\<lparr>curspl := 15\<rparr>))"
proof -
  have c: "curthread k_fork = Some 1" "k_threads k_fork 1 = Some boot_thread" "pid_search 2 k_fork = Some 1"
    "pPid (pidHead k_fork ! 1) = t_pidValue boot_thread" "isUsed (pidHead k_fork ! 1) = 1" "didExit (pidHead k_fork ! 1) = 0"
    "in_interrupt k_fork = 0" "curspl k_fork = 0" by (simp_all add: k_states pid_search_def)
  from waitpid_waits [OF k_fork_reachable c(1-3) _ c(4-6) _ c(7), of 4 "[]"] c(8) k_fork_reachable show ?thesis
    by (auto simp: SPL_HIGH_def)
qed

section \<open>Fork\<close>

lemma fork_ops_frame:
  "preallocate_sleepers n k = Ret (r, k') \<Longrightarrow> pidHead k' = pidHead k \<and> k_threads k' = k_threads k"
  "preallocate_zombies n k = Ret (r, k') \<Longrightarrow> pidHead k' = pidHead k \<and> k_threads k' = k_threads k"
  "scheduler_preallocate n k = Ret (r, k') \<Longrightarrow> pidHead k' = pidHead k \<and> k_threads k' = k_threads k"
  "make_runnable t k = Ret (r, k') \<Longrightarrow> pidHead k' = pidHead k \<and> k_threads k' = k_threads k"
  by (cases "kmalloc k", auto simp: preallocate_sleepers_def preallocate_zombies_def scheduler_preallocate_def make_runnable_def
      deref_Ret_iff andthen_Ret_iff assertk_Ret_iff dest!: kmalloc_frame)+

lemma fork_fail_None: "fork_fail t e s k = Ret ((None, x), k') \<Longrightarrow> e = None"
  by (auto simp: fork_fail_def Let_def deref_Ret_iff andthen_Ret_iff)

lemma fork_enlist_frame:
  assumes "fork_enlist t k = Ret ((None, x), k')"
  shows "pidHead k' = pidHead k \<and> k_threads k' = k_threads k"
  using assms
  by (auto simp: fork_enlist_def splhigh_def splx_def [of SPL_HIGH] andthen_Ret_iff split: if_splits
      dest!: fork_ops_frame fork_fail_None)

text \<open>The entry of a new thread names the current thread as its parent.\<close>

lemma assign_pid_parent:
  assumes "assign_pid t k = Ret (v, k')" "pids_wf (pidHead k)" "curthread k = Some c" "k_threads k c = Some cur"
  shows "1 \<le> v \<and> pPid (pidHead k' ! nat (v - 1)) = t_pidValue cur"
  using assms
proof (cases rule: assign_pid_Ret)
  case (reuse i)
  then show ?thesis by (simp add: pid_reuse_def)
qed (simp_all add: pid_fresh_def nth_append)

lemma P_now_pids: "P_now s k = Ret k' \<Longrightarrow> pidHead k' = pidHead k"
  by (auto simp: P_now_def splhigh_def splx_def [of SPL_HIGH] deref_Ret_iff assertk_Ret_iff split: option.splits if_splits)

lemma thread_create_parent:
  assumes "thread_create name k = Ret (Some t, k')" "kinv k rq sl zb" "curthread k = Some c" "k_threads k c = Some th"
  shows "\<exists>ch. k_threads k' t = Some ch \<and> pPid (pidHead k' ! nat (t_pidValue ch - 1)) = t_pidValue th"
proof -
  let ?kw = "k\<lparr>curspl := SPL_HIGH\<rparr>"
  obtain b1 ka where 1: "kmalloc ?kw = (b1, ka)" by fastforce
  obtain b2 kb where 2: "kmalloc ka = (b2, kb)" by fastforce
  from kmalloc_frame [OF 1] obtain o1 where o1: "ka = ?kw\<lparr>k_oom := o1\<rparr>" by blast
  from kmalloc_frame [OF 2] obtain o2 where o2: "kb = ?kw\<lparr>k_oom := o2\<rparr>" unfolding o1 by auto
  have nz: "numthreads kb \<noteq> 0" using kinv_current(3) [OF assms(2,3)] by (simp add: o2)
  have b: "b1 \<and> b2" using assms(1) 1 2 by (auto simp: thread_create_def splhigh_def splx_def [of SPL_HIGH] split: if_splits)
  from assms(1) 1 2 b nz obtain v k1 i k2 where
    a: "assign_pid (k_next kb) (kb\<lparr>k_next := Suc (k_next kb)\<rparr>) = Ret (v, k1)" "P_now (parentSem (pidHead k1 ! i)) k1 = Ret k2"
    "t = k_next kb" "k' = k2\<lparr>k_threads := (k_threads k2)(k_next kb \<mapsto> thread_new name v), curspl := curspl k\<rparr>"
    by (auto simp: thread_create_def splhigh_def splx_def [of SPL_HIGH] Let_def andthen_Ret_iff deref_Ret_iff)
  have "pids_wf (pidHead k)" using assms(2) by (simp add: kinv_def pinv_def)
  with assign_pid_parent [OF a(1), of c th] assms(3,4) have "pPid (pidHead k1 ! nat (v - 1)) = t_pidValue th" by (simp add: o2)
  with a P_now_pids [OF a(2)] show ?thesis by (simp add: thread_new_def)
qed


lemma thread_fork_parent:
  assumes "thread_fork name func k = Ret ((None, Some t), k')" "kinv k rq sl zb" "curthread k = Some c" "k_threads k c = Some th"
  shows "(\<exists>ch. k_threads k' t = Some ch \<and> pPid (pidHead k' ! nat (t_pidValue ch - 1)) = t_pidValue th) \<and>
    (\<forall>u. u \<noteq> t \<longrightarrow> k_threads k' u = k_threads k u)"
proof -
  from assms(1) obtain g kc where kc: "thread_create name k = Ret (g, kc)" by (auto simp: thread_fork_enlist andthen_Ret_iff)
  obtain ok kd where kd: "kmalloc kc = (ok, kd)" by fastforce
  from kmalloc_frame [OF kd] obtain oo where oo: "kd = kc\<lparr>k_oom := oo\<rparr>" by blast
  from assms(1) kc kd obtain u kf where g: "g = Some u" "ok"
    "with_cur (upd_thread u (\<lambda>th. th\<lparr>t_stack := Some stack_magic\<rparr>) kd) (\<lambda>_ cur. case t_cwd cur of None \<Rightarrow> Ret (upd_thread u (\<lambda>th. th\<lparr>t_stack := Some stack_magic\<rparr>) kd)
        | Some v \<Rightarrow> andthen (vnode_incref v (upd_thread u (\<lambda>th. th\<lparr>t_stack := Some stack_magic\<rparr>) kd)) (\<lambda>k. Ret (upd_thread u (\<lambda>th. th\<lparr>t_cwd := Some v\<rparr>) k))) = Ret kf"
    "fork_enlist u (upd_thread u (\<lambda>th. th\<lparr>t_ininterrupt := 0, t_frames := F_start # func\<rparr>) kf) = Ret ((None, Some t), k')"
    by (auto simp: thread_fork_enlist andthen_Ret_iff Let_def split: option.splits if_splits)
  from thread_create_parent [OF kc [unfolded g(1)] assms(2-4)] obtain ch where
    ch: "k_threads kc u = Some ch" "pPid (pidHead kc ! nat (t_pidValue ch - 1)) = t_pidValue th" by blast
  from g(3) ch(1) have "(\<exists>cf. k_threads kf u = Some cf \<and> t_pidValue cf = t_pidValue ch) \<and> pidHead kf = pidHead kc \<and>
      (\<forall>w. w \<noteq> u \<longrightarrow> k_threads kf w = k_threads kc w)"
    by (auto simp: with_cur_Ret_iff vnode_incref_def deref_Ret_iff andthen_Ret_iff oo split: option.splits if_splits)
  moreover have "u = t" using g(4) by (auto simp: fork_enlist_def splhigh_def splx_def [of SPL_HIGH] andthen_Ret_iff
        split: if_splits dest!: fork_fail_None)
  moreover have "\<forall>w. w \<noteq> u \<longrightarrow> k_threads kc w = k_threads k w"
    using kc assms(2,3) by (cases rule: thread_create_Ret) (use g(1) in \<open>auto simp: with_new_def new_frame_def\<close>)
  ultimately show ?thesis using fork_enlist_frame [OF g(4)] ch(2) by auto
qed

lemma sys_fork_Ret:
  assumes "sys_fork tf k = Ret ((None, v), k')" "curthread k = Some c" "k_threads k c = Some th"
  obtains as ok oom new k3 t k4 ch where "t_vmspace th = Some as"
    "as_copy ok as (k\<lparr>curspl := SPL_HIGH, k_oom := oom\<rparr>) = Ret ((None, new), k3)"
    "thread_fork (t_name th) [F_child tf] k3 = Ret ((None, Some t), k4)" "k_threads k4 t = Some ch" "v = t_pidValue ch"
    "k' = (as_activate (Some as) (upd_thread t (\<lambda>x. x\<lparr>t_parentPid := Some (t_pidValue th), t_vmspace := new\<rparr>) k4))\<lparr>curspl := curspl k\<rparr>"
proof -
  let ?kw = "k\<lparr>curspl := SPL_HIGH\<rparr>"
  obtain b1 k1 where m1: "kmalloc ?kw = (b1, k1)" by fastforce
  obtain b2 k2 where m2: "kmalloc k1 = (b2, k2)" by fastforce
  from kmalloc_frame [OF m1] obtain o1 where o1: "k1 = ?kw\<lparr>k_oom := o1\<rparr>" by blast
  from kmalloc_frame [OF m2] obtain o2 where o2: "k2 = ?kw\<lparr>k_oom := o2\<rparr>" unfolding o1 by auto
  from assms m1 have b1 by (auto simp: sys_fork_def splhigh_def splx_def [of SPL_HIGH] split: if_splits)
  with assms m1 m2 obtain as new k3 child k4 t ch where "t_vmspace th = Some as" "as_copy b2 as k2 = Ret ((None, new), k3)"
    "thread_fork (t_name th) [F_child tf] k3 = Ret ((None, Some t), k4)" "k_threads k4 t = Some ch" "v = t_pidValue ch"
    "k' = (as_activate (Some as) (upd_thread t (\<lambda>x. x\<lparr>t_parentPid := Some (t_pidValue th), t_vmspace := new\<rparr>) k4))\<lparr>curspl := curspl k\<rparr>"
    by (auto simp: sys_fork_def splhigh_def splx_def [of SPL_HIGH] andthen_Ret_iff deref_Ret_iff Let_def split: if_splits option.splits)
  then show thesis using that unfolding o2 by blast
qed

text \<open>C8: what \<^verbatim>\<open>fork\<close> creates.  When the call returns a pid, there is one new thread, at the end of
  the run queue, with that pid, which no other thread has; the process table and the thread name the caller as
  its parent; its address space is the copy that \<^verbatim>\<open>as_copy\<close> made of the caller's; and it will start in
  \<^verbatim>\<open>childProcstub\<close> with the trap frame of the call.  The caller goes on with its interrupt level.\<close>

theorem sys_fork_child:
  assumes "kinv k rq sl zb" "curthread k = Some c" "k_threads k c = Some th" "sys_fork tf k = Ret ((None, v), k')"
  shows "\<exists>t ch as ok oom new s'. k_threads k t = None \<and> k_threads k' t = Some ch \<and> klists k' (rq @ [t]) sl zb \<and>
     t_pidValue ch = v \<and> (\<forall>u uh. k_threads k u = Some uh \<longrightarrow> t_pidValue uh \<noteq> v) \<and>
     pPid (pidHead k' ! nat (v - 1)) = t_pidValue th \<and> t_parentPid ch = Some (t_pidValue th) \<and>
     t_vmspace th = Some as \<and> as_copy ok as (k\<lparr>curspl := SPL_HIGH, k_oom := oom\<rparr>) = Ret ((None, new), s') \<and>
     t_vmspace ch = new \<and> t_frames ch = [F_start, F_child tf] \<and> curthread k' = Some c \<and> curspl k' = curspl k"
proof -
  from assms(4,2,3) obtain as ok oom new k3 t k4 ch where f: "t_vmspace th = Some as"
    "as_copy ok as (k\<lparr>curspl := SPL_HIGH, k_oom := oom\<rparr>) = Ret ((None, new), k3)"
    "thread_fork (t_name th) [F_child tf] k3 = Ret ((None, Some t), k4)" "k_threads k4 t = Some ch" "v = t_pidValue ch"
    "k' = (as_activate (Some as) (upd_thread t (\<lambda>x. x\<lparr>t_parentPid := Some (t_pidValue th), t_vmspace := new\<rparr>) k4))\<lparr>curspl := curspl k\<rparr>"
    by (rule sys_fork_Ret)
  have core: "same_core (k\<lparr>curspl := SPL_HIGH, k_oom := oom\<rparr>) k3" using as_copy_core [OF f(2)] by (simp add: same_threads_def)
  then have k3: "kinv k3 rq sl zb" "curthread k3 = Some c" "k_threads k3 = k_threads k"
    using kinv_same_core [OF core] assms(1,2) by (simp_all add: same_core_def)
  note fk = thread_fork_kinv [OF f(3) k3(1,2)]
  then have k4: "kinv k4 (rq @ [t]) sl zb" "t_frames ch = [F_start, F_child tf]" "curthread k4 = Some c" using f(4) by auto
  note par = thread_fork_parent [OF f(3) k3(1,2), unfolded k3(3), OF assms(3)]
  have d: "distinct (c # (rq @ [t]) @ sl @ zb)" "set (c # rq @ sl @ zb) = dom (k_threads k)"
    using kinv_current(1) [OF k4(1,3)] kinv_current(2) [OF k3(1,2)] k3(3) by simp_all
  then have new: "k_threads k t = None" by (auto simp: domIff)
  have "t_pidValue uh \<noteq> v" if u: "k_threads k u = Some uh" for u uh
  proof
    assume "t_pidValue uh = v"
    moreover have "u \<noteq> t" using u new by auto
    moreover have "pinv k4 zb" using k4(1) by (simp add: kinv_def)
    ultimately show False using pinvD(4) [of k4 zb u uh t ch] par u f(4,5) by auto
  qed
  moreover have "klists k' (rq @ [t]) sl zb"
    using kinv_current(4) [OF k4(1,3)] unfolding f(6) by (simp add: as_activate_kernel klists_def)
  ultimately show ?thesis
    by (intro exI [of _ t] exI [of _ "ch\<lparr>t_parentPid := Some (t_pidValue th), t_vmspace := new\<rparr>"] exI [of _ as] exI [of _ ok]
        exI [of _ oom] exI [of _ new] exI [of _ k3]) (use new f k4(2,3) par in \<open>simp add: as_activate_kernel\<close>)
qed

text \<open>The boot thread of the sample run with an address space.\<close>

definition k_user :: kernel where
  "k_user = upd_thread 1 (\<lambda>th. th\<lparr>t_vmspace := Some as_example\<rparr>) k_boot"

lemma k_user_kinv: "kinv k_user [] [] []"
proof -
  have "curthread k_boot = Some 1" by (simp add: k_states)
  then show ?thesis unfolding k_user_def
    by (intro kinv_cur_upd [OF reachable_lists [OF k_boot_reachable k_boot_lists]]) simp_all
qed

lemma k_user_cur: "curthread k_user = Some 1" "k_threads k_user 1 = Some (boot_thread\<lparr>t_vmspace := Some as_example\<rparr>)"
  by (simp_all add: k_user_def) (simp_all add: k_states)

lemma as_copy_example:
  assumes "firstpaddr k = 0x50000" "lastpaddr k = 0x100000"
  shows "\<exists>n p m. as_copy True as_example k = Ret ((None, Some n), k\<lparr>firstpaddr := p, ram := m\<rparr>)"
  using assms by (cases k) (simp add: as_copy_def as_create_def as_prepare_load_def getppages_def ram_stealmem_def ram_move_def
      as_example_def PAGE_SIZE_def DUMBVM_STACKPAGES_def Let_def splhigh_def splx_def)

lemma k_user_fork: "\<exists>v k'. sys_fork tf_none k_user = Ret ((None, v), k')"
proof -
  let ?k = "k_user\<lparr>curspl := SPL_HIGH\<rparr>"
  have u: "k_oom k_user = []" "firstpaddr k_user = 0x50000" "lastpaddr k_user = 0x100000" "in_interrupt k_user = 0"
    "numthreads k_user < 2 ^ 30" by (simp_all add: k_user_def k_boot_def k_start_def)
  from as_copy_example [of ?k] u obtain n p m where
    a: "as_copy True as_example ?k = Ret ((None, Some n), ?k\<lparr>firstpaddr := p, ram := m\<rparr>)" by auto
  let ?k3 = "?k\<lparr>firstpaddr := p, ram := m\<rparr>" and ?th = "boot_thread\<lparr>t_vmspace := Some as_example\<rparr>"
  have k3: "k_oom ?k3 = []" "kinv ?k3 [] [] []" "curthread ?k3 = Some 1" "k_threads ?k3 1 = Some ?th" "in_interrupt ?k3 = 0"
    "numthreads ?k3 < 2 ^ 30" "\<And>v. t_cwd ?th = Some v \<Longrightarrow> k_vnodes ?k3 v \<noteq> None"
    using u k_user_kinv k_user_cur by (simp_all add: boot_thread_def thread_new_def)
  from thread_fork_mem [OF k3] obtain k4 where
    f: "thread_fork (t_name ?th) [F_child tf_none] ?k3 = Ret ((None, Some (k_next ?k3)), k4)" by blast
  from thread_fork_kinv [OF f k3(2,3)] obtain ch where "k_threads k4 (k_next ?k3) = Some ch" by auto
  with f a u(1) k_user_cur show ?thesis
    by (simp add: sys_fork_def splhigh_def splx_def [of SPL_HIGH] Let_def)
qed

theorem sys_fork_child_witness:
  "kinv k_user [] [] [] \<and> (\<exists>v k' t ch. sys_fork tf_none k_user = Ret ((None, v), k') \<and> k_threads k' t = Some ch \<and>
     t_pidValue ch = v \<and> pPid (pidHead k' ! nat (v - 1)) = 1 \<and> t_frames ch = [F_start, F_child tf_none])"
proof -
  from k_user_fork obtain v k' where k': "sys_fork tf_none k_user = Ret ((None, v), k')" by blast
  from sys_fork_child [OF k_user_kinv k_user_cur k'] have "\<exists>t ch. k_threads k' t = Some ch \<and> t_pidValue ch = v \<and>
    pPid (pidHead k' ! nat (v - 1)) = 1 \<and> t_frames ch = [F_start, F_child tf_none]"
    by (auto simp: boot_thread_def thread_new_def)
  with k' k_user_kinv show ?thesis by blast
qed

section \<open>The system call interface\<close>

text \<open>a system call with a number that is not in the table returns to the program with the error code
  of \<open>ENOSYS\<close> in \<^verbatim>\<open>v0\<close>, the error flag in \<^verbatim>\<open>a3\<close> and the program counter past the instruction; no other
  register, no memory and nothing else of the kernel changes.\<close>

theorem syscall_unknown:
  assumes "curthread k = Some c" "k_threads k c = Some th" "curspl k = 0"
    "sint (tf_v0 (t_tf th)) \<notin> {0, 2, 3, 5, 6, 8, 11, 28, 32}"
  shows "andthen (mips_syscall k) (run_frame F_sysret []) =
     Ret (upd_thread c (\<lambda>th. th\<lparr>t_result := (Some ENOSYS, 0), t_tf := (t_tf th)
       \<lparr>tf_v0 := of_nat (errno_code ENOSYS), tf_a3 := 1, tf_epc := tf_epc (t_tf th) + 4\<rparr>, t_frames := []\<rparr>) k)"
proof -
  have "mips_syscall k = Ret (upd_thread c (\<lambda>th. th\<lparr>t_frames := [F_sysret]\<rparr>) (upd_thread c (\<lambda>th. th\<lparr>t_result := (Some ENOSYS, 0)\<rparr>) k))"
    using assms by (simp add: mips_syscall_def Let_def sys_now_def sys_done_def return_to_def)
  then show ?thesis using assms(1-3)
    by (simp add: syscall_return_def return_to_def Let_def upd_thread_def)
qed

theorem syscall_unknown_witness:
  "\<exists>k' th. andthen (mips_syscall (upd_thread 1 (\<lambda>th. th\<lparr>t_tf := tf_none\<lparr>tf_v0 := 99\<rparr>\<rparr>) k_boot)) (run_frame F_sysret []) = Ret k' \<and>
     k_threads k' 1 = Some th \<and> tf_a3 (t_tf th) = 1 \<and> tf_epc (t_tf th) = 4"
proof -
  let ?k = "upd_thread 1 (\<lambda>th. th\<lparr>t_tf := tf_none\<lparr>tf_v0 := 99\<rparr>\<rparr>) k_boot"
  have c: "curthread ?k = Some 1" "k_threads ?k 1 = Some (boot_thread\<lparr>t_tf := tf_none\<lparr>tf_v0 := 99\<rparr>\<rparr>)" "curspl ?k = 0"
    by (simp_all add: k_states)
  have b: "k_threads k_boot 1 = Some boot_thread" by (simp add: k_states)
  from syscall_unknown [OF c] b show ?thesis by (simp add: tf_none_def)
qed

text \<open>C10: \<^verbatim>\<open>write\<close> to the console.  With memory available and an address space set up, a write of
  \<open>n\<close> bytes to file 1 or 2 always comes back: either with \<open>EFAULT\<close>, having printed nothing, or
  with the count \<open>n\<close>, having printed the bytes the program has at that address, but only up to the
  first null byte.  User memory is not changed.\<close>

theorem sys_write_console:
  assumes "curthread k = Some c" "k_threads k c = Some th" "t_vmspace th = Some a" "vm_ready a k" "k_oom k = []"
    "fd = STDOUT_FILENO \<or> fd = STDERR_FILENO" "buf \<noteq> 0"
  shows "\<exists>st v k'. sys_write fd buf n k = Ret ((st, v), k') \<and> ram k' = ram k \<and>
     (case st of Some e \<Rightarrow> e = EFAULT \<and> v = -1 \<and> k_console k' = k_console k
      | None \<Rightarrow> v = sint n \<and> (\<exists>bs. length bs = unat n \<and> k_console k' = k_console k @ takeWhile (\<lambda>b. b \<noteq> 0) bs \<and>
          (\<forall>i < unat n. \<exists>pa. user_map (Some a) (buf + of_nat i) = Some pa \<and> bs ! i = ram k pa)))"
proof -
  from copyin_spec [OF assms(4), of buf n] obtain r k' where c: "copyin (Some a) buf n k = Ret (r, k')" "ram k' = ram k"
    "case r of Inl e \<Rightarrow> e = EFAULT | Inr bs \<Rightarrow> unat buf + unat n \<le> unat USERTOP \<and> length bs = unat n \<and>
       (\<forall>i < length bs. \<exists>pa. user_map (Some a) (buf + of_nat i) = Some pa \<and> pa \<in> as_frames a \<and> bs ! i = ram k pa)" by blast
  from copyin_frame [OF c(1)] have con: "k_console k' = k_console k" by (auto simp: vm_frame_def)
  show ?thesis
  proof (cases r)
    case (Inl e)
    with assms c con show ?thesis by (auto simp: sys_write_def)
  next
    case (Inr bs)
    with c(3) have "length bs = unat n" "\<forall>i < unat n. \<exists>pa. user_map (Some a) (buf + of_nat i) = Some pa \<and> bs ! i = ram k pa"
      by auto
    then show ?thesis using assms c(1,2) con Inr by (auto simp: sys_write_def)
  qed
qed


theorem sys_write_console_witness:
  "vm_ready as_example k_user \<and> (\<exists>st v k'. sys_write 1 0x400000 2 k_user = Ret ((st, v), k') \<and> ram k' = ram k_user)"
proof -
  have "tlb_agrees (Some as_example) (tlb k_user)" "length (tlb k_user) = NUM_TLB" "k_oom k_user = []"
    by (simp_all add: k_user_def k_boot_def k_start_def tlb_agrees_def TLBLO_VALID_def)
  then have r: "vm_ready as_example k_user" "k_oom k_user = []" by (simp_all add: vm_ready_def as_example_asserts)
  from sys_write_console [OF k_user_cur _ r, of 1 "0x400000" 2] r(1) show ?thesis
    by (auto simp: STDOUT_FILENO_def)
qed

section \<open>Scheduling\<close>

lemma idle_loop_ready: "runqueue k = Some q \<Longrightarrow> \<not> q_empty q \<Longrightarrow> idle_loop (k_irqs k) k = Ret k"
  by (subst idle_loop.simps) simp

lemma scheduler_next:
  assumes "klists k (t # rq) sl zb" "curspl k > 0"
  shows "\<exists>q. scheduler k = Ret (Some t, k\<lparr>runqueue := Some q\<rparr>) \<and> que_is q rq"
proof -
  from assms(1) obtain q where q: "runqueue k = Some q" "que_is q (t # rq)" by (auto simp: klists_def)
  from que_is_remhead [OF q(2)] obtain q' where q': "q_remhead q = Ret (Some t, q')" "que_is q' rq" by blast
  have "\<not> q_empty q" using q(2) q'(1) by (auto simp: q_remhead_def)
  with idle_loop_ready [OF q(1) this] assms(2) q(1) q' show ?thesis by (intro exI [of _ q']) (simp add: scheduler_def)
qed

text \<open>C9: \<^verbatim>\<open>thread_yield\<close> is first come, first served.  With room in the run queue, the thread at its
  head becomes the current one, the caller goes to its end, everybody else keeps the order, and the
  caller is left in the middle of \<^verbatim>\<open>mi_switch\<close>, to return to where it was with its interrupt level.\<close>

theorem thread_yield_next:
  assumes "kinv k (t # rq) sl zb" "curthread k = Some c" "k_threads k c = Some th" "k_oom k = []"
    "runqueue k = Some q" "length rq + 2 < q_size q"
  shows "\<exists>k' th'. thread_yield frs k = Ret k' \<and> curthread k' = Some t \<and> klists k' (rq @ [c]) sl zb \<and>
     k_threads k' c = Some th' \<and> t_frames th' = F_switch # F_yield (curspl k) # frs \<and> curspl k' = SPL_HIGH"
proof -
  let ?k = "k\<lparr>curspl := SPL_HIGH\<rparr>" and ?frs = "F_yield (curspl k) # frs"
  have inv: "kinv ?k (t # rq) sl zb" using assms(1) by simp
  have lists: "klists (stash c ?frs ?k) (t # rq) sl zb" using kinv_current(4) [OF assms(1,2)]
    by (simp add: klists_def)
  from make_runnable_mem [of "stash c ?frs ?k", OF _ lists, of q c] assms(4-6) obtain k1 where
    k1: "make_runnable c (stash c ?frs ?k) = Ret (None, k1)" by (auto simp: stash_def SPL_HIGH_def)
  have s1: "kinv k1 ((t # rq) @ [c]) sl zb" "curthread k1 = None" using stash_ready [OF inv _ k1] assms(2) by simp_all
  from lists obtain qs where qs: "runqueue (stash c ?frs ?k) = Some qs" "que_is qs (t # rq)" by (auto simp: klists_def)
  from make_runnable_Ret [OF k1 qs] obtain oom q1 where k1': "k1 = (stash c ?frs ?k)\<lparr>k_oom := oom, runqueue := Some q1\<rparr>" by auto
  have "klists k1 (t # rq @ [c]) sl zb" "curspl k1 > 0" using s1(1) k1' by (simp_all add: kinv_def tinv_def SPL_HIGH_def)
  from scheduler_next [OF this] obtain q' where q': "scheduler k1 = Ret (Some t, k1\<lparr>runqueue := Some q'\<rparr>)" "que_is q' (rq @ [c])" by blast
  have dis: "t \<noteq> c" "t \<in> dom (k_threads k)" using kinv_current(1,2) [OF assms(1,2)] by auto
  then obtain tt where tt: "k_threads k t = Some tt" by auto
  have ok: "stack_check th" using kinv_current(5) [OF assms(1-3)] by (simp add: thread_ok_def)
  have sl: "sleepers k \<noteq> None" using kinv_current(4) [OF assms(1,2)] by (auto simp: klists_def)
  let ?k2 = "k1\<lparr>runqueue := Some q', curthread := Some t\<rparr>"
  have k2: "k_threads ?k2 c = Some (th\<lparr>t_frames := F_switch # ?frs\<rparr>)" "k_threads ?k2 t = Some tt"
    using assms(3) tt dis by (simp_all add: k1' stash_threads)
  have "thread_yield frs k = md_switch c t ?k2"
    using assms(2,3) ok sl k1 q'(1)
    by (simp add: thread_yield_def splhigh_def splx_def [of SPL_HIGH] mi_switch_def Let_def stash_def [symmetric])
      (simp add: SPL_HIGH_def)
  also have "\<dots> = Ret ((upd_thread c (\<lambda>th. th\<lparr>t_ininterrupt := in_interrupt ?k2\<rparr>) ?k2)\<lparr>in_interrupt := t_ininterrupt tt\<rparr>)"
    using k2 dis(1) by (simp add: md_switch_def)
  finally have y: "thread_yield frs k = \<dots>" .
  have "klists ?k2 (rq @ [c]) sl zb" using q'(2) s1(1) by (auto simp: kinv_def tinv_def klists_def)
  then show ?thesis using y k2 by (simp add: klists_def k1')
qed


theorem thread_yield_next_witness:
  "kinv k_fork [2] [] [] \<and> (\<exists>k'. thread_yield [] k_fork = Ret k' \<and> curthread k' = Some 2 \<and> klists k' [1] [] [])"
proof -
  have inv: "kinv k_fork [2] [] []" by (rule reachable_lists [OF k_fork_reachable k_fork_lists])
  have c: "curthread k_fork = Some 1" "k_threads k_fork 1 = Some boot_thread" "k_oom k_fork = []"
    "runqueue k_fork = Some (que_ex 1 0 ((replicate 32 None)[0 := Some 2]))" by (simp_all add: k_states)
  from thread_yield_next [OF inv c, of "[]"] inv show ?thesis by (auto simp: que_ex_def)
qed

section \<open>Locks and condition variables\<close>



text \<open>C11: \<^verbatim>\<open>cv_signal\<close> is a broadcast.  It wakes every thread that waits on the condition variable, not one,
  and it releases the lock of the caller, waking also the threads that sleep on the lock; nobody else is
  woken.\<close>

theorem cv_signal_wakes_all:
  assumes "reachable k" "klists k rq sl zb" "cv_signal (Some cv) (Some l) k = Ret k'"
  shows "cv_broadcast (Some cv) (Some l) k = Ret k' \<and> (\<exists>rq' sl' lk. klists k' rq' sl' zb \<and>
     sl' = filter (\<lambda>t. \<not> sleeps_on k (A_lock l) t \<and> \<not> sleeps_on k (A_cv cv) t) sl \<and>
     set rq' = set rq \<union> {t \<in> set sl. sleeps_on k (A_lock l) t \<or> sleeps_on k (A_cv cv) t} \<and>
     k_locks k l = Some lk \<and> k_locks k' l = Some (lk\<lparr>lock_count := int_incr (lock_count lk), lock_thread := Some None\<rparr>))"
proof -
  from assms(3) obtain k1 k2 where s: "lock_release (Some l) (k\<lparr>curspl := SPL_HIGH\<rparr>) = Ret k1"
    "thread_wakeup (A_cv cv) k1 = Ret k2" "k' = k2\<lparr>curspl := curspl k\<rparr>"
    by (auto simp: cv_signal_def splhigh_def splx_def [of SPL_HIGH] andthen_Ret_iff)
  have inv: "kinv (k\<lparr>curspl := SPL_HIGH\<rparr>) rq sl zb" using reachable_lists [OF assms(1,2)] by simp
  have on: "sleeps_on (k\<lparr>curspl := SPL_HIGH\<rparr>) = sleeps_on k" by (rule sleeps_on_cong) simp
  let ?L = "sleeps_on k (A_lock l)" and ?C = "sleeps_on k (A_cv cv)"
  from s(1) inv obtain lk where r: "k_locks k l = Some lk"
    "k_locks k1 = (k_locks k)(l \<mapsto> lk\<lparr>lock_count := int_incr (lock_count lk), lock_thread := Some None\<rparr>)"
    "k_threads k1 = k_threads k" "kinv k1 (rq @ filter ?L sl) (filter (\<lambda>t. \<not> ?L t) sl) zb"
    by (rule lock_release_effect) (auto simp: on)
  have on1: "sleeps_on k1 = sleeps_on k" by (rule sleeps_on_cong) (rule r(3))
  from s(2) r(4) obtain oom q a where w: "k2 = k1\<lparr>k_oom := oom, runqueue := Some q, sleepers := Some a\<rparr>"
    "kinv k2 ((rq @ filter ?L sl) @ filter ?C (filter (\<lambda>t. \<not> ?L t) sl)) (filter (\<lambda>t. \<not> ?C t) (filter (\<lambda>t. \<not> ?L t) sl)) zb"
    unfolding on1 [symmetric] by (rule thread_wakeup_kinv)
  let ?rq = "(rq @ filter ?L sl) @ filter ?C (filter (\<lambda>t. \<not> ?L t) sl)" and ?sl = "filter (\<lambda>t. \<not> ?C t) (filter (\<lambda>t. \<not> ?L t) sl)"
  have "klists k2 ?rq ?sl zb" using w(2) by (simp add: kinv_def tinv_def)
  then have "klists k' ?rq ?sl zb" by (simp add: s(3) klists_def)
  moreover have "?sl = filter (\<lambda>t. \<not> ?L t \<and> \<not> ?C t) sl" by (simp add: conj_commute)
  moreover have "set ?rq = set rq \<union> {t \<in> set sl. ?L t \<or> ?C t}" by auto
  moreover have "k_locks k' l = Some (lk\<lparr>lock_count := int_incr (lock_count lk), lock_thread := Some None\<rparr>)"
    using r(2) w(1) s(3) by simp
  moreover have "cv_broadcast (Some cv) (Some l) k = Ret k'"
    using assms(3) by (simp add: cv_signal_def cv_broadcast_def)
  ultimately show ?thesis using r(1) by metis
qed

theorem cv_signal_wakes_all_witness:
  "reachable k_cvwait \<and> klists k_cvwait [] [1] [] \<and> (\<exists>k'. cv_signal (Some 5) (Some 4) k_cvwait = Ret k' \<and>
     (\<exists>rq'. klists k' rq' [] [] \<and> set rq' = {1}))"
proof -
  have "\<exists>k'. cv_signal (Some 5) (Some 4) k_cvwait = Ret k'"
    by (simp add: k_states k_run k_lists cv_signal_def lock_release_def thread_wakeup_def int_incr_def array_remove_def slots_down_def)
  then obtain k' where k': "cv_signal (Some 5) (Some 4) k_cvwait = Ret k'" by blast
  have "sleeps_on k_cvwait (A_cv 5) 1" by (simp add: sleeps_on_def k_states)
  with cv_signal_wakes_all [OF k_cvwait_reachable k_cvwait_lists k'] have "\<exists>rq'. klists k' rq' [] [] \<and> set rq' = {1}" by auto
  with k' k_cvwait_reachable k_cvwait_lists show ?thesis by blast
qed

end
