(* ===== verification/Uio.thy ===== *)
theory Uio
  imports UserMem "HOL-Library.Signed_Division"
begin

text \<open>
  Data transfers: \<^verbatim>\<open>src/kern/userprog/uio.c\<close> and \<^verbatim>\<open>src/kern/include/uio.h\<close>.

  A \<^verbatim>\<open>struct uio\<close> describes a buffer, in the kernel or in user space, and the object position a
  transfer starts at.  The memory a kernel pointer points into is the list \<open>iov_kbuf\<close>, the pointer
  the position \<open>iov_kbase\<close> in it; an access past its end is a \<open>Fault\<close>.  Sizes are 32-bit unsigned
  and positions 32-bit signed numbers, with the wrap-around written out.  The argument \<open>cur\<close> is the
  address space of the current thread.

  A call of \<^verbatim>\<open>uiomove(ptr, n, uio)\<close> gets the contents of the memory at \<^verbatim>\<open>ptr\<close> and returns its
  new contents; the lemmas show that on a kernel buffer it copies exactly \<open>n\<close> bytes and moves
  position, rest and pointer on by \<open>n\<close>.
\<close>

section \<open>Data\<close>

datatype uio_rw = UIO_READ | UIO_WRITE

datatype uio_seg = UIO_USERSPACE | UIO_SYSSPACE | UIO_USERISPACE

record uio =
  iov_kbuf :: "8 word list"
  iov_kbase :: nat
  iov_ubase :: u32
  iov_len :: nat
  uio_offset :: int
  uio_resid :: nat
  uio_segflg :: uio_seg
  uio_rw :: uio_rw
  uio_space :: "addrspace option"

text \<open>Conversion to a signed 32-bit number, the type \<^verbatim>\<open>off_t\<close>.\<close>

definition to_off :: "int \<Rightarrow> int" where
  "to_off x = (x + 2 ^ 31) mod 2 ^ 32 - 2 ^ 31"

text \<open>\<^verbatim>\<open>memmove\<close> into and out of a buffer.\<close>

definition buf_put :: "8 word list \<Rightarrow> nat \<Rightarrow> 8 word list \<Rightarrow> 8 word list run" where
  "buf_put buf pos bs =
     (if pos + length bs \<le> length buf then Ret (take pos buf @ bs @ drop (pos + length bs) buf) else Fault)"

definition buf_get :: "8 word list \<Rightarrow> nat \<Rightarrow> nat \<Rightarrow> 8 word list run" where
  "buf_get buf pos n = (if pos + n \<le> length buf then Ret (take n (drop pos buf)) else Fault)"

section \<open>Operations\<close>

text \<open>One turn of the loop of \<^verbatim>\<open>uiomove\<close>: \<open>sz\<close> bytes at position \<open>p\<close> of the kernel memory \<open>ptr\<close>.\<close>

definition uiomove_step :: "8 word list \<Rightarrow> nat \<Rightarrow> nat \<Rightarrow> uio \<Rightarrow> 's vmstate_scheme \<Rightarrow>
    ((status \<times> 8 word list \<times> uio) \<times> 's vmstate_scheme) run" where
  "uiomove_step ptr p sz u s =
     (case uio_segflg u of
        UIO_SYSSPACE \<Rightarrow>
          (case uio_rw u of
             UIO_READ \<Rightarrow> andthen (buf_get ptr p sz) (\<lambda>bs.
               andthen (buf_put (iov_kbuf u) (iov_kbase u) bs) (\<lambda>buf.
               Ret ((None, ptr, u\<lparr>iov_kbuf := buf, iov_kbase := iov_kbase u + sz\<rparr>), s)))
           | UIO_WRITE \<Rightarrow> andthen (buf_get (iov_kbuf u) (iov_kbase u) sz) (\<lambda>bs.
               andthen (buf_put ptr p bs) (\<lambda>ptr.
               Ret ((None, ptr, u\<lparr>iov_kbase := iov_kbase u + sz\<rparr>), s))))
      | _ \<Rightarrow>
          (case uio_rw u of
             UIO_READ \<Rightarrow> andthen (buf_get ptr p sz) (\<lambda>bs.
               andthen (copyout (uio_space u) bs (iov_ubase u) (of_nat sz) s) (\<lambda>(st, s).
               Ret ((st, ptr, if st = None then u\<lparr>iov_ubase := iov_ubase u + of_nat sz\<rparr> else u), s)))
           | UIO_WRITE \<Rightarrow> andthen (copyin (uio_space u) (iov_ubase u) (of_nat sz) s) (\<lambda>(r, s).
               case r of Inl e \<Rightarrow> Ret ((Some e, ptr, u), s)
               | Inr bs \<Rightarrow> andthen (buf_put ptr p bs) (\<lambda>ptr.
                   Ret ((None, ptr, u\<lparr>iov_ubase := iov_ubase u + of_nat sz\<rparr>), s)))))"

function uiomove_loop :: "8 word list \<Rightarrow> nat \<Rightarrow> nat \<Rightarrow> uio \<Rightarrow> 's vmstate_scheme \<Rightarrow>
    ((status \<times> 8 word list \<times> uio) \<times> 's vmstate_scheme) run" where
  "uiomove_loop ptr p n u s =
     (if n > 0 \<and> uio_resid u > 0 then
        let sz = min (iov_len u) n in
        if sz = 0 then Panic
        else andthen (uiomove_step ptr p sz u s) (\<lambda>((st, ptr, u), s).
          if st \<noteq> None then Ret ((st, ptr, u), s)
          else uiomove_loop ptr (p + sz) (n - sz)
                 (u\<lparr>iov_len := iov_len u - sz, uio_resid := (uio_resid u + 2 ^ 32 - sz) mod 2 ^ 32,
                    uio_offset := to_off (uio_offset u + int sz)\<rparr>) s)
      else Ret ((None, ptr, u), s))"
  by pat_completeness auto
termination
  by (relation "measure (\<lambda>(ptr, p, n, u, s). n)") auto

declare uiomove_loop.simps [simp del]

definition uiomove :: "addrspace option \<Rightarrow> 8 word list \<Rightarrow> nat \<Rightarrow> uio \<Rightarrow> 's vmstate_scheme \<Rightarrow>
    ((status \<times> 8 word list \<times> uio) \<times> 's vmstate_scheme) run" where
  "uiomove cur ptr n u s =
     assertk (if uio_segflg u = UIO_SYSSPACE then uio_space u = None else uio_space u = cur)
     (uiomove_loop ptr 0 n u s)"

function uiomovezeros_loop :: "addrspace option \<Rightarrow> nat \<Rightarrow> uio \<Rightarrow> 's vmstate_scheme \<Rightarrow>
    ((status \<times> uio) \<times> 's vmstate_scheme) run" where
  "uiomovezeros_loop cur n u s =
     (if n > 0 then
        let amt = min 16 n in
        andthen (uiomove cur (replicate 16 0) amt u s) (\<lambda>((st, _, u), s).
        if st \<noteq> None then Ret ((st, u), s) else uiomovezeros_loop cur (n - amt) u s)
      else Ret ((None, u), s))"
  by pat_completeness auto
termination
  by (relation "measure (\<lambda>(cur, n, u, s). n)") auto

declare uiomovezeros_loop.simps [simp del]

definition uiomovezeros :: "addrspace option \<Rightarrow> nat \<Rightarrow> uio \<Rightarrow> 's vmstate_scheme \<Rightarrow>
    ((status \<times> uio) \<times> 's vmstate_scheme) run" where
  "uiomovezeros cur n u s = assertk (uio_rw u = UIO_READ) (uiomovezeros_loop cur n u s)"

definition mk_kuio :: "8 word list \<Rightarrow> nat \<Rightarrow> int \<Rightarrow> uio_rw \<Rightarrow> uio" where
  "mk_kuio kbuf len pos rw = \<lparr>iov_kbuf = kbuf, iov_kbase = 0, iov_ubase = 0, iov_len = len, uio_offset = pos,
     uio_resid = len, uio_segflg = UIO_SYSSPACE, uio_rw = rw, uio_space = None\<rparr>"

section \<open>Transfers with a kernel buffer\<close>

text \<open>A kernel buffer with room for all that is left to transfer, at a position that does not overflow.\<close>

definition kuio_ok :: "uio \<Rightarrow> bool" where
  "kuio_ok u \<longleftrightarrow> uio_segflg u = UIO_SYSSPACE \<and> uio_space u = None \<and> uio_resid u \<le> iov_len u \<and>
     iov_kbase u + iov_len u \<le> length (iov_kbuf u) \<and> 0 \<le> uio_offset u \<and>
     uio_offset u + int (uio_resid u) < 2 ^ 31"

text \<open>The same buffer \<open>n\<close> bytes further on.\<close>

definition uio_adv :: "nat \<Rightarrow> uio \<Rightarrow> uio" where
  "uio_adv n u = u\<lparr>iov_kbase := iov_kbase u + n, iov_len := iov_len u - n, uio_resid := uio_resid u - n,
     uio_offset := uio_offset u + int n\<rparr>"

definition uio_fill :: "8 word list \<Rightarrow> uio \<Rightarrow> uio" where
  "uio_fill bs u = uio_adv (length bs)
     (u\<lparr>iov_kbuf := take (iov_kbase u) (iov_kbuf u) @ bs @ drop (iov_kbase u + length bs) (iov_kbuf u)\<rparr>)"

text \<open>The bytes the next \<open>n\<close> bytes of a write are taken from.\<close>

definition uio_bytes :: "nat \<Rightarrow> uio \<Rightarrow> 8 word list" where
  "uio_bytes n u = take n (drop (iov_kbase u) (iov_kbuf u))"

lemma to_off_id [simp]: "- (2 ^ 31) \<le> x \<Longrightarrow> x < 2 ^ 31 \<Longrightarrow> to_off x = x"
  by (simp add: to_off_def)

lemma uio_adv_simps [simp]:
  "uio_segflg (uio_adv n u) = uio_segflg u" "uio_rw (uio_adv n u) = uio_rw u" "uio_space (uio_adv n u) = uio_space u"
  "uio_resid (uio_adv n u) = uio_resid u - n" "uio_offset (uio_adv n u) = uio_offset u + int n"
  "iov_kbuf (uio_adv n u) = iov_kbuf u" "iov_kbase (uio_adv n u) = iov_kbase u + n" "iov_len (uio_adv n u) = iov_len u - n"
  by (simp_all add: uio_adv_def)

lemma uio_fill_simps [simp]:
  "uio_segflg (uio_fill bs u) = uio_segflg u" "uio_rw (uio_fill bs u) = uio_rw u" "uio_space (uio_fill bs u) = uio_space u"
  "uio_resid (uio_fill bs u) = uio_resid u - length bs" "uio_offset (uio_fill bs u) = uio_offset u + int (length bs)"
  "iov_kbase (uio_fill bs u) = iov_kbase u + length bs" "iov_len (uio_fill bs u) = iov_len u - length bs"
  by (simp_all add: uio_fill_def)

lemma uio_bytes_length: "kuio_ok u \<Longrightarrow> n \<le> uio_resid u \<Longrightarrow> length (uio_bytes n u) = n"
  by (auto simp: uio_bytes_def kuio_ok_def)

lemma kuio_ok_adv: "kuio_ok u \<Longrightarrow> n \<le> uio_resid u \<Longrightarrow> kuio_ok (uio_adv n u)"
  by (auto simp: kuio_ok_def)

lemma kuio_ok_fill: "kuio_ok u \<Longrightarrow> length bs \<le> uio_resid u \<Longrightarrow> kuio_ok (uio_fill bs u)"
  by (auto simp: kuio_ok_def uio_fill_def)

lemma uiomove_0 [simp]: "kuio_ok u \<Longrightarrow> uiomove cur ptr 0 u s = Ret ((None, ptr, u), s)"
  by (simp add: uiomove_def kuio_ok_def uiomove_loop.simps)

lemma resid_minus: "n \<le> r \<Longrightarrow> r < 4294967296 \<Longrightarrow> (r + 4294967296 - n) mod 4294967296 = (r - n :: nat)"
proof -
  assume a: "n \<le> r" "r < 4294967296"
  then have "r + 4294967296 - n = (r - n) + 4294967296" by simp
  then show ?thesis using a by (simp del: add_diff_assoc2)
qed

lemma kuio_ok_resid: "kuio_ok u \<Longrightarrow> uio_resid u < 2 ^ 31"
  by (auto simp: kuio_ok_def)

lemma uiomove_read:
  assumes "kuio_ok u" "uio_rw u = UIO_READ" "length bs \<le> uio_resid u"
  shows "uiomove cur (bs @ rest) (length bs) u s = Ret ((None, bs @ rest, uio_fill bs u), s)"
proof (cases "length bs = 0")
  case False
  have m: "min (iov_len u) (length bs) = length bs" using assms by (simp add: kuio_ok_def)
  have r: "(uio_resid u + 4294967296 - length bs) mod 4294967296 = uio_resid u - length bs"
    using assms(3) kuio_ok_resid [OF assms(1)] by (intro resid_minus) simp_all
  have o: "to_off (uio_offset u + int (length bs)) = uio_offset u + int (length bs)"
    using assms(1,3) by (intro to_off_id) (auto simp: kuio_ok_def)
  have st: "uiomove_step (bs @ rest) 0 (length bs) u s =
      Ret ((None, bs @ rest, u\<lparr>iov_kbuf := take (iov_kbase u) (iov_kbuf u) @ bs @ drop (iov_kbase u + length bs) (iov_kbuf u),
        iov_kbase := iov_kbase u + length bs\<rparr>), s)"
    using assms by (simp add: uiomove_step_def kuio_ok_def buf_get_def buf_put_def)
  have "uiomove cur (bs @ rest) (length bs) u s = uiomove_loop (bs @ rest) (length bs) 0 (uio_fill bs u) s"
    using assms False by (subst uiomove_def, subst uiomove_loop.simps)
      (auto simp: m st r o Let_def kuio_ok_def uio_fill_def uio_adv_def)
  then show ?thesis by (simp add: uiomove_loop.simps)
qed (use assms in \<open>simp add: uio_fill_def uio_adv_def\<close>)

lemma uiomove_write:
  assumes "kuio_ok u" "uio_rw u = UIO_WRITE" "n \<le> uio_resid u" "n \<le> length ptr"
  shows "uiomove cur ptr n u s = Ret ((None, uio_bytes n u @ drop n ptr, uio_adv n u), s)"
proof (cases "n = 0")
  case False
  have m: "min (iov_len u) n = n" using assms by (simp add: kuio_ok_def)
  have r: "(uio_resid u + 4294967296 - n) mod 4294967296 = uio_resid u - n"
    using assms(3) kuio_ok_resid [OF assms(1)] by (intro resid_minus) simp_all
  have o: "to_off (uio_offset u + int n) = uio_offset u + int n"
    using assms(1,3) by (intro to_off_id) (auto simp: kuio_ok_def)
  have st: "uiomove_step ptr 0 n u s = Ret ((None, uio_bytes n u @ drop n ptr, u\<lparr>iov_kbase := iov_kbase u + n\<rparr>), s)"
    using assms uio_bytes_length [OF assms(1,3)]
    by (simp add: uiomove_step_def kuio_ok_def buf_get_def buf_put_def uio_bytes_def)
  have "uiomove cur ptr n u s = uiomove_loop (uio_bytes n u @ drop n ptr) n 0 (uio_adv n u) s"
    using assms False by (subst uiomove_def, subst uiomove_loop.simps)
      (simp add: m st r o Let_def kuio_ok_def uio_adv_def)
  then show ?thesis by (simp add: uiomove_loop.simps)
qed (use assms in \<open>simp add: uio_bytes_def uio_adv_def\<close>)

lemma uio_fill_append:
  assumes "kuio_ok u" "length bs + length cs \<le> uio_resid u"
  shows "uio_fill cs (uio_fill bs u) = uio_fill (bs @ cs) u"
  using assms by (simp add: uio_fill_def uio_adv_def kuio_ok_def drop_drop ac_simps)

lemma uiomovezeros_kernel:
  assumes "kuio_ok u" "uio_rw u = UIO_READ" "n \<le> uio_resid u"
  shows "uiomovezeros cur n u s = Ret ((None, uio_fill (replicate n 0) u), s)"
proof -
  have "uiomovezeros_loop cur n u s = Ret ((None, uio_fill (replicate n 0) u), s)"
    using assms
  proof (induction n arbitrary: u rule: less_induct)
    case (less n)
    show ?case
    proof (cases "n = 0")
      case False
      let ?a = "min 16 n"
      have mv: "uiomove cur (replicate 16 0) ?a u s = Ret ((None, replicate 16 0, uio_fill (replicate ?a 0) u), s)"
        using uiomove_read [of u "replicate ?a 0" cur "replicate (16 - ?a) 0" s] less.prems
        by (simp add: replicate_add [symmetric])
      have "uiomovezeros_loop cur (n - ?a) (uio_fill (replicate ?a 0) u) s =
          Ret ((None, uio_fill (replicate (n - ?a) 0) (uio_fill (replicate ?a 0) u)), s)"
        using False less.prems by (intro less.IH kuio_ok_fill) auto
      also have "uio_fill (replicate (n - ?a) 0) (uio_fill (replicate ?a 0) u) = uio_fill (replicate n 0) u"
        using less.prems by (subst uio_fill_append) (simp_all add: replicate_add [symmetric])
      finally show ?thesis using False mv by (subst uiomovezeros_loop.simps) simp
    qed (simp add: uiomovezeros_loop.simps uio_fill_def uio_adv_def)
  qed
  then show ?thesis using assms(2) by (simp add: uiomovezeros_def)
qed

end
