(* ===== verification/CString.thy ===== *)
theory CString
  imports Prelude
begin

text \<open>
  The string and memory routines that libc and the kernel share, \<^verbatim>\<open>src/lib/libc/str*.c\<close>,
  \<^verbatim>\<open>mem*.c\<close>, \<^verbatim>\<open>bzero.c\<close> and \<^verbatim>\<open>atoi.c\<close>.

  A pointer to characters is the list of the bytes from the pointer to the end of the object it points
  into; following it past that end is a \<open>Fault\<close>.  Where the source and the destination of a
  routine may overlap, or where addresses matter, the memory is one list of bytes and a pointer a
  position in it.  The type \<^verbatim>\<open>char\<close> is signed.  A returned pointer into a string is its offset.
\<close>

type_synonym byte = "8 word"

section \<open>Memory blocks\<close>

definition mem_read :: "nat \<Rightarrow> nat \<Rightarrow> byte list \<Rightarrow> byte list run" where
  "mem_read p n m = (if p + n \<le> length m then Ret (take n (drop p m)) else Fault)"

definition mem_write :: "nat \<Rightarrow> byte list \<Rightarrow> byte list \<Rightarrow> byte list run" where
  "mem_write p bs m =
     (if p + length bs \<le> length m then Ret (take p m @ bs @ drop (p + length bs) m) else Fault)"

text \<open>
  The loops of \<^verbatim>\<open>memcpy\<close>, upwards, and of \<^verbatim>\<open>memmove\<close>, downwards: \<open>n\<close> units of \<open>w\<close>
  bytes, a \<^verbatim>\<open>long\<close> or a \<^verbatim>\<open>char\<close>.
\<close>

fun copy_up :: "nat \<Rightarrow> nat \<Rightarrow> nat \<Rightarrow> nat \<Rightarrow> byte list \<Rightarrow> byte list run" where
  "copy_up w 0 dst src m = Ret m"
| "copy_up w (Suc n) dst src m =
     andthen (mem_read src w m) (\<lambda>bs. andthen (mem_write dst bs m) (copy_up w n (dst + w) (src + w)))"

fun copy_down :: "nat \<Rightarrow> nat \<Rightarrow> nat \<Rightarrow> nat \<Rightarrow> byte list \<Rightarrow> byte list run" where
  "copy_down w 0 dst src m = Ret m"
| "copy_down w (Suc n) dst src m =
     andthen (mem_read (src + n * w) w m) (\<lambda>bs. andthen (mem_write (dst + n * w) bs m) (copy_down w n dst src))"

definition memcpy :: "nat \<Rightarrow> nat \<Rightarrow> nat \<Rightarrow> byte list \<Rightarrow> byte list run" where
  "memcpy dst src len m =
     (if dst mod 4 = 0 \<and> src mod 4 = 0 \<and> len mod 4 = 0 then copy_up 4 (len div 4) dst src m
      else copy_up 1 len dst src m)"

definition memmove :: "nat \<Rightarrow> nat \<Rightarrow> nat \<Rightarrow> byte list \<Rightarrow> byte list run" where
  "memmove dst src len m =
     (if dst < src then memcpy dst src len m
      else if dst mod 4 = 0 \<and> src mod 4 = 0 \<and> len mod 4 = 0 then copy_down 4 (len div 4) dst src m
      else copy_down 1 len dst src m)"

fun fill_up :: "byte list \<Rightarrow> nat \<Rightarrow> nat \<Rightarrow> byte list \<Rightarrow> byte list run" where
  "fill_up unit 0 p m = Ret m"
| "fill_up unit (Suc n) p m = andthen (mem_write p unit m) (fill_up unit n (p + length unit))"

definition memset :: "nat \<Rightarrow> int \<Rightarrow> nat \<Rightarrow> byte list \<Rightarrow> byte list run" where
  "memset p ch len m = fill_up [word_of_int ch] len p m"

definition bzero :: "nat \<Rightarrow> nat \<Rightarrow> byte list \<Rightarrow> byte list run" where
  "bzero p len m =
     (if p mod 4 = 0 \<and> len mod 4 = 0 then fill_up [0, 0, 0, 0] (len div 4) p m else fill_up [0] len p m)"

fun memcmp :: "nat \<Rightarrow> byte list \<Rightarrow> byte list \<Rightarrow> int run" where
  "memcmp 0 a b = Ret 0"
| "memcmp (Suc n) (x # a) (y # b) = (if x \<noteq> y then Ret (uint x - uint y) else memcmp n a b)"
| "memcmp (Suc n) _ _ = Fault"

section \<open>Strings\<close>

fun strlen :: "byte list \<Rightarrow> nat run" where
  "strlen [] = Fault"
| "strlen (c # s) = (if c \<noteq> 0 then andthen (strlen s) (\<lambda>ret. Ret (ret + 1)) else Ret 0)"

fun strcmp :: "byte list \<Rightarrow> byte list \<Rightarrow> int run" where
  "strcmp (x # a) (y # b) =
     (if x \<noteq> 0 \<and> x = y then strcmp a b
      else if sint x > sint y then Ret 1 else if x = y then Ret 0 else Ret (- 1))"
| "strcmp _ _ = Fault"

fun strcpy :: "byte list \<Rightarrow> byte list \<Rightarrow> byte list run" where
  "strcpy (d # dest) (c # src) =
     (if c \<noteq> 0 then andthen (strcpy dest src) (\<lambda>rest. Ret (c # rest)) else Ret (0 # dest))"
| "strcpy _ _ = Fault"

definition strcat :: "byte list \<Rightarrow> byte list \<Rightarrow> byte list run" where
  "strcat dest src =
     andthen (strlen dest) (\<lambda>offset.
     andthen (strcpy (drop offset dest) src) (\<lambda>rest. Ret (take offset dest @ rest)))"

fun strchr :: "byte list \<Rightarrow> int \<Rightarrow> nat option run" where
  "strchr [] ch = Fault"
| "strchr (c # s) ch =
     (if c \<noteq> 0 then if sint c = ch then Ret (Some 0) else andthen (strchr s ch) (\<lambda>r. Ret (map_option Suc r))
      else if sint c = ch then Ret (Some 0) else Ret None)"

fun strrchr_loop :: "nat \<Rightarrow> byte list \<Rightarrow> int \<Rightarrow> nat option run" where
  "strrchr_loop 0 s ch = Ret None"
| "strrchr_loop (Suc i) s ch =
     (if i < length s then if sint (s ! i) = ch then Ret (Some i) else strrchr_loop i s ch else Fault)"

definition strrchr :: "byte list \<Rightarrow> int \<Rightarrow> nat option run" where
  "strrchr s ch = andthen (strlen s) (\<lambda>n. strrchr_loop (n + 1) s ch)"

text \<open>
  \<^verbatim>\<open>strtok_r\<close> on the memory \<open>m\<close>: \<open>string\<close> and \<open>context\<close> are positions, or \<open>None\<close> for the null
  pointer.  It returns the word, the new context and the new memory.  The two loops move a position
  on while the character there is not the end of the string and is, or is not, a separator.
\<close>

function tok_skip :: "bool \<Rightarrow> byte list \<Rightarrow> byte list \<Rightarrow> nat \<Rightarrow> nat run" where
  "tok_skip want seps m p =
     (if p < length m then
        if m ! p \<noteq> 0 then
          andthen (strchr seps (sint (m ! p))) (\<lambda>r. if (r \<noteq> None) = want then tok_skip want seps m (p + 1) else Ret p)
        else Ret p
      else Fault)"
  by pat_completeness auto
termination
  by (relation "measure (\<lambda>(want, seps, m, p). length m - p)") auto

declare tok_skip.simps [simp del]

definition strtok_r :: "nat option \<Rightarrow> byte list \<Rightarrow> nat option \<Rightarrow> byte list \<Rightarrow> (nat option \<times> nat option \<times> byte list) run" where
  "strtok_r string seps ctxt m =
     (let ctxt = (if string \<noteq> None then string else ctxt) in
      case ctxt of None \<Rightarrow> Ret (None, ctxt, m)
      | Some head \<Rightarrow>
          andthen (tok_skip True seps m head) (\<lambda>head.
          if m ! head = 0 then Ret (None, None, m)
          else andthen (tok_skip False seps m head) (\<lambda>tail.
               if m ! tail = 0 then Ret (Some head, None, m)
               else Ret (Some head, Some (tail + 1), m[tail := 0]))))"

section \<open>Decimal numbers\<close>

text \<open>\<^verbatim>\<open>atoi\<close> accumulates in a 32-bit unsigned number.\<close>

definition digits :: "byte list" where
  "digits = [48, 49, 50, 51, 52, 53, 54, 55, 56, 57, 0]"

fun atoi_space :: "byte list \<Rightarrow> byte list" where
  "atoi_space [] = []"
| "atoi_space (c # s) = (if c = 32 \<or> c = 9 then atoi_space s else c # s)"

fun atoi_digits :: "32 word \<Rightarrow> byte list \<Rightarrow> 32 word run" where
  "atoi_digits val [] = Fault"
| "atoi_digits val (c # s) =
     (if c \<noteq> 0 then andthen (strchr digits (sint c)) (\<lambda>r.
        case r of None \<Rightarrow> Ret val | Some digit \<Rightarrow> atoi_digits (val * 10 + of_nat digit) s)
      else Ret val)"

definition atoi :: "byte list \<Rightarrow> int run" where
  "atoi s =
     (case atoi_space s of [] \<Rightarrow> Fault
      | c # t \<Rightarrow>
          andthen (atoi_digits 0 (if c = 45 \<or> c = 43 then t else c # t)) (\<lambda>val.
          Ret (if c = 45 then sint (- val) else sint val)))"

section \<open>Copies\<close>

text \<open>Overwriting a part of the memory.\<close>

definition blit :: "nat \<Rightarrow> byte list \<Rightarrow> byte list \<Rightarrow> byte list" where
  "blit p bs m = take p m @ bs @ drop (p + length bs) m"

lemma blit_length [simp]: "p + length bs \<le> length m \<Longrightarrow> length (blit p bs m) = length m"
  by (simp add: blit_def)

lemma mem_write_blit: "p + length bs \<le> length m \<Longrightarrow> mem_write p bs m = Ret (blit p bs m)"
  by (simp add: mem_write_def blit_def)

lemma drop_blit: "p + length bs \<le> q \<Longrightarrow> p + length bs \<le> length m \<Longrightarrow> drop q (blit p bs m) = drop q m"
  by (simp add: blit_def)

lemma take_blit: "q \<le> p \<Longrightarrow> p + length bs \<le> length m \<Longrightarrow> take q (blit p bs m) = take q m"
  by (simp add: blit_def)

lemma blit_blit_up: "p + length u + length v \<le> length m \<Longrightarrow> blit (p + length u) v (blit p u m) = blit p (u @ v) m"
  by (simp add: blit_def ac_simps)

lemma blit_blit_down: "p + length v + length u \<le> length m \<Longrightarrow> blit p v (blit (p + length v) u m) = blit p (v @ u) m"
  by (simp add: blit_def add.assoc)

lemma copy_up_spec:
  assumes "dst \<le> src" "src + n * w \<le> length m"
  shows "copy_up w n dst src m = Ret (blit dst (take (n * w) (drop src m)) m)"
  using assms
proof (induction n arbitrary: dst src m)
  case (Suc n)
  let ?u = "take w (drop src m)" and ?v = "take (n * w) (drop (src + w) m)"
  have l: "length ?u = w" "length ?v = n * w" using Suc.prems by simp_all
  have m: "length (blit dst ?u m) = length m" using Suc.prems l by (intro blit_length) simp
  have "copy_up w (Suc n) dst src m = copy_up w n (dst + w) (src + w) (blit dst ?u m)"
    using Suc.prems l by (simp add: mem_read_def mem_write_blit)
  also have "\<dots> = Ret (blit (dst + w) (take (n * w) (drop (src + w) (blit dst ?u m))) (blit dst ?u m))"
    using Suc.prems m by (intro Suc.IH) simp_all
  also have "drop (src + w) (blit dst ?u m) = drop (src + w) m"
    using Suc.prems l by (intro drop_blit) simp_all
  also have "blit (dst + w) ?v (blit dst ?u m) = blit dst (?u @ ?v) m"
    using blit_blit_up [of dst ?u ?v m] Suc.prems l by simp
  also have "?u @ ?v = take (Suc n * w) (drop src m)"
    by (simp add: take_add drop_drop add.commute)
  finally show ?case .
qed (simp add: blit_def)

lemma copy_down_spec:
  assumes "src \<le> dst" "dst + n * w \<le> length m"
  shows "copy_down w n dst src m = Ret (blit dst (take (n * w) (drop src m)) m)"
  using assms
proof (induction n arbitrary: m)
  case (Suc n)
  let ?u = "take w (drop (src + n * w) m)" and ?v = "take (n * w) (drop src m)"
  let ?m = "blit (dst + n * w) ?u m"
  have l: "length ?u = w" "length ?v = n * w" using Suc.prems by simp_all
  have m: "length ?m = length m" using Suc.prems l by (intro blit_length) simp
  have "copy_down w (Suc n) dst src m = copy_down w n dst src ?m"
    using Suc.prems l by (simp add: mem_read_def mem_write_blit)
  also have "\<dots> = Ret (blit dst (take (n * w) (drop src ?m)) ?m)"
    using Suc.prems m by (intro Suc.IH) simp_all
  also have "take (n * w) (drop src ?m) = ?v"
    using Suc.prems l by (simp add: take_drop take_blit add.commute)
  also have "blit dst ?v ?m = blit dst (?v @ ?u) m"
    using blit_blit_down [of dst ?v ?u m] Suc.prems l by simp
  also have "?v @ ?u = take (Suc n * w) (drop src m)"
    using take_add [of "n * w" w "drop src m"] by (simp add: drop_drop ac_simps)
  finally show ?case .
qed (simp add: blit_def)

lemma fill_up_spec:
  assumes "p + n * length unit \<le> length m"
  shows "fill_up unit n p m = Ret (blit p (concat (replicate n unit)) m)"
  using assms
proof (induction n arbitrary: p m)
  case (Suc n)
  have c: "length (concat (replicate n unit)) = n * length unit" by (induction n) simp_all
  have m: "length (blit p unit m) = length m" using Suc.prems by (intro blit_length) simp
  then show ?case
    using Suc.prems c by (simp add: mem_write_blit Suc.IH blit_blit_up add.assoc)
qed (simp add: blit_def)

lemma words_of: "len mod 4 = 0 \<Longrightarrow> len div 4 * 4 = len" for len :: nat
  by presburger

lemma memcpy_spec:
  assumes "dst \<le> src" "src + len \<le> length m"
  shows "memcpy dst src len m = Ret (blit dst (take len (drop src m)) m)"
  using assms by (simp add: memcpy_def copy_up_spec words_of)

lemma memmove_spec:
  assumes "dst + len \<le> length m" "src + len \<le> length m"
  shows "memmove dst src len m = Ret (blit dst (take len (drop src m)) m)"
  using assms by (simp add: memmove_def memcpy_spec copy_down_spec words_of)

lemma bzero_spec:
  assumes "p + len \<le> length m"
  shows "bzero p len m = Ret (blit p (replicate len 0) m)"
proof (cases "p mod 4 = 0 \<and> len mod 4 = 0")
  case True
  have "concat (replicate n [0, 0, 0, 0]) = replicate (n * 4) (0 :: byte)" for n by (induction n) (simp_all add: numeral_eq_Suc)
  with True assms show ?thesis by (simp add: bzero_def fill_up_spec words_of)
next
  case False
  have "concat (replicate n [0]) = replicate n (0 :: byte)" for n by (induction n) simp_all
  with False assms show ?thesis by (auto simp: bzero_def fill_up_spec)
qed

section \<open>Strings in memory\<close>

text \<open>A string is a list of characters other than the null character, followed by one.\<close>

definition cstr :: "byte list \<Rightarrow> byte list" where
  "cstr s = s @ [0]"

lemma strlen_cstr: "0 \<notin> set s \<Longrightarrow> strlen (s @ 0 # r) = Ret (length s)"
  by (induction s) auto

lemma strlen_Ret: "strlen m = Ret n \<Longrightarrow> n < length m \<and> m ! n = 0 \<and> 0 \<notin> set (take n m)"
  by (induction m arbitrary: n) (auto simp: andthen_Ret_iff split: if_splits)

lemma strcmp_cstr:
  assumes "0 \<notin> set a" "0 \<notin> set b"
  shows "\<exists>r. strcmp (a @ 0 # x) (b @ 0 # y) = Ret r \<and> (r = 0 \<longleftrightarrow> a = b)"
  using assms
proof (induction a arbitrary: b)
  case Nil
  then show ?case by (cases b) auto
next
  case (Cons c a)
  then show ?case by (cases b) auto
qed

lemma strcpy_cstr:
  assumes "0 \<notin> set s" "length s < length dest"
  shows "strcpy dest (s @ 0 # r) = Ret (s @ 0 # drop (length s + 1) dest)"
  using assms
proof (induction s arbitrary: dest)
  case Nil
  then show ?case by (cases dest) auto
next
  case (Cons c s)
  then show ?case by (cases dest) auto
qed

lemma strcat_cstr:
  assumes "0 \<notin> set s" "0 \<notin> set t" "length t \<le> length d"
  shows "strcat (s @ 0 # d) (t @ 0 # r) = Ret (s @ t @ 0 # drop (length t) d)"
  using assms by (simp add: strcat_def strlen_cstr strcpy_cstr)

lemma strchr_cstr:
  assumes "0 \<notin> set s" "c \<noteq> 0"
  shows "strchr (s @ 0 # r) (sint c) = Ret (if c \<in> set s then Some (length (takeWhile (\<lambda>x. x \<noteq> c) s)) else None)"
proof -
  have z: "sint c \<noteq> 0" using assms(2) signed_word_eqI [of c 0] by auto
  show ?thesis using assms(1) z by (induction s) (auto dest: signed_word_eqI)
qed

end
