(* ===== verification/SfsDisk.thy ===== *)
theory SfsDisk
  imports Uio KArray KBitmap CString
begin

text \<open>
  The disk of an SFS file system: the on-disk structures of \<^verbatim>\<open>src/kern/include/kern/sfs.h\<close> with
  their layout in bytes, the state of a mounted file system (\<^verbatim>\<open>src/kern/include/sfs.h\<close>), the disk
  driver \<^verbatim>\<open>src/kern/dev/lamebus/lhd.c\<close> and the block routines of
  \<^verbatim>\<open>src/kern/fs/sfs/sfs_io.c\<close>.

  The machine is big-endian; unsigned numbers are \<^typ>\<open>nat\<close>, below \<open>2\<^sup>3\<^sup>2\<close> or \<open>2\<^sup>1\<^sup>6\<close>, with
  wrap-around written out.  The disk is a list of sectors.  What the drive reports for the operations it is
  asked to do is the list \<open>s_lhd\<close>, together with what a failed write leaves in the sector; past its end
  all operations succeed.  The driver waits for the completion interrupt of each operation; waiting, and
  the exclusion of other threads, are not part of the model.
\<close>

section \<open>Constants\<close>

definition SFS_MAGIC :: nat where "SFS_MAGIC = 0xabadf001"
definition SFS_BLOCKSIZE :: nat where "SFS_BLOCKSIZE = 512"
definition SFS_VOLNAME_SIZE :: nat where "SFS_VOLNAME_SIZE = 32"
definition SFS_NDIRECT :: nat where "SFS_NDIRECT = 15"
definition SFS_DBPERIDB :: nat where "SFS_DBPERIDB = 128"
definition SFS_NAMELEN :: nat where "SFS_NAMELEN = 60"
definition SFS_SB_LOCATION :: nat where "SFS_SB_LOCATION = 0"
definition SFS_ROOT_LOCATION :: nat where "SFS_ROOT_LOCATION = 1"
definition SFS_MAP_LOCATION :: nat where "SFS_MAP_LOCATION = 2"
definition SFS_NOINO :: nat where "SFS_NOINO = 0"
definition SFS_TYPE_INVAL :: nat where "SFS_TYPE_INVAL = 0"
definition SFS_TYPE_FILE :: nat where "SFS_TYPE_FILE = 1"
definition SFS_TYPE_DIR :: nat where "SFS_TYPE_DIR = 2"
definition LHD_SECTSIZE :: nat where "LHD_SECTSIZE = 512"

lemmas sfs_consts = SFS_BLOCKSIZE_def SFS_VOLNAME_SIZE_def SFS_NDIRECT_def SFS_DBPERIDB_def SFS_NAMELEN_def
  SFS_SB_LOCATION_def SFS_ROOT_LOCATION_def SFS_MAP_LOCATION_def SFS_NOINO_def SFS_TYPE_INVAL_def SFS_TYPE_FILE_def
  SFS_TYPE_DIR_def LHD_SECTSIZE_def

text \<open>\<^verbatim>\<open>SFS_BITMAPSIZE\<close> and \<^verbatim>\<open>SFS_BITBLOCKS\<close> on 32-bit unsigned numbers.\<close>

definition SFS_BLOCKBITS :: nat where
  "SFS_BLOCKBITS = SFS_BLOCKSIZE * 8"

definition SFS_BITMAPSIZE :: "nat \<Rightarrow> nat" where
  "SFS_BITMAPSIZE nblocks = (((nblocks + SFS_BLOCKBITS - 1) mod 2 ^ 32) div SFS_BLOCKBITS) * SFS_BLOCKBITS mod 2 ^ 32"

definition SFS_BITBLOCKS :: "nat \<Rightarrow> nat" where
  "SFS_BITBLOCKS nblocks = SFS_BITMAPSIZE nblocks div SFS_BLOCKBITS"

section \<open>Bytes\<close>

definition be16 :: "nat \<Rightarrow> byte list" where
  "be16 n = [of_nat (n div 2 ^ 8), of_nat n]"

definition be32 :: "nat \<Rightarrow> byte list" where
  "be32 n = [of_nat (n div 2 ^ 24), of_nat (n div 2 ^ 16), of_nat (n div 2 ^ 8), of_nat n]"

fun de :: "nat \<Rightarrow> byte list \<Rightarrow> nat" where
  "de acc [] = acc"
| "de acc (b # bs) = de (acc * 256 + unat b) bs"

text \<open>The \<open>n\<close> 32-bit numbers at the start of a list of bytes.\<close>

fun de32s :: "nat \<Rightarrow> byte list \<Rightarrow> nat list" where
  "de32s 0 bs = []"
| "de32s (Suc n) bs = de 0 (take 4 bs) # de32s n (drop 4 bs)"

definition be32s :: "nat list \<Rightarrow> byte list" where
  "be32s ns = concat (map be32 ns)"

section \<open>On-disk structures\<close>

record sfs_super =
  sp_magic :: nat
  sp_nblocks :: nat
  sp_volname :: "byte list"
  sp_reserved :: "byte list"

record sfs_inode =
  sfi_size :: nat
  sfi_type :: nat
  sfi_linkcount :: nat
  sfi_direct :: "nat list"
  sfi_indirect :: nat
  sfi_waste :: "byte list"

record sfs_dir =
  sfd_ino :: nat
  sfd_name :: "byte list"

definition super_bytes :: "sfs_super \<Rightarrow> byte list" where
  "super_bytes sp = be32 (sp_magic sp) @ be32 (sp_nblocks sp) @ sp_volname sp @ sp_reserved sp"

definition bytes_super :: "byte list \<Rightarrow> sfs_super" where
  "bytes_super bs = \<lparr>sp_magic = de 0 (take 4 bs), sp_nblocks = de 0 (take 4 (drop 4 bs)),
     sp_volname = take SFS_VOLNAME_SIZE (drop 8 bs), sp_reserved = drop (8 + SFS_VOLNAME_SIZE) bs\<rparr>"

definition inode_bytes :: "sfs_inode \<Rightarrow> byte list" where
  "inode_bytes i = be32 (sfi_size i) @ be16 (sfi_type i) @ be16 (sfi_linkcount i) @ be32s (sfi_direct i) @
     be32 (sfi_indirect i) @ sfi_waste i"

definition bytes_inode :: "byte list \<Rightarrow> sfs_inode" where
  "bytes_inode bs = \<lparr>sfi_size = de 0 (take 4 bs), sfi_type = de 0 (take 2 (drop 4 bs)),
     sfi_linkcount = de 0 (take 2 (drop 6 bs)), sfi_direct = de32s SFS_NDIRECT (drop 8 bs),
     sfi_indirect = de 0 (take 4 (drop 68 bs)), sfi_waste = drop 72 bs\<rparr>"

definition dir_bytes :: "sfs_dir \<Rightarrow> byte list" where
  "dir_bytes d = be32 (sfd_ino d) @ sfd_name d"

definition bytes_dir :: "byte list \<Rightarrow> sfs_dir" where
  "bytes_dir bs = \<lparr>sfd_ino = de 0 (take 4 bs), sfd_name = drop 4 bs\<rparr>"

section \<open>The mounted file system\<close>

text \<open>The two function tables, \<^verbatim>\<open>sfs_fileops\<close> and \<^verbatim>\<open>sfs_dirops\<close>.\<close>

datatype sfs_ops = Sfs_fileops | Sfs_dirops

record sfs_vnode =
  sv_ops :: sfs_ops
  sv_refcount :: int
  sv_opencount :: int
  sv_i :: sfs_inode
  sv_ino :: nat
  sv_dirty :: bool

datatype lhd_code = LHD_OK | LHD_INVSECT | LHD_MEDIA

text \<open>
  \<^verbatim>\<open>struct sfs_fs\<close>, the vnodes in memory (pointers are natural numbers), the outcomes of
  \<^verbatim>\<open>kmalloc\<close>, the address space of the current thread, and the disk.
\<close>

record sfs_fs = vmstate +
  s_space :: "addrspace option"
  s_oom :: "bool list"
  s_disk :: "byte list list"
  s_lhd :: "(lhd_code \<times> byte list) list"
  sfs_super :: sfs_super
  sfs_superdirty :: bool
  sfs_freemap :: kbitmap
  sfs_freemapdirty :: bool
  sfs_vnodes :: "nat karray"
  s_vn :: "nat \<Rightarrow> sfs_vnode option"
  s_next :: nat

definition s_kmalloc :: "sfs_fs \<Rightarrow> bool \<times> sfs_fs" where
  "s_kmalloc s = (case s_oom s of [] \<Rightarrow> (True, s) | ok # rest \<Rightarrow> (ok, s\<lparr>s_oom := rest\<rparr>))"

section \<open>The disk driver\<close>

definition lhd_code_to_errno :: "lhd_code \<Rightarrow> status" where
  "lhd_code_to_errno code = (case code of LHD_OK \<Rightarrow> None | LHD_INVSECT \<Rightarrow> Some EINVAL | LHD_MEDIA \<Rightarrow> Some EIO)"

text \<open>
  What the drive does when the status register is written: the result it reports, and the contents of the
  on-card buffer.  A sector past the end of the disk is refused.
\<close>

definition lhd_start :: "uio_rw \<Rightarrow> nat \<Rightarrow> byte list \<Rightarrow> sfs_fs \<Rightarrow> (status \<times> byte list) \<times> sfs_fs" where
  "lhd_start rw sector buf s =
     (let (code, junk) = (case s_lhd s of [] \<Rightarrow> (LHD_OK, []) | x # _ \<Rightarrow> x); s = s\<lparr>s_lhd := tl (s_lhd s)\<rparr> in
      if sector \<ge> length (s_disk s) then ((Some EINVAL, buf), s)
      else case rw of
        UIO_READ \<Rightarrow> ((lhd_code_to_errno code, if code = LHD_OK then s_disk s ! sector else buf), s)
      | UIO_WRITE \<Rightarrow> ((lhd_code_to_errno code, buf),
          s\<lparr>s_disk := (s_disk s)[sector := if code = LHD_OK then buf else junk]\<rparr>))"

text \<open>The loop of \<^verbatim>\<open>lhd_io\<close> over the sectors; the first argument counts them.\<close>

fun lhd_loop :: "nat \<Rightarrow> nat \<Rightarrow> byte list \<Rightarrow> uio \<Rightarrow> sfs_fs \<Rightarrow> ((status \<times> uio) \<times> sfs_fs) run" where
  "lhd_loop 0 sector buf u s = Ret ((None, u), s)"
| "lhd_loop (Suc len) sector buf u s =
     andthen (if uio_rw u = UIO_WRITE then uiomove (s_space s) buf LHD_SECTSIZE u s else Ret ((None, buf, u), s))
     (\<lambda>((result, buf, u), s).
      if result \<noteq> None then Ret ((result, u), s)
      else case lhd_start (uio_rw u) sector buf s of ((result, buf), s) \<Rightarrow>
      andthen (if result = None \<and> uio_rw u = UIO_READ then uiomove (s_space s) buf LHD_SECTSIZE u s
               else Ret ((result, buf, u), s))
      (\<lambda>((result, buf, u), s).
       if result \<noteq> None then Ret ((result, u), s)
       else lhd_loop len ((sector + 1) mod 2 ^ 32) buf u s))"

definition lhd_io :: "uio \<Rightarrow> sfs_fs \<Rightarrow> ((status \<times> uio) \<times> sfs_fs) run" where
  "lhd_io u s =
     (let sector = nat ((uio_offset u sdiv int LHD_SECTSIZE) mod 2 ^ 32);
          sectoff = nat ((uio_offset u smod int LHD_SECTSIZE) mod 2 ^ 32);
          len = uio_resid u div LHD_SECTSIZE; lenoff = uio_resid u mod LHD_SECTSIZE in
      if sectoff \<noteq> 0 \<or> lenoff \<noteq> 0 then Ret ((Some EINVAL, u), s)
      else if (sector + len) mod 2 ^ 32 > length (s_disk s) then Ret ((Some EINVAL, u), s)
      else lhd_loop len sector (replicate LHD_SECTSIZE 0) u s)"

section \<open>Block I/O\<close>

text \<open>\<^verbatim>\<open>sfs_rwblock\<close>: the first argument is the number of times it will still retry.\<close>

fun sfs_retry :: "nat \<Rightarrow> uio \<Rightarrow> sfs_fs \<Rightarrow> ((status \<times> uio) \<times> sfs_fs) run" where
  "sfs_retry n u s =
     andthen (lhd_io u s) (\<lambda>((result, u), s).
     if result = Some EINVAL then Panic
     else if result = Some EIO then (case n of 0 \<Rightarrow> Ret ((result, u), s) | Suc m \<Rightarrow> sfs_retry m u s)
     else Ret ((result, u), s))"

declare sfs_retry.simps [simp del]

definition sfs_rwblock :: "uio \<Rightarrow> sfs_fs \<Rightarrow> ((status \<times> uio) \<times> sfs_fs) run" where
  "sfs_rwblock u s = sfs_retry 10 u s"

definition SFSUIO :: "byte list \<Rightarrow> nat \<Rightarrow> uio_rw \<Rightarrow> uio" where
  "SFSUIO data blk rw = mk_kuio data SFS_BLOCKSIZE (to_off (to_off (int blk) * int SFS_BLOCKSIZE)) rw"

definition sfs_rblock :: "nat \<Rightarrow> sfs_fs \<Rightarrow> ((errno + byte list) \<times> sfs_fs) run" where
  "sfs_rblock blk s =
     andthen (sfs_rwblock (SFSUIO (replicate SFS_BLOCKSIZE 0) blk UIO_READ) s) (\<lambda>((result, u), s).
     Ret (case result of Some e \<Rightarrow> Inl e | None \<Rightarrow> Inr (iov_kbuf u), s))"

definition sfs_wblock :: "byte list \<Rightarrow> nat \<Rightarrow> sfs_fs \<Rightarrow> ((errno + unit) \<times> sfs_fs) run" where
  "sfs_wblock data blk s =
     andthen (sfs_rwblock (SFSUIO data blk UIO_WRITE) s) (\<lambda>((result, u), s).
     Ret (case result of Some e \<Rightarrow> Inl e | None \<Rightarrow> Inr (), s))"

section \<open>Encodings\<close>

lemma be_length [simp]: "length (be16 n) = 2" "length (be32 n) = 4"
  by (simp_all add: be16_def be32_def)

lemma be32s_length [simp]: "length (be32s ns) = 4 * length ns"
  by (induction ns) (simp_all add: be32s_def)

lemma de_be16 [simp]: "n < 2 ^ 16 \<Longrightarrow> de 0 (be16 n) = n"
  by (simp add: be16_def unat_of_nat)

lemma de_be32 [simp]: "n < 2 ^ 32 \<Longrightarrow> de 0 (be32 n) = n"
proof -
  assume n: "n < 2 ^ 32"
  have "n div 2 ^ 24 < 256" using n by (simp add: div_less_iff_less_mult)
  then have "de 0 (be32 n) = ((n div 2 ^ 24 * 256 + n div 2 ^ 16 mod 256) * 256 + n div 2 ^ 8 mod 256) * 256 + n mod 256"
    by (simp add: be32_def unat_of_nat)
  also have "n div 2 ^ 24 = n div 2 ^ 16 div 256" by (simp add: div_mult2_eq [symmetric])
  also have "n div 2 ^ 16 div 256 * 256 + n div 2 ^ 16 mod 256 = n div 2 ^ 16" by simp
  also have "n div 2 ^ 16 = n div 2 ^ 8 div 256" by (simp add: div_mult2_eq [symmetric])
  also have "n div 2 ^ 8 div 256 * 256 + n div 2 ^ 8 mod 256 = n div 2 ^ 8" by simp
  also have "n div 2 ^ 8 * 256 + n mod 256 = n" by simp
  finally show ?thesis .
qed

lemma de32s_be32s [simp]: "\<forall>n \<in> set ns. n < 2 ^ 32 \<Longrightarrow> de32s (length ns) (be32s ns @ bs) = ns"
  by (induction ns) (simp_all add: be32s_def)

lemma de32s_length [simp]: "length (de32s n bs) = n"
  by (induction n arbitrary: bs) simp_all

text \<open>Numbers that fit their fields.\<close>

definition inode_ok :: "sfs_inode \<Rightarrow> bool" where
  "inode_ok i \<longleftrightarrow> sfi_size i < 2 ^ 32 \<and> sfi_type i < 2 ^ 16 \<and> sfi_linkcount i < 2 ^ 16 \<and> length (sfi_direct i) = SFS_NDIRECT \<and>
     (\<forall>n \<in> set (sfi_direct i). n < 2 ^ 32) \<and> sfi_indirect i < 2 ^ 32 \<and> length (sfi_waste i) = 440"

lemma inode_bytes_length: "inode_ok i \<Longrightarrow> length (inode_bytes i) = SFS_BLOCKSIZE"
  by (simp add: inode_bytes_def inode_ok_def sfs_consts)

lemma bytes_inode_bytes [simp]: "inode_ok i \<Longrightarrow> bytes_inode (inode_bytes i) = i"
  using de32s_be32s [of "sfi_direct i" "be32 (sfi_indirect i) @ sfi_waste i"]
  by (simp add: bytes_inode_def inode_bytes_def inode_ok_def sfs_consts del: de32s_be32s)

section \<open>I/O without errors\<close>

text \<open>A disk with sectors of the right size, whose addresses fit in 32 bits, and no error to come.\<close>

definition disk_ok :: "sfs_fs \<Rightarrow> bool" where
  "disk_ok s \<longleftrightarrow> s_lhd s = [] \<and> length (s_disk s) < 2 ^ 22 \<and> (\<forall>b \<in> set (s_disk s). length b = SFS_BLOCKSIZE)"

lemma disk_okD: "disk_ok s \<Longrightarrow> b < length (s_disk s) \<Longrightarrow> length (s_disk s ! b) = SFS_BLOCKSIZE"
  by (auto simp: disk_ok_def)

lemma no_lhd [simp]: "s_lhd s = [] \<Longrightarrow> s\<lparr>s_lhd := []\<rparr> = s" for s :: sfs_fs
  by (cases s) simp

lemma sector_of:
  assumes "b < 2 ^ 22"
  shows "nat ((int (SFS_BLOCKSIZE * b) sdiv int LHD_SECTSIZE) mod 2 ^ 32) = b"
    "nat ((int (SFS_BLOCKSIZE * b) smod int LHD_SECTSIZE) mod 2 ^ 32) = 0"
  using assms by (simp_all add: signed_divide_int_def signed_modulo_int_def sfs_consts sgn_if)

lemma lhd_io_read:
  assumes "disk_ok s" "b < length (s_disk s)" "kuio_ok u" "uio_rw u = UIO_READ" "uio_resid u = SFS_BLOCKSIZE"
    "uio_offset u = int (SFS_BLOCKSIZE * b)"
  shows "lhd_io u s = Ret ((None, uio_fill (s_disk s ! b) u), s)"
proof -
  have b: "b < 2 ^ 22" using assms(1,2) by (simp add: disk_ok_def)
  have l: "length (s_disk s ! b) = SFS_BLOCKSIZE" by (rule disk_okD [OF assms(1,2)])
  have st: "lhd_start UIO_READ b buf s = ((None, s_disk s ! b), s)" for buf
    using assms(1,2) by (simp add: lhd_start_def disk_ok_def lhd_code_to_errno_def)
  have mv: "uiomove (s_space s) (s_disk s ! b) LHD_SECTSIZE u s = Ret ((None, s_disk s ! b, uio_fill (s_disk s ! b) u), s)"
    using uiomove_read [OF assms(3,4), of "s_disk s ! b" "s_space s" "[]" s] l assms(5) by (simp add: sfs_consts)
  have "lhd_io u s = lhd_loop 1 b (replicate LHD_SECTSIZE 0) u s"
    using assms(2,5,6) b sector_of [OF b] by (simp add: lhd_io_def Let_def) (simp add: sfs_consts)
  then show ?thesis using assms(4) st mv by simp
qed

lemma lhd_io_write:
  assumes "disk_ok s" "b < length (s_disk s)" "kuio_ok u" "uio_rw u = UIO_WRITE" "uio_resid u = SFS_BLOCKSIZE"
    "uio_offset u = int (SFS_BLOCKSIZE * b)"
  shows "lhd_io u s = Ret ((None, uio_adv SFS_BLOCKSIZE u), s\<lparr>s_disk := (s_disk s)[b := uio_bytes SFS_BLOCKSIZE u]\<rparr>)"
proof -
  have b: "b < 2 ^ 22" using assms(1,2) by (simp add: disk_ok_def)
  have st: "lhd_start UIO_WRITE b buf s = ((None, buf), s\<lparr>s_disk := (s_disk s)[b := buf]\<rparr>)" for buf
    using assms(1,2) by (simp add: lhd_start_def disk_ok_def lhd_code_to_errno_def)
  have mv: "uiomove (s_space s) (replicate LHD_SECTSIZE 0) LHD_SECTSIZE u s = Ret ((None, uio_bytes SFS_BLOCKSIZE u, uio_adv SFS_BLOCKSIZE u), s)"
    using uiomove_write [OF assms(3,4), of LHD_SECTSIZE "replicate LHD_SECTSIZE 0" "s_space s" s] assms(5) by (simp add: sfs_consts)
  have "lhd_io u s = lhd_loop 1 b (replicate LHD_SECTSIZE 0) u s"
    using assms(2,5,6) b sector_of [OF b] by (simp add: lhd_io_def Let_def) (simp add: sfs_consts)
  then show ?thesis using assms(4) st mv by simp
qed

lemma sfs_rwblock_ok: "lhd_io u s = Ret ((None, u'), s') \<Longrightarrow> sfs_rwblock u s = Ret ((None, u'), s')"
  by (simp add: sfs_rwblock_def sfs_retry.simps)

lemma SFSUIO_ok:
  assumes "length data = SFS_BLOCKSIZE" "b < 2 ^ 22 - 1"
  shows "kuio_ok (SFSUIO data b rw)" "uio_offset (SFSUIO data b rw) = int (SFS_BLOCKSIZE * b)"
  using assms by (simp_all add: SFSUIO_def mk_kuio_def kuio_ok_def sfs_consts)

lemma SFSUIO_sels: "uio_rw (SFSUIO data b rw) = rw" "uio_resid (SFSUIO data b rw) = SFS_BLOCKSIZE"
  by (simp_all add: SFSUIO_def mk_kuio_def)

lemma sfs_rblock_ok:
  assumes "disk_ok s" "b < length (s_disk s)"
  shows "sfs_rblock b s = Ret (Inr (s_disk s ! b), s)"
proof -
  let ?u = "SFSUIO (replicate SFS_BLOCKSIZE 0) b UIO_READ"
  have b: "b < 2 ^ 22 - 1" using assms by (simp add: disk_ok_def)
  have "lhd_io ?u s = Ret ((None, uio_fill (s_disk s ! b) ?u), s)"
    using SFSUIO_ok [OF length_replicate b] by (intro lhd_io_read [OF assms]) (simp_all add: SFSUIO_sels)
  moreover have "iov_kbuf (uio_fill (s_disk s ! b) ?u) = s_disk s ! b"
    using disk_okD [OF assms] by (simp add: uio_fill_def SFSUIO_def mk_kuio_def)
  ultimately show ?thesis by (simp add: sfs_rblock_def sfs_rwblock_ok)
qed

lemma sfs_wblock_ok:
  assumes "disk_ok s" "b < length (s_disk s)" "length data = SFS_BLOCKSIZE"
  shows "sfs_wblock data b s = Ret (Inr (), s\<lparr>s_disk := (s_disk s)[b := data]\<rparr>)"
proof -
  let ?u = "SFSUIO data b UIO_WRITE"
  have b: "b < 2 ^ 22 - 1" using assms by (simp add: disk_ok_def)
  have "lhd_io ?u s = Ret ((None, uio_adv SFS_BLOCKSIZE ?u), s\<lparr>s_disk := (s_disk s)[b := uio_bytes SFS_BLOCKSIZE ?u]\<rparr>)"
    using SFSUIO_ok [OF assms(3) b] by (intro lhd_io_write [OF assms(1,2)]) (simp_all add: SFSUIO_sels)
  moreover have "uio_bytes SFS_BLOCKSIZE ?u = data" using assms(3) by (simp add: uio_bytes_def SFSUIO_def mk_kuio_def)
  ultimately show ?thesis by (simp add: sfs_wblock_def sfs_rwblock_ok)
qed

lemma disk_ok_write: "disk_ok s \<Longrightarrow> length data = SFS_BLOCKSIZE \<Longrightarrow> disk_ok (s\<lparr>s_disk := (s_disk s)[b := data]\<rparr>)"
  by (auto simp: disk_ok_def dest!: set_update_subset_insert [THEN subsetD])

end
