(* ===== verification/Sfs.thy ===== *)
theory Sfs
  imports SfsDisk
begin

text \<open>
  Files of the SFS file system, \<^verbatim>\<open>src/kern/fs/sfs/sfs_vnode.c\<close>: space allocation, the map from
  file blocks to disk blocks, and I/O.

  A vnode is a position in the store \<open>s_vn\<close>.  A routine that returns 0 or an error number, and hands
  back a value, returns a sum; \<open>bindE\<close> is the idiom \<^verbatim>\<open>if (result) return result;\<close>.  The routines
  that move data return the status and the changed \<^verbatim>\<open>uio\<close>.  The static buffers of the source are
  local to each call, since calls do not overlap.
\<close>

section \<open>Errors\<close>

definition bindE :: "((errno + 'a) \<times> 's) run \<Rightarrow> ('a \<Rightarrow> 's \<Rightarrow> ((errno + 'b) \<times> 's) run) \<Rightarrow> ((errno + 'b) \<times> 's) run" where
  "bindE r f = andthen r (\<lambda>(x, s). case x of Inl e \<Rightarrow> Ret (Inl e, s) | Inr v \<Rightarrow> f v s)"

lemma bindE_simps [simp]:
  "bindE (Ret (Inr v, s)) f = f v s" "bindE (Ret (Inl e, s)) f = Ret (Inl e, s)"
  "bindE Panic f = Panic" "bindE Fault f = Fault"
  by (simp_all add: bindE_def)

lemma bindE_Ret_Inr_iff:
  "bindE r f = Ret (Inr v, s') \<longleftrightarrow> (\<exists>u s. r = Ret (Inr u, s) \<and> f u s = Ret (Inr v, s'))"
  by (cases r) (auto simp: bindE_def split: sum.splits)

definition upd_vn :: "nat \<Rightarrow> (sfs_vnode \<Rightarrow> sfs_vnode) \<Rightarrow> sfs_fs \<Rightarrow> sfs_fs" where
  "upd_vn p f s = s\<lparr>s_vn := (s_vn s)(p := map_option f (s_vn s p))\<rparr>"

definition upd_inode :: "nat \<Rightarrow> (sfs_inode \<Rightarrow> sfs_inode) \<Rightarrow> sfs_fs \<Rightarrow> sfs_fs" where
  "upd_inode p f = upd_vn p (\<lambda>sv. sv\<lparr>sv_i := f (sv_i sv), sv_dirty := True\<rparr>)"

section \<open>Simple stuff\<close>

definition sfs_clearblock :: "nat \<Rightarrow> sfs_fs \<Rightarrow> ((errno + unit) \<times> sfs_fs) run" where
  "sfs_clearblock blk s = sfs_wblock (replicate SFS_BLOCKSIZE 0) blk s"

definition sfs_sync_inode :: "nat \<Rightarrow> sfs_fs \<Rightarrow> ((errno + unit) \<times> sfs_fs) run" where
  "sfs_sync_inode p s =
     deref (s_vn s p) (\<lambda>sv.
     if sv_dirty sv then
       bindE (sfs_wblock (inode_bytes (sv_i sv)) (sv_ino sv) s) (\<lambda>_ s.
       Ret (Inr (), upd_vn p (\<lambda>sv. sv\<lparr>sv_dirty := False\<rparr>) s))
     else Ret (Inr (), s))"

section \<open>Space allocation\<close>

definition sfs_balloc :: "sfs_fs \<Rightarrow> ((errno + nat) \<times> sfs_fs) run" where
  "sfs_balloc s =
     andthen (bitmap_alloc (sfs_freemap s)) (\<lambda>(r, b).
     case r of Inl e \<Rightarrow> Ret (Inl e, s\<lparr>sfs_freemap := b\<rparr>)
     | Inr diskblock \<Rightarrow>
         let s = s\<lparr>sfs_freemap := b, sfs_freemapdirty := True\<rparr> in
         if diskblock \<ge> sp_nblocks (sfs_super s) then Panic
         else bindE (sfs_clearblock diskblock s) (\<lambda>_ s. Ret (Inr diskblock, s)))"

definition sfs_bfree :: "nat \<Rightarrow> sfs_fs \<Rightarrow> sfs_fs run" where
  "sfs_bfree diskblock s =
     andthen (bitmap_unmark (sfs_freemap s) diskblock) (\<lambda>b.
     Ret (s\<lparr>sfs_freemap := b, sfs_freemapdirty := True\<rparr>))"

definition sfs_bused :: "nat \<Rightarrow> sfs_fs \<Rightarrow> bool run" where
  "sfs_bused diskblock s =
     (if diskblock \<ge> sp_nblocks (sfs_super s) then Panic
      else andthen (bitmap_isset (sfs_freemap s) diskblock) (\<lambda>w. Ret (w \<noteq> 0)))"

section \<open>Block mapping\<close>

text \<open>Handing back a block: it must be marked as in use.\<close>

definition sfs_handback :: "nat \<Rightarrow> sfs_fs \<Rightarrow> ((errno + nat) \<times> sfs_fs) run" where
  "sfs_handback blk s =
     (if blk \<noteq> 0 then andthen (sfs_bused blk s) (\<lambda>used. if used then Ret (Inr blk, s) else Panic)
      else Ret (Inr blk, s))"

definition sfs_bmap :: "nat \<Rightarrow> nat \<Rightarrow> bool \<Rightarrow> sfs_fs \<Rightarrow> ((errno + nat) \<times> sfs_fs) run" where
  "sfs_bmap p fileblock doalloc s =
     deref (s_vn s p) (\<lambda>sv.
     if fileblock < SFS_NDIRECT then
       let blk = sfi_direct (sv_i sv) ! fileblock in
       if blk = 0 \<and> doalloc then
         bindE (sfs_balloc s) (\<lambda>blk s.
         sfs_handback blk (upd_inode p (\<lambda>i. i\<lparr>sfi_direct := (sfi_direct i)[fileblock := blk]\<rparr>) s))
       else sfs_handback blk s
     else
       let fileblock = fileblock - SFS_NDIRECT; idnum = fileblock div SFS_DBPERIDB; idoff = fileblock mod SFS_DBPERIDB in
       if idnum > 0 then Ret (Inl EINVAL, s)
       else let idblock = sfi_indirect (sv_i sv) in
         if idblock = 0 \<and> \<not> doalloc then Ret (Inr 0, s)
         else
           bindE (if idblock = 0
                  then bindE (sfs_balloc s) (\<lambda>idblock s.
                       Ret (Inr (idblock, replicate SFS_DBPERIDB 0), upd_inode p (\<lambda>i. i\<lparr>sfi_indirect := idblock\<rparr>) s))
                  else bindE (sfs_rblock idblock s) (\<lambda>bs s. Ret (Inr (idblock, de32s SFS_DBPERIDB bs), s)))
           (\<lambda>(idblock, idbuf) s.
            let blk = idbuf ! idoff in
            if blk = 0 \<and> doalloc then
              bindE (sfs_balloc s) (\<lambda>blk s.
              bindE (sfs_wblock (be32s (idbuf[idoff := blk])) idblock s) (\<lambda>_ s.
              sfs_handback blk s))
            else sfs_handback blk s))"

section \<open>File-level I/O\<close>

text \<open>The conversion of a position divided by the block size to \<^verbatim>\<open>u_int32_t\<close>.\<close>

definition off_block :: "int \<Rightarrow> nat" where
  "off_block off = nat ((off sdiv int SFS_BLOCKSIZE) mod 2 ^ 32)"

definition off_rest :: "int \<Rightarrow> nat" where
  "off_rest off = nat ((off smod int SFS_BLOCKSIZE) mod 2 ^ 32)"

definition sfs_partialio :: "nat \<Rightarrow> nat \<Rightarrow> nat \<Rightarrow> uio \<Rightarrow> sfs_fs \<Rightarrow> ((status \<times> uio) \<times> sfs_fs) run" where
  "sfs_partialio p skipstart len u s =
     assertk ((skipstart + len) mod 2 ^ 32 \<le> SFS_BLOCKSIZE)
     (andthen (sfs_bmap p (off_block (uio_offset u)) (uio_rw u = UIO_WRITE) s) (\<lambda>(r, s).
      case r of Inl e \<Rightarrow> Ret ((Some e, u), s)
      | Inr diskblock \<Rightarrow>
          andthen (if diskblock = 0 then assertk (uio_rw u = UIO_READ) (Ret (Inr (replicate SFS_BLOCKSIZE 0), s))
                   else sfs_rblock diskblock s) (\<lambda>(r, s).
          case r of Inl e \<Rightarrow> Ret ((Some e, u), s)
          | Inr iobuf \<Rightarrow>
              andthen (uiomove (s_space s) (drop skipstart iobuf) len u s) (\<lambda>((result, part, u), s).
              if result \<noteq> None then Ret ((result, u), s)
              else if uio_rw u = UIO_WRITE then
                andthen (sfs_wblock (take skipstart iobuf @ part) diskblock s) (\<lambda>(r, s).
                Ret ((case r of Inl e \<Rightarrow> Some e | Inr _ \<Rightarrow> None, u), s))
              else Ret ((None, u), s)))))"

definition sfs_blockio :: "nat \<Rightarrow> uio \<Rightarrow> sfs_fs \<Rightarrow> ((status \<times> uio) \<times> sfs_fs) run" where
  "sfs_blockio p u s =
     andthen (sfs_bmap p (off_block (uio_offset u)) (uio_rw u = UIO_WRITE) s) (\<lambda>(r, s).
     case r of Inl e \<Rightarrow> Ret ((Some e, u), s)
     | Inr diskblock \<Rightarrow>
         if diskblock = 0 then assertk (uio_rw u = UIO_READ) (uiomovezeros (s_space s) SFS_BLOCKSIZE u s)
         else
           let saveoff = uio_offset u; diskoff = to_off (int (diskblock * SFS_BLOCKSIZE));
               saveres = to_off (int (uio_resid u)) in
           assertk (uio_resid u \<ge> SFS_BLOCKSIZE)
           (andthen (sfs_rwblock (u\<lparr>uio_offset := diskoff, uio_resid := SFS_BLOCKSIZE\<rparr>) s) (\<lambda>((result, u), s).
            Ret ((result, u\<lparr>uio_offset := to_off (uio_offset u - diskoff + saveoff),
                             uio_resid := nat ((int (uio_resid u) - int SFS_BLOCKSIZE + saveres) mod 2 ^ 32)\<rparr>), s))))"

fun sfs_blocks :: "nat \<Rightarrow> nat \<Rightarrow> uio \<Rightarrow> sfs_fs \<Rightarrow> ((status \<times> uio) \<times> sfs_fs) run" where
  "sfs_blocks 0 p u s = Ret ((None, u), s)"
| "sfs_blocks (Suc n) p u s =
     andthen (sfs_blockio p u s) (\<lambda>((result, u), s).
     if result \<noteq> None then Ret ((result, u), s) else sfs_blocks n p u s)"

text \<open>The transfer of \<^verbatim>\<open>sfs_io\<close>, up to the label \<^verbatim>\<open>out\<close>.\<close>

definition sfs_transfer :: "nat \<Rightarrow> uio \<Rightarrow> sfs_fs \<Rightarrow> ((status \<times> uio) \<times> sfs_fs) run" where
  "sfs_transfer p u s =
     (let blkoff = off_rest (uio_offset u) in
      andthen (if blkoff \<noteq> 0
               then let len = (SFS_BLOCKSIZE + 2 ^ 32 - blkoff) mod 2 ^ 32;
                        len = (if len > uio_resid u then uio_resid u else len) in
                    sfs_partialio p blkoff len u s
               else Ret ((None, u), s)) (\<lambda>((result, u), s).
      if result \<noteq> None then Ret ((result, u), s)
      else if uio_resid u = 0 then Ret ((None, u), s)
      else assertk (off_rest (uio_offset u) = 0)
        (andthen (sfs_blocks (uio_resid u div SFS_BLOCKSIZE) p u s) (\<lambda>((result, u), s).
         if result \<noteq> None then Ret ((result, u), s)
         else assertk (uio_resid u < SFS_BLOCKSIZE)
           (if uio_resid u > 0 then sfs_partialio p 0 (uio_resid u) u s else Ret ((None, u), s))))))"

text \<open>
  How much of a read lies past the end of the file (\<^verbatim>\<open>extraresid\<close>), and the code after the label
  \<^verbatim>\<open>out\<close>.
\<close>

definition sfs_extraresid :: "int \<Rightarrow> uio \<Rightarrow> nat" where
  "sfs_extraresid sz u =
     (let endpos = to_off (uio_offset u + int (uio_resid u)) in
      if uio_rw u = UIO_READ \<and> endpos > sz then nat ((endpos - sz) mod 2 ^ 32) else 0)"

definition sfs_io_out :: "nat \<Rightarrow> nat \<Rightarrow> status \<Rightarrow> uio \<Rightarrow> sfs_fs \<Rightarrow> ((status \<times> uio) \<times> sfs_fs) run" where
  "sfs_io_out p extraresid result u s =
     deref (s_vn s p) (\<lambda>sv.
     let s = (if uio_rw u = UIO_WRITE \<and> uio_offset u > to_off (int (sfi_size (sv_i sv)))
              then upd_inode p (\<lambda>i. i\<lparr>sfi_size := nat (uio_offset u mod 2 ^ 32)\<rparr>) s else s) in
     Ret ((result, u\<lparr>uio_resid := (uio_resid u + extraresid) mod 2 ^ 32\<rparr>), s))"

definition sfs_io :: "nat \<Rightarrow> uio \<Rightarrow> sfs_fs \<Rightarrow> ((status \<times> uio) \<times> sfs_fs) run" where
  "sfs_io p u s =
     deref (s_vn s p) (\<lambda>sv.
     let sz = to_off (int (sfi_size (sv_i sv))); extraresid = sfs_extraresid sz u in
     if uio_rw u = UIO_READ \<and> uio_offset u \<ge> sz then Ret ((None, u), s)
     else assertk (extraresid = 0 \<or> uio_resid u > extraresid)
       (andthen (sfs_transfer p (u\<lparr>uio_resid := uio_resid u - extraresid\<rparr>) s) (\<lambda>((result, u), s).
        sfs_io_out p extraresid result u s)))"

end
