(* ===== verification/SfsFile.thy ===== *)
theory SfsFile
  imports Sfs
begin

text \<open>
  What the contents of an SFS file are, and that the block routines implement them.

  The abstract view of a file is a function from positions to bytes, \<open>file_byte\<close>: a block that is
  missing reads as zeros.  It depends only on the inode and the disk.  The invariant \<open>file_ok\<close> says
  that the blocks of a file are in use and pairwise different, \<open>fs_ok\<close> that the free map fits the disk.
  The lemmas of this theory show that allocating blocks, directly or through the indirect block, does
  not change the contents of any file.
\<close>

section \<open>The contents of a file\<close>

definition SFS_MAXBLOCKS :: nat where
  "SFS_MAXBLOCKS = SFS_NDIRECT + SFS_DBPERIDB"

definition file_block :: "byte list list \<Rightarrow> sfs_inode \<Rightarrow> nat \<Rightarrow> nat" where
  "file_block D i k =
     (if k < SFS_NDIRECT then sfi_direct i ! k
      else if k < SFS_MAXBLOCKS \<and> sfi_indirect i \<noteq> 0
      then de32s SFS_DBPERIDB (D ! sfi_indirect i) ! (k - SFS_NDIRECT) else 0)"

definition file_byte :: "byte list list \<Rightarrow> sfs_inode \<Rightarrow> nat \<Rightarrow> byte" where
  "file_byte D i x =
     (let b = file_block D i (x div SFS_BLOCKSIZE) in if b = 0 then 0 else D ! b ! (x mod SFS_BLOCKSIZE))"

definition file_blocks :: "byte list list \<Rightarrow> sfs_inode \<Rightarrow> nat set" where
  "file_blocks D i = insert (sfi_indirect i) (range (file_block D i)) - {0}"

definition file_ok :: "nat set \<Rightarrow> byte list list \<Rightarrow> sfs_inode \<Rightarrow> bool" where
  "file_ok U D i \<longleftrightarrow> inode_ok i \<and> file_blocks D i \<subseteq> U \<and> inj_on (file_block D i) {k. file_block D i k \<noteq> 0} \<and>
     (\<forall>k. file_block D i k \<noteq> 0 \<longrightarrow> file_block D i k \<noteq> sfi_indirect i)"

lemma file_okD:
  assumes "file_ok U D i"
  shows "inode_ok i" "file_block D i k \<noteq> 0 \<Longrightarrow> file_block D i k \<in> U"
    "sfi_indirect i \<noteq> 0 \<Longrightarrow> sfi_indirect i \<in> U"
    "file_block D i k \<noteq> 0 \<Longrightarrow> file_block D i k = file_block D i k' \<Longrightarrow> k = k'"
    "file_block D i k \<noteq> 0 \<Longrightarrow> file_block D i k \<noteq> sfi_indirect i"
  using assms by (auto simp: file_ok_def file_blocks_def dest: inj_onD)

lemma unat_bound: "unat w < 256" for w :: byte
  using unsigned_less [of w] by simp

lemma de_bound: "de acc bs < (acc + 1) * 256 ^ length bs"
proof (induction bs arbitrary: acc)
  case (Cons b bs)
  have "unat b < 256" by (rule unat_bound)
  then have le: "(acc * 256 + unat b + 1) * 256 ^ length bs \<le> (acc + 1) * 256 * 256 ^ length bs"
    by (intro mult_le_mono1) simp
  have "de acc (b # bs) = de (acc * 256 + unat b) bs" by simp
  also note Cons [of "acc * 256 + unat b"]
  also note le
  finally show ?case by (simp add: algebra_simps)
qed simp

lemma de32s_bound: "n \<in> set (de32s k bs) \<Longrightarrow> n < 2 ^ 32"
proof (induction k arbitrary: bs)
  case (Suc k)
  have "de 0 (take 4 bs) < (0 + 1) * 256 ^ length (take 4 bs)" by (rule de_bound)
  also have "\<dots> \<le> (256 :: nat) ^ 4" using power_increasing [of "length (take 4 bs)" 4 "256 :: nat"] by simp
  finally show ?case using Suc by auto
qed simp

text \<open>The disk matters to a file only at its own blocks.\<close>

lemma file_block_disk: "sfi_indirect i = 0 \<or> D' ! sfi_indirect i = D ! sfi_indirect i \<Longrightarrow> file_block D' i = file_block D i"
  by (auto simp: file_block_def fun_eq_iff)

lemma file_view_cong:
  assumes "\<And>b. b \<in> file_blocks D i \<Longrightarrow> D' ! b = D ! b"
  shows "file_block D' i = file_block D i" "file_byte D' i = file_byte D i"
proof -
  have ind: "sfi_indirect i = 0 \<or> D' ! sfi_indirect i = D ! sfi_indirect i"
    using assms [of "sfi_indirect i"] by (auto simp: file_blocks_def)
  then show fb: "file_block D' i = file_block D i" by (rule file_block_disk)
  show "file_byte D' i = file_byte D i"
    using assms by (auto simp: file_byte_def fb Let_def fun_eq_iff file_blocks_def)
qed

lemma file_ok_frame:
  assumes "file_ok U D i" "\<And>b. b \<in> U \<Longrightarrow> D' ! b = D ! b" "U \<subseteq> U'"
  shows "file_ok U' D' i" "file_byte D' i = file_byte D i" "file_blocks D' i = file_blocks D i"
proof -
  have eq: "b \<in> file_blocks D i \<Longrightarrow> D' ! b = D ! b" for b
    using assms(1,2) by (auto simp: file_ok_def)
  note v = file_view_cong [of D i D', OF eq]
  from v show "file_byte D' i = file_byte D i" "file_blocks D' i = file_blocks D i" by (simp_all add: file_blocks_def)
  from v assms(1,3) show "file_ok U' D' i" by (auto simp: file_ok_def file_blocks_def)
qed

section \<open>Writing a block of the file\<close>

lemma file_byte_write:
  assumes "file_ok U D i" "file_block D i k = b" "b \<noteq> 0" "b < length D"
  shows "file_block (D[b := blk]) i = file_block D i"
    "file_byte (D[b := blk]) i x =
       (if x div SFS_BLOCKSIZE = k then blk ! (x mod SFS_BLOCKSIZE) else file_byte D i x)"
proof -
  have "b \<noteq> sfi_indirect i" using file_okD(5) [OF assms(1), of k] assms(2,3) by simp
  then show fb: "file_block (D[b := blk]) i = file_block D i" by (intro file_block_disk) auto
  show "file_byte (D[b := blk]) i x =
      (if x div SFS_BLOCKSIZE = k then blk ! (x mod SFS_BLOCKSIZE) else file_byte D i x)"
  proof (cases "x div SFS_BLOCKSIZE = k")
    case False
    then have "b \<noteq> file_block D i (x div SFS_BLOCKSIZE)"
      using file_okD(4) [OF assms(1), of k "x div SFS_BLOCKSIZE"] assms(2,3) by auto
    with False show ?thesis by (simp add: file_byte_def fb Let_def)
  qed (use assms(2-4) in \<open>simp add: file_byte_def fb Let_def\<close>)
qed

lemma file_ok_write:
  assumes "file_ok U D i" "file_block D i k = b" "b \<noteq> 0" "b < length D"
  shows "file_ok U (D[b := blk]) i" "file_blocks (D[b := blk]) i = file_blocks D i"
  using assms(1) by (simp_all add: file_ok_def file_blocks_def file_byte_write(1) [OF assms])

section \<open>Adding blocks\<close>

lemma file_add:
  assumes old: "file_ok U D i" and fb: "\<And>k'. file_block D' i' k' = (if k' = k then b else file_block D i k')"
    and new: "file_block D i k = 0" "b \<notin> U" "b \<noteq> 0"
    and ind: "sfi_indirect i' = sfi_indirect i" and "inode_ok i'"
    and disk: "\<And>c. c \<in> U \<Longrightarrow> c \<noteq> sfi_indirect i \<Longrightarrow> D' ! c = D ! c" "D' ! b = replicate SFS_BLOCKSIZE 0"
  shows "file_ok (insert b U) D' i'" "file_byte D' i' = file_byte D i"
    "file_blocks D' i' = insert b (file_blocks D i)"
proof -
  have nb: "file_block D i k' \<noteq> b" for k'
    using file_okD(2) [OF old, of k'] new(2,3) by auto
  have "inj_on (file_block D' i') {k'. file_block D' i' k' \<noteq> 0}"
    using file_okD(4) [OF old] nb by (auto simp: inj_on_def fb split: if_splits)
  moreover have "b \<noteq> sfi_indirect i" using file_okD(3) [OF old] new(2,3) by auto
  moreover show bl: "file_blocks D' i' = insert b (file_blocks D i)"
    using new(1,3) by (auto simp: file_blocks_def fb ind image_iff split: if_splits)
  ultimately show "file_ok (insert b U) D' i'"
    using old assms(7) by (auto simp: file_ok_def bl fb ind)
  show "file_byte D' i' = file_byte D i"
  proof
    fix x
    let ?k = "x div SFS_BLOCKSIZE"
    have "x mod SFS_BLOCKSIZE < SFS_BLOCKSIZE" by (simp add: sfs_consts)
    then show "file_byte D' i' x = file_byte D i x"
      using disk(1) [of "file_block D i ?k"] disk(2) file_okD(2,5) [OF old, of ?k] new
      by (auto simp: file_byte_def fb Let_def)
  qed
qed

lemma file_add_direct:
  assumes "file_ok U D i" "k < SFS_NDIRECT" "file_block D i k = 0" "b \<notin> U" "b \<noteq> 0" "b < length D" "b < 2 ^ 32"
  defines "D' \<equiv> D[b := replicate SFS_BLOCKSIZE 0]" and "i' \<equiv> i\<lparr>sfi_direct := (sfi_direct i)[k := b]\<rparr>"
  shows "file_ok (insert b U) D' i'" "file_byte D' i' = file_byte D i"
    "file_blocks D' i' = insert b (file_blocks D i)" "file_block D' i' k = b"
proof -
  have io: "inode_ok i" by (rule file_okD(1) [OF assms(1)])
  have nb: "b \<noteq> sfi_indirect i" using file_okD(3) [OF assms(1)] assms(4,5) by auto
  have ds: "D' ! c = D ! c" if "c \<in> U" for c using that assms(4) by (metis D'_def nth_list_update_neq)
  have fb: "file_block D' i' k' = (if k' = k then b else file_block D i k')" for k'
    using assms(2) io nb by (auto simp: file_block_def D'_def i'_def inode_ok_def nth_list_update)
  have "inode_ok i'" using io assms(7) by (auto simp: inode_ok_def i'_def dest!: set_update_subset_insert [THEN subsetD])
  note add = file_add [OF assms(1) fb assms(3-5) _ this]
  show "file_ok (insert b U) D' i'" "file_byte D' i' = file_byte D i" "file_blocks D' i' = insert b (file_blocks D i)"
    by (rule add; use assms(6) ds in \<open>simp add: i'_def D'_def\<close>)+
  show "file_block D' i' k = b" by (simp add: fb)
qed

lemma file_add_indirect:
  assumes "file_ok U D i" "sfi_indirect i = 0" "b \<notin> U" "b \<noteq> 0" "b < length D" "b < 2 ^ 32"
  defines "D' \<equiv> D[b := replicate SFS_BLOCKSIZE 0]" and "i' \<equiv> i\<lparr>sfi_indirect := b\<rparr>"
  shows "file_ok (insert b U) D' i'" "file_byte D' i' = file_byte D i"
    "file_blocks D' i' = insert b (file_blocks D i)" "file_block D' i' = file_block D i"
proof -
  have z: "de32s n (replicate m 0) ! j = 0" if "j < n" for n m j
    using that
  proof (induction n arbitrary: m j)
    case (Suc n)
    have "de 0 (replicate l 0) = 0" for l by (induction l) simp_all
    with Suc show ?case by (cases j) (simp_all add: take_replicate)
  qed simp
  show fb: "file_block D' i' = file_block D i"
    using assms(2,5) z by (auto simp: file_block_def fun_eq_iff D'_def i'_def SFS_MAXBLOCKS_def)
  have ds: "D' ! c = D ! c" if "c \<in> U" for c using that assms(3) by (metis D'_def nth_list_update_neq)
  show bl: "file_blocks D' i' = insert b (file_blocks D i)"
    unfolding file_blocks_def fb using assms(2,4) by (auto simp: i'_def)
  show "file_byte D' i' = file_byte D i"
    using ds file_okD(2) [OF assms(1)] by (auto simp: file_byte_def fb Let_def fun_eq_iff)
  have ind: "sfi_indirect i' = b" by (simp add: i'_def)
  have "inode_ok i'" using file_okD(1) [OF assms(1)] assms(6) by (simp add: inode_ok_def i'_def)
  moreover have "file_block D i k \<noteq> b" for k using file_okD(2) [OF assms(1), of k] assms(3,4) by auto
  ultimately show "file_ok (insert b U) D' i'" using assms(1) ind by (auto simp: file_ok_def bl fb)
qed

lemma file_add_in_indirect:
  fixes b :: nat
  assumes "file_ok U D i" "SFS_NDIRECT \<le> k" "k < SFS_MAXBLOCKS" "file_block D i k = 0" "b \<notin> U" "b \<noteq> 0"
    "b < length D" "b < 2 ^ 32" "U \<subseteq> {..<length D}" "sfi_indirect i = ib" "ib \<noteq> 0"
  defines "idb \<equiv> (de32s SFS_DBPERIDB (D ! ib))[k - SFS_NDIRECT := b]"
  defines "D' \<equiv> D[b := replicate SFS_BLOCKSIZE 0, ib := be32s idb]"
  shows "file_ok (insert b U) D' i" "file_byte D' i = file_byte D i"
    "file_blocks D' i = insert b (file_blocks D i)" "file_block D' i k = b"
proof -
  have ib: "ib \<in> U" using file_okD(3) [OF assms(1)] assms(10,11) by simp
  then have ibb: "ib \<noteq> b" "ib < length D" using assms(5,9) by auto
  have b32: "\<forall>n \<in> set idb. n < 2 ^ 32"
    unfolding idb_def using assms(8) de32s_bound by (auto dest!: set_update_subset_insert [THEN subsetD])
  have len: "length idb = SFS_DBPERIDB" by (simp add: idb_def)
  have dec: "de32s SFS_DBPERIDB (D' ! ib) = idb"
    using de32s_be32s [OF b32, of "[]"] ibb by (simp add: D'_def len)
  have ix: "k - SFS_NDIRECT < SFS_DBPERIDB" using assms(2,3) by (simp add: SFS_MAXBLOCKS_def)
  have fb: "file_block D' i k' = (if k' = k then b else file_block D i k')" for k'
  proof (cases "SFS_NDIRECT \<le> k' \<and> k' < SFS_MAXBLOCKS")
    case True
    then show ?thesis using assms(2,3,10,11) ix by (auto simp: file_block_def dec) (auto simp: idb_def nth_list_update)
  qed (use assms(2,3) in \<open>auto simp: file_block_def\<close>)
  have ds: "D' ! c = D ! c" if "c \<in> U" "c \<noteq> sfi_indirect i" for c
    using that assms(5,10) by (metis D'_def nth_list_update_neq)
  have db: "D' ! b = replicate SFS_BLOCKSIZE 0" using ibb assms(7) by (simp add: D'_def)
  note add = file_add [OF assms(1) fb assms(4-6) refl file_okD(1) [OF assms(1)] ds db]
  show "file_ok (insert b U) D' i" "file_byte D' i = file_byte D i" "file_blocks D' i = insert b (file_blocks D i)"
    by (rule add; assumption)+
  show "file_block D' i k = b" by (simp add: fb)
qed

end
