(* ===== verification/SfsMap.thy ===== *)
theory SfsMap
  imports SfsFile
begin

text \<open>
  Space allocation and the block map of SFS against the contents of files.

  \<open>fs_ok\<close> is the invariant of a mounted file system whose disk makes no errors; \<open>file_at\<close> adds that the
  vnode \<open>p\<close> is a well-formed file on it.  \<open>touches p s s'\<close> says that a routine working on \<open>p\<close> changed
  nothing but the disk, the free map and the inode of \<open>p\<close>, took only free blocks, and left every used
  block that does not belong to \<open>p\<close> in use and with its contents.
\<close>

section \<open>Invariants\<close>

definition used :: "sfs_fs \<Rightarrow> nat set" where
  "used s = bm_used (sfs_freemap s) \<inter> {..<sp_nblocks (sfs_super s)}"

definition fs_ok :: "sfs_fs \<Rightarrow> bool" where
  "fs_ok s \<longleftrightarrow> disk_ok s \<and> bm_inv (sfs_freemap s) \<and> sp_nblocks (sfs_super s) \<le> length (s_disk s) \<and>
     sp_nblocks (sfs_super s) \<le> bm_nbits (sfs_freemap s) \<and>
     {sp_nblocks (sfs_super s)..<bm_nbits (sfs_freemap s)} \<subseteq> bm_used (sfs_freemap s) \<and> 0 \<in> used s"

definition inode_of :: "sfs_fs \<Rightarrow> nat \<Rightarrow> sfs_inode" where
  "inode_of s p = sv_i (the (s_vn s p))"

definition file_at :: "sfs_fs \<Rightarrow> nat \<Rightarrow> bool" where
  "file_at s p \<longleftrightarrow> fs_ok s \<and> s_vn s p \<noteq> None \<and> file_ok (used s) (s_disk s) (inode_of s p)"

definition fblock :: "sfs_fs \<Rightarrow> nat \<Rightarrow> nat \<Rightarrow> nat" where
  "fblock s p = file_block (s_disk s) (inode_of s p)"

definition fblocks :: "sfs_fs \<Rightarrow> nat \<Rightarrow> nat set" where
  "fblocks s p = file_blocks (s_disk s) (inode_of s p)"

definition fdata :: "sfs_fs \<Rightarrow> nat \<Rightarrow> nat \<Rightarrow> byte" where
  "fdata s p = file_byte (s_disk s) (inode_of s p)"

definition fsize :: "sfs_fs \<Rightarrow> nat \<Rightarrow> nat" where
  "fsize s p = sfi_size (inode_of s p)"

definition touches :: "nat \<Rightarrow> sfs_fs \<Rightarrow> sfs_fs \<Rightarrow> bool" where
  "touches p s s' \<longleftrightarrow>
     (\<exists>D fm d i dd. s' = s\<lparr>s_disk := D, sfs_freemap := fm, sfs_freemapdirty := d,
        s_vn := (s_vn s)(p := map_option (\<lambda>sv. sv\<lparr>sv_i := i, sv_dirty := dd\<rparr>) (s_vn s p))\<rparr> \<and>
        sfi_type i = sfi_type (inode_of s p) \<and> sfi_linkcount i = sfi_linkcount (inode_of s p)) \<and>
     used s - fblocks s p \<subseteq> used s' \<and> fblocks s' p \<subseteq> fblocks s p \<union> - used s \<and>
     (\<forall>b \<in> used s - fblocks s p. s_disk s' ! b = s_disk s ! b)"

lemma used_bound: "b \<in> used s \<Longrightarrow> b < sp_nblocks (sfs_super s)"
  by (simp add: used_def)

lemma fs_okD:
  assumes "fs_ok s"
  shows "disk_ok s" "bm_inv (sfs_freemap s)" "b \<in> used s \<Longrightarrow> b < length (s_disk s)" "0 \<in> used s"
    "sp_nblocks (sfs_super s) < 2 ^ 22" "b < sp_nblocks (sfs_super s) \<Longrightarrow> b < length (s_disk s)"
  using assms by (auto simp: fs_ok_def used_def disk_ok_def)

lemma file_atE:
  assumes "file_at s p"
  obtains sv where "s_vn s p = Some sv" "fs_ok s" "file_ok (used s) (s_disk s) (sv_i sv)" "inode_of s p = sv_i sv"
  using assms by (auto simp: file_at_def inode_of_def)

lemma file_at_block:
  assumes "file_at s p" "fblock s p k \<noteq> 0"
  shows "fblock s p k \<in> used s" "fblock s p k < length (s_disk s)" "fblock s p k \<noteq> sfi_indirect (inode_of s p)"
    "length (s_disk s ! fblock s p k) = SFS_BLOCKSIZE"
proof -
  have ok: "file_ok (used s) (s_disk s) (inode_of s p)" "fs_ok s" using assms(1) by (auto simp: file_at_def)
  show u: "fblock s p k \<in> used s" "fblock s p k \<noteq> sfi_indirect (inode_of s p)"
    using file_okD(2,5) [OF ok(1)] assms(2) by (auto simp: fblock_def)
  then show l: "fblock s p k < length (s_disk s)" using fs_okD(3) [OF ok(2)] by blast
  from disk_okD [OF fs_okD(1) [OF ok(2)] l] show "length (s_disk s ! fblock s p k) = SFS_BLOCKSIZE" .
qed

lemma file_at_inode: "file_at s p \<Longrightarrow> inode_ok (inode_of s p)"
  by (auto simp: file_at_def file_ok_def)

lemma vn_irrelevant [simp]:
  "disk_ok (s\<lparr>s_vn := vn\<rparr>) = disk_ok s" "used (s\<lparr>s_vn := vn\<rparr>) = used s" "fs_ok (s\<lparr>s_vn := vn\<rparr>) = fs_ok s"
  "used (s\<lparr>s_disk := D\<rparr>) = used s"
  by (simp_all add: disk_ok_def used_def fs_ok_def)

lemma upd_irrelevant [simp]:
  "disk_ok (upd_vn p f s) = disk_ok s" "used (upd_vn p f s) = used s" "fs_ok (upd_vn p f s) = fs_ok s"
  "disk_ok (upd_inode p g s) = disk_ok s" "used (upd_inode p g s) = used s" "fs_ok (upd_inode p g s) = fs_ok s"
  by (simp_all add: upd_vn_def upd_inode_def)

lemma fs_ok_write:
  assumes "fs_ok s" "length data = SFS_BLOCKSIZE"
  shows "fs_ok (s\<lparr>s_disk := (s_disk s)[b := data]\<rparr>)"
  using assms disk_ok_write [of s data b] by (simp add: fs_ok_def)

section \<open>Blocks in use\<close>

lemma sfs_bused_spec:
  assumes "fs_ok s" "b < sp_nblocks (sfs_super s)"
  shows "sfs_bused b s = Ret (b \<in> used s)"
proof -
  have "b < bm_nbits (sfs_freemap s)" using assms by (simp add: fs_ok_def)
  with bitmap_isset_Ret [OF fs_okD(2) [OF assms(1)] this] obtain w where
    "bitmap_isset (sfs_freemap s) b = Ret w" "w \<noteq> 0 \<longleftrightarrow> b \<in> bm_used (sfs_freemap s)" by blast
  with assms(2) show ?thesis by (simp add: sfs_bused_def used_def)
qed

lemma sfs_handback_spec:
  assumes "fs_ok s" "b = 0 \<or> b \<in> used s"
  shows "sfs_handback b s = Ret (Inr b, s)"
  using assms sfs_bused_spec [OF assms(1) used_bound, of b] by (auto simp: sfs_handback_def)

lemma sfs_bfree_spec:
  assumes "fs_ok s" "b \<in> used s" "b \<noteq> 0"
  shows "\<exists>fm. sfs_bfree b s = Ret (s\<lparr>sfs_freemap := fm, sfs_freemapdirty := True\<rparr>) \<and>
    used (s\<lparr>sfs_freemap := fm, sfs_freemapdirty := True\<rparr>) = used s - {b} \<and>
    fs_ok (s\<lparr>sfs_freemap := fm, sfs_freemapdirty := True\<rparr>)"
proof -
  have "b \<in> bm_used (sfs_freemap s)" using assms(2) by (simp add: used_def)
  from kb.unmark_used [OF fs_okD(2) [OF assms(1)] this] obtain fm where fm: "bitmap_unmark (sfs_freemap s) b = Ret fm"
    "bm_inv fm" "bm_used fm = bm_used (sfs_freemap s) - {b}" "bm_nbits fm = bm_nbits (sfs_freemap s)" by blast
  have u: "used (s\<lparr>sfs_freemap := fm, sfs_freemapdirty := True\<rparr>) = used s - {b}" by (auto simp: used_def fm)
  moreover have "fs_ok (s\<lparr>sfs_freemap := fm, sfs_freemapdirty := True\<rparr>)"
    using assms used_bound [OF assms(2)] by (auto simp: fs_ok_def fm u disk_ok_def)
  ultimately show ?thesis using fm(1) by (auto simp: sfs_bfree_def)
qed

lemma sfs_balloc_spec:
  assumes "fs_ok s"
  shows "(used s = {..<sp_nblocks (sfs_super s)} \<and> sfs_balloc s = Ret (Inl ENOSPC, s)) \<or>
    (\<exists>b fm. let s' = s\<lparr>s_disk := (s_disk s)[b := replicate SFS_BLOCKSIZE 0], sfs_freemap := fm, sfs_freemapdirty := True\<rparr> in
       sfs_balloc s = Ret (Inr b, s') \<and> b \<notin> used s \<and> b \<noteq> 0 \<and> b < sp_nblocks (sfs_super s) \<and>
       fs_ok s' \<and> used s' = insert b (used s))"
proof (cases "bm_used (sfs_freemap s) = {..<bm_nbits (sfs_freemap s)}")
  case True
  then have "used s = {..<sp_nblocks (sfs_super s)}" using assms by (auto simp: used_def fs_ok_def)
  with kb.alloc_full [OF fs_okD(2) [OF assms] True] show ?thesis by (simp add: sfs_balloc_def)
next
  case False
  from kb.alloc_free [OF fs_okD(2) [OF assms] False] obtain b fm where
    al: "bitmap_alloc (sfs_freemap s) = Ret (Inr b, fm)" "b < bm_nbits (sfs_freemap s)" "b \<notin> bm_used (sfs_freemap s)"
    "bm_inv fm" "bm_used fm = insert b (bm_used (sfs_freemap s))" "bm_nbits fm = bm_nbits (sfs_freemap s)" by blast
  let ?t = "s\<lparr>sfs_freemap := fm, sfs_freemapdirty := True\<rparr>"
  let ?s = "s\<lparr>s_disk := (s_disk s)[b := replicate SFS_BLOCKSIZE 0], sfs_freemap := fm, sfs_freemapdirty := True\<rparr>"
  have b: "b < sp_nblocks (sfs_super s)" using assms al(2,3) by (meson atLeastLessThan_iff fs_ok_def not_le subsetD)
  have "disk_ok ?t" "b < length (s_disk ?t)" using assms b by (auto simp: fs_ok_def disk_ok_def)
  from sfs_wblock_ok [OF this, of "replicate SFS_BLOCKSIZE 0"]
  have w: "sfs_clearblock b ?t = Ret (Inr (), ?s)" by (simp add: sfs_clearblock_def)
  have u: "used ?s = insert b (used s)" using b by (auto simp: used_def al(5))
  have "disk_ok ?s" using disk_ok_write [OF \<open>disk_ok ?t\<close>, of "replicate SFS_BLOCKSIZE 0" b] by (simp add: disk_ok_def)
  then have "fs_ok ?s" using assms al(4) by (auto simp: fs_ok_def u al(5,6))
  moreover have "b \<noteq> 0" "b \<notin> used s" using al(3) fs_okD(4) [OF assms] by (auto simp: used_def intro: ccontr)
  ultimately show ?thesis using b u w al(1) by (intro disjI2 exI [of _ b] exI [of _ fm]) (simp add: sfs_balloc_def Let_def)
qed

section \<open>The block map\<close>

lemma sfs_bmap_lookup:
  assumes "file_at s p" "k < SFS_MAXBLOCKS" "fblock s p k \<noteq> 0 \<or> \<not> doalloc"
  shows "sfs_bmap p k doalloc s = Ret (Inr (fblock s p k), s)"
proof -
  from assms(1) obtain sv where sv: "s_vn s p = Some sv" "fs_ok s" "file_ok (used s) (s_disk s) (sv_i sv)" "inode_of s p = sv_i sv"
    by (rule file_atE)
  have hb: "sfs_handback (fblock s p k) s = Ret (Inr (fblock s p k), s)"
    using file_at_block(1) [OF assms(1)] by (intro sfs_handback_spec [OF sv(2)]) blast
  have id: "sfi_indirect (sv_i sv) \<noteq> 0 \<Longrightarrow> sfs_rblock (sfi_indirect (sv_i sv)) s = Ret (Inr (s_disk s ! sfi_indirect (sv_i sv)), s)"
    using file_okD(3) [OF sv(3)] fs_okD(1,3) [OF sv(2)] by (intro sfs_rblock_ok) blast+
  show ?thesis
  proof (cases "k < SFS_NDIRECT")
    case True
    then have "fblock s p k = sfi_direct (sv_i sv) ! k" by (simp add: fblock_def sv(4) file_block_def)
    with True hb assms(3) sv(1) show ?thesis by (auto simp: sfs_bmap_def Let_def)
  next
    case False
    then have k: "(k - SFS_NDIRECT) div SFS_DBPERIDB = 0" "(k - SFS_NDIRECT) mod SFS_DBPERIDB = k - SFS_NDIRECT"
      using assms(2) by (simp_all add: SFS_MAXBLOCKS_def)
    have fb: "fblock s p k = (if sfi_indirect (sv_i sv) = 0 then 0
        else de32s SFS_DBPERIDB (s_disk s ! sfi_indirect (sv_i sv)) ! (k - SFS_NDIRECT))"
      using False assms(2) by (simp add: fblock_def sv(4) file_block_def)
    show ?thesis using False k fb hb id assms(3) sv(1) by (auto simp: sfs_bmap_def Let_def)
  qed
qed

lemma touchesI:
  assumes "s_vn s p = Some sv" "s' = s\<lparr>s_disk := D, sfs_freemap := fm, sfs_freemapdirty := d,
      s_vn := (s_vn s)(p \<mapsto> sv\<lparr>sv_i := i, sv_dirty := dd\<rparr>)\<rparr>"
    "sfi_type i = sfi_type (sv_i sv)" "sfi_linkcount i = sfi_linkcount (sv_i sv)"
    "used s - fblocks s p \<subseteq> used s'" "fblocks s' p \<subseteq> fblocks s p \<union> - used s"
    "\<And>b. b \<in> used s - fblocks s p \<Longrightarrow> s_disk s' ! b = s_disk s ! b"
  shows "touches p s s'"
proof -
  have "\<exists>D fm d i dd. s' = s\<lparr>s_disk := D, sfs_freemap := fm, sfs_freemapdirty := d,
      s_vn := (s_vn s)(p := map_option (\<lambda>x. x\<lparr>sv_i := i, sv_dirty := dd\<rparr>) (s_vn s p))\<rparr> \<and>
      sfi_type i = sfi_type (inode_of s p) \<and> sfi_linkcount i = sfi_linkcount (inode_of s p)"
    using assms(3,4) by (intro exI [of _ D] exI [of _ fm] exI [of _ d] exI [of _ i] exI [of _ dd])
      (simp add: assms(1,2) inode_of_def)
  with assms(5-7) show ?thesis by (simp add: touches_def)
qed

lemma touches_refl: "file_at s p \<Longrightarrow> touches p s s"
proof -
  assume "file_at s p"
  then obtain sv where sv: "s_vn s p = Some sv" by (rule file_atE)
  then have "s = s\<lparr>s_disk := s_disk s, sfs_freemap := sfs_freemap s, sfs_freemapdirty := sfs_freemapdirty s,
      s_vn := (s_vn s)(p \<mapsto> sv\<lparr>sv_i := sv_i sv, sv_dirty := sv_dirty sv\<rparr>)\<rparr>"
    by (cases s) (simp add: fun_upd_idem)
  from touchesI [OF sv this] show ?thesis by auto
qed

lemma touches_trans:
  assumes "touches p s s'" "touches p s' s''"
  shows "touches p s s''"
proof -
  from assms obtain D fm d i dd D' fm' d' i' dd' where
    s': "s' = s\<lparr>s_disk := D, sfs_freemap := fm, sfs_freemapdirty := d,
        s_vn := (s_vn s)(p := map_option (\<lambda>sv. sv\<lparr>sv_i := i, sv_dirty := dd\<rparr>) (s_vn s p))\<rparr>"
      "sfi_type i = sfi_type (inode_of s p)" "sfi_linkcount i = sfi_linkcount (inode_of s p)" and
    s'': "s'' = s'\<lparr>s_disk := D', sfs_freemap := fm', sfs_freemapdirty := d',
        s_vn := (s_vn s')(p := map_option (\<lambda>sv. sv\<lparr>sv_i := i', sv_dirty := dd'\<rparr>) (s_vn s' p))\<rparr>"
      "sfi_type i' = sfi_type (inode_of s' p)" "sfi_linkcount i' = sfi_linkcount (inode_of s' p)"
    unfolding touches_def by blast
  have eq: "s'' = s\<lparr>s_disk := D', sfs_freemap := fm', sfs_freemapdirty := d',
        s_vn := (s_vn s)(p := map_option (\<lambda>sv. sv\<lparr>sv_i := i', sv_dirty := dd'\<rparr>) (s_vn s p))\<rparr>"
    unfolding s''(1) s'(1) by (simp add: option.map_comp comp_def)
  have iv: "s_vn s p = None \<or> inode_of s' p = i" "s_vn s p = None \<Longrightarrow> inode_of s' p = inode_of s p"
    unfolding s'(1) by (cases "s_vn s p"; simp add: inode_of_def)+
  have "sfi_type i' = sfi_type (inode_of s p)" "sfi_linkcount i' = sfi_linkcount (inode_of s p)"
    using iv s'(2,3) s''(2,3) by metis+
  with eq have A: "\<exists>D fm d i dd. s'' = s\<lparr>s_disk := D, sfs_freemap := fm, sfs_freemapdirty := d,
        s_vn := (s_vn s)(p := map_option (\<lambda>sv. sv\<lparr>sv_i := i, sv_dirty := dd\<rparr>) (s_vn s p))\<rparr> \<and>
        sfi_type i = sfi_type (inode_of s p) \<and> sfi_linkcount i = sfi_linkcount (inode_of s p)"
    by blast
  from assms have u: "used s - fblocks s p \<subseteq> used s'" "used s' - fblocks s' p \<subseteq> used s''"
      "fblocks s' p \<subseteq> fblocks s p \<union> - used s" "fblocks s'' p \<subseteq> fblocks s' p \<union> - used s'"
      "\<forall>b \<in> used s - fblocks s p. s_disk s' ! b = s_disk s ! b" "\<forall>b \<in> used s' - fblocks s' p. s_disk s'' ! b = s_disk s' ! b"
    by (simp_all add: touches_def)
  have keep: "used s - fblocks s p \<subseteq> used s' - fblocks s' p" using u(1,3) by blast
  have B: "\<forall>b \<in> used s - fblocks s p. s_disk s'' ! b = s_disk s ! b"
    using keep u(5,6) by (metis subsetD)
  have C: "used s - fblocks s p \<subseteq> used s''" "fblocks s'' p \<subseteq> fblocks s p \<union> - used s" using keep u(1-4) by blast+
  show ?thesis unfolding touches_def by (intro conjI A B C)
qed

lemma touches_frame:
  assumes "touches p s s'"
  shows "s_space s' = s_space s" "s_oom s' = s_oom s" "s_lhd s' = s_lhd s" "sfs_super s' = sfs_super s"
    "sfs_vnodes s' = sfs_vnodes s" "q \<noteq> p \<Longrightarrow> s_vn s' q = s_vn s q" "s_next s' = s_next s"
    "sfs_superdirty s' = sfs_superdirty s" "s_vn s' p = None \<longleftrightarrow> s_vn s p = None"
    "map_option sv_ino (s_vn s' p) = map_option sv_ino (s_vn s p)"
    "map_option sv_refcount (s_vn s' p) = map_option sv_refcount (s_vn s p)"
    "map_option sv_ops (s_vn s' p) = map_option sv_ops (s_vn s p)"
    "map_option sv_opencount (s_vn s' p) = map_option sv_opencount (s_vn s p)"
  using assms unfolding touches_def by (auto simp: option.map_comp comp_def)

lemma touches_inode:
  assumes "touches p s s'" "s_vn s p \<noteq> None"
  shows "sfi_type (inode_of s' p) = sfi_type (inode_of s p)" "sfi_linkcount (inode_of s' p) = sfi_linkcount (inode_of s p)"
  using assms unfolding touches_def by (auto simp: inode_of_def)

text \<open>Another file whose blocks are in use and belong to no other keeps its contents.\<close>

lemma touches_other:
  assumes "touches p s s'" "fs_ok s'" "file_at s q" "q \<noteq> p" "fblocks s q \<inter> fblocks s p = {}"
  shows "fdata s' q = fdata s q" "fsize s' q = fsize s q" "file_at s' q" "fblocks s' q \<inter> fblocks s' p = {}"
    "fblocks s' q = fblocks s q"
proof -
  have iq: "inode_of s' q = inode_of s q" using touches_frame(6) [OF assms(1,4)] by (simp add: inode_of_def)
  have ok: "file_ok (used s) (s_disk s) (inode_of s q)" using assms(3) by (simp add: file_at_def)
  then have sub: "fblocks s q \<subseteq> used s" by (simp add: file_ok_def fblocks_def)
  have eq: "s_disk s' ! b = s_disk s ! b" if "b \<in> fblocks s q" for b
    using assms(1,5) that sub unfolding touches_def by blast
  have v: "file_block (s_disk s') (inode_of s q) = file_block (s_disk s) (inode_of s q)"
      "file_byte (s_disk s') (inode_of s q) = file_byte (s_disk s) (inode_of s q)"
    by (rule file_view_cong; use eq in \<open>simp add: fblocks_def\<close>)+
  show "fdata s' q = fdata s q" "fsize s' q = fsize s q" by (simp_all add: fdata_def fsize_def iq v(2))
  show fbq: "fblocks s' q = fblocks s q" unfolding fblocks_def file_blocks_def iq v(1) ..
  have u: "used s - fblocks s p \<subseteq> used s'" "fblocks s' p \<subseteq> fblocks s p \<union> - used s" using assms(1) by (simp_all add: touches_def)
  show "fblocks s' q \<inter> fblocks s' p = {}" using fbq u(2) sub assms(5) by blast
  have "fblocks s q \<subseteq> used s'" using u(1) sub assms(5) by blast
  then have "file_ok (used s') (s_disk s') (inode_of s q)"
    using ok by (simp add: file_ok_def fblocks_def file_blocks_def v(1))
  then show "file_at s' q" using assms(2,3) touches_frame(6) [OF assms(1,4)] by (simp add: file_at_def iq)
qed

section \<open>Allocation through the block map\<close>

text \<open>What a routine that only allocates blocks for \<open>p\<close> achieves.\<close>

definition same_file :: "nat \<Rightarrow> sfs_fs \<Rightarrow> sfs_fs \<Rightarrow> bool" where
  "same_file p s s' \<longleftrightarrow> touches p s s' \<and> file_at s' p \<and> fdata s' p = fdata s p \<and> fsize s' p = fsize s p"

lemma same_file_refl: "file_at s p \<Longrightarrow> same_file p s s"
  by (simp add: same_file_def touches_refl)

lemma same_file_trans: "same_file p s s' \<Longrightarrow> same_file p s' s'' \<Longrightarrow> same_file p s s''"
  by (auto simp: same_file_def intro: touches_trans)

lemma same_fileI:
  assumes "s_vn s p = Some sv" and s': "s' = s\<lparr>s_disk := D, sfs_freemap := fm, sfs_freemapdirty := d,
      s_vn := (s_vn s)(p \<mapsto> sv\<lparr>sv_i := i, sv_dirty := dd\<rparr>)\<rparr>"
    and "fs_ok s'" "used s' = insert b (used s)" "b \<notin> used s"
    and "file_ok (insert b (used s)) D i" "file_byte D i = file_byte (s_disk s) (sv_i sv)"
      "file_blocks D i = insert b (file_blocks (s_disk s) (sv_i sv))"
    and "\<And>c. c \<in> used s \<Longrightarrow> c \<noteq> sfi_indirect (sv_i sv) \<Longrightarrow> D ! c = s_disk s ! c"
    and "sfi_size i = sfi_size (sv_i sv)" "sfi_type i = sfi_type (sv_i sv)" "sfi_linkcount i = sfi_linkcount (sv_i sv)"
      "0 \<in> used s \<Longrightarrow> D ! 0 = s_disk s ! 0"
  shows "same_file p s s'"
proof -
  have iv: "inode_of s p = sv_i sv" "inode_of s' p = i" "s_disk s' = D" using assms(1) by (simp_all add: inode_of_def s')
  have f: "fblocks s p = file_blocks (s_disk s) (sv_i sv)" "fblocks s' p = insert b (fblocks s p)"
    using assms(8) by (simp_all add: fblocks_def iv)
  have ds: "s_disk s' ! c = s_disk s ! c" if c: "c \<in> used s - fblocks s p" for c
  proof (cases "c = sfi_indirect (sv_i sv)")
    case True
    with c have "c = 0" by (simp add: f(1) file_blocks_def)
    with c assms(13) iv(3) show ?thesis by simp
  qed (use c assms(9) iv(3) in simp)
  have us: "used s - fblocks s p \<subseteq> used s'" "fblocks s' p \<subseteq> fblocks s p \<union> - used s" using assms(4,5) f(2) by auto
  have "touches p s s'" by (rule touchesI [OF assms(1) s' assms(11,12) us ds])
  moreover have "file_at s' p" using assms(3,4,6) by (simp add: file_at_def iv) (simp add: s')
  ultimately show ?thesis using assms(7,10) by (simp add: same_file_def fdata_def fsize_def iv)
qed

lemma sfs_balloc_cases [consumes 1, case_names full new]:
  assumes "fs_ok s"
  obtains "used s = {..<sp_nblocks (sfs_super s)}" "sfs_balloc s = Ret (Inl ENOSPC, s)"
  | b fm s1 where "s1 = s\<lparr>s_disk := (s_disk s)[b := replicate SFS_BLOCKSIZE 0], sfs_freemap := fm, sfs_freemapdirty := True\<rparr>"
      "sfs_balloc s = Ret (Inr b, s1)" "b \<notin> used s" "b \<noteq> 0" "b < sp_nblocks (sfs_super s)" "fs_ok s1" "used s1 = insert b (used s)"
  using sfs_balloc_spec [OF assms] unfolding Let_def by blast

lemma sfs_bmap_direct:
  assumes "file_at s p" "k < SFS_NDIRECT" "fblock s p k = 0"
  shows "\<exists>r s'. sfs_bmap p k True s = Ret (r, s') \<and> same_file p s s' \<and>
    (r = Inl ENOSPC \<and> used s' = {..<sp_nblocks (sfs_super s)} \<or> (\<exists>b. r = Inr b \<and> b \<noteq> 0 \<and> fblock s' p k = b))"
proof -
  from assms(1) obtain sv where sv: "s_vn s p = Some sv" "fs_ok s" "file_ok (used s) (s_disk s) (sv_i sv)" "inode_of s p = sv_i sv"
    by (rule file_atE)
  have d0: "sfi_direct (sv_i sv) ! k = 0" "file_block (s_disk s) (sv_i sv) k = 0"
    using assms(2,3) by (simp_all add: fblock_def sv(4) file_block_def)
  from sv(2) show ?thesis
  proof (cases rule: sfs_balloc_cases)
    case full
    with assms(2) d0(1) same_file_refl [OF assms(1)] sv(1) show ?thesis by (auto simp: sfs_bmap_def Let_def)
  next
    case (new b fm s1)
    let ?i = "(sv_i sv)\<lparr>sfi_direct := (sfi_direct (sv_i sv))[k := b]\<rparr>"
    let ?s = "upd_inode p (\<lambda>i. i\<lparr>sfi_direct := (sfi_direct i)[k := b]\<rparr>) s1"
    have seq: "?s = s\<lparr>s_disk := (s_disk s)[b := replicate SFS_BLOCKSIZE 0], sfs_freemap := fm, sfs_freemapdirty := True,
        s_vn := (s_vn s)(p \<mapsto> sv\<lparr>sv_i := ?i, sv_dirty := True\<rparr>)\<rparr>"
      using sv(1) by (simp add: upd_inode_def upd_vn_def new(1))
    have b: "b < length (s_disk s)" "b < 2 ^ 32" using fs_okD(5,6) [OF sv(2)] new(5) by simp_all
    note add = file_add_direct [OF sv(3) assms(2) d0(2) new(3,4) b]
    have ok: "fs_ok ?s" "used ?s = insert b (used s)"
      using new(6,7) by simp_all
    have ds: "(s_disk s)[b := replicate SFS_BLOCKSIZE 0] ! c = s_disk s ! c" if "c \<in> used s" for c
      using that new(3) by (metis nth_list_update_neq)
    have "same_file p s ?s" by (rule same_fileI [OF sv(1) seq ok new(3) add(1-3)]) (simp_all add: ds)
    moreover have "fblock ?s p k = b" using add(4) by (simp add: fblock_def seq inode_of_def)
    moreover have "sfs_bmap p k True s = Ret (Inr b, ?s)"
      using assms(2) d0(1) sv(1) new(2) sfs_handback_spec [OF ok(1), of b] ok(2) by (simp add: sfs_bmap_def Let_def)
    ultimately show ?thesis using new(4) by blast
  qed
qed

lemma de32s_zeros: "de32s n (replicate m 0) = replicate n 0"
proof (induction n arbitrary: m)
  case (Suc n)
  have "de 0 (replicate l 0) = 0" for l by (induction l) simp_all
  with Suc show ?case by (simp add: take_replicate)
qed simp

lemma sfs_add_indirect:
  assumes "file_at s p" "sfi_indirect (inode_of s p) = 0"
  shows "\<exists>r s'. bindE (sfs_balloc s) (\<lambda>idblock s.
      Ret (Inr (idblock, replicate SFS_DBPERIDB 0), upd_inode p (\<lambda>i. i\<lparr>sfi_indirect := idblock\<rparr>) s)) = Ret (r, s') \<and>
    same_file p s s' \<and> (r = Inl ENOSPC \<and> used s' = {..<sp_nblocks (sfs_super s)} \<or>
      (\<exists>ib. r = Inr (ib, de32s SFS_DBPERIDB (s_disk s' ! ib)) \<and> ib \<noteq> 0 \<and> sfi_indirect (inode_of s' p) = ib \<and> fblock s' p = fblock s p))"
proof -
  from assms(1) obtain sv where sv: "s_vn s p = Some sv" "fs_ok s" "file_ok (used s) (s_disk s) (sv_i sv)" "inode_of s p = sv_i sv"
    by (rule file_atE)
  from sv(2) show ?thesis
  proof (cases rule: sfs_balloc_cases)
    case full
    with same_file_refl [OF assms(1)] show ?thesis by simp
  next
    case (new b fm s1)
    let ?i = "(sv_i sv)\<lparr>sfi_indirect := b\<rparr>" and ?s = "upd_inode p (\<lambda>i. i\<lparr>sfi_indirect := b\<rparr>) s1"
    have seq: "?s = s\<lparr>s_disk := (s_disk s)[b := replicate SFS_BLOCKSIZE 0], sfs_freemap := fm, sfs_freemapdirty := True,
        s_vn := (s_vn s)(p \<mapsto> sv\<lparr>sv_i := ?i, sv_dirty := True\<rparr>)\<rparr>"
      using sv(1) by (simp add: upd_inode_def upd_vn_def new(1))
    have b: "b < length (s_disk s)" "b < 2 ^ 32" using fs_okD(5,6) [OF sv(2)] new(5) by simp_all
    note add = file_add_indirect [OF sv(3) assms(2) [unfolded sv(4)] new(3,4) b]
    have ok: "fs_ok ?s" "used ?s = insert b (used s)" using new(6,7) by simp_all
    have ds: "(s_disk s)[b := replicate SFS_BLOCKSIZE 0] ! c = s_disk s ! c" if "c \<in> used s" for c
      using that new(3) by (metis nth_list_update_neq)
    have same: "same_file p s ?s" by (rule same_fileI [OF sv(1) seq ok new(3) add(1-3)]) (simp_all add: ds)
    have iv: "inode_of ?s p = ?i" "s_disk ?s = (s_disk s)[b := replicate SFS_BLOCKSIZE 0]" unfolding seq by (simp_all add: inode_of_def)
    have fb: "fblock ?s p = fblock s p" using add(4) by (simp add: fblock_def iv sv(4))
    have z: "replicate SFS_DBPERIDB 0 = de32s SFS_DBPERIDB (s_disk ?s ! b)" using b(1) by (simp add: iv de32s_zeros)
    show ?thesis
      by (intro exI [of _ "Inr (b, replicate SFS_DBPERIDB 0)"] exI [of _ ?s] conjI disjI2 exI [of _ b] same fb)
        (use new(2,4) z in \<open>simp_all add: iv(1)\<close>)
  qed
qed

lemma sfs_add_in_indirect:
  assumes "file_at s p" "SFS_NDIRECT \<le> k" "k < SFS_MAXBLOCKS" "fblock s p k = 0" "sfi_indirect (inode_of s p) = ib" "ib \<noteq> 0"
    "idbuf = de32s SFS_DBPERIDB (s_disk s ! ib)"
  shows "\<exists>r s'. bindE (sfs_balloc s) (\<lambda>blk s.
      bindE (sfs_wblock (be32s (idbuf[k - SFS_NDIRECT := blk])) ib s) (\<lambda>_ s. sfs_handback blk s)) = Ret (r, s') \<and>
    same_file p s s' \<and> (r = Inl ENOSPC \<and> used s' = {..<sp_nblocks (sfs_super s)} \<or> (\<exists>b. r = Inr b \<and> b \<noteq> 0 \<and> fblock s' p k = b))"
proof -
  from assms(1) obtain sv where sv: "s_vn s p = Some sv" "fs_ok s" "file_ok (used s) (s_disk s) (sv_i sv)" "inode_of s p = sv_i sv"
    by (rule file_atE)
  have ib: "ib \<in> used s" "ib < length (s_disk s)" using file_okD(3) [OF sv(3)] fs_okD(3) [OF sv(2)] assms(5,6) sv(4) by auto
  from sv(2) show ?thesis
  proof (cases rule: sfs_balloc_cases)
    case full
    with same_file_refl [OF assms(1)] show ?thesis by simp
  next
    case (new b fm s1)
    let ?idb = "idbuf[k - SFS_NDIRECT := b]"
    let ?D = "(s_disk s)[b := replicate SFS_BLOCKSIZE 0, ib := be32s ?idb]" and ?s = "s1\<lparr>s_disk := (s_disk s1)[ib := be32s ?idb]\<rparr>"
    have b: "b < length (s_disk s)" "b < 2 ^ 32" using fs_okD(5,6) [OF sv(2)] new(5) by simp_all
    have len: "length (be32s ?idb) = SFS_BLOCKSIZE" by (simp add: assms(7) sfs_consts)
    have "s_disk s1 = (s_disk s)[b := replicate SFS_BLOCKSIZE 0]" by (simp add: new(1))
    then have ib1: "ib < length (s_disk s1)" using ib(2) by simp
    have w: "sfs_wblock (be32s ?idb) ib s1 = Ret (Inr (), ?s)"
      by (rule sfs_wblock_ok [OF fs_okD(1) [OF new(6)] ib1 len])
    have ok: "fs_ok ?s" "used ?s = insert b (used s)" using fs_ok_write [OF new(6) len] new(7) by simp_all
    have seq: "?s = s\<lparr>s_disk := ?D, sfs_freemap := fm, sfs_freemapdirty := True,
        s_vn := (s_vn s)(p \<mapsto> sv\<lparr>sv_i := sv_i sv, sv_dirty := sv_dirty sv\<rparr>)\<rparr>"
      using sv(1) by (simp add: new(1) fun_upd_idem)
    have goal: "same_file p s ?s \<and> fblock ?s p k = b"
    proof -
      have us: "used s \<subseteq> {..<length (s_disk s)}" using fs_okD(3) [OF sv(2)] by auto
      note add = file_add_in_indirect [OF sv(3) assms(2,3) _ new(3,4) b us _ assms(6), folded assms(7)]
      have f0: "file_block (s_disk s) (sv_i sv) k = 0" "sfi_indirect (sv_i sv) = ib" using assms(4,5) sv(4) by (simp_all add: fblock_def)
      have ds: "?D ! c = s_disk s ! c" if "c \<in> used s" "c \<noteq> sfi_indirect (sv_i sv)" for c
        using that new(3) f0(2) by (metis nth_list_update_neq)
      have z: "?D ! 0 = s_disk s ! 0" using new(4) assms(6) by simp
      have "same_file p s ?s"
        by (rule same_fileI [OF sv(1) seq ok new(3) add(1-3) [OF f0] ds]) (simp_all add: z)
      moreover have "inode_of ?s p = sv_i sv" "s_disk ?s = ?D" unfolding seq by (simp_all add: inode_of_def)
      ultimately show ?thesis using add(4) [OF f0] by (simp add: fblock_def)
    qed
    have "sfs_handback b ?s = Ret (Inr b, ?s)" using ok by (intro sfs_handback_spec) auto
    with new(2) w have run: "bindE (sfs_balloc s) (\<lambda>blk s. bindE (sfs_wblock (be32s (idbuf[k - SFS_NDIRECT := blk])) ib s) (\<lambda>_ s. sfs_handback blk s)) = Ret (Inr b, ?s)" by simp
    with goal new(4) show ?thesis by blast
  qed
qed

text \<open>
  The map with allocation: the contents stay as they are, and unless the disk is full the block is there
  afterwards.
\<close>

lemma sfs_bmap_alloc:
  assumes "file_at s p" "k < SFS_MAXBLOCKS"
  shows "\<exists>r s'. sfs_bmap p k True s = Ret (r, s') \<and> same_file p s s' \<and>
    (r = Inl ENOSPC \<and> used s' = {..<sp_nblocks (sfs_super s)} \<or> (\<exists>b. r = Inr b \<and> b \<noteq> 0 \<and> fblock s' p k = b))"
proof (cases "fblock s p k \<noteq> 0")
  case True
  with sfs_bmap_lookup [OF assms, of True] same_file_refl [OF assms(1)] show ?thesis by blast
next
  case False
  then have f0: "fblock s p k = 0" by simp
  show ?thesis
  proof (cases "k < SFS_NDIRECT")
    case True
    then show ?thesis by (rule sfs_bmap_direct [OF assms(1) _ f0])
  next
    case False
    from assms(1) obtain sv where sv: "s_vn s p = Some sv" "fs_ok s" "file_ok (used s) (s_disk s) (sv_i sv)" "inode_of s p = sv_i sv"
      by (rule file_atE)
    have k: "(k - SFS_NDIRECT) div SFS_DBPERIDB = 0" "(k - SFS_NDIRECT) mod SFS_DBPERIDB = k - SFS_NDIRECT" "k - SFS_NDIRECT < SFS_DBPERIDB"
      using False assms(2) by (simp_all add: SFS_MAXBLOCKS_def)
    have e: "idbuf ! (k - SFS_NDIRECT) = fblock t p k" if "sfi_indirect (inode_of t p) = ib" "ib \<noteq> 0" "idbuf = de32s SFS_DBPERIDB (s_disk t ! ib)" for t ib idbuf
      using False assms(2) that by (simp add: fblock_def file_block_def)
    show ?thesis
    proof (cases "sfi_indirect (sv_i sv) = 0")
      case True
      from sfs_add_indirect [OF assms(1)] True sv(4) obtain r s1 where
        a: "bindE (sfs_balloc s) (\<lambda>idblock s. Ret (Inr (idblock, replicate SFS_DBPERIDB 0),
              upd_inode p (\<lambda>i. i\<lparr>sfi_indirect := idblock\<rparr>) s)) = Ret (r, s1)" "same_file p s s1"
        and b: "r = Inl ENOSPC \<and> used s1 = {..<sp_nblocks (sfs_super s)} \<or> (\<exists>ib. r = Inr (ib, de32s SFS_DBPERIDB (s_disk s1 ! ib)) \<and>
          ib \<noteq> 0 \<and> sfi_indirect (inode_of s1 p) = ib \<and> fblock s1 p = fblock s p)" by auto
      from b show ?thesis
      proof
        assume "r = Inl ENOSPC \<and> used s1 = {..<sp_nblocks (sfs_super s)}"
        with a False k True sv(1) show ?thesis by (simp add: sfs_bmap_def Let_def)
      next
        assume "\<exists>ib. r = Inr (ib, de32s SFS_DBPERIDB (s_disk s1 ! ib)) \<and> ib \<noteq> 0 \<and> sfi_indirect (inode_of s1 p) = ib \<and> fblock s1 p = fblock s p"
        then obtain ib where ib: "r = Inr (ib, de32s SFS_DBPERIDB (s_disk s1 ! ib))" "ib \<noteq> 0" "sfi_indirect (inode_of s1 p) = ib"
          "fblock s1 p k = 0" using f0 by auto
        have f1: "file_at s1 p" "sfs_super s1 = sfs_super s" using a(2) touches_frame(4) by (auto simp: same_file_def)
        from sfs_add_in_indirect [OF f1(1) _ assms(2) ib(4,3,2) refl] False obtain r' s2 where
          c: "bindE (sfs_balloc s1) (\<lambda>blk s. bindE (sfs_wblock (be32s ((de32s SFS_DBPERIDB (s_disk s1 ! ib))[k - SFS_NDIRECT := blk])) ib s)
             (\<lambda>_ s. sfs_handback blk s)) = Ret (r', s2)" "same_file p s1 s2"
             "r' = Inl ENOSPC \<and> used s2 = {..<sp_nblocks (sfs_super s1)} \<or> (\<exists>b. r' = Inr b \<and> b \<noteq> 0 \<and> fblock s2 p k = b)" by auto
        have "sfs_bmap p k True s = Ret (r', s2)"
          using a(1) c(1) ib False k True sv(1) e [OF ib(3,2) refl] by (simp add: sfs_bmap_def Let_def)
        with same_file_trans [OF a(2) c(2)] c(3) f1(2) show ?thesis by auto
      qed
    next
      case ib: False
      have rd: "sfs_rblock (sfi_indirect (sv_i sv)) s = Ret (Inr (s_disk s ! sfi_indirect (sv_i sv)), s)"
        using file_okD(3) [OF sv(3)] ib fs_okD(1,3) [OF sv(2)] by (intro sfs_rblock_ok) blast+
      have iv: "sfi_indirect (inode_of s p) = sfi_indirect (sv_i sv)" by (simp add: sv(4))
      from sfs_add_in_indirect [OF assms(1) _ assms(2) f0 iv ib refl] False e [OF iv ib refl] f0 k rd sv(1) ib
      show ?thesis by (simp add: sfs_bmap_def Let_def)
    qed
  qed
qed

end
