(* ===== verification/SfsIO.thy ===== *)
theory SfsIO
  imports SfsMap
begin

text \<open>
  File-level I/O of SFS against the contents of files, for transfers with a kernel buffer.

  A read returns the bytes of the abstract contents and changes nothing.  A write stops only when the
  disk is full; what it wrote is a prefix of the data, it appears at the position asked for, and no
  other byte of the file and no other file changes.
\<close>

section \<open>Ranges of bytes\<close>

definition get_bytes :: "nat \<Rightarrow> nat \<Rightarrow> (nat \<Rightarrow> byte) \<Rightarrow> byte list" where
  "get_bytes off n f = map f [off..<off + n]"

definition put_bytes :: "nat \<Rightarrow> byte list \<Rightarrow> (nat \<Rightarrow> byte) \<Rightarrow> nat \<Rightarrow> byte" where
  "put_bytes off bs f x = (if off \<le> x \<and> x < off + length bs then bs ! (x - off) else f x)"

lemma get_bytes_length [simp]: "length (get_bytes off n f) = n"
  by (simp add: get_bytes_def)

lemma get_bytes_0 [simp]: "get_bytes off 0 f = []"
  by (simp add: get_bytes_def)

lemma get_bytes_append: "get_bytes off m f @ get_bytes (off + m) n f = get_bytes off (m + n) f"
proof -
  have "[off..<off + (m + n)] = [off..<off + m] @ [off + m..<off + m + n]"
    using upt_add_eq_append [of off "off + m" n] by (simp add: add.assoc)
  then show ?thesis by (simp add: get_bytes_def)
qed

lemma put_bytes_Nil [simp]: "put_bytes off [] f = f"
  by (auto simp: put_bytes_def fun_eq_iff)

lemma put_bytes_append: "put_bytes (off + length a) b (put_bytes off a f) = put_bytes off (a @ b) f"
  by (auto simp: put_bytes_def fun_eq_iff nth_append)

lemma get_put_bytes: "get_bytes off (length bs) (put_bytes off bs f) = bs"
  by (rule nth_equalityI) (simp_all add: get_bytes_def put_bytes_def)

lemma uio_bytes_append:
  assumes "kuio_ok u" "m + n \<le> uio_resid u"
  shows "uio_bytes m u @ uio_bytes n (uio_adv m u) = uio_bytes (m + n) u"
  by (simp add: uio_bytes_def uio_adv_def take_add drop_drop add.commute)

lemma uio_adv_adv: "uio_adv n (uio_adv m u) = uio_adv (m + n) u"
  by (simp add: uio_adv_def)

lemma uio_adv_0 [simp]: "uio_adv 0 u = u"
  by (simp add: uio_adv_def)

lemma uio_fill_Nil [simp]: "uio_fill [] u = u"
  by (simp add: uio_fill_def)

lemma off_of_nat:
  "off_block (int off) = off div SFS_BLOCKSIZE" "off_rest (int off) = off mod SFS_BLOCKSIZE" if "off < 2 ^ 31"
proof -
  have "int off sdiv int SFS_BLOCKSIZE = int (off div SFS_BLOCKSIZE)" "int off smod int SFS_BLOCKSIZE = int (off mod SFS_BLOCKSIZE)"
    by (simp_all add: signed_divide_int_def signed_modulo_int_def sfs_consts sgn_if zdiv_int zmod_int)
  moreover have "off div SFS_BLOCKSIZE < 2 ^ 32" "off mod SFS_BLOCKSIZE < 2 ^ 32"
    using that by (auto intro: le_less_trans [OF div_le_dividend] le_less_trans [OF mod_less_eq_dividend])
  ultimately show "off_block (int off) = off div SFS_BLOCKSIZE" "off_rest (int off) = off mod SFS_BLOCKSIZE"
    by (simp_all add: off_block_def off_rest_def)
qed

section \<open>The contents block by block\<close>

definition block_data :: "sfs_fs \<Rightarrow> nat \<Rightarrow> nat \<Rightarrow> byte list" where
  "block_data s p k = (if fblock s p k = 0 then replicate SFS_BLOCKSIZE 0 else s_disk s ! fblock s p k)"

lemma block_data_length: "file_at s p \<Longrightarrow> length (block_data s p k) = SFS_BLOCKSIZE"
  by (simp add: block_data_def file_at_block(4))

lemma block_div_mod:
  assumes "skip + j < SFS_BLOCKSIZE"
  shows "(k * SFS_BLOCKSIZE + skip + j) div SFS_BLOCKSIZE = k" "(k * SFS_BLOCKSIZE + skip + j) mod SFS_BLOCKSIZE = skip + j"
  using assms by (simp_all add: add.assoc)

lemma block_data_bytes:
  assumes "file_at s p" "skip + len \<le> SFS_BLOCKSIZE" "off = k * SFS_BLOCKSIZE + skip"
  shows "take len (drop skip (block_data s p k)) = get_bytes off len (fdata s p)"
proof (rule nth_equalityI)
  fix j assume "j < length (take len (drop skip (block_data s p k)))"
  then have j: "skip + j < SFS_BLOCKSIZE" "j < len" using assms(2) by auto
  then show "take len (drop skip (block_data s p k)) ! j = get_bytes off len (fdata s p) ! j"
    using block_data_length [OF assms(1), of k] block_div_mod [OF j(1), of k]
    by (simp add: get_bytes_def assms(3) fdata_def file_byte_def block_data_def fblock_def Let_def)
qed (use assms block_data_length [OF assms(1), of k] in simp)

section \<open>Reading\<close>

lemma sfs_partialio_read:
  assumes "file_at s p" "kuio_ok u" "uio_rw u = UIO_READ" "uio_offset u = int off" "off < SFS_MAXBLOCKS * SFS_BLOCKSIZE"
    "skip = off mod SFS_BLOCKSIZE" "skip + len \<le> SFS_BLOCKSIZE" "len \<le> uio_resid u"
  shows "sfs_partialio p skip len u s = Ret ((None, uio_fill (get_bytes off len (fdata s p)) u), s)"
proof -
  let ?k = "off div SFS_BLOCKSIZE"
  have k: "?k < SFS_MAXBLOCKS" using assms(5) by (simp add: div_less_iff_less_mult sfs_consts)
  have o31: "off < 2 ^ 31" using assms(5) by (simp add: SFS_MAXBLOCKS_def sfs_consts)
  note map = sfs_bmap_lookup [OF assms(1) k, of False]
  have b: "fblock s p ?k \<noteq> 0 \<Longrightarrow> sfs_rblock (fblock s p ?k) s = Ret (Inr (s_disk s ! fblock s p ?k), s)"
    using file_at_block(2) [OF assms(1), of ?k] assms(1) by (auto simp: file_at_def intro: sfs_rblock_ok fs_okD(1))
  let ?bs = "get_bytes off len (fdata s p)" and ?l = "drop skip (block_data s p ?k)"
  have bs: "take len ?l = ?bs" using block_data_bytes [OF assms(1,7), of off ?k] assms(6) by simp
  have "uiomove (s_space s) (?bs @ drop len ?l) (length ?bs) u s = Ret ((None, ?bs @ drop len ?l, uio_fill ?bs u), s)"
    using assms(8) by (intro uiomove_read [OF assms(2,3)]) simp
  moreover have "?bs @ drop len ?l = ?l" by (metis bs append_take_drop_id)
  ultimately have mv: "uiomove (s_space s) ?l len u s = Ret ((None, ?l, uio_fill ?bs u), s)" by simp
  have "(skip + len) mod 4294967296 \<le> SFS_BLOCKSIZE" using assms(7) by (simp add: sfs_consts)
  then show ?thesis using map b mv assms(3,4) off_of_nat(1) [OF o31]
    by (cases "fblock s p ?k = 0") (simp_all add: sfs_partialio_def block_data_def)
qed

lemma kuio_at_block:
  assumes "kuio_ok u" "b < 2 ^ 22 - 1" "SFS_BLOCKSIZE \<le> uio_resid u"
  shows "kuio_ok (u\<lparr>uio_offset := int (SFS_BLOCKSIZE * b), uio_resid := SFS_BLOCKSIZE\<rparr>)"
  using assms by (auto simp: kuio_ok_def sfs_consts)

lemma block_restore:
  assumes "kuio_ok u" "SFS_BLOCKSIZE \<le> uio_resid u"
  shows "to_off (int SFS_BLOCKSIZE + uio_offset u) = uio_offset u + int SFS_BLOCKSIZE"
    "nat ((to_off (int (uio_resid u)) - int SFS_BLOCKSIZE) mod 4294967296) = uio_resid u - SFS_BLOCKSIZE"
proof -
  have u: "uio_resid u < 2 ^ 31" "0 \<le> uio_offset u" "uio_offset u + int (uio_resid u) < 2 ^ 31"
    using assms by (auto simp: kuio_ok_def)
  then show "to_off (int SFS_BLOCKSIZE + uio_offset u) = uio_offset u + int SFS_BLOCKSIZE"
    using assms(2) by (simp add: add.commute)
  have "to_off (int (uio_resid u)) - int SFS_BLOCKSIZE = int (uio_resid u - SFS_BLOCKSIZE)" using u(1) assms(2) by simp
  moreover have "uio_resid u - SFS_BLOCKSIZE < 4294967296" using u(1) by simp
  ultimately show "nat ((to_off (int (uio_resid u)) - int SFS_BLOCKSIZE) mod 4294967296) = uio_resid u - SFS_BLOCKSIZE" by simp
qed

lemma diskoff_of:
  assumes "b < 2 ^ 22 - 1"
  shows "to_off (int (b * SFS_BLOCKSIZE)) = int (SFS_BLOCKSIZE * b)"
  using assms by (simp add: sfs_consts mult.commute)

lemma file_at_block22: "file_at s p \<Longrightarrow> fblock s p k \<noteq> 0 \<Longrightarrow> fblock s p k < 2 ^ 22 - 1"
  using file_at_block(2) [of s p k] by (auto simp: file_at_def fs_ok_def disk_ok_def)

lemma sfs_blockio_read:
  assumes "file_at s p" "kuio_ok u" "uio_rw u = UIO_READ" "uio_offset u = int off" "off < SFS_MAXBLOCKS * SFS_BLOCKSIZE"
    "off mod SFS_BLOCKSIZE = 0" "SFS_BLOCKSIZE \<le> uio_resid u"
  shows "sfs_blockio p u s = Ret ((None, uio_fill (get_bytes off SFS_BLOCKSIZE (fdata s p)) u), s)"
proof -
  let ?k = "off div SFS_BLOCKSIZE"
  let ?b = "fblock s p ?k"
  have k: "?k < SFS_MAXBLOCKS" using assms(5) by (simp add: div_less_iff_less_mult sfs_consts)
  have o31: "off < 2 ^ 31" using assms(5) by (simp add: SFS_MAXBLOCKS_def sfs_consts)
  note map = sfs_bmap_lookup [OF assms(1) k, of False]
  have ko: "off = ?k * SFS_BLOCKSIZE + 0" using assms(6) by (metis add.right_neutral div_mult_mod_eq)
  have bd: "get_bytes off SFS_BLOCKSIZE (fdata s p) = block_data s p ?k"
    using block_data_bytes [OF assms(1) _ ko, of SFS_BLOCKSIZE] block_data_length [OF assms(1), of ?k] by simp
  show ?thesis
  proof (cases "?b = 0")
    case True
    then have "get_bytes off SFS_BLOCKSIZE (fdata s p) = replicate SFS_BLOCKSIZE 0" by (simp add: bd block_data_def)
    with True show ?thesis using map uiomovezeros_kernel [OF assms(2,3,7)] assms(3,4) off_of_nat(1) [OF o31]
      by (simp add: sfs_blockio_def)
  next
    case False
    have b22: "?b < 2 ^ 22 - 1" by (rule file_at_block22 [OF assms(1) False])
    let ?u = "u\<lparr>uio_offset := int (SFS_BLOCKSIZE * ?b), uio_resid := SFS_BLOCKSIZE\<rparr>"
    have "lhd_io ?u s = Ret ((None, uio_fill (s_disk s ! ?b) ?u), s)"
      using assms(1,3) file_at_block(2) [OF assms(1) False] kuio_at_block [OF assms(2) b22 assms(7)]
      by (intro lhd_io_read fs_okD(1)) (auto simp: file_at_def)
    then have rw: "sfs_rwblock ?u s = Ret ((None, uio_fill (s_disk s ! ?b) ?u), s)" by (rule sfs_rwblock_ok)
    have len: "length (s_disk s ! ?b) = SFS_BLOCKSIZE" by (rule file_at_block(4) [OF assms(1) False])
    have d: "get_bytes off SFS_BLOCKSIZE (fdata s p) = s_disk s ! ?b" using False by (simp add: bd block_data_def)
    show ?thesis
      using False map rw assms(3,4,7) off_of_nat(1) [OF o31] block_restore [OF assms(2,7)] diskoff_of [OF b22] len
      by (simp add: sfs_blockio_def d Let_def uio_fill_def uio_adv_def)
  qed
qed

lemma sfs_blocks_read:
  assumes "file_at s p" "kuio_ok u" "uio_rw u = UIO_READ" "uio_offset u = int off" "off + n * SFS_BLOCKSIZE \<le> SFS_MAXBLOCKS * SFS_BLOCKSIZE"
    "off mod SFS_BLOCKSIZE = 0" "n * SFS_BLOCKSIZE \<le> uio_resid u"
  shows "sfs_blocks n p u s = Ret ((None, uio_fill (get_bytes off (n * SFS_BLOCKSIZE) (fdata s p)) u), s)"
  using assms(2-)
proof (induction n arbitrary: u off)
  case (Suc n)
  let ?bs = "get_bytes off SFS_BLOCKSIZE (fdata s p)"
  have pos: "SFS_BLOCKSIZE > 0" by (simp add: sfs_consts)
  have one: "sfs_blockio p u s = Ret ((None, uio_fill ?bs u), s)"
    using Suc.prems pos by (intro sfs_blockio_read [OF assms(1)]) simp_all
  have "sfs_blocks n p (uio_fill ?bs u) s =
      Ret ((None, uio_fill (get_bytes (off + SFS_BLOCKSIZE) (n * SFS_BLOCKSIZE) (fdata s p)) (uio_fill ?bs u)), s)"
    using Suc.prems by (intro Suc.IH kuio_ok_fill) simp_all
  also have "uio_fill (get_bytes (off + SFS_BLOCKSIZE) (n * SFS_BLOCKSIZE) (fdata s p)) (uio_fill ?bs u) =
      uio_fill (get_bytes off (Suc n * SFS_BLOCKSIZE) (fdata s p)) u"
    using Suc.prems by (subst uio_fill_append) (simp_all add: get_bytes_append)
  finally show ?case using one by simp
qed simp

text \<open>The first part of a transfer: the rest of the block it starts in.\<close>

definition lead :: "nat \<Rightarrow> nat \<Rightarrow> nat" where
  "lead off r = (if off mod SFS_BLOCKSIZE = 0 then 0 else min (SFS_BLOCKSIZE - off mod SFS_BLOCKSIZE) r)"

lemma lead_bounds: "lead off r \<le> r" "off mod SFS_BLOCKSIZE + lead off r \<le> SFS_BLOCKSIZE"
  "lead off r < r \<Longrightarrow> (off + lead off r) mod SFS_BLOCKSIZE = 0"
proof -
  have m: "off mod SFS_BLOCKSIZE < SFS_BLOCKSIZE" by (simp add: sfs_consts)
  then show "lead off r \<le> r" "off mod SFS_BLOCKSIZE + lead off r \<le> SFS_BLOCKSIZE" by (auto simp: lead_def)
  assume "lead off r < r"
  then have "off mod SFS_BLOCKSIZE = 0 \<and> lead off r = 0 \<or> lead off r = SFS_BLOCKSIZE - off mod SFS_BLOCKSIZE"
    by (auto simp: lead_def min_def split: if_splits)
  moreover have "off + (SFS_BLOCKSIZE - off mod SFS_BLOCKSIZE) = (off div SFS_BLOCKSIZE + 1) * SFS_BLOCKSIZE"
    using m div_mult_mod_eq [of off SFS_BLOCKSIZE] unfolding add_mult_distrib by linarith
  ultimately show "(off + lead off r) mod SFS_BLOCKSIZE = 0" by auto
qed

lemma lead_len:
  assumes "off mod SFS_BLOCKSIZE \<noteq> 0"
  shows "(let len = (SFS_BLOCKSIZE + 4294967296 - off mod SFS_BLOCKSIZE) mod 4294967296 in if len > r then r else len) = lead off r"
proof -
  have m: "off mod SFS_BLOCKSIZE < SFS_BLOCKSIZE" by (simp add: sfs_consts)
  have "(SFS_BLOCKSIZE + 4294967296 - off mod SFS_BLOCKSIZE) mod 4294967296 = SFS_BLOCKSIZE - off mod SFS_BLOCKSIZE"
    using m by (intro resid_minus) (simp_all add: sfs_consts)
  then show ?thesis using assms by (auto simp: lead_def Let_def)
qed

lemma sfs_lead_read:
  assumes "file_at s p" "kuio_ok u" "uio_rw u = UIO_READ" "uio_offset u = int off" "off + uio_resid u \<le> SFS_MAXBLOCKS * SFS_BLOCKSIZE"
    "off < SFS_MAXBLOCKS * SFS_BLOCKSIZE" "off mod SFS_BLOCKSIZE \<noteq> 0"
  shows "sfs_partialio p (off mod SFS_BLOCKSIZE) (lead off (uio_resid u)) u s =
    Ret ((None, uio_fill (get_bytes off (lead off (uio_resid u)) (fdata s p)) u), s)"
  using assms lead_bounds [of off "uio_resid u"] by (intro sfs_partialio_read) auto

text \<open>A transfer is a leading part, whole blocks, and a rest.\<close>

lemma transfer_parts:
  obtains l n t where "l = lead off r" "n = (r - l) div SFS_BLOCKSIZE" "l + n * SFS_BLOCKSIZE + t = r" "t < SFS_BLOCKSIZE"
    "r - l \<noteq> 0 \<longrightarrow> (off + l) mod SFS_BLOCKSIZE = 0"
proof
  show "lead off r + (r - lead off r) div SFS_BLOCKSIZE * SFS_BLOCKSIZE + (r - lead off r) mod SFS_BLOCKSIZE = r"
    using lead_bounds(1) [of off r] by (simp add: add.assoc)
  show "(r - lead off r) mod SFS_BLOCKSIZE < SFS_BLOCKSIZE" by (simp add: sfs_consts)
qed (use lead_bounds [of off r] in auto)

lemma off_rest_aligned: "off mod SFS_BLOCKSIZE = 0 \<Longrightarrow> off < 2 ^ 31 \<Longrightarrow> off_rest (int off) = 0"
  using off_of_nat(2) by simp

lemma sfs_transfer_read:
  assumes "file_at s p" "kuio_ok u" "uio_rw u = UIO_READ" "uio_offset u = int off" "off + uio_resid u \<le> SFS_MAXBLOCKS * SFS_BLOCKSIZE"
    "off < SFS_MAXBLOCKS * SFS_BLOCKSIZE"
  shows "sfs_transfer p u s = Ret ((None, uio_fill (get_bytes off (uio_resid u) (fdata s p)) u), s)"
proof -
  let ?r = "uio_resid u" and ?f = "fdata s p"
  obtain l n t where l: "l = lead off ?r" and n: "n = (?r - l) div SFS_BLOCKSIZE" and split: "l + n * SFS_BLOCKSIZE + t = ?r"
    and t: "t < SFS_BLOCKSIZE" and al: "?r - l \<noteq> 0 \<longrightarrow> (off + l) mod SFS_BLOCKSIZE = 0" by (rule transfer_parts [of off ?r])
  let ?u1 = "uio_fill (get_bytes off l ?f) u"
  have o31: "off + ?r < 2 ^ 31" "off < 2 ^ 31" using assms(5,6) by (simp_all add: SFS_MAXBLOCKS_def sfs_consts)
  have k1: "kuio_ok ?u1" using split by (intro kuio_ok_fill [OF assms(2)]) simp
  have first: "sfs_transfer p u s = (if ?r - l = 0 then Ret ((None, ?u1), s)
      else assertk (off_rest (int (off + l)) = 0)
        (andthen (sfs_blocks n p ?u1 s) (\<lambda>((result, u), s).
         if result \<noteq> None then Ret ((result, u), s)
         else assertk (uio_resid u < SFS_BLOCKSIZE)
           (if uio_resid u > 0 then sfs_partialio p 0 (uio_resid u) u s else Ret ((None, u), s)))))"
    using sfs_lead_read [OF assms] lead_len [of off ?r] off_of_nat(2) [OF o31(2)] assms(4)
    by (cases "off mod SFS_BLOCKSIZE = 0") (simp_all add: sfs_transfer_def lead_def Let_def l n)
  show ?thesis
  proof (cases "?r - l = 0")
    case True
    with split have "l = ?r" by simp
    with first True show ?thesis by simp
  next
    case False
    let ?nb = "n * SFS_BLOCKSIZE"
    let ?u2 = "uio_fill (get_bytes off (l + ?nb) ?f) u"
    have o0: "off_rest (int (off + l)) = 0" using split o31(1) by (intro off_rest_aligned al [rule_format] False) simp
    have "sfs_blocks n p ?u1 s = Ret ((None, uio_fill (get_bytes (off + l) ?nb ?f) ?u1), s)"
      using assms(3-5) al False split by (intro sfs_blocks_read [OF assms(1) k1]) simp_all
    also have "uio_fill (get_bytes (off + l) ?nb ?f) ?u1 = ?u2"
      using assms(2) split by (subst uio_fill_append) (simp_all add: get_bytes_append)
    finally have blocks: "sfs_blocks n p ?u1 s = Ret ((None, ?u2), s)" .
    have k2: "kuio_ok ?u2" using split by (intro kuio_ok_fill [OF assms(2)]) simp
    have r2: "uio_resid ?u2 = t" using split by simp
    have al2: "(off + (l + ?nb)) mod SFS_BLOCKSIZE = 0" using al False mod_mult_self1 [of "off + l" n SFS_BLOCKSIZE] by (simp add: add.assoc)
    have last: "sfs_partialio p 0 t ?u2 s = Ret ((None, uio_fill (get_bytes (off + (l + ?nb)) t ?f) ?u2), s)" if "t > 0"
      using that assms(3-5) al2 split r2 t by (intro sfs_partialio_read [OF assms(1) k2]) simp_all
    have "uio_fill (get_bytes (off + (l + ?nb)) t ?f) ?u2 = uio_fill (get_bytes off (l + ?nb + t) ?f) u"
      using assms(2) split by (subst uio_fill_append) (simp_all add: get_bytes_append)
    then have "uio_fill (get_bytes (off + (l + ?nb)) t ?f) ?u2 = uio_fill (get_bytes off ?r ?f) u" by (simp only: split)
    moreover have "t = 0 \<Longrightarrow> ?u2 = uio_fill (get_bytes off ?r ?f) u" using split by simp
    ultimately show ?thesis using first False o0 blocks r2 t last by (cases "t = 0") simp_all
  qed
qed

lemma sfs_io_read:
  assumes "file_at s p" "kuio_ok u" "uio_rw u = UIO_READ" "uio_offset u = int off" "fsize s p \<le> SFS_MAXBLOCKS * SFS_BLOCKSIZE"
  shows "sfs_io p u s = Ret ((None, uio_fill (get_bytes off (min (uio_resid u) (fsize s p - off)) (fdata s p)) u), s)"
proof -
  let ?sz = "fsize s p" and ?r = "uio_resid u"
  obtain sv where sv: "s_vn s p = Some sv" "inode_of s p = sv_i sv" using assms(1) by (rule file_atE)
  then have szi: "to_off (int (sfi_size (sv_i sv))) = int ?sz"
    using assms(5) by (simp add: fsize_def SFS_MAXBLOCKS_def sfs_consts)
  have e: "to_off (int off + int ?r) = int off + int ?r" using assms(2,4) by (simp add: kuio_ok_def)
  show ?thesis
  proof (cases "off \<ge> ?sz")
    case True
    then show ?thesis using sv szi assms(3,4) by (simp add: sfs_io_def)
  next
    case False
    have "?r = min ?r (?sz - off) + (off + ?r - ?sz)" using False by auto
    then obtain n x where n: "n = min ?r (?sz - off)" and x: "x = off + ?r - ?sz" and r: "?r = n + x"
      by (rule that [OF refl refl])
    let ?u = "u\<lparr>uio_resid := n\<rparr>"
    have x32: "x < 2 ^ 32" using assms(2) r by (auto simp: kuio_ok_def)
    have ex: "sfs_extraresid (int ?sz) u = x"
    proof (cases "off + ?r > ?sz")
      case True
      moreover have "int off + int ?r - int ?sz = int x" using True x by simp
      ultimately show ?thesis using x32 e assms(3,4) by (simp add: sfs_extraresid_def)
    qed (use x e assms(4) in \<open>auto simp: sfs_extraresid_def\<close>)
    have le: "off + n \<le> SFS_MAXBLOCKS * SFS_BLOCKSIZE" "off < SFS_MAXBLOCKS * SFS_BLOCKSIZE" using False assms(5) n by auto
    have as: "x = 0 \<or> ?r > x" using False x by auto
    have k: "kuio_ok ?u" using assms(2) r by (auto simp: kuio_ok_def)
    have t: "sfs_transfer p (u\<lparr>uio_resid := ?r - x\<rparr>) s = Ret ((None, uio_fill (get_bytes off n (fdata s p)) ?u), s)"
      using sfs_transfer_read [OF assms(1) k, of off] assms(3,4) le r by simp
    have "sfs_io_out p x None (uio_fill bs ?u) s = Ret ((None, uio_fill bs u), s)" if "length bs = n" for bs
      using that x32 sv(1) assms(3) by (simp add: sfs_io_out_def uio_fill_def uio_adv_def r)
    then show ?thesis
      unfolding n [symmetric] using sv szi ex as False assms(3,4) t by (simp add: sfs_io_def)
  qed
qed

section \<open>Writing\<close>

definition wrote :: "nat \<Rightarrow> nat \<Rightarrow> byte list \<Rightarrow> sfs_fs \<Rightarrow> sfs_fs \<Rightarrow> bool" where
  "wrote p off bs s s' \<longleftrightarrow>
     touches p s s' \<and> file_at s' p \<and> fdata s' p = put_bytes off bs (fdata s p) \<and> fsize s' p = fsize s p"

lemma same_file_wrote: "same_file p s s' \<Longrightarrow> wrote p off [] s s'"
  by (simp add: same_file_def wrote_def)

lemma wrote_trans:
  assumes "wrote p off a s s'" "wrote p (off + length a) b s' s''"
  shows "wrote p off (a @ b) s s''"
  using assms by (auto simp: wrote_def put_bytes_append intro: touches_trans)

lemma wrote_same: "same_file p s s' \<Longrightarrow> wrote p off b s' s'' \<Longrightarrow> wrote p off b s s''"
  using wrote_trans [OF same_file_wrote, of p s s' off b s''] by simp

lemma block_write:
  assumes "file_at s p" "fblock s p k = b" "b \<noteq> 0" "length blk = SFS_BLOCKSIZE"
  defines "s' \<equiv> s\<lparr>s_disk := (s_disk s)[b := blk]\<rparr>"
  shows "touches p s s'" "file_at s' p" "fsize s' p = fsize s p"
    "fdata s' p x = (if x div SFS_BLOCKSIZE = k then blk ! (x mod SFS_BLOCKSIZE) else fdata s p x)"
proof -
  from assms(1) obtain sv where sv: "s_vn s p = Some sv" "fs_ok s" "file_ok (used s) (s_disk s) (sv_i sv)" "inode_of s p = sv_i sv"
    by (rule file_atE)
  have b: "b < length (s_disk s)" using file_at_block(2) [OF assms(1), of k] assms(2,3) by simp
  have iv: "inode_of s' p = sv_i sv" "s_disk s' = (s_disk s)[b := blk]" "used s' = used s" using sv(1) by (simp_all add: s'_def inode_of_def)
  have fk: "file_block (s_disk s) (sv_i sv) k = b" using assms(2) by (simp add: fblock_def sv(4))
  note fw = file_ok_write [OF sv(3) fk assms(3) b, of blk]
  have fbs: "fblocks s' p = fblocks s p" using fw(2) by (simp add: fblocks_def iv sv(4))
  have bin: "b \<in> fblocks s p" using fk assms(3) by (auto simp: fblocks_def sv(4) file_blocks_def)
  show "file_at s' p" using fw(1) fs_ok_write [OF sv(2) assms(4), of b] sv(1) by (simp add: file_at_def iv) (simp add: s'_def)
  show "fsize s' p = fsize s p" by (simp add: fsize_def iv sv(4))
  show "fdata s' p x = (if x div SFS_BLOCKSIZE = k then blk ! (x mod SFS_BLOCKSIZE) else fdata s p x)"
    using file_byte_write(2) [OF sv(3) fk assms(3) b] by (simp add: fdata_def iv sv(4))
  have seq: "s' = s\<lparr>s_disk := (s_disk s)[b := blk], sfs_freemap := sfs_freemap s, sfs_freemapdirty := sfs_freemapdirty s,
      s_vn := (s_vn s)(p \<mapsto> sv\<lparr>sv_i := sv_i sv, sv_dirty := sv_dirty sv\<rparr>)\<rparr>"
    using sv(1) by (simp add: s'_def fun_upd_idem)
  show "touches p s s'"
  proof (rule touchesI [OF sv(1) seq refl refl])
    fix c assume "c \<in> used s - fblocks s p"
    with bin show "s_disk s' ! c = s_disk s ! c" unfolding iv(2) by (metis DiffE nth_list_update_neq)
  qed (auto simp: iv fbs)
qed

lemma block_wrote:
  assumes "file_at s p" "fblock s p k = b" "b \<noteq> 0" "off = k * SFS_BLOCKSIZE + skip" "skip + length bs \<le> SFS_BLOCKSIZE"
  defines "old \<equiv> s_disk s ! b"
  shows "wrote p off bs s (s\<lparr>s_disk := (s_disk s)[b := take skip old @ bs @ drop (skip + length bs) old]\<rparr>)"
proof -
  let ?blk = "take skip old @ bs @ drop (skip + length bs) old"
  have ol: "length old = SFS_BLOCKSIZE" using file_at_block(4) [OF assms(1), of k] assms(2,3) by (simp add: old_def)
  then have len: "length ?blk = SFS_BLOCKSIZE" using assms(5) by simp
  note bw = block_write [OF assms(1-3) len]
  have "(if x div SFS_BLOCKSIZE = k then ?blk ! (x mod SFS_BLOCKSIZE) else fdata s p x) = put_bytes off bs (fdata s p) x" for x
  proof (cases "x div SFS_BLOCKSIZE = k")
    case True
    let ?m = "x mod SFS_BLOCKSIZE"
    have x: "x = k * SFS_BLOCKSIZE + ?m" using True div_mult_mod_eq [of x SFS_BLOCKSIZE] by simp
    have m: "?m < SFS_BLOCKSIZE" by (simp add: sfs_consts)
    have fd: "fdata s p x = old ! ?m" using True assms(2,3) by (simp add: fdata_def file_byte_def fblock_def old_def Let_def)
    have "?blk ! ?m = (if skip \<le> ?m \<and> ?m < skip + length bs then bs ! (?m - skip) else old ! ?m)"
      using m ol assms(5) by (auto simp: nth_append)
    moreover have "off \<le> x \<longleftrightarrow> skip \<le> ?m" "x < off + length bs \<longleftrightarrow> ?m < skip + length bs" "x - off = ?m - skip"
      using x assms(4) by linarith+
    ultimately show ?thesis using True fd by (simp add: put_bytes_def)
  next
    case False
    have "\<not> (off \<le> x \<and> x < off + length bs)"
    proof
      assume a: "off \<le> x \<and> x < off + length bs"
      then obtain j where j: "x = off + j" "j < length bs" by (metis add_less_cancel_left le_Suc_ex)
      then have "skip + j < SFS_BLOCKSIZE" using assms(5) by simp
      with block_div_mod(1) [OF this, of k] False j(1) assms(4) show False by simp
    qed
    with False show ?thesis by (auto simp: put_bytes_def)
  qed
  then have "fdata (s\<lparr>s_disk := (s_disk s)[b := ?blk]\<rparr>) p = put_bytes off bs (fdata s p)" using bw(4) by (simp add: fun_eq_iff)
  with bw(1-3) show ?thesis by (simp add: wrote_def)
qed

lemma sfs_partialio_write:
  assumes "file_at s p" "kuio_ok u" "uio_rw u = UIO_WRITE" "uio_offset u = int off" "off < SFS_MAXBLOCKS * SFS_BLOCKSIZE"
    "skip = off mod SFS_BLOCKSIZE" "skip + len \<le> SFS_BLOCKSIZE" "len \<le> uio_resid u"
  shows "\<exists>r n s'. sfs_partialio p skip len u s = Ret ((r, uio_adv n u), s') \<and> wrote p off (uio_bytes n u) s s' \<and>
    (r = None \<and> n = len \<or>
     r = Some ENOSPC \<and> n = 0 \<and> used s' = {..<sp_nblocks (sfs_super s)} \<and> fblock s p (off div SFS_BLOCKSIZE) = 0)"
proof -
  let ?k = "off div SFS_BLOCKSIZE"
  have k: "?k < SFS_MAXBLOCKS" using assms(5) by (simp add: div_less_iff_less_mult sfs_consts)
  have o31: "off < 2 ^ 31" using assms(5) by (simp add: SFS_MAXBLOCKS_def sfs_consts)
  have as: "(skip + len) mod 4294967296 \<le> SFS_BLOCKSIZE" using assms(7) by (simp add: sfs_consts)
  from sfs_bmap_alloc [OF assms(1) k] obtain r s1 where m: "sfs_bmap p ?k True s = Ret (r, s1)" "same_file p s s1"
    and c: "r = Inl ENOSPC \<and> used s1 = {..<sp_nblocks (sfs_super s)} \<or> (\<exists>b. r = Inr b \<and> b \<noteq> 0 \<and> fblock s1 p ?k = b)" by blast
  from c show ?thesis
  proof
    assume full: "r = Inl ENOSPC \<and> used s1 = {..<sp_nblocks (sfs_super s)}"
    then have "fblock s p ?k = 0" using sfs_bmap_lookup [OF assms(1) k, of True] m(1) by auto
    with full m same_file_wrote [OF m(2)] as assms(3,4) off_of_nat(1) [OF o31] show ?thesis
      by (intro exI [of _ "Some ENOSPC"] exI [of _ 0] exI [of _ s1]) (simp add: sfs_partialio_def uio_bytes_def)
  next
    assume "\<exists>b. r = Inr b \<and> b \<noteq> 0 \<and> fblock s1 p ?k = b"
    then obtain b where b: "r = Inr b" "b \<noteq> 0" "fblock s1 p ?k = b" by blast
    have f1: "file_at s1 p" using m(2) by (simp add: same_file_def)
    have d1: "disk_ok s1" "b < length (s_disk s1)" using f1 file_at_block(2) [OF f1, of ?k] b by (auto simp: file_at_def fs_ok_def)
    let ?old = "s_disk s1 ! b" and ?bs = "uio_bytes len u"
    have ol: "length ?old = SFS_BLOCKSIZE" using file_at_block(4) [OF f1, of ?k] b by simp
    have bl: "length ?bs = len" by (rule uio_bytes_length [OF assms(2,8)])
    let ?blk = "take skip ?old @ ?bs @ drop (skip + len) ?old"
    have mv: "uiomove (s_space s1) (drop skip ?old) len u s1 = Ret ((None, ?bs @ drop len (drop skip ?old), uio_adv len u), s1)"
      using ol assms(7) by (intro uiomove_write [OF assms(2,3,8)]) simp
    have wb: "sfs_wblock ?blk b s1 = Ret (Inr (), s1\<lparr>s_disk := (s_disk s1)[b := ?blk]\<rparr>)"
      using ol bl assms(7) by (intro sfs_wblock_ok [OF d1]) simp
    have "wrote p off ?bs s1 (s1\<lparr>s_disk := (s_disk s1)[b := ?blk]\<rparr>)"
      using block_wrote [OF f1 b(3,2), of off skip ?bs] bl assms(6,7) by simp
    then have "wrote p off ?bs s (s1\<lparr>s_disk := (s_disk s1)[b := ?blk]\<rparr>)" by (rule wrote_same [OF m(2)])
    moreover have "sfs_partialio p skip len u s = Ret ((None, uio_adv len u), s1\<lparr>s_disk := (s_disk s1)[b := ?blk]\<rparr>)"
      using m(1) b as assms(3,4) off_of_nat(1) [OF o31] sfs_rblock_ok [OF d1] mv wb by (simp add: sfs_partialio_def add.commute)
    ultimately show ?thesis by blast
  qed
qed

lemma sfs_blockio_write:
  assumes "file_at s p" "kuio_ok u" "uio_rw u = UIO_WRITE" "uio_offset u = int off" "off < SFS_MAXBLOCKS * SFS_BLOCKSIZE"
    "off mod SFS_BLOCKSIZE = 0" "SFS_BLOCKSIZE \<le> uio_resid u"
  shows "\<exists>r n s'. sfs_blockio p u s = Ret ((r, uio_adv n u), s') \<and> wrote p off (uio_bytes n u) s s' \<and>
    (r = None \<and> n = SFS_BLOCKSIZE \<or> r = Some ENOSPC \<and> n = 0 \<and> used s' = {..<sp_nblocks (sfs_super s)})"
proof -
  let ?k = "off div SFS_BLOCKSIZE"
  have k: "?k < SFS_MAXBLOCKS" using assms(5) by (simp add: div_less_iff_less_mult sfs_consts)
  have o31: "off < 2 ^ 31" using assms(5) by (simp add: SFS_MAXBLOCKS_def sfs_consts)
  have ko: "off = ?k * SFS_BLOCKSIZE + 0" using assms(6) by (metis add.right_neutral div_mult_mod_eq)
  from sfs_bmap_alloc [OF assms(1) k] obtain r s1 where m: "sfs_bmap p ?k True s = Ret (r, s1)" "same_file p s s1"
    and c: "r = Inl ENOSPC \<and> used s1 = {..<sp_nblocks (sfs_super s)} \<or> (\<exists>b. r = Inr b \<and> b \<noteq> 0 \<and> fblock s1 p ?k = b)" by blast
  from c show ?thesis
  proof
    assume "r = Inl ENOSPC \<and> used s1 = {..<sp_nblocks (sfs_super s)}"
    with m same_file_wrote [OF m(2)] assms(3,4) off_of_nat(1) [OF o31] show ?thesis
      by (intro exI [of _ "Some ENOSPC"] exI [of _ 0] exI [of _ s1]) (simp add: sfs_blockio_def uio_bytes_def)
  next
    assume "\<exists>b. r = Inr b \<and> b \<noteq> 0 \<and> fblock s1 p ?k = b"
    then obtain b where b: "r = Inr b" "b \<noteq> 0" "fblock s1 p ?k = b" by blast
    have f1: "file_at s1 p" using m(2) by (simp add: same_file_def)
    have d1: "disk_ok s1" "b < length (s_disk s1)" using f1 file_at_block(2) [OF f1, of ?k] b by (auto simp: file_at_def fs_ok_def)
    have b22: "b < 2 ^ 22 - 1" using file_at_block22 [OF f1, of ?k] b by simp
    let ?u = "u\<lparr>uio_offset := int (SFS_BLOCKSIZE * b), uio_resid := SFS_BLOCKSIZE\<rparr>" and ?bs = "uio_bytes SFS_BLOCKSIZE u"
    have bl: "length ?bs = SFS_BLOCKSIZE" by (rule uio_bytes_length [OF assms(2,7)])
    let ?s2 = "s1\<lparr>s_disk := (s_disk s1)[b := ?bs]\<rparr>"
    have "lhd_io ?u s1 = Ret ((None, uio_adv SFS_BLOCKSIZE ?u), s1\<lparr>s_disk := (s_disk s1)[b := uio_bytes SFS_BLOCKSIZE ?u]\<rparr>)"
      using assms(3) kuio_at_block [OF assms(2) b22 assms(7)] by (intro lhd_io_write [OF d1]) auto
    then have rw: "sfs_rwblock ?u s1 = Ret ((None, uio_adv SFS_BLOCKSIZE ?u), ?s2)"
      by (simp add: sfs_rwblock_ok uio_bytes_def)
    have ol: "length (s_disk s1 ! b) = SFS_BLOCKSIZE" using file_at_block(4) [OF f1, of ?k] b by simp
    have "wrote p off ?bs s1 ?s2" using block_wrote [OF f1 b(3,2) ko, of ?bs] bl ol by simp
    then have "wrote p off ?bs s ?s2" by (rule wrote_same [OF m(2)])
    moreover have "sfs_blockio p u s = Ret ((None, uio_adv SFS_BLOCKSIZE u), ?s2)"
      using m(1) b rw assms(3,4,7) off_of_nat(1) [OF o31] block_restore [OF assms(2,7)] diskoff_of [OF b22]
      by (simp add: sfs_blockio_def Let_def uio_adv_def)
    ultimately show ?thesis by blast
  qed
qed

text \<open>The outcome of a write of \<open>len\<close> bytes.\<close>

definition write_result :: "nat \<Rightarrow> uio \<Rightarrow> nat \<Rightarrow> sfs_fs \<Rightarrow> ((status \<times> uio) \<times> sfs_fs) run \<Rightarrow> bool" where
  "write_result p u len s res \<longleftrightarrow>
     (\<exists>r n s'. res = Ret ((r, uio_adv n u), s') \<and> wrote p (nat (uio_offset u)) (uio_bytes n u) s s' \<and>
       (r = None \<and> n = len \<or> r = Some ENOSPC \<and> n \<le> len \<and> used s' = {..<sp_nblocks (sfs_super s)}))"

lemma write_resultE:
  assumes "write_result p u len s res"
  obtains r n s' where "res = Ret ((r, uio_adv n u), s')" "wrote p (nat (uio_offset u)) (uio_bytes n u) s s'"
    "r = None \<and> n = len \<or> r = Some ENOSPC \<and> n \<le> len \<and> used s' = {..<sp_nblocks (sfs_super s)}"
  using assms unfolding write_result_def by (elim exE conjE) (rule that)

lemma write_result_then:
  assumes "write_result p u m s res" "kuio_ok u" "m + len \<le> uio_resid u"
    and cont: "\<And>s'. wrote p (nat (uio_offset u)) (uio_bytes m u) s s' \<Longrightarrow> write_result p (uio_adv m u) len s' (f (uio_adv m u) s')"
  shows "write_result p u (m + len) s (andthen res (\<lambda>((result, u), s). if result \<noteq> None then Ret ((result, u), s) else f u s))"
proof -
  from assms(1) obtain r n s1 where r: "res = Ret ((r, uio_adv n u), s1)" "wrote p (nat (uio_offset u)) (uio_bytes n u) s s1"
    and c: "r = None \<and> n = m \<or> r = Some ENOSPC \<and> n \<le> m \<and> used s1 = {..<sp_nblocks (sfs_super s)}"
    by (rule write_resultE)
  from c show ?thesis
  proof
    assume "r = Some ENOSPC \<and> n \<le> m \<and> used s1 = {..<sp_nblocks (sfs_super s)}"
    with r show ?thesis unfolding write_result_def by (intro exI [of _ r] exI [of _ n] exI [of _ s1]) simp
  next
    assume rn: "r = None \<and> n = m"
    with cont [of s1] r(2) have "write_result p (uio_adv m u) len s1 (f (uio_adv m u) s1)" by simp
    then obtain r2 n2 s2 where s2: "f (uio_adv m u) s1 = Ret ((r2, uio_adv n2 (uio_adv m u)), s2)"
        "wrote p (nat (uio_offset (uio_adv m u))) (uio_bytes n2 (uio_adv m u)) s1 s2"
      and c2: "r2 = None \<and> n2 = len \<or> r2 = Some ENOSPC \<and> n2 \<le> len \<and> used s2 = {..<sp_nblocks (sfs_super s1)}"
      by (rule write_resultE)
    have n2: "m + n2 \<le> uio_resid u" using c2 assms(3) by (elim disjE conjE) simp_all
    have lb: "length (uio_bytes m u) = m" using assms(3) by (intro uio_bytes_length [OF assms(2)]) simp
    have off: "nat (uio_offset (uio_adv m u)) = nat (uio_offset u) + length (uio_bytes m u)"
      using assms(2) lb by (simp add: kuio_ok_def nat_add_distrib)
    have "wrote p (nat (uio_offset u)) (uio_bytes m u @ uio_bytes n2 (uio_adv m u)) s s2"
      using r(2) rn s2(2) unfolding off by (auto intro: wrote_trans)
    then have "wrote p (nat (uio_offset u)) (uio_bytes (m + n2) u) s s2" by (simp add: uio_bytes_append [OF assms(2) n2])
    moreover have "sfs_super s1 = sfs_super s" using r(2) touches_frame(4) by (auto simp: wrote_def)
    ultimately show ?thesis
      unfolding write_result_def using r(1) rn s2(1) c2
      by (intro exI [of _ r2] exI [of _ "m + n2"] exI [of _ s2]) (auto simp: uio_adv_adv)
  qed
qed

lemma write_result_Nil: "file_at s p \<Longrightarrow> write_result p u 0 s (Ret ((None, u), s))"
  unfolding write_result_def
  by (intro exI [of _ None] exI [of _ 0] exI [of _ s]) (simp add: uio_bytes_def wrote_def touches_refl)

lemma wrote_file_at: "wrote p off bs s s' \<Longrightarrow> file_at s' p"
  by (simp add: wrote_def)

lemma sfs_partialio_result:
  assumes "file_at s p" "kuio_ok u" "uio_rw u = UIO_WRITE" "uio_offset u = int off" "off < SFS_MAXBLOCKS * SFS_BLOCKSIZE"
    "skip = off mod SFS_BLOCKSIZE" "skip + len \<le> SFS_BLOCKSIZE" "len \<le> uio_resid u"
  shows "write_result p u len s (sfs_partialio p skip len u s)"
  using sfs_partialio_write [OF assms] unfolding write_result_def assms(4) nat_int
  by (elim exE conjE) (intro exI conjI, assumption+, elim disjE conjE, simp_all)

lemma sfs_blockio_result:
  assumes "file_at s p" "kuio_ok u" "uio_rw u = UIO_WRITE" "uio_offset u = int off" "off < SFS_MAXBLOCKS * SFS_BLOCKSIZE"
    "off mod SFS_BLOCKSIZE = 0" "SFS_BLOCKSIZE \<le> uio_resid u"
  shows "write_result p u SFS_BLOCKSIZE s (sfs_blockio p u s)"
  using sfs_blockio_write [OF assms] unfolding write_result_def assms(4) nat_int
  by (elim exE conjE) (intro exI conjI, assumption+, elim disjE conjE, simp_all)

lemma sfs_blocks_write:
  assumes "file_at s p" "kuio_ok u" "uio_rw u = UIO_WRITE" "uio_offset u = int off" "off + n * SFS_BLOCKSIZE \<le> SFS_MAXBLOCKS * SFS_BLOCKSIZE"
    "off mod SFS_BLOCKSIZE = 0" "n * SFS_BLOCKSIZE \<le> uio_resid u"
  shows "write_result p u (n * SFS_BLOCKSIZE) s (sfs_blocks n p u s)"
  using assms
proof (induction n arbitrary: u off s)
  case 0
  then show ?case by (simp add: write_result_Nil)
next
  case (Suc n)
  have "write_result p u (SFS_BLOCKSIZE + n * SFS_BLOCKSIZE) s (andthen (sfs_blockio p u s)
      (\<lambda>((result, u), s). if result \<noteq> None then Ret ((result, u), s) else sfs_blocks n p u s))"
  proof (rule write_result_then)
    have "SFS_BLOCKSIZE > 0" by (simp add: sfs_consts)
    with Suc.prems show "write_result p u SFS_BLOCKSIZE s (sfs_blockio p u s)"
      by (intro sfs_blockio_result [of s p u off]) simp_all
    fix s' assume "wrote p (nat (uio_offset u)) (uio_bytes SFS_BLOCKSIZE u) s s'"
    with Suc.prems show "write_result p (uio_adv SFS_BLOCKSIZE u) (n * SFS_BLOCKSIZE) s' (sfs_blocks n p (uio_adv SFS_BLOCKSIZE u) s')"
      by (intro Suc.IH [of s' _ "off + SFS_BLOCKSIZE"] kuio_ok_adv wrote_file_at) simp_all
  qed (use Suc.prems in simp_all)
  then show ?case by simp
qed

lemma sfs_transfer_write:
  assumes "file_at s p" "kuio_ok u" "uio_rw u = UIO_WRITE" "uio_offset u = int off" "off + uio_resid u \<le> SFS_MAXBLOCKS * SFS_BLOCKSIZE"
    "off < SFS_MAXBLOCKS * SFS_BLOCKSIZE"
  shows "write_result p u (uio_resid u) s (sfs_transfer p u s)"
proof -
  let ?r = "uio_resid u"
  obtain l n t where l: "l = lead off ?r" and n: "n = (?r - l) div SFS_BLOCKSIZE" and split: "l + n * SFS_BLOCKSIZE + t = ?r"
    and t: "t < SFS_BLOCKSIZE" and al: "?r - l \<noteq> 0 \<longrightarrow> (off + l) mod SFS_BLOCKSIZE = 0" by (rule transfer_parts [of off ?r])
  have o31: "off + ?r < 2 ^ 31" "off < 2 ^ 31" using assms(5,6) by (simp_all add: SFS_MAXBLOCKS_def sfs_consts)
  let ?first = "if off mod SFS_BLOCKSIZE \<noteq> 0 then sfs_partialio p (off mod SFS_BLOCKSIZE) l u s else Ret ((None, u), s)"
  let ?tail = "\<lambda>u s. assertk (uio_resid u < SFS_BLOCKSIZE)
    (if uio_resid u > 0 then sfs_partialio p 0 (uio_resid u) u s else Ret ((None, u), s))"
  let ?rest = "\<lambda>u s. if uio_resid u = 0 then Ret ((None, u), s) else assertk (off_rest (uio_offset u) = 0)
    (andthen (sfs_blocks (uio_resid u div SFS_BLOCKSIZE) p u s) (\<lambda>((result, u), s).
     if result \<noteq> None then Ret ((result, u), s) else ?tail u s))"
  have eq: "sfs_transfer p u s = andthen ?first (\<lambda>((result, u), s). if result \<noteq> None then Ret ((result, u), s) else ?rest u s)"
    using lead_len [of off ?r] off_of_nat(2) [OF o31(2)] assms(4) by (simp add: sfs_transfer_def Let_def l)
  have first: "write_result p u l s ?first"
  proof (cases "off mod SFS_BLOCKSIZE = 0")
    case True
    with assms(1) l show ?thesis by (simp add: lead_def write_result_Nil)
  next
    case False
    with assms lead_bounds [of off ?r] l show ?thesis by (simp add: sfs_partialio_result)
  qed
  have k1: "kuio_ok (uio_adv l u)" using split by (intro kuio_ok_adv [OF assms(2)]) simp
  have rest: "write_result p (uio_adv l u) (?r - l) s1 (?rest (uio_adv l u) s1)" if f1: "file_at s1 p" for s1
  proof (cases "?r - l = 0")
    case True
    with write_result_Nil [OF f1] show ?thesis by simp
  next
    case False
    have o0: "off_rest (int (off + l)) = 0" using split o31(1) by (intro off_rest_aligned al [rule_format] False) simp
    have rl: "?r - l = n * SFS_BLOCKSIZE + t" using split by simp
    have "write_result p (uio_adv l u) (n * SFS_BLOCKSIZE + t) s1 (andthen (sfs_blocks n p (uio_adv l u) s1) (\<lambda>((result, u), s).
      if result \<noteq> None then Ret ((result, u), s) else ?tail u s))"
    proof (rule write_result_then [where f = ?tail, OF _ k1])
      show "write_result p (uio_adv l u) (n * SFS_BLOCKSIZE) s1 (sfs_blocks n p (uio_adv l u) s1)"
        using assms(3-5) al False split by (intro sfs_blocks_write [OF f1 k1, of "off + l"]) simp_all
      show "n * SFS_BLOCKSIZE + t \<le> uio_resid (uio_adv l u)" using rl by simp
      fix s2 assume w: "wrote p (nat (uio_offset (uio_adv l u))) (uio_bytes (n * SFS_BLOCKSIZE) (uio_adv l u)) s1 s2"
      let ?u2 = "uio_adv (n * SFS_BLOCKSIZE) (uio_adv l u)"
      have k2: "kuio_ok ?u2" using rl by (intro kuio_ok_adv [OF k1]) simp
      have r2: "uio_resid ?u2 = t" using split by simp
      have al2: "(off + l + n * SFS_BLOCKSIZE) mod SFS_BLOCKSIZE = 0" using al False by simp
      have o2: "uio_offset ?u2 = int (off + l + n * SFS_BLOCKSIZE)" using assms(4) by simp
      show "write_result p ?u2 t s2 (?tail ?u2 s2)"
        using sfs_partialio_result [OF wrote_file_at [OF w] k2 _ o2, of 0 t] write_result_Nil [OF wrote_file_at [OF w]]
          assms(3,5) al2 r2 t split by (cases "t = 0") simp_all
    qed
    then show ?thesis using False o0 assms(4) n [symmetric] by (simp add: rl [symmetric])
  qed
  have "write_result p u (l + (?r - l)) s (sfs_transfer p u s)"
    unfolding eq
  proof (rule write_result_then [where f = ?rest, OF first assms(2)])
    show "l + (?r - l) \<le> ?r" using split by simp
    show "write_result p (uio_adv l u) (?r - l) s1 (?rest (uio_adv l u) s1)"
      if "wrote p (nat (uio_offset u)) (uio_bytes l u) s s1" for s1
      by (rule rest [OF wrote_file_at [OF that]])
  qed
  then show ?thesis using split by simp
qed

text \<open>Setting the size of a file touches neither its blocks nor its bytes.\<close>

lemma size_update:
  assumes "file_at s p" "x < 2 ^ 32"
  defines "s' \<equiv> upd_inode p (\<lambda>i. i\<lparr>sfi_size := x\<rparr>) s"
  shows "touches p s s'" "file_at s' p" "fdata s' p = fdata s p" "fsize s' p = x" "used s' = used s"
proof -
  from assms(1) obtain sv where sv: "s_vn s p = Some sv" "fs_ok s" "file_ok (used s) (s_disk s) (sv_i sv)" "inode_of s p = sv_i sv"
    by (rule file_atE)
  let ?i = "(sv_i sv)\<lparr>sfi_size := x\<rparr>"
  have iv: "inode_of s' p = ?i" "s_disk s' = s_disk s" using sv(1) by (simp_all add: s'_def upd_inode_def upd_vn_def inode_of_def)
  show us: "used s' = used s" by (simp add: s'_def)
  have fb: "file_block (s_disk s) ?i = file_block (s_disk s) (sv_i sv)" by (simp add: file_block_def fun_eq_iff)
  have fbs: "fblocks s' p = fblocks s p" by (simp add: fblocks_def file_blocks_def iv sv(4) fb)
  have "inode_ok ?i" using file_okD(1) [OF sv(3)] assms(2) by (simp add: inode_ok_def)
  then have "file_ok (used s) (s_disk s) ?i" using sv(3) by (simp add: file_ok_def file_blocks_def fb)
  then show "file_at s' p" using sv(1,2) by (simp add: file_at_def iv us) (simp add: s'_def upd_inode_def upd_vn_def)
  show "fdata s' p = fdata s p" by (simp add: fdata_def file_byte_def iv sv(4) fb fun_eq_iff)
  show "fsize s' p = x" by (simp add: fsize_def iv)
  have seq: "s' = s\<lparr>s_disk := s_disk s, sfs_freemap := sfs_freemap s, sfs_freemapdirty := sfs_freemapdirty s,
      s_vn := (s_vn s)(p \<mapsto> sv\<lparr>sv_i := ?i, sv_dirty := True\<rparr>)\<rparr>"
    using sv(1) by (simp add: s'_def upd_inode_def upd_vn_def)
  show "touches p s s'" by (rule touchesI [OF sv(1) seq]) (auto simp: us fbs iv(2))
qed

lemma sfs_io_finish:
  assumes "file_at s p" "kuio_ok u" "uio_rw u = UIO_WRITE" "uio_offset u = int off" "off + uio_resid u \<le> SFS_MAXBLOCKS * SFS_BLOCKSIZE"
    "fsize s p \<le> SFS_MAXBLOCKS * SFS_BLOCKSIZE"
    "sfs_transfer p u s = Ret ((r, uio_adv n u), s1)" "wrote p off (uio_bytes n u) s s1" "n \<le> uio_resid u"
  obtains s' where "sfs_io p u s = Ret ((r, uio_adv n u), s')" "touches p s s'" "file_at s' p"
    "fdata s' p = put_bytes off (uio_bytes n u) (fdata s p)" "fsize s' p = max (fsize s p) (off + n)" "used s' = used s1"
proof -
  let ?r = "uio_resid u"
  obtain sv where sv: "s_vn s p = Some sv" using assms(1) by (rule file_atE)
  have w: "touches p s s1" "file_at s1 p" "fdata s1 p = put_bytes off (uio_bytes n u) (fdata s p)" "fsize s1 p = fsize s p"
    using assms(8) by (simp_all add: wrote_def)
  obtain sv1 where sv1: "s_vn s1 p = Some sv1" "inode_of s1 p = sv_i sv1" using w(2) by (rule file_atE)
  have on: "off + n < 2 ^ 31" using assms(5,9) by (simp add: SFS_MAXBLOCKS_def sfs_consts)
  have sz: "to_off (int (sfi_size (sv_i sv1))) = int (fsize s p)"
    using assms(6) w(4) sv1(2) by (simp add: fsize_def SFS_MAXBLOCKS_def sfs_consts)
  let ?s2 = "if off + n > fsize s p then upd_inode p (\<lambda>i. i\<lparr>sfi_size := off + n\<rparr>) s1 else s1"
  have "nat ((int off + int n) mod 4294967296) = off + n" "nat (int off + int n) = off + n"
    using on by (simp_all flip: of_nat_add)
  moreover have "(?r - n) mod 4294967296 = ?r - n" using kuio_ok_resid [OF assms(2)] by simp
  moreover have "(uio_adv n u)\<lparr>uio_resid := ?r - n\<rparr> = uio_adv n u" by (simp add: uio_adv_def)
  ultimately have out: "sfs_io_out p 0 r (uio_adv n u) s1 = Ret ((r, uio_adv n u), ?s2)"
    using sv1(1) sz assms(3,4) by (simp add: sfs_io_out_def)
  have io: "sfs_io p u s = Ret ((r, uio_adv n u), ?s2)"
    using assms(7) out sv assms(3) by (simp add: sfs_io_def sfs_extraresid_def Let_def)
  have x32: "off + n < 2 ^ 32" using on by simp
  note su = size_update [OF w(2) x32]
  have "touches p s ?s2 \<and> file_at ?s2 p \<and> fdata ?s2 p = put_bytes off (uio_bytes n u) (fdata s p) \<and>
      fsize ?s2 p = max (fsize s p) (off + n) \<and> used ?s2 = used s1"
    using w su touches_trans [OF w(1) su(1)] by (simp add: max_def)
  with io show ?thesis by (intro that [of ?s2]) simp_all
qed

lemma sfs_io_write:
  assumes "file_at s p" "kuio_ok u" "uio_rw u = UIO_WRITE" "uio_offset u = int off" "off + uio_resid u \<le> SFS_MAXBLOCKS * SFS_BLOCKSIZE"
    "off < SFS_MAXBLOCKS * SFS_BLOCKSIZE" "fsize s p \<le> SFS_MAXBLOCKS * SFS_BLOCKSIZE"
  shows "\<exists>r n s'. sfs_io p u s = Ret ((r, uio_adv n u), s') \<and> touches p s s' \<and> file_at s' p \<and>
    fdata s' p = put_bytes off (uio_bytes n u) (fdata s p) \<and> fsize s' p = max (fsize s p) (off + n) \<and>
    (r = None \<and> n = uio_resid u \<or> r = Some ENOSPC \<and> n \<le> uio_resid u \<and> used s' = {..<sp_nblocks (sfs_super s)})"
proof -
  from sfs_transfer_write [OF assms(1-6)] obtain r n s1 where t: "sfs_transfer p u s = Ret ((r, uio_adv n u), s1)"
    "wrote p off (uio_bytes n u) s s1"
    and c: "r = None \<and> n = uio_resid u \<or> r = Some ENOSPC \<and> n \<le> uio_resid u \<and> used s1 = {..<sp_nblocks (sfs_super s)}"
    by (rule write_resultE) (simp add: assms(4))
  have n: "n \<le> uio_resid u" using c by (elim disjE conjE) simp_all
  obtain s' where "sfs_io p u s = Ret ((r, uio_adv n u), s')" "touches p s s'" "file_at s' p"
    "fdata s' p = put_bytes off (uio_bytes n u) (fdata s p)" "fsize s' p = max (fsize s p) (off + n)" "used s' = used s1"
    by (rule sfs_io_finish [OF assms(1-5,7) t n])
  with c show ?thesis by (intro exI [of _ r] exI [of _ n] exI [of _ s']) simp
qed

text \<open>A write inside one block is done completely or not at all; it is done when the block is there.\<close>

lemma sfs_transfer_small:
  assumes "uio_rw u = UIO_WRITE" "uio_offset u = int off" "off < 2 ^ 31" "off mod SFS_BLOCKSIZE + uio_resid u \<le> SFS_BLOCKSIZE"
    "0 < uio_resid u" "uio_resid u < SFS_BLOCKSIZE"
    "sfs_partialio p (off mod SFS_BLOCKSIZE) (uio_resid u) u s = Ret ((r, uio_adv n u), s')" "r = None \<Longrightarrow> n = uio_resid u"
  shows "sfs_transfer p u s = Ret ((r, uio_adv n u), s')"
proof -
  have l: "off mod SFS_BLOCKSIZE \<noteq> 0 \<Longrightarrow> lead off (uio_resid u) = uio_resid u" using assms(4) by (auto simp: lead_def)
  show ?thesis
    using assms lead_len [of off "uio_resid u"] off_of_nat(2) [OF assms(3)] l
    by (cases "off mod SFS_BLOCKSIZE = 0"; cases r) (simp_all add: sfs_transfer_def Let_def)
qed

lemma sfs_io_write_small:
  assumes "file_at s p" "kuio_ok u" "uio_rw u = UIO_WRITE" "uio_offset u = int off" "off + uio_resid u \<le> SFS_MAXBLOCKS * SFS_BLOCKSIZE"
    "fsize s p \<le> SFS_MAXBLOCKS * SFS_BLOCKSIZE" "off mod SFS_BLOCKSIZE + uio_resid u \<le> SFS_BLOCKSIZE"
    "0 < uio_resid u" "uio_resid u < SFS_BLOCKSIZE"
  obtains s' where "sfs_io p u s = Ret ((None, uio_adv (uio_resid u) u), s')" "touches p s s'" "file_at s' p"
    "fdata s' p = put_bytes off (uio_bytes (uio_resid u) u) (fdata s p)" "fsize s' p = max (fsize s p) (off + uio_resid u)"
  | s' where "sfs_io p u s = Ret ((Some ENOSPC, u), s')" "touches p s s'" "file_at s' p" "fdata s' p = fdata s p"
    "fsize s' p = max (fsize s p) off" "used s' = {..<sp_nblocks (sfs_super s)}" "fblock s p (off div SFS_BLOCKSIZE) = 0"
proof -
  have o: "off < SFS_MAXBLOCKS * SFS_BLOCKSIZE" "off < 2 ^ 31" using assms(5,8) by (auto simp: SFS_MAXBLOCKS_def sfs_consts)
  from sfs_partialio_write [OF assms(1-4) o(1) refl assms(7) order.refl] obtain r n s1 where
    pio: "sfs_partialio p (off mod SFS_BLOCKSIZE) (uio_resid u) u s = Ret ((r, uio_adv n u), s1)" "wrote p off (uio_bytes n u) s s1"
    and c: "r = None \<and> n = uio_resid u \<or> r = Some ENOSPC \<and> n = 0 \<and> used s1 = {..<sp_nblocks (sfs_super s)} \<and>
      fblock s p (off div SFS_BLOCKSIZE) = 0" by blast
  have n: "n \<le> uio_resid u" "r = None \<Longrightarrow> n = uio_resid u" using c by (elim disjE conjE; simp)+
  note t = sfs_transfer_small [OF assms(3,4) o(2) assms(7-9) pio(1) n(2)]
  obtain s' where s': "sfs_io p u s = Ret ((r, uio_adv n u), s')" "touches p s s'" "file_at s' p"
    "fdata s' p = put_bytes off (uio_bytes n u) (fdata s p)" "fsize s' p = max (fsize s p) (off + n)" "used s' = used s1"
    by (rule sfs_io_finish [OF assms(1-6) t pio(2) n(1)])
  from c show ?thesis
  proof (elim disjE conjE)
    assume "r = None" "n = uio_resid u" with s' show ?thesis by (intro that(1) [of s']) simp_all
  next
    assume "r = Some ENOSPC" "n = 0" "used s1 = {..<sp_nblocks (sfs_super s)}" "fblock s p (off div SFS_BLOCKSIZE) = 0"
    with s' show ?thesis by (intro that(2) [of s']) (simp_all add: uio_bytes_def)
  qed
qed

end
