(* ===== verification/SfsVnode.thy ===== *)
theory SfsVnode
  imports Sfs
begin

text \<open>
  Directories, objects and vnodes of the SFS file system: the rest of
  \<^verbatim>\<open>src/kern/fs/sfs/sfs_vnode.c\<close>, with the vnode bookkeeping of \<^verbatim>\<open>src/kern/fs/vfs/vnode.c\<close>
  that it calls.

  A name is the list of its characters without the terminating null character.  The function tables
  \<^verbatim>\<open>sfs_fileops\<close> and \<^verbatim>\<open>sfs_dirops\<close> are the two constructors of \<^typ>\<open>sfs_ops\<close>; the entries that
  only return an error are given by \<open>sfs_stub\<close>.  The lock of a vnode is held only inside the counting
  routines, so it is not part of the state; creating it takes two allocations.
\<close>

section \<open>Directory I/O\<close>

definition SFS_DIRSIZE :: nat where
  "SFS_DIRSIZE = 4 + SFS_NAMELEN"

definition sfs_readdir :: "nat \<Rightarrow> int \<Rightarrow> sfs_fs \<Rightarrow> ((errno + sfs_dir) \<times> sfs_fs) run" where
  "sfs_readdir p slot s =
     (let actualpos = to_off (slot * int SFS_DIRSIZE) in
      andthen (sfs_io p (mk_kuio (replicate SFS_DIRSIZE 0) SFS_DIRSIZE actualpos UIO_READ) s) (\<lambda>((result, ku), s).
      case result of Some e \<Rightarrow> Ret (Inl e, s)
      | None \<Rightarrow> if uio_resid ku > 0 then Panic else Ret (Inr (bytes_dir (iov_kbuf ku)), s)))"

definition sfs_writedir :: "nat \<Rightarrow> sfs_dir \<Rightarrow> int \<Rightarrow> sfs_fs \<Rightarrow> ((errno + unit) \<times> sfs_fs) run" where
  "sfs_writedir p sd slot s =
     assertk (slot \<ge> 0)
     (let actualpos = to_off (slot * int SFS_DIRSIZE) in
      andthen (sfs_io p (mk_kuio (dir_bytes sd) SFS_DIRSIZE actualpos UIO_WRITE) s) (\<lambda>((result, ku), s).
      case result of Some e \<Rightarrow> Ret (Inl e, s)
      | None \<Rightarrow> if uio_resid ku > 0 then Panic else Ret (Inr (), s)))"

definition sfs_dir_nentries :: "nat \<Rightarrow> sfs_fs \<Rightarrow> int run" where
  "sfs_dir_nentries p s =
     deref (s_vn s p) (\<lambda>sv.
     assertk (sfi_type (sv_i sv) = SFS_TYPE_DIR)
     (if sfi_size (sv_i sv) mod SFS_DIRSIZE \<noteq> 0 then Panic
      else Ret (int (sfi_size (sv_i sv) div SFS_DIRSIZE))))"

text \<open>
  The loop of \<^verbatim>\<open>sfs_dir_findname\<close> over \<open>n\<close> slots from slot \<open>i\<close> on: \<open>found\<close> holds inode number and slot,
  \<open>emptyslot\<close> what has been stored through the pointer of that name.
\<close>

fun sfs_dir_scan :: "nat \<Rightarrow> nat \<Rightarrow> byte list \<Rightarrow> int \<Rightarrow> (nat \<times> int) option \<Rightarrow> int \<Rightarrow> sfs_fs \<Rightarrow>
    (((errno + nat \<times> int) \<times> int) \<times> sfs_fs) run" where
  "sfs_dir_scan 0 p name i found emptyslot s =
     Ret ((case found of None \<Rightarrow> Inl ENOENT | Some x \<Rightarrow> Inr x, emptyslot), s)"
| "sfs_dir_scan (Suc n) p name i found emptyslot s =
     andthen (sfs_readdir p i s) (\<lambda>(r, s).
     case r of Inl e \<Rightarrow> Ret ((Inl e, emptyslot), s)
     | Inr tsd \<Rightarrow>
         if sfd_ino tsd = SFS_NOINO then sfs_dir_scan n p name (i + 1) found i s
         else andthen (strcmp ((sfd_name tsd)[SFS_NAMELEN - 1 := 0]) (cstr name)) (\<lambda>c.
              if c = 0 then assertk (found = None) (sfs_dir_scan n p name (i + 1) (Some (sfd_ino tsd, i)) emptyslot s)
              else sfs_dir_scan n p name (i + 1) found emptyslot s))"

definition sfs_dir_findname :: "nat \<Rightarrow> byte list \<Rightarrow> sfs_fs \<Rightarrow> (((errno + nat \<times> int) \<times> int) \<times> sfs_fs) run" where
  "sfs_dir_findname p name s =
     andthen (sfs_dir_nentries p s) (\<lambda>nentries. sfs_dir_scan (nat nentries) p name 0 None (- 1) s)"

definition sfs_dir_link :: "nat \<Rightarrow> byte list \<Rightarrow> nat \<Rightarrow> sfs_fs \<Rightarrow> ((errno + int) \<times> sfs_fs) run" where
  "sfs_dir_link p name ino s =
     andthen (sfs_dir_findname p name s) (\<lambda>((r, emptyslot), s).
     case r of Inr _ \<Rightarrow> Ret (Inl EEXIST, s)
     | Inl e \<Rightarrow>
         if e \<noteq> ENOENT then Ret (Inl e, s)
         else andthen (strlen (cstr name)) (\<lambda>len.
           if len + 1 > SFS_NAMELEN then Ret (Inl ENAMETOOLONG, s)
           else andthen (if emptyslot < 0 then sfs_dir_nentries p s else Ret emptyslot) (\<lambda>slot.
             andthen (strcpy (replicate SFS_NAMELEN 0) (cstr name)) (\<lambda>nm.
             bindE (sfs_writedir p \<lparr>sfd_ino = ino, sfd_name = nm\<rparr> slot s) (\<lambda>_ s. Ret (Inr slot, s))))))"

definition sfs_dir_unlink :: "nat \<Rightarrow> int \<Rightarrow> sfs_fs \<Rightarrow> ((errno + unit) \<times> sfs_fs) run" where
  "sfs_dir_unlink p slot s = sfs_writedir p \<lparr>sfd_ino = SFS_NOINO, sfd_name = replicate SFS_NAMELEN 0\<rparr> slot s"

section \<open>The stubs of the function tables\<close>

datatype vop =
    Vop_open | Vop_close | Vop_reclaim | Vop_read | Vop_readlink | Vop_getdirentry | Vop_write | Vop_ioctl
  | Vop_stat | Vop_gettype | Vop_tryseek | Vop_fsync | Vop_mmap | Vop_truncate | Vop_namefile | Vop_creat
  | Vop_symlink | Vop_mkdir | Vop_link | Vop_remove | Vop_rmdir | Vop_rename | Vop_lookup | Vop_lookparent

definition sfs_stub :: "sfs_ops \<Rightarrow> vop \<Rightarrow> errno option" where
  "sfs_stub ops v =
     (case ops of
        Sfs_fileops \<Rightarrow>
          (if v \<in> {Vop_readlink, Vop_getdirentry, Vop_namefile, Vop_creat, Vop_symlink, Vop_mkdir, Vop_link, Vop_remove,
                   Vop_rmdir, Vop_rename, Vop_lookup, Vop_lookparent} then Some ENOTDIR else None)
      | Sfs_dirops \<Rightarrow>
          (if v \<in> {Vop_read, Vop_readlink, Vop_write, Vop_mmap, Vop_truncate} then Some EISDIR
           else if v \<in> {Vop_getdirentry, Vop_tryseek, Vop_symlink, Vop_mkdir, Vop_rmdir} then Some EUNIMP
           else None))"

section \<open>Vnode counts\<close>

text \<open>\<^verbatim>\<open>vnode_init\<close>: the two allocations of the lock, then the fields; \<open>sv\<close> holds the SFS fields.\<close>

definition vnode_init :: "nat \<Rightarrow> sfs_ops \<Rightarrow> sfs_vnode \<Rightarrow> sfs_fs \<Rightarrow> (errno + unit) \<times> sfs_fs" where
  "vnode_init p ops sv s =
     (case s_kmalloc s of (ok, s) \<Rightarrow> if \<not> ok then (Inl ENOMEM, s) else
      case s_kmalloc s of (ok, s) \<Rightarrow> if \<not> ok then (Inl ENOMEM, s) else
      (Inr (), s\<lparr>s_vn := (s_vn s)(p \<mapsto> sv\<lparr>sv_ops := ops, sv_refcount := 1, sv_opencount := 0\<rparr>)\<rparr>))"

text \<open>\<^verbatim>\<open>vnode_kill\<close>, with the \<^verbatim>\<open>kfree\<close> of the structure that follows every call of it.\<close>

definition vnode_kill :: "nat \<Rightarrow> sfs_fs \<Rightarrow> sfs_fs run" where
  "vnode_kill p s =
     deref (s_vn s p) (\<lambda>sv.
     assertk (sv_refcount sv = 1) (assertk (sv_opencount sv = 0) (Ret (s\<lparr>s_vn := (s_vn s)(p := None)\<rparr>))))"

definition sfs_incref :: "nat \<Rightarrow> sfs_fs \<Rightarrow> sfs_fs run" where
  "sfs_incref p s =
     deref (s_vn s p) (\<lambda>sv. Ret (upd_vn p (\<lambda>sv. sv\<lparr>sv_refcount := to_off (sv_refcount sv + 1)\<rparr>) s))"

definition sfs_incopen :: "nat \<Rightarrow> sfs_fs \<Rightarrow> sfs_fs run" where
  "sfs_incopen p s =
     deref (s_vn s p) (\<lambda>sv. Ret (upd_vn p (\<lambda>sv. sv\<lparr>sv_opencount := to_off (sv_opencount sv + 1)\<rparr>) s))"

section \<open>Vnode operations without directories\<close>

definition O_ACCMODE :: nat where "O_ACCMODE = 3"
definition O_APPEND :: nat where "O_APPEND = 32"
definition S_IFREG :: nat where "S_IFREG = 4096"
definition S_IFDIR :: nat where "S_IFDIR = 8192"

definition sfs_open :: "nat \<Rightarrow> status" where
  "sfs_open openflags = (if and openflags O_APPEND \<noteq> 0 then Some EUNIMP else None)"

definition sfs_opendir :: "nat \<Rightarrow> status" where
  "sfs_opendir openflags =
     (if and openflags O_ACCMODE \<noteq> 0 then Some EISDIR
      else if and openflags O_APPEND \<noteq> 0 then Some EISDIR else None)"

definition sfs_fsync :: "nat \<Rightarrow> sfs_fs \<Rightarrow> ((errno + unit) \<times> sfs_fs) run" where
  "sfs_fsync p s = sfs_sync_inode p s"

definition sfs_close :: "nat \<Rightarrow> sfs_fs \<Rightarrow> ((errno + unit) \<times> sfs_fs) run" where
  "sfs_close p s = sfs_fsync p s"

text \<open>\<^verbatim>\<open>vnode_decopen\<close>: an error of the close operation is printed and ignored.\<close>

definition sfs_decopen :: "nat \<Rightarrow> sfs_fs \<Rightarrow> sfs_fs run" where
  "sfs_decopen p s =
     deref (s_vn s p) (\<lambda>sv.
     assertk (sv_opencount sv > 0)
     (let s = upd_vn p (\<lambda>sv. sv\<lparr>sv_opencount := sv_opencount sv - 1\<rparr>) s in
      if sv_opencount sv - 1 > 0 then Ret s else andthen (sfs_close p s) (\<lambda>(result, s). Ret s)))"

definition sfs_read :: "nat \<Rightarrow> uio \<Rightarrow> sfs_fs \<Rightarrow> ((status \<times> uio) \<times> sfs_fs) run" where
  "sfs_read p u s = assertk (uio_rw u = UIO_READ) (sfs_io p u s)"

definition sfs_write :: "nat \<Rightarrow> uio \<Rightarrow> sfs_fs \<Rightarrow> ((status \<times> uio) \<times> sfs_fs) run" where
  "sfs_write p u s = assertk (uio_rw u = UIO_WRITE) (sfs_io p u s)"

definition sfs_ioctl :: "int \<Rightarrow> status" where
  "sfs_ioctl op = Some EINVAL"

definition sfs_gettype :: "nat \<Rightarrow> sfs_fs \<Rightarrow> nat run" where
  "sfs_gettype p s =
     deref (s_vn s p) (\<lambda>sv.
     if sfi_type (sv_i sv) = SFS_TYPE_FILE then Ret S_IFREG
     else if sfi_type (sv_i sv) = SFS_TYPE_DIR then Ret S_IFDIR else Panic)"

record stat =
  st_mode :: nat
  st_size :: int
  st_nlink :: nat
  st_blocks :: nat

definition sfs_stat :: "nat \<Rightarrow> sfs_fs \<Rightarrow> stat run" where
  "sfs_stat p s =
     andthen (sfs_gettype p s) (\<lambda>mode.
     deref (s_vn s p) (\<lambda>sv.
     Ret \<lparr>st_mode = mode, st_size = to_off (int (sfi_size (sv_i sv))), st_nlink = 0, st_blocks = 0\<rparr>))"

definition sfs_tryseek :: "int \<Rightarrow> status" where
  "sfs_tryseek pos = (if pos < 0 then Some EINVAL else None)"

definition sfs_mmap :: status where
  "sfs_mmap = Some EUNIMP"

definition sfs_namefile :: "nat \<Rightarrow> sfs_fs \<Rightarrow> status run" where
  "sfs_namefile p s = deref (s_vn s p) (\<lambda>sv. assertk (sv_ino sv = SFS_ROOT_LOCATION) (Ret None))"

section \<open>Truncation\<close>

fun trunc_direct :: "nat \<Rightarrow> nat \<Rightarrow> nat \<Rightarrow> nat \<Rightarrow> sfs_fs \<Rightarrow> sfs_fs run" where
  "trunc_direct 0 i blocklen p s = Ret s"
| "trunc_direct (Suc n) i blocklen p s =
     deref (s_vn s p) (\<lambda>sv.
     let blk = sfi_direct (sv_i sv) ! i in
     andthen (if i \<ge> blocklen \<and> blk \<noteq> 0
              then andthen (sfs_bfree blk s) (\<lambda>s. Ret (upd_inode p (\<lambda>x. x\<lparr>sfi_direct := (sfi_direct x)[i := 0]\<rparr>) s))
              else Ret s) (trunc_direct n (i + 1) blocklen p))"

text \<open>The loop over the indirect block returns its new contents, \<^verbatim>\<open>hasnonzero\<close> and \<^verbatim>\<open>iddirty\<close>.\<close>

fun trunc_indirect :: "nat \<Rightarrow> nat \<Rightarrow> nat \<Rightarrow> nat list \<Rightarrow> bool \<Rightarrow> bool \<Rightarrow> sfs_fs \<Rightarrow> ((nat list \<times> bool \<times> bool) \<times> sfs_fs) run" where
  "trunc_indirect 0 j blocklen idbuf hasnonzero iddirty s = Ret ((idbuf, hasnonzero, iddirty), s)"
| "trunc_indirect (Suc n) j blocklen idbuf hasnonzero iddirty s =
     andthen (if blocklen < SFS_NDIRECT + j \<and> idbuf ! j \<noteq> 0
              then andthen (sfs_bfree (idbuf ! j) s) (\<lambda>s. Ret (idbuf[j := 0], True, s))
              else Ret (idbuf, iddirty, s)) (\<lambda>(idbuf, iddirty, s).
     trunc_indirect n (j + 1) blocklen idbuf (hasnonzero \<or> idbuf ! j \<noteq> 0) iddirty s)"

definition trunc_blocklen :: "int \<Rightarrow> nat" where
  "trunc_blocklen len = nat ((to_off (len + int SFS_BLOCKSIZE - 1) sdiv int SFS_BLOCKSIZE) mod 2 ^ 32)"

text \<open>The part of \<^verbatim>\<open>sfs_truncate\<close> that works on the indirect block.\<close>

definition trunc_idblock :: "nat \<Rightarrow> nat \<Rightarrow> nat \<Rightarrow> sfs_fs \<Rightarrow> ((errno + unit) \<times> sfs_fs) run" where
  "trunc_idblock p blocklen idblock s =
     bindE (sfs_rblock idblock s) (\<lambda>bs s.
     andthen (trunc_indirect SFS_DBPERIDB 0 blocklen (de32s SFS_DBPERIDB bs) False False s)
     (\<lambda>((idbuf, hasnonzero, iddirty), s).
      if \<not> hasnonzero then
        andthen (sfs_bfree idblock s) (\<lambda>s. Ret (Inr (), upd_inode p (\<lambda>x. x\<lparr>sfi_indirect := 0\<rparr>) s))
      else if iddirty then sfs_wblock (be32s idbuf) idblock s
      else Ret (Inr (), s)))"

definition sfs_truncate :: "nat \<Rightarrow> int \<Rightarrow> sfs_fs \<Rightarrow> ((errno + unit) \<times> sfs_fs) run" where
  "sfs_truncate p len s =
     (let blocklen = trunc_blocklen len; highblock = SFS_NDIRECT + SFS_DBPERIDB - 1 in
      andthen (trunc_direct SFS_NDIRECT 0 blocklen p s) (\<lambda>s.
      deref (s_vn s p) (\<lambda>sv.
      let idblock = sfi_indirect (sv_i sv) in
      bindE (if blocklen < highblock \<and> idblock \<noteq> 0 then trunc_idblock p blocklen idblock s else Ret (Inr (), s)) (\<lambda>_ s.
      Ret (Inr (), upd_inode p (\<lambda>x. x\<lparr>sfi_size := nat (len mod 2 ^ 32)\<rparr>) s)))))"

text \<open>The call \<^verbatim>\<open>VOP_TRUNCATE\<close>.\<close>

definition vop_truncate :: "nat \<Rightarrow> int \<Rightarrow> sfs_fs \<Rightarrow> ((errno + unit) \<times> sfs_fs) run" where
  "vop_truncate p len s =
     deref (s_vn s p) (\<lambda>sv.
     case sfs_stub (sv_ops sv) Vop_truncate of Some e \<Rightarrow> Ret (Inl e, s) | None \<Rightarrow> sfs_truncate p len s)"

section \<open>The vnode table\<close>

fun vnodes_index :: "nat \<Rightarrow> int \<Rightarrow> nat \<Rightarrow> sfs_fs \<Rightarrow> int option run" where
  "vnodes_index 0 i p s = Ret None"
| "vnodes_index (Suc n) i p s =
     andthen (array_getguy (sfs_vnodes s) i) (\<lambda>g.
     deref g (\<lambda>sv2. if sv2 = p then Ret (Some i) else vnodes_index n (i + 1) p s))"

definition sfs_reclaim :: "nat \<Rightarrow> sfs_fs \<Rightarrow> ((errno + unit) \<times> sfs_fs) run" where
  "sfs_reclaim p s =
     deref (s_vn s p) (\<lambda>sv.
     if sv_refcount sv \<noteq> 1 then
       assertk (sv_refcount sv > 1) (Ret (Inl EBUSY, upd_vn p (\<lambda>sv. sv\<lparr>sv_refcount := sv_refcount sv - 1\<rparr>) s))
     else
       bindE (if sfi_linkcount (sv_i sv) = 0 then vop_truncate p 0 s else Ret (Inr (), s)) (\<lambda>_ s.
       bindE (sfs_sync_inode p s) (\<lambda>_ s.
       deref (s_vn s p) (\<lambda>sv.
       andthen (if sfi_linkcount (sv_i sv) = 0 then sfs_bfree (sv_ino sv) s else Ret s) (\<lambda>s.
       andthen (vnodes_index (nat (array_getnum (sfs_vnodes s))) 0 p s) (\<lambda>ix.
       case ix of None \<Rightarrow> Panic
       | Some i \<Rightarrow> andthen (array_remove (sfs_vnodes s) i) (\<lambda>a.
           andthen (vnode_kill p (s\<lparr>sfs_vnodes := a\<rparr>)) (\<lambda>s. Ret (Inr (), s)))))))))"

text \<open>\<^verbatim>\<open>vnode_decref\<close>: an error of the reclaim operation is printed and ignored.\<close>

definition sfs_decref :: "nat \<Rightarrow> sfs_fs \<Rightarrow> sfs_fs run" where
  "sfs_decref p s =
     deref (s_vn s p) (\<lambda>sv.
     assertk (sv_refcount sv > 0)
     (if sv_refcount sv > 1 then Ret (upd_vn p (\<lambda>sv. sv\<lparr>sv_refcount := sv_refcount sv - 1\<rparr>) s)
      else andthen (sfs_reclaim p s) (\<lambda>(result, s). Ret s)))"

text \<open>The search of \<^verbatim>\<open>sfs_loadvnode\<close> in the table.\<close>

fun vnodes_find :: "nat \<Rightarrow> int \<Rightarrow> nat \<Rightarrow> sfs_fs \<Rightarrow> nat option run" where
  "vnodes_find 0 i ino s = Ret None"
| "vnodes_find (Suc n) i ino s =
     andthen (array_getguy (sfs_vnodes s) i) (\<lambda>g.
     deref g (\<lambda>p. deref (s_vn s p) (\<lambda>sv.
     andthen (sfs_bused (sv_ino sv) s) (\<lambda>used.
     if \<not> used then Panic
     else if sv_ino sv = ino then Ret (Some p) else vnodes_find n (i + 1) ino s))))"

definition sfs_newvnode :: "nat \<Rightarrow> nat \<Rightarrow> sfs_fs \<Rightarrow> ((errno + nat) \<times> sfs_fs) run" where
  "sfs_newvnode ino forcetype s =
     (case s_kmalloc s of (ok, s) \<Rightarrow>
      if \<not> ok then Ret (Inl ENOMEM, s)
      else andthen (sfs_bused ino s) (\<lambda>used.
        if \<not> used then Panic
        else bindE (sfs_rblock ino s) (\<lambda>bs s.
          let i = bytes_inode bs; forced = (forcetype \<noteq> SFS_TYPE_INVAL) in
          assertk (forced \<longrightarrow> sfi_type i = SFS_TYPE_INVAL)
          (let i = (if forced then i\<lparr>sfi_type := forcetype\<rparr> else i) in
           andthen (if sfi_type i = SFS_TYPE_FILE then Ret Sfs_fileops
                    else if sfi_type i = SFS_TYPE_DIR then Ret Sfs_dirops else Panic) (\<lambda>ops.
           let p = s_next s;
               sv = \<lparr>sv_ops = ops, sv_refcount = 0, sv_opencount = 0, sv_i = i, sv_ino = ino, sv_dirty = forced\<rparr> in
           case vnode_init p ops sv (s\<lparr>s_next := p + 1\<rparr>) of
             (Inl e, s) \<Rightarrow> Ret (Inl e, s)
           | (Inr _, s) \<Rightarrow>
               (case s_kmalloc s of (ok, s) \<Rightarrow>
                andthen (array_add ok (sfs_vnodes s) p) (\<lambda>(result, a).
                let s = s\<lparr>sfs_vnodes := a\<rparr> in
                case result of None \<Rightarrow> Ret (Inr p, s)
                | Some e \<Rightarrow> andthen (vnode_kill p s) (\<lambda>s. Ret (Inl e, s)))))))))"

definition sfs_loadvnode :: "nat \<Rightarrow> nat \<Rightarrow> sfs_fs \<Rightarrow> ((errno + nat) \<times> sfs_fs) run" where
  "sfs_loadvnode ino forcetype s =
     andthen (vnodes_find (nat (array_getnum (sfs_vnodes s))) 0 ino s) (\<lambda>r.
     case r of
       Some p \<Rightarrow> assertk (forcetype = SFS_TYPE_INVAL) (andthen (sfs_incref p s) (\<lambda>s. Ret (Inr p, s)))
     | None \<Rightarrow> sfs_newvnode ino forcetype s)"

definition sfs_getroot :: "sfs_fs \<Rightarrow> (nat \<times> sfs_fs) run" where
  "sfs_getroot s =
     andthen (sfs_loadvnode SFS_ROOT_LOCATION SFS_TYPE_INVAL s) (\<lambda>(r, s).
     case r of Inl e \<Rightarrow> Panic | Inr p \<Rightarrow> Ret (p, s))"

section \<open>Directory operations\<close>

definition sfs_lookonce :: "nat \<Rightarrow> byte list \<Rightarrow> sfs_fs \<Rightarrow> ((errno + nat \<times> int) \<times> sfs_fs) run" where
  "sfs_lookonce p name s =
     andthen (sfs_dir_findname p name s) (\<lambda>((r, emptyslot), s).
     case r of Inl e \<Rightarrow> Ret (Inl e, s)
     | Inr (ino, slot) \<Rightarrow>
         bindE (sfs_loadvnode ino SFS_TYPE_INVAL s) (\<lambda>v s.
         deref (s_vn s v) (\<lambda>sv. if sfi_linkcount (sv_i sv) = 0 then Panic else Ret (Inr (v, slot), s))))"

definition sfs_makeobj :: "nat \<Rightarrow> sfs_fs \<Rightarrow> ((errno + nat) \<times> sfs_fs) run" where
  "sfs_makeobj type s = bindE (sfs_balloc s) (\<lambda>ino s. sfs_loadvnode ino type s)"

text \<open>The link count is a 16-bit unsigned number.\<close>

definition upd_links :: "nat \<Rightarrow> int \<Rightarrow> sfs_fs \<Rightarrow> sfs_fs" where
  "upd_links p d = upd_inode p (\<lambda>i. i\<lparr>sfi_linkcount := nat ((int (sfi_linkcount i) + d) mod 2 ^ 16)\<rparr>)"

definition sfs_creat :: "nat \<Rightarrow> byte list \<Rightarrow> bool \<Rightarrow> sfs_fs \<Rightarrow> ((errno + nat) \<times> sfs_fs) run" where
  "sfs_creat p name excl s =
     andthen (sfs_dir_findname p name s) (\<lambda>((r, emptyslot), s).
     case r of
       Inr (ino, slot) \<Rightarrow> if excl then Ret (Inl EEXIST, s) else sfs_loadvnode ino SFS_TYPE_INVAL s
     | Inl e \<Rightarrow>
         if e \<noteq> ENOENT then Ret (Inl e, s)
         else bindE (sfs_makeobj SFS_TYPE_FILE s) (\<lambda>newguy s.
           deref (s_vn s newguy) (\<lambda>sv.
           andthen (sfs_dir_link p name (sv_ino sv) s) (\<lambda>(r, s).
           case r of Inl e \<Rightarrow> andthen (sfs_decref newguy s) (\<lambda>s. Ret (Inl e, s))
           | Inr slot \<Rightarrow> Ret (Inr newguy, upd_links newguy 1 s)))))"

definition sfs_link :: "nat \<Rightarrow> byte list \<Rightarrow> nat \<Rightarrow> sfs_fs \<Rightarrow> ((errno + unit) \<times> sfs_fs) run" where
  "sfs_link dir name f s =
     deref (s_vn s f) (\<lambda>sv.
     bindE (sfs_dir_link dir name (sv_ino sv) s) (\<lambda>slot s. Ret (Inr (), upd_links f 1 s)))"

definition sfs_remove :: "nat \<Rightarrow> byte list \<Rightarrow> sfs_fs \<Rightarrow> ((errno + unit) \<times> sfs_fs) run" where
  "sfs_remove dir name s =
     bindE (sfs_lookonce dir name s) (\<lambda>(victim, slot) s.
     andthen (sfs_dir_unlink dir slot s) (\<lambda>(result, s).
     andthen (case result of Inl e \<Rightarrow> Ret s
              | Inr _ \<Rightarrow> deref (s_vn s victim) (\<lambda>sv. assertk (sfi_linkcount (sv_i sv) > 0) (Ret (upd_links victim (- 1) s)))) (\<lambda>s.
     andthen (sfs_decref victim s) (\<lambda>s. Ret (result, s)))))"

definition sfs_rename :: "nat \<Rightarrow> byte list \<Rightarrow> nat \<Rightarrow> byte list \<Rightarrow> sfs_fs \<Rightarrow> ((errno + unit) \<times> sfs_fs) run" where
  "sfs_rename d1 n1 d2 n2 s =
     assertk (d1 = d2)
     (deref (s_vn s d1) (\<lambda>sv.
      assertk (sv_ino sv = SFS_ROOT_LOCATION)
      (bindE (sfs_lookonce d1 n1 s) (\<lambda>(g1, slot1) s.
       deref (s_vn s g1) (\<lambda>gv.
       assertk (sfi_type (sv_i gv) = SFS_TYPE_FILE)
       (andthen (sfs_dir_link d1 n2 (sv_ino gv) s) (\<lambda>(r, s).
        case r of Inl e \<Rightarrow> andthen (sfs_decref g1 s) (\<lambda>s. Ret (Inl e, s))
        | Inr slot2 \<Rightarrow>
            let s = upd_links g1 1 s in
            andthen (sfs_dir_unlink d1 slot1 s) (\<lambda>(r, s).
            case r of
              Inr _ \<Rightarrow> deref (s_vn s g1) (\<lambda>gv. assertk (sfi_linkcount (sv_i gv) > 0)
                (andthen (sfs_decref g1 (upd_links g1 (- 1) s)) (\<lambda>s. Ret (Inr (), s))))
            | Inl e \<Rightarrow> andthen (sfs_dir_unlink d1 slot2 s) (\<lambda>(r2, s).
                case r2 of Inl _ \<Rightarrow> Panic
                | Inr _ \<Rightarrow> andthen (sfs_decref g1
                     (upd_vn g1 (\<lambda>sv. sv\<lparr>sv_i := (sv_i sv)\<lparr>sfi_linkcount := nat ((int (sfi_linkcount (sv_i sv)) - 1) mod 2 ^ 16)\<rparr>\<rparr>) s))
                     (\<lambda>s. Ret (Inl e, s)))))))))))"

definition sfs_lookparent :: "nat \<Rightarrow> byte list \<Rightarrow> nat \<Rightarrow> sfs_fs \<Rightarrow> ((errno + nat \<times> byte list) \<times> sfs_fs) run" where
  "sfs_lookparent p path buflen s =
     deref (s_vn s p) (\<lambda>sv.
     if sfi_type (sv_i sv) \<noteq> SFS_TYPE_DIR then Ret (Inl ENOTDIR, s)
     else andthen (strlen (cstr path)) (\<lambda>len.
       if len + 1 > buflen then Ret (Inl ENAMETOOLONG, s)
       else andthen (strcpy (replicate buflen 0) (cstr path)) (\<lambda>buf.
         andthen (sfs_incref p s) (\<lambda>s. Ret (Inr (p, buf), s)))))"

definition sfs_lookup :: "nat \<Rightarrow> byte list \<Rightarrow> sfs_fs \<Rightarrow> ((errno + nat) \<times> sfs_fs) run" where
  "sfs_lookup p path s =
     deref (s_vn s p) (\<lambda>sv.
     if sfi_type (sv_i sv) \<noteq> SFS_TYPE_DIR then Ret (Inl ENOTDIR, s)
     else bindE (sfs_lookonce p path s) (\<lambda>(final, slot) s. Ret (Inr final, s)))"

end
