(* ===== verification/SfsTrunc.thy ===== *)
theory SfsTrunc
  imports SfsIO SfsVnode
begin

text \<open>
  Truncation of SFS files: which blocks \<^verbatim>\<open>sfs_truncate\<close> frees and what the file contains afterwards.

  \<open>truncated p K s s'\<close> says that the blocks of the file \<open>p\<close> whose number satisfies \<open>K\<close> are kept and
  the others given back to the free map.
\<close>

section \<open>Removing blocks\<close>

lemma file_ok_sub:
  assumes "file_ok U D i" "\<And>k. file_block D' i' k = 0 \<or> file_block D' i' k = file_block D i k"
    "sfi_indirect i' = 0 \<or> sfi_indirect i' = sfi_indirect i" "inode_ok i'" "file_blocks D' i' \<subseteq> U'"
  shows "file_ok U' D' i'" "file_blocks D' i' \<subseteq> file_blocks D i"
proof -
  have fb: "file_block D' i' k = file_block D i k" if "file_block D' i' k \<noteq> 0" for k using assms(2) [of k] that by auto
  have "inj_on (file_block D' i') {k. file_block D' i' k \<noteq> 0}"
    using file_okD(4) [OF assms(1)] fb by (auto intro!: inj_onI)
  moreover have "file_block D' i' k \<noteq> sfi_indirect i'" if "file_block D' i' k \<noteq> 0" for k
    using fb [OF that] that file_okD(5) [OF assms(1), of k] assms(3) by auto
  ultimately show "file_ok U' D' i'" using assms(4,5) by (simp add: file_ok_def)
  show "file_blocks D' i' \<subseteq> file_blocks D i"
  proof
    fix b assume "b \<in> file_blocks D' i'"
    then consider "b \<noteq> 0" "b = sfi_indirect i'" | k where "b \<noteq> 0" "b = file_block D' i' k" by (auto simp: file_blocks_def)
    then show "b \<in> file_blocks D i"
    proof cases
      case 1
      then show ?thesis using assms(3) by (auto simp: file_blocks_def)
    next
      case 2
      then show ?thesis using fb [of k] by (auto simp: file_blocks_def)
    qed
  qed
qed

definition truncated :: "nat \<Rightarrow> (nat \<Rightarrow> bool) \<Rightarrow> sfs_fs \<Rightarrow> sfs_fs \<Rightarrow> bool" where
  "truncated p K s s' \<longleftrightarrow> touches p s s' \<and> file_at s' p \<and> fblocks s' p \<subseteq> fblocks s p \<and>
     used s' = used s - (fblocks s p - fblocks s' p) \<and> fsize s' p = fsize s p \<and>
     (\<forall>k. fblock s' p k = (if K k then fblock s p k else 0)) \<and>
     (\<forall>x. fdata s' p x = (if K (x div SFS_BLOCKSIZE) then fdata s p x else 0))"

lemma truncated_refl: "file_at s p \<Longrightarrow> (\<And>k. \<not> K k \<Longrightarrow> fblock s p k = 0) \<Longrightarrow> truncated p K s s"
  by (auto simp: truncated_def touches_refl fdata_def file_byte_def fblock_def Let_def)

lemma truncated_trans:
  assumes "truncated p K s s1" "truncated p L s1 s2"
  shows "truncated p (\<lambda>k. K k \<and> L k) s s2"
proof -
  have t: "touches p s s2" using assms by (auto simp: truncated_def intro: touches_trans)
  have u: "used s2 = used s - (fblocks s p - fblocks s2 p)" "fblocks s2 p \<subseteq> fblocks s p"
    using assms by (auto simp: truncated_def)
  have "\<forall>x. fdata s2 p x = (if K (x div SFS_BLOCKSIZE) \<and> L (x div SFS_BLOCKSIZE) then fdata s p x else 0)"
    "\<forall>k. fblock s2 p k = (if K k \<and> L k then fblock s p k else 0)"
    using assms by (simp_all add: truncated_def)
  with t u show ?thesis using assms unfolding truncated_def by simp
qed

lemma truncatedI:
  assumes "file_at s p" "s_vn s p = Some sv" and s': "s' = s\<lparr>s_disk := D, sfs_freemap := fm, sfs_freemapdirty := d,
      s_vn := (s_vn s)(p \<mapsto> sv\<lparr>sv_i := i, sv_dirty := dd\<rparr>)\<rparr>"
    and "fs_ok s'" "\<And>k. file_block D i k = (if K k then fblock s p k else 0)"
    and "sfi_indirect i = 0 \<or> sfi_indirect i = sfi_indirect (sv_i sv)" "inode_ok i"
    and "used s' = used s - (fblocks s p - fblocks s' p)"
    and "\<And>b. b \<noteq> sfi_indirect (sv_i sv) \<or> b = 0 \<Longrightarrow> D ! b = s_disk s ! b"
    and "sfi_size i = sfi_size (sv_i sv)" "sfi_type i = sfi_type (sv_i sv)" "sfi_linkcount i = sfi_linkcount (sv_i sv)"
  shows "truncated p K s s'"
proof -
  have iv: "inode_of s p = sv_i sv" "inode_of s' p = i" "s_disk s' = D" "s_vn s' p \<noteq> None"
    using assms(2) by (simp_all add: inode_of_def s')
  have ok: "file_ok (used s) (s_disk s) (sv_i sv)" using assms(1) iv(1) by (simp add: file_at_def)
  have fb: "file_block D i k = 0 \<or> file_block D i k = file_block (s_disk s) (sv_i sv) k" for k
    using assms(5) [of k] iv(1) by (simp add: fblock_def)
  have sub: "fblocks s' p \<subseteq> fblocks s p"
    using file_ok_sub(2) [OF ok fb assms(6,7) subset_refl] by (simp add: fblocks_def iv)
  have "fblocks s p \<subseteq> used s" using ok by (simp add: file_ok_def fblocks_def iv)
  then have "file_blocks D i \<subseteq> used s'" using sub assms(8) by (auto simp: fblocks_def iv)
  from file_ok_sub(1) [OF ok fb assms(6,7) this] have fa: "file_at s' p" using assms(4) iv by (simp add: file_at_def)
  have ind: "b \<in> fblocks s p" if "b = sfi_indirect (sv_i sv)" "b \<noteq> 0" for b
    using that by (simp add: fblocks_def file_blocks_def iv)
  have ds: "s_disk s' ! b = s_disk s ! b" if "b \<in> used s - fblocks s p" for b
    unfolding iv(3) using that ind [of b] by (intro assms(9)) auto
  have t: "touches p s s'" by (rule touchesI [OF assms(2) s' assms(11,12) _ _ ds]) (use assms(8) sub in auto)
  have "fdata s' p x = (if K (x div SFS_BLOCKSIZE) then fdata s p x else 0)" for x
  proof -
    let ?k = "x div SFS_BLOCKSIZE"
    have "fblock s p ?k \<noteq> 0 \<Longrightarrow> D ! fblock s p ?k = s_disk s ! fblock s p ?k"
      using file_at_block(3) [OF assms(1), of ?k] by (intro assms(9)) (simp add: iv)
    then show ?thesis using assms(5) [of ?k] by (simp add: fdata_def file_byte_def iv fblock_def Let_def)
  qed
  then show ?thesis using t fa sub assms(5,8,10) by (simp add: truncated_def fsize_def iv fblock_def)
qed

section \<open>Direct blocks\<close>

text \<open>The blocks a file loses when only the numbers in \<open>K\<close> stay mapped.\<close>

lemma fblocks_diff:
  assumes "file_at s p" "sfi_indirect i = 0 \<or> sfi_indirect i = sfi_indirect (inode_of s p)"
    "\<And>j. file_block D i j = (if K j then fblock s p j else 0)"
  shows "fblocks s p - file_blocks D i =
    ({fblock s p k |k. \<not> K k} - {0}) \<union> (if sfi_indirect i = sfi_indirect (inode_of s p) then {} else {sfi_indirect (inode_of s p)})"
proof -
  let ?ib = "sfi_indirect (inode_of s p)"
  have ok: "file_ok (used s) (s_disk s) (inode_of s p)" using assms(1) by (simp add: file_at_def)
  have inj: "j = k" if "fblock s p k = fblock s p j" "fblock s p k \<noteq> 0" for j k
    using file_okD(4) [OF ok, of k j] that by (auto simp: fblock_def)
  have sep: "fblock s p j = 0" if "fblock s p k = fblock s p j" "K j" "\<not> K k" for j k using inj [of k j] that by auto
  have ib: "fblock s p k \<noteq> ?ib" if "fblock s p k \<noteq> 0" for k using file_at_block(3) [OF assms(1) that] .
  have L: "fblocks s p = insert ?ib (range (fblock s p)) - {0}" by (simp add: fblocks_def file_blocks_def fblock_def)
  have R: "file_blocks D i = insert (sfi_indirect i) {fblock s p k |k. K k} - {0}"
    unfolding file_blocks_def assms(3) by auto
  show ?thesis
  proof (cases "sfi_indirect i = ?ib")
    case True
    show ?thesis unfolding L R True using ib by (auto; metis sep neq0_conv)
  next
    case False
    then have "sfi_indirect i = 0" using assms(2) by simp
    then show ?thesis unfolding L R using ib False by (auto; metis sep neq0_conv)
  qed
qed

lemma trunc_one_direct:
  assumes "file_at s p" "k < SFS_NDIRECT" "fblock s p k \<noteq> 0"
  shows "\<exists>s1. andthen (sfs_bfree (fblock s p k) s) (\<lambda>s. Ret (upd_inode p (\<lambda>x. x\<lparr>sfi_direct := (sfi_direct x)[k := 0]\<rparr>) s)) = Ret s1 \<and>
    truncated p (\<lambda>j. j \<noteq> k) s s1"
proof -
  from assms(1) obtain sv where sv: "s_vn s p = Some sv" "fs_ok s" "file_ok (used s) (s_disk s) (sv_i sv)" "inode_of s p = sv_i sv"
    by (rule file_atE)
  let ?b = "fblock s p k" and ?i = "(sv_i sv)\<lparr>sfi_direct := (sfi_direct (sv_i sv))[k := 0]\<rparr>"
  from sfs_bfree_spec [OF sv(2) file_at_block(1) [OF assms(1,3)] assms(3)] obtain fm where
    fm: "sfs_bfree ?b s = Ret (s\<lparr>sfs_freemap := fm, sfs_freemapdirty := True\<rparr>)"
      "used (s\<lparr>sfs_freemap := fm, sfs_freemapdirty := True\<rparr>) = used s - {?b}" "fs_ok (s\<lparr>sfs_freemap := fm, sfs_freemapdirty := True\<rparr>)" by blast
  let ?s = "upd_inode p (\<lambda>x. x\<lparr>sfi_direct := (sfi_direct x)[k := 0]\<rparr>) (s\<lparr>sfs_freemap := fm, sfs_freemapdirty := True\<rparr>)"
  have seq: "?s = s\<lparr>s_disk := s_disk s, sfs_freemap := fm, sfs_freemapdirty := True, s_vn := (s_vn s)(p \<mapsto> sv\<lparr>sv_i := ?i, sv_dirty := True\<rparr>)\<rparr>"
    using sv(1) by (simp add: upd_inode_def upd_vn_def)
  have io: "inode_ok (sv_i sv)" using file_okD(1) [OF sv(3)] .
  have iok: "inode_ok ?i" using io by (auto simp: inode_ok_def dest!: set_update_subset_insert [THEN subsetD])
  have fb: "file_block (s_disk s) ?i j = (if j \<noteq> k then fblock s p j else 0)" for j
    using assms(2) io by (auto simp: fblock_def sv(4) file_block_def inode_ok_def nth_list_update)
  have iv: "inode_of ?s p = ?i" "s_disk ?s = s_disk s" unfolding seq by (simp_all add: inode_of_def)
  have "fblocks s p - file_blocks (s_disk s) ?i = {?b}"
    using fblocks_diff [OF assms(1) _ fb] assms(3) by (auto simp: sv(4))
  then have us: "used ?s = used s - (fblocks s p - fblocks ?s p)" using fm(2) by (simp add: fblocks_def [of ?s] iv)
  have "truncated p (\<lambda>j. j \<noteq> k) s ?s"
    by (rule truncatedI [OF assms(1) sv(1) seq _ fb _ iok us]) (use fm(3) in simp_all)
  with fm(1) show ?thesis by simp
qed

lemma truncated_cong: "truncated p K s s' \<Longrightarrow> (\<And>k. K k = L k) \<Longrightarrow> truncated p L s s'"
  by (simp add: truncated_def)

lemma trunc_direct_spec:
  assumes "file_at s p" "i + n \<le> SFS_NDIRECT"
  shows "\<exists>s1. trunc_direct n i bl p s = Ret s1 \<and> truncated p (\<lambda>k. \<not> (i \<le> k \<and> k < i + n \<and> bl \<le> k)) s s1"
  using assms
proof (induction n arbitrary: i s)
  case 0
  then show ?case by (auto intro!: truncated_refl)
next
  case (Suc n)
  obtain sv where sv: "s_vn s p = Some sv" "inode_of s p = sv_i sv" using Suc.prems(1) by (rule file_atE)
  have b: "sfi_direct (sv_i sv) ! i = fblock s p i" using Suc.prems(2) by (simp add: fblock_def sv(2) file_block_def)
  let ?step = "if i \<ge> bl \<and> fblock s p i \<noteq> 0 then andthen (sfs_bfree (fblock s p i) s)
      (\<lambda>s. Ret (upd_inode p (\<lambda>x. x\<lparr>sfi_direct := (sfi_direct x)[i := 0]\<rparr>) s)) else Ret s"
  have "\<exists>s1. ?step = Ret s1 \<and> truncated p (\<lambda>k. \<not> (k = i \<and> bl \<le> k)) s s1"
  proof (cases "i \<ge> bl \<and> fblock s p i \<noteq> 0")
    case True
    with trunc_one_direct [OF Suc.prems(1), of i] Suc.prems(2) show ?thesis by (auto intro: truncated_cong)
  next
    case False
    then have "truncated p (\<lambda>k. \<not> (k = i \<and> bl \<le> k)) s s" by (intro truncated_refl [OF Suc.prems(1)]) auto
    with False show ?thesis by auto
  qed
  then obtain s1 where s1: "?step = Ret s1" "truncated p (\<lambda>k. \<not> (k = i \<and> bl \<le> k)) s s1" by blast
  then have "file_at s1 p" by (simp add: truncated_def)
  from Suc.IH [OF this, of "i + 1"] Suc.prems(2) obtain s2 where s2: "trunc_direct n (i + 1) bl p s1 = Ret s2"
    "truncated p (\<lambda>k. \<not> (i + 1 \<le> k \<and> k < i + 1 + n \<and> bl \<le> k)) s1 s2" by auto
  have "truncated p (\<lambda>k. \<not> (i \<le> k \<and> k < i + Suc n \<and> bl \<le> k)) s s2"
    by (rule truncated_cong [OF truncated_trans [OF s1(2) s2(2)]]) auto
  moreover have "trunc_direct (Suc n) i bl p s = Ret s2"
    unfolding trunc_direct.simps sv(1) deref_Some Let_def b s1(1) andthen.simps by (rule s2(1))
  ultimately show ?case by blast
qed

section \<open>The indirect block\<close>

text \<open>What the loop does to the entries \<open>j, \<dots>, j + n - 1\<close> of the indirect block, and the blocks it frees.\<close>

definition cleared :: "nat \<Rightarrow> nat \<Rightarrow> nat \<Rightarrow> nat list \<Rightarrow> nat list" where
  "cleared j n bl idb = map (\<lambda>a. if j \<le> a \<and> a < j + n \<and> bl < SFS_NDIRECT + a then 0 else idb ! a) [0..<length idb]"

definition freed :: "nat \<Rightarrow> nat \<Rightarrow> nat \<Rightarrow> nat list \<Rightarrow> nat set" where
  "freed j n bl idb = {idb ! a |a. j \<le> a \<and> a < j + n \<and> bl < SFS_NDIRECT + a} - {0}"

lemma cleared_length [simp]: "length (cleared j n bl idb) = length idb"
  by (simp add: cleared_def)

lemma cleared_nth: "a < length idb \<Longrightarrow>
    cleared j n bl idb ! a = (if j \<le> a \<and> a < j + n \<and> bl < SFS_NDIRECT + a then 0 else idb ! a)"
  by (simp add: cleared_def)

lemma cleared_0 [simp]: "cleared j 0 bl idb = idb"
  by (rule nth_equalityI) (auto simp: cleared_nth)

lemma freed_0 [simp]: "freed j 0 bl idb = {}"
  by (auto simp: freed_def)

lemma cleared_Suc: "j < length idb \<Longrightarrow>
    cleared (j + 1) n bl (if bl < SFS_NDIRECT + j \<and> idb ! j \<noteq> 0 then idb[j := 0] else idb) = cleared j (Suc n) bl idb"
  by (rule nth_equalityI) (auto simp: cleared_nth nth_list_update le_Suc_eq dest: le_antisym)

lemma freed_Suc:
  assumes "j < length idb"
  shows "freed (j + 1) n bl (if bl < SFS_NDIRECT + j \<and> idb ! j \<noteq> 0 then idb[j := 0] else idb) \<union>
      (if bl < SFS_NDIRECT + j \<and> idb ! j \<noteq> 0 then {idb ! j} else {}) = freed j (Suc n) bl idb"
proof -
  have "{(idb[j := 0]) ! a |a. j + 1 \<le> a \<and> a < j + 1 + n \<and> bl < SFS_NDIRECT + a} = {idb ! a |a. j + 1 \<le> a \<and> a < j + 1 + n \<and> bl < SFS_NDIRECT + a}"
    by (metis (no_types, opaque_lifting) Suc_eq_plus1 not_less_eq_eq nth_list_update_neq order_refl)
  moreover have "{idb ! a |a. j \<le> a \<and> a < j + Suc n \<and> bl < SFS_NDIRECT + a} =
      {idb ! a |a. j + 1 \<le> a \<and> a < j + 1 + n \<and> bl < SFS_NDIRECT + a} \<union> (if bl < SFS_NDIRECT + j then {idb ! j} else {})"
    by (auto simp: le_Suc_eq Suc_le_eq order.order_iff_strict)
  ultimately show ?thesis by (auto simp: freed_def)
qed

lemma ex_range_Suc: "(\<exists>a. j \<le> a \<and> a < j + Suc n \<and> P a) \<longleftrightarrow> P j \<or> (\<exists>a. j + 1 \<le> a \<and> a < j + 1 + n \<and> P a)"
proof -
  have "j \<le> a \<and> a < j + Suc n \<longleftrightarrow> a = j \<or> j + 1 \<le> a \<and> a < j + 1 + n" for a by auto
  then have "(\<exists>a. j \<le> a \<and> a < j + Suc n \<and> P a) \<longleftrightarrow> (\<exists>a. (a = j \<or> j + 1 \<le> a \<and> a < j + 1 + n) \<and> P a)"
    by (simp only: conj_assoc [symmetric])
  then show ?thesis by blast
qed

lemma trunc_indirect_spec:
  assumes "fs_ok s" "j + n \<le> length idb" "freed j n bl idb \<subseteq> used s"
    "inj_on ((!) idb) {a. a < length idb \<and> idb ! a \<noteq> 0}"
  shows "\<exists>fm d. trunc_indirect n j bl idb h dd s =
      Ret ((cleared j n bl idb, h \<or> (\<exists>a. j \<le> a \<and> a < j + n \<and> cleared j n bl idb ! a \<noteq> 0), dd \<or> freed j n bl idb \<noteq> {}),
           s\<lparr>sfs_freemap := fm, sfs_freemapdirty := d\<rparr>) \<and>
    used (s\<lparr>sfs_freemap := fm, sfs_freemapdirty := d\<rparr>) = used s - freed j n bl idb \<and> fs_ok (s\<lparr>sfs_freemap := fm, sfs_freemapdirty := d\<rparr>)"
  using assms
proof (induction n arbitrary: j idb h dd s)
  case 0
  then show ?case by (intro exI [of _ "sfs_freemap s"] exI [of _ "sfs_freemapdirty s"]) auto
next
  case (Suc n)
  let ?c = "bl < SFS_NDIRECT + j \<and> idb ! j \<noteq> 0"
  let ?idb = "if ?c then idb[j := 0] else idb" and ?F = "if ?c then {idb ! j} else {}"
  have j: "j < length idb" using Suc.prems(2) by simp
  have one: "\<exists>fm d. (if ?c then andthen (sfs_bfree (idb ! j) s) (\<lambda>s. Ret (idb[j := 0], True, s)) else Ret (idb, dd, s)) =
      Ret (?idb, dd \<or> ?F \<noteq> {}, s\<lparr>sfs_freemap := fm, sfs_freemapdirty := d\<rparr>) \<and>
    used (s\<lparr>sfs_freemap := fm, sfs_freemapdirty := d\<rparr>) = used s - ?F \<and> fs_ok (s\<lparr>sfs_freemap := fm, sfs_freemapdirty := d\<rparr>)"
  proof (cases ?c)
    case True
    then have "idb ! j \<in> freed j (Suc n) bl idb" unfolding freed_def by auto
    then have "idb ! j \<in> used s" using Suc.prems(3) by blast
    from sfs_bfree_spec [OF Suc.prems(1) this] True obtain fm where
      "sfs_bfree (idb ! j) s = Ret (s\<lparr>sfs_freemap := fm, sfs_freemapdirty := True\<rparr>)"
      "used (s\<lparr>sfs_freemap := fm, sfs_freemapdirty := True\<rparr>) = used s - {idb ! j}"
      "fs_ok (s\<lparr>sfs_freemap := fm, sfs_freemapdirty := True\<rparr>)" by blast
    with True show ?thesis by (intro exI [of _ fm] exI [of _ True]) simp
  next
    case False
    then show ?thesis using Suc.prems(1) unfolding if_not_P [OF False]
      by (intro exI [of _ "sfs_freemap s"] exI [of _ "sfs_freemapdirty s"]) simp
  qed
  then obtain fm d idb1 F where idb1: "idb1 = ?idb" and F: "F = ?F"
    and o: "(if ?c then andthen (sfs_bfree (idb ! j) s) (\<lambda>s. Ret (idb[j := 0], True, s)) else Ret (idb, dd, s)) =
      Ret (idb1, dd \<or> F \<noteq> {}, s\<lparr>sfs_freemap := fm, sfs_freemapdirty := d\<rparr>)"
    "used (s\<lparr>sfs_freemap := fm, sfs_freemapdirty := d\<rparr>) = used s - F" "fs_ok (s\<lparr>sfs_freemap := fm, sfs_freemapdirty := d\<rparr>)"
    by (elim exE conjE) (rule that [OF refl refl])
  let ?s = "s\<lparr>sfs_freemap := fm, sfs_freemapdirty := d\<rparr>" and ?h = "h \<or> idb1 ! j \<noteq> 0" and ?d = "dd \<or> F \<noteq> {}"
  have jn: "j + 1 + n \<le> length idb1" using Suc.prems(2) by (simp add: idb1)
  have inj: "inj_on ((!) idb1) {a. a < length idb1 \<and> idb1 ! a \<noteq> 0}"
    using Suc.prems(4) j by (auto simp: inj_on_def idb1 nth_list_update split: if_splits)
  have fr: "freed (j + 1) n bl idb1 \<union> F = freed j (Suc n) bl idb" unfolding idb1 F by (rule freed_Suc [OF j])
  have disj: "idb ! j \<notin> freed (j + 1) n bl idb1" if ?c
  proof
    assume "idb ! j \<in> freed (j + 1) n bl idb1"
    then obtain a where "j + 1 \<le> a" "a < j + 1 + n" "idb ! j = idb ! a"
      using that unfolding freed_def idb1 by (auto simp: nth_list_update)
    with Suc.prems(2) inj_onD [OF Suc.prems(4), of j a] j that show False by auto
  qed
  have sub: "freed (j + 1) n bl idb1 \<subseteq> used ?s" unfolding o(2) using fr Suc.prems(3) disj by (auto simp: F)
  from Suc.IH [OF o(3) jn sub inj, of ?h ?d] obtain fm' d' where
    r: "trunc_indirect n (j + 1) bl idb1 ?h ?d ?s = Ret ((cleared (j + 1) n bl idb1,
        ?h \<or> (\<exists>a. j + 1 \<le> a \<and> a < j + 1 + n \<and> cleared (j + 1) n bl idb1 ! a \<noteq> 0), ?d \<or> freed (j + 1) n bl idb1 \<noteq> {}),
        ?s\<lparr>sfs_freemap := fm', sfs_freemapdirty := d'\<rparr>)"
      "used (?s\<lparr>sfs_freemap := fm', sfs_freemapdirty := d'\<rparr>) = used ?s - freed (j + 1) n bl idb1"
      "fs_ok (?s\<lparr>sfs_freemap := fm', sfs_freemapdirty := d'\<rparr>)" by (elim exE conjE) (rule that)
  have cl: "cleared (j + 1) n bl idb1 = cleared j (Suc n) bl idb" unfolding idb1 by (rule cleared_Suc [OF j])
  have nj: "cleared j (Suc n) bl idb ! j = idb1 ! j" using j by (auto simp: cleared_nth idb1)
  have ex: "(\<exists>a. j \<le> a \<and> a < j + Suc n \<and> P a) \<longleftrightarrow> P j \<or> (\<exists>a. j + 1 \<le> a \<and> a < j + 1 + n \<and> P a)" for P
    by (rule ex_range_Suc)
  have h: "(?h \<or> (\<exists>a. j + 1 \<le> a \<and> a < j + 1 + n \<and> cleared j (Suc n) bl idb ! a \<noteq> 0)) =
      (h \<or> (\<exists>a. j \<le> a \<and> a < j + Suc n \<and> cleared j (Suc n) bl idb ! a \<noteq> 0))"
    unfolding ex nj by blast
  have d2: "(?d \<or> freed (j + 1) n bl idb1 \<noteq> {}) = (dd \<or> freed j (Suc n) bl idb \<noteq> {})" unfolding fr [symmetric] by blast
  have u: "used (?s\<lparr>sfs_freemap := fm', sfs_freemapdirty := d'\<rparr>) = used s - freed j (Suc n) bl idb"
    unfolding r(2) o(2) fr [symmetric] by blast
  have "trunc_indirect (Suc n) j bl idb h dd s = trunc_indirect n (j + 1) bl idb1 ?h ?d ?s"
    unfolding trunc_indirect.simps o(1) by simp
  from this [unfolded r(1) cl h d2] r(3) u show ?case by (intro exI [of _ fm'] exI [of _ d'] conjI) simp_all
qed

section \<open>The whole routine\<close>

text \<open>The blocks \<^verbatim>\<open>sfs_truncate\<close> keeps when the new length is \<open>bl\<close> blocks.\<close>

definition kept :: "nat \<Rightarrow> nat \<Rightarrow> bool" where
  "kept bl k \<longleftrightarrow> k < bl \<or> k = bl \<and> SFS_NDIRECT \<le> k"

lemma trunc_blocklen_nat:
  assumes "len < 2 ^ 31 - SFS_BLOCKSIZE"
  shows "trunc_blocklen (int len) = (len + SFS_BLOCKSIZE - 1) div SFS_BLOCKSIZE"
proof -
  let ?n = "len + SFS_BLOCKSIZE - 1"
  have n: "int len + int SFS_BLOCKSIZE - 1 = int ?n" by (simp add: sfs_consts)
  have t: "to_off (int ?n) = int ?n" using assms by (simp add: sfs_consts)
  have "int ?n sdiv int SFS_BLOCKSIZE = int (?n div SFS_BLOCKSIZE)"
    by (simp add: signed_divide_int_def sfs_consts sgn_if zdiv_int)
  moreover have "?n div SFS_BLOCKSIZE < 2 ^ 32"
    using assms by (intro le_less_trans [OF div_le_dividend]) (simp add: sfs_consts)
  ultimately show ?thesis unfolding trunc_blocklen_def n t by simp
qed

lemma trunc_idblock_spec:
  assumes "file_at s p" "sfi_indirect (inode_of s p) = ib" "ib \<noteq> 0"
  shows "\<exists>s'. trunc_idblock p bl ib s = Ret (Inr (), s') \<and> truncated p (\<lambda>k. k < SFS_NDIRECT \<or> k \<le> bl) s s'"
proof -
  from assms(1) obtain sv where sv: "s_vn s p = Some sv" "fs_ok s" "file_ok (used s) (s_disk s) (sv_i sv)" "inode_of s p = sv_i sv"
    by (rule file_atE)
  let ?K = "\<lambda>k. k < SFS_NDIRECT \<or> k \<le> bl"
  let ?idb = "de32s SFS_DBPERIDB (s_disk s ! ib)"
  let ?c = "cleared 0 SFS_DBPERIDB bl ?idb" and ?F = "freed 0 SFS_DBPERIDB bl ?idb"
  have ib: "ib \<in> used s" "ib < length (s_disk s)" using file_okD(3) [OF sv(3)] fs_okD(3) [OF sv(2)] assms(2,3) sv(4) by auto
  have nth: "?idb ! a = fblock s p (SFS_NDIRECT + a)" if "a < SFS_DBPERIDB" for a
    using that assms(2,3) by (simp add: fblock_def file_block_def SFS_MAXBLOCKS_def)
  have far: "fblock s p k = 0" if "SFS_MAXBLOCKS \<le> k" for k
    using that by (simp add: fblock_def file_block_def SFS_MAXBLOCKS_def)
  have inj: "inj_on ((!) ?idb) {a. a < length ?idb \<and> ?idb ! a \<noteq> 0}"
  proof (rule inj_onI)
    fix a b assume "a \<in> {a. a < length ?idb \<and> ?idb ! a \<noteq> 0}" "b \<in> {a. a < length ?idb \<and> ?idb ! a \<noteq> 0}" "?idb ! a = ?idb ! b"
    then show "a = b" using file_okD(4) [OF sv(3), of "SFS_NDIRECT + a" "SFS_NDIRECT + b"] by (simp add: nth fblock_def sv(4))
  qed
  have F: "?F = {fblock s p k |k. \<not> ?K k} - {0}"
  proof -
    have "\<exists>a. fblock s p k = ?idb ! a \<and> a < SFS_DBPERIDB \<and> bl < SFS_NDIRECT + a" if "\<not> ?K k" "fblock s p k \<noteq> 0" for k
    proof -
      have "k < SFS_NDIRECT + SFS_DBPERIDB" using that(2) far [of k] by (metis SFS_MAXBLOCKS_def not_le)
      then have "k - SFS_NDIRECT < SFS_DBPERIDB" using that(1) by auto
      with that nth [OF this] show ?thesis by (intro exI [of _ "k - SFS_NDIRECT"]) auto
    qed
    moreover have "\<exists>k. ?idb ! a = fblock s p k \<and> \<not> ?K k" if "a < SFS_DBPERIDB" "bl < SFS_NDIRECT + a" for a
      using that by (intro exI [of _ "SFS_NDIRECT + a"]) (simp add: nth)
    ultimately show ?thesis unfolding freed_def by auto
  qed
  have fsub: "?F \<subseteq> used s" using file_at_block(1) [OF assms(1)] by (auto simp: F)
  from trunc_indirect_spec [OF sv(2) _ fsub inj, of False False] obtain fm d where
    ti: "trunc_indirect SFS_DBPERIDB 0 bl ?idb False False s = Ret ((?c, \<exists>a<SFS_DBPERIDB. ?c ! a \<noteq> 0, ?F \<noteq> {}), s\<lparr>sfs_freemap := fm, sfs_freemapdirty := d\<rparr>)"
      "used (s\<lparr>sfs_freemap := fm, sfs_freemapdirty := d\<rparr>) = used s - ?F" "fs_ok (s\<lparr>sfs_freemap := fm, sfs_freemapdirty := d\<rparr>)" by auto
  have cn: "?c ! a = (if ?K (SFS_NDIRECT + a) then fblock s p (SFS_NDIRECT + a) else 0)" if "a < SFS_DBPERIDB" for a
    using that by (simp add: cleared_nth nth)
  let ?s1 = "s\<lparr>sfs_freemap := fm, sfs_freemapdirty := d\<rparr>"
  have rd: "sfs_rblock ib s = Ret (Inr (s_disk s ! ib), s)" using ib(2) fs_okD(1) [OF sv(2)] by (intro sfs_rblock_ok)
  note run = trunc_idblock_def [of p bl ib s, unfolded rd bindE_simps ti(1) andthen.simps, simplified]
  have ibF: "ib \<notin> ?F"
  proof
    assume "ib \<in> ?F"
    then obtain k where "ib = fblock s p k" unfolding F by blast
    with file_at_block(3) [OF assms(1), of k] assms(2,3) show False by simp
  qed
  have io: "inode_ok (sv_i sv)" by (rule file_okD(1) [OF sv(3)])
  have svi: "sfi_indirect (sv_i sv) = ib" using assms(2) sv(4) by simp
  consider (empty) "\<forall>a<SFS_DBPERIDB. ?c ! a = 0" | (dirty) "\<not> (\<forall>a<SFS_DBPERIDB. ?c ! a = 0)" "?F \<noteq> {}"
    | (clean) "\<not> (\<forall>a<SFS_DBPERIDB. ?c ! a = 0)" "?F = {}" by blast
  then show ?thesis
  proof cases
    case empty
    have "ib \<in> used ?s1" using ib(1) ibF ti(2) by simp
    from sfs_bfree_spec [OF ti(3) this assms(3)] obtain fm' where
      fr: "sfs_bfree ib ?s1 = Ret (s\<lparr>sfs_freemap := fm', sfs_freemapdirty := True\<rparr>)"
        "used (s\<lparr>sfs_freemap := fm', sfs_freemapdirty := True\<rparr>) = used s - ?F - {ib}"
        "fs_ok (s\<lparr>sfs_freemap := fm', sfs_freemapdirty := True\<rparr>)" by (auto simp: ti(2))
    let ?i = "(sv_i sv)\<lparr>sfi_indirect := 0\<rparr>"
    let ?s = "upd_inode p (\<lambda>x. x\<lparr>sfi_indirect := 0\<rparr>) (s\<lparr>sfs_freemap := fm', sfs_freemapdirty := True\<rparr>)"
    have seq: "?s = s\<lparr>s_disk := s_disk s, sfs_freemap := fm', sfs_freemapdirty := True,
        s_vn := (s_vn s)(p \<mapsto> sv\<lparr>sv_i := ?i, sv_dirty := True\<rparr>)\<rparr>"
      using sv(1) by (simp add: upd_inode_def upd_vn_def)
    have z: "fblock s p k = 0" if "SFS_NDIRECT \<le> k" "k \<le> bl" for k
      using that empty cn [of "k - SFS_NDIRECT"] far [of k] by (cases "k < SFS_MAXBLOCKS") (auto simp: SFS_MAXBLOCKS_def)
    have fb: "file_block (s_disk s) ?i j = (if ?K j then fblock s p j else 0)" for j
      using z [of j] by (auto simp: file_block_def fblock_def sv(4))
    have iok: "inode_ok ?i" using io by (simp add: inode_ok_def)
    have iv: "inode_of ?s p = ?i" "s_disk ?s = s_disk s" unfolding seq by (simp_all add: inode_of_def)
    have "fblocks s p - file_blocks (s_disk s) ?i = ?F \<union> {ib}"
      using fblocks_diff [OF assms(1) _ fb] assms(2,3) by (simp add: F)
    then have us: "used ?s = used s - (fblocks s p - fblocks ?s p)" using fr(2) by (auto simp: fblocks_def [of ?s] iv)
    have "truncated p ?K s ?s"
      by (rule truncatedI [OF assms(1) sv(1) seq _ fb _ iok us]) (use fr(3) in simp_all)
    then show ?thesis using run fr(1) empty by auto
  next
    case dirty
    let ?D = "(s_disk s)[ib := be32s ?c]" and ?s = "?s1\<lparr>s_disk := (s_disk s)[ib := be32s ?c]\<rparr>"
    have len: "length (be32s ?c) = SFS_BLOCKSIZE" by (simp add: sfs_consts)
    have w: "sfs_wblock (be32s ?c) ib ?s1 = Ret (Inr (), ?s)"
      using sfs_wblock_ok [OF fs_okD(1) [OF ti(3)] _ len, of ib] ib(2) by simp
    have seq: "?s = s\<lparr>s_disk := ?D, sfs_freemap := fm, sfs_freemapdirty := d,
        s_vn := (s_vn s)(p \<mapsto> sv\<lparr>sv_i := sv_i sv, sv_dirty := sv_dirty sv\<rparr>)\<rparr>"
      using sv(1) by (simp add: fun_upd_idem)
    have fsk: "fs_ok ?s" using fs_ok_write [OF ti(3) len, of ib] by simp
    have b32: "\<forall>n \<in> set ?c. n < 2 ^ 32" using de32s_bound by (fastforce simp: cleared_def in_set_conv_nth)
    have dec: "de32s SFS_DBPERIDB (?D ! ib) = ?c" using de32s_be32s [OF b32, of "[]"] ib(2) by simp
    have fb: "file_block ?D (sv_i sv) j = (if ?K j then fblock s p j else 0)" for j
    proof (cases "SFS_NDIRECT \<le> j \<and> j < SFS_MAXBLOCKS")
      case True
      then have "j - SFS_NDIRECT < SFS_DBPERIDB" by (auto simp: SFS_MAXBLOCKS_def)
      then show ?thesis using True cn [of "j - SFS_NDIRECT"] svi assms(3) by (simp add: file_block_def dec)
    qed (auto simp: file_block_def fblock_def sv(4))
    have iv: "inode_of ?s p = sv_i sv" "s_disk ?s = ?D" unfolding seq by (simp_all add: inode_of_def)
    have "fblocks s p - file_blocks ?D (sv_i sv) = ?F" using fblocks_diff [OF assms(1) _ fb] by (simp add: F sv(4))
    then have us: "used ?s = used s - (fblocks s p - fblocks ?s p)" using ti(2) by (simp add: fblocks_def [of ?s] iv)
    have "truncated p ?K s ?s"
      by (rule truncatedI [OF assms(1) sv(1) seq fsk fb _ io us]) (use svi assms(3) in auto)
    then show ?thesis using run w dirty by auto
  next
    case clean
    have seq: "?s1 = s\<lparr>s_disk := s_disk s, sfs_freemap := fm, sfs_freemapdirty := d,
        s_vn := (s_vn s)(p \<mapsto> sv\<lparr>sv_i := sv_i sv, sv_dirty := sv_dirty sv\<rparr>)\<rparr>"
      using sv(1) by (simp add: fun_upd_idem)
    have fb: "file_block (s_disk s) (sv_i sv) j = (if ?K j then fblock s p j else 0)" for j
      using clean(2) by (auto simp: F fblock_def sv(4))
    have iv: "inode_of ?s1 p = sv_i sv" "s_disk ?s1 = s_disk s" unfolding seq by (simp_all add: inode_of_def)
    have us: "used ?s1 = used s - (fblocks s p - fblocks ?s1 p)"
      using ti(2) clean(2) by (simp add: fblocks_def iv sv(4))
    have "truncated p ?K s ?s1"
      by (rule truncatedI [OF assms(1) sv(1) seq ti(3) fb _ io us]) simp_all
    then show ?thesis using run clean by auto
  qed
qed

lemma truncated_size:
  assumes "truncated p K s s1" "x < 2 ^ 32"
  defines "s' \<equiv> upd_inode p (\<lambda>i. i\<lparr>sfi_size := x\<rparr>) s1"
  shows "touches p s s'" "file_at s' p" "fsize s' p = x" "fblock s' p k = (if K k then fblock s p k else 0)"
    "fdata s' p y = (if K (y div SFS_BLOCKSIZE) then fdata s p y else 0)" "used s' = used s - (fblocks s p - fblocks s' p)"
proof -
  have t: "touches p s s1" "file_at s1 p" using assms(1) by (simp_all add: truncated_def)
  note su = size_update [OF t(2) assms(2), folded s'_def]
  have iv: "inode_of s' p = (inode_of s1 p)\<lparr>sfi_size := x\<rparr>" "s_disk s' = s_disk s1"
    using t(2) by (auto simp: s'_def upd_inode_def upd_vn_def inode_of_def file_at_def)
  have fb: "fblock s' p = fblock s1 p" by (simp add: fblock_def file_block_def fun_eq_iff iv)
  then have fbs: "fblocks s' p = fblocks s1 p" by (simp add: fblocks_def file_blocks_def iv fblock_def)
  show "touches p s s'" by (rule touches_trans [OF t(1) su(1)])
  show "file_at s' p" "fsize s' p = x" by (rule su(2), rule su(4))
  show "fblock s' p k = (if K k then fblock s p k else 0)" using assms(1) by (simp add: fb truncated_def)
  show "fdata s' p y = (if K (y div SFS_BLOCKSIZE) then fdata s p y else 0)" using assms(1) su(3) by (simp add: truncated_def)
  show "used s' = used s - (fblocks s p - fblocks s' p)" using assms(1) su(5) by (simp add: fbs truncated_def)
qed

lemma sfs_truncate_run:
  assumes "file_at s p" "len < 2 ^ 31 - SFS_BLOCKSIZE"
  shows "\<exists>s1. sfs_truncate p (int len) s = Ret (Inr (), upd_inode p (\<lambda>x. x\<lparr>sfi_size := len\<rparr>) s1) \<and>
    truncated p (kept ((len + SFS_BLOCKSIZE - 1) div SFS_BLOCKSIZE)) s s1"
proof -
  let ?bl = "(len + SFS_BLOCKSIZE - 1) div SFS_BLOCKSIZE"
  from trunc_direct_spec [OF assms(1), of 0 SFS_NDIRECT ?bl] obtain s1 where
    s1: "trunc_direct SFS_NDIRECT 0 ?bl p s = Ret s1" "truncated p (\<lambda>k. \<not> (k < SFS_NDIRECT \<and> ?bl \<le> k)) s s1" by auto
  then have f1: "file_at s1 p" by (simp add: truncated_def)
  then obtain sv where sv: "s_vn s1 p = Some sv" "inode_of s1 p = sv_i sv" by (rule file_atE)
  let ?ib = "sfi_indirect (sv_i sv)" and ?K = "\<lambda>k. k < SFS_NDIRECT \<or> k \<le> ?bl"
  let ?ind = "if ?bl < SFS_NDIRECT + SFS_DBPERIDB - 1 \<and> ?ib \<noteq> 0 then trunc_idblock p ?bl ?ib s1 else Ret (Inr (), s1)"
  have "\<exists>s2. ?ind = Ret (Inr (), s2) \<and> truncated p ?K s1 s2"
  proof (cases "?bl < SFS_NDIRECT + SFS_DBPERIDB - 1 \<and> ?ib \<noteq> 0")
    case True
    with trunc_idblock_spec [OF f1, of ?ib ?bl] sv(2) show ?thesis by simp
  next
    case False
    have "fblock s1 p k = 0" if "\<not> ?K k" for k
    proof (cases "?ib = 0")
      case True
      with that show ?thesis by (simp add: fblock_def file_block_def sv(2))
    next
      case nz: False
      then have "SFS_NDIRECT + SFS_DBPERIDB - 1 \<le> ?bl" using False by auto
      with that have "\<not> k < SFS_MAXBLOCKS" unfolding SFS_MAXBLOCKS_def by linarith
      with that show ?thesis by (simp add: fblock_def file_block_def)
    qed
    from truncated_refl [OF f1, of ?K, OF this] False show ?thesis by auto
  qed
  then obtain s2 where s2: "?ind = Ret (Inr (), s2)" "truncated p ?K s1 s2" by blast
  have "truncated p (kept ?bl) s s2"
    by (rule truncated_cong [OF truncated_trans [OF s1(2) s2(2)]]) (auto simp: kept_def)
  moreover have "nat (int len mod 4294967296) = len" using assms(2) by simp
  then have "sfs_truncate p (int len) s = Ret (Inr (), upd_inode p (\<lambda>x. x\<lparr>sfi_size := len\<rparr>) s2)"
    using s1(1) sv(1) s2(1) by (simp only: sfs_truncate_def trunc_blocklen_nat [OF assms(2)] Let_def andthen.simps deref_Some bindE_simps) simp
  ultimately show ?thesis by blast
qed

end
