(* ===== verification/SfsExample.thy ===== *)
theory SfsExample
  imports SfsTrunc
begin

text \<open>
  A small file system, the input of the examples: eight sectors, of which two are free, the root
  directory with one entry \<^verbatim>\<open>a\<close>, and the file \<^verbatim>\<open>a\<close> with the five bytes \<^verbatim>\<open>hello\<close>.  Both have a vnode in
  memory, \<open>9\<close> the directory and \<open>10\<close> the file.
\<close>

definition ex_inode :: "nat \<Rightarrow> nat \<Rightarrow> nat \<Rightarrow> sfs_inode" where
  "ex_inode sz typ blk = \<lparr>sfi_size = sz, sfi_type = typ, sfi_linkcount = 1, sfi_direct = blk # replicate 14 0,
     sfi_indirect = 0, sfi_waste = replicate 440 0\<rparr>"

definition ex_root :: sfs_inode where "ex_root = ex_inode 64 SFS_TYPE_DIR 5"
definition ex_file :: sfs_inode where "ex_file = ex_inode 5 SFS_TYPE_FILE 4"

definition ex_super :: sfs_super where
  "ex_super = \<lparr>sp_magic = SFS_MAGIC, sp_nblocks = 8, sp_volname = 118 # replicate 31 0, sp_reserved = replicate 472 0\<rparr>"

definition ex_map :: "byte list" where
  "ex_map = 0x3f # replicate 511 0xff"

definition ex_fs :: sfs_fs where
  "ex_fs = \<lparr>curspl = 0, firstpaddr = 0, lastpaddr = 0, tlb = [], ram = (\<lambda>_. 0), s_space = None, s_oom = [],
     s_disk = [super_bytes ex_super, inode_bytes ex_root, ex_map, inode_bytes ex_file,
       [104, 101, 108, 108, 111] @ replicate 507 0, dir_bytes \<lparr>sfd_ino = 3, sfd_name = 97 # replicate 59 0\<rparr> @ replicate 448 0,
       replicate 512 0, replicate 512 0],
     s_lhd = [], sfs_super = ex_super, sfs_superdirty = False,
     sfs_freemap = \<lparr>bm_nbits = 4096, bm_v = ex_map\<rparr>, sfs_freemapdirty = False,
     sfs_vnodes = \<lparr>a_num = 2, a_max = 2, a_v = Some [Some 9, Some 10]\<rparr>,
     s_vn = [9 \<mapsto> \<lparr>sv_ops = Sfs_dirops, sv_refcount = 1, sv_opencount = 0, sv_i = ex_root, sv_ino = 1, sv_dirty = False\<rparr>,
             10 \<mapsto> \<lparr>sv_ops = Sfs_fileops, sv_refcount = 1, sv_opencount = 0, sv_i = ex_file, sv_ino = 3, sv_dirty = False\<rparr>],
     s_next = 11\<rparr>"

lemma ex_inode_ok: "sz < 2 ^ 32 \<Longrightarrow> typ < 2 ^ 16 \<Longrightarrow> blk < 2 ^ 32 \<Longrightarrow> inode_ok (ex_inode sz typ blk)"
  by (simp add: inode_ok_def ex_inode_def sfs_consts)

lemma ex_bit: "i < 4096 \<Longrightarrow> bm_bit \<lparr>bm_nbits = 4096, bm_v = ex_map\<rparr> i \<longleftrightarrow> i < 6 \<or> 8 \<le> i"
proof -
  assume i: "i < 4096"
  have ff: "bit (255 :: byte) k \<longleftrightarrow> k < 8" for k using bit_mask_iff [of 8 k, where ?'a = byte] by (simp add: mask_eq_exp_minus_1)
  have f3: "bit (63 :: byte) k \<longleftrightarrow> k < 6" for k using bit_mask_iff [of 6 k, where ?'a = byte] by (auto simp: mask_eq_exp_minus_1)
  show ?thesis
  proof (cases "i < 8")
    case True
    then show ?thesis using f3 [of i] by (simp add: bm_bit_def ex_map_def)
  next
    case False
    then obtain q where q: "i div 8 = Suc q" "q < 511" using i by (cases "i div 8") auto
    then show ?thesis using False ff [of "i mod 8"] by (simp add: bm_bit_def ex_map_def)
  qed
qed

lemma ex_used: "used ex_fs = {..<6}"
proof -
  have "i \<in> used ex_fs \<longleftrightarrow> i < 6" for i
    using ex_bit [of i] by (auto simp: used_def bm_used_def ex_fs_def ex_super_def)
  then show ?thesis by auto
qed

lemma ex_fs_ok: "fs_ok ex_fs"
proof -
  have "length (super_bytes ex_super) = SFS_BLOCKSIZE" by (simp add: super_bytes_def ex_super_def sfs_consts)
  moreover have "length (inode_bytes ex_root) = SFS_BLOCKSIZE" "length (inode_bytes ex_file) = SFS_BLOCKSIZE"
    by (rule inode_bytes_length, unfold ex_root_def ex_file_def, rule ex_inode_ok; simp add: sfs_consts)+
  ultimately have "disk_ok ex_fs" by (simp add: disk_ok_def ex_fs_def ex_map_def dir_bytes_def) (simp add: sfs_consts)
  moreover have "bm_inv (sfs_freemap ex_fs)" by (simp add: bm_inv_def ex_fs_def ex_map_def)
  moreover have "{8..<4096} \<subseteq> bm_used (sfs_freemap ex_fs)" using ex_bit by (auto simp: bm_used_def ex_fs_def)
  ultimately show ?thesis using ex_used by (simp add: fs_ok_def) (simp add: ex_fs_def ex_super_def)
qed

lemma ex_block: "file_block D (ex_inode sz typ blk) k = (if k = 0 then blk else 0)"
  by (cases k) (auto simp: file_block_def ex_inode_def sfs_consts nth_Cons')

lemma ex_blocks: "file_blocks D (ex_inode sz typ blk) = {blk} - {0}"
proof -
  have "range (file_block D (ex_inode sz typ blk)) \<subseteq> {blk, 0}" by (auto simp: ex_block)
  moreover have "file_block D (ex_inode sz typ blk) 0 = blk" by (simp add: ex_block)
  ultimately show ?thesis by (auto simp: file_blocks_def ex_inode_def) (metis rangeI)
qed

lemma ex_file_ok: "blk \<in> U \<Longrightarrow> sz < 2 ^ 32 \<Longrightarrow> typ < 2 ^ 16 \<Longrightarrow> blk < 2 ^ 32 \<Longrightarrow> file_ok U D (ex_inode sz typ blk)"
  by (auto simp: file_ok_def ex_inode_ok ex_blocks ex_block inj_on_def) (simp add: ex_inode_def)

lemma ex_inodes: "inode_of ex_fs 9 = ex_root" "inode_of ex_fs 10 = ex_file"
  by (simp_all add: inode_of_def ex_fs_def)

lemma ex_file_at: "file_at ex_fs 9" "file_at ex_fs 10"
proof -
  have v: "s_vn ex_fs 9 \<noteq> None" "s_vn ex_fs 10 \<noteq> None" by (simp_all add: ex_fs_def)
  have "file_ok (used ex_fs) (s_disk ex_fs) ex_root" "file_ok (used ex_fs) (s_disk ex_fs) ex_file"
    unfolding ex_root_def ex_file_def ex_used by (rule ex_file_ok; simp add: sfs_consts)+
  with v ex_fs_ok show "file_at ex_fs 9" "file_at ex_fs 10" by (simp_all add: file_at_def ex_inodes)
qed

lemma ex_fblocks: "fblocks ex_fs 9 = {5}" "fblocks ex_fs 10 = {4}"
  by (simp_all add: fblocks_def ex_inodes ex_root_def ex_file_def ex_blocks)

lemma ex_fsize: "fsize ex_fs 9 = 64" "fsize ex_fs 10 = 5"
  by (simp_all add: fsize_def ex_inodes ex_root_def ex_file_def ex_inode_def)

end
