(* ===== verification/SfsFs.thy ===== *)
theory SfsFs
  imports SfsVnode
begin

text \<open>
  The file-system level of SFS, \<^verbatim>\<open>src/kern/fs/sfs/sfs_fs.c\<close>: reading and writing the free map,
  sync, mount and unmount.

  Mounting fills in the fields of \<^typ>\<open>sfs_fs\<close> for the file system it finds on the disk; the block size
  of the device is an argument.  Messages to the console are not part of the state.
\<close>

definition SFS_FS_BITMAPSIZE :: "sfs_fs \<Rightarrow> nat" where
  "SFS_FS_BITMAPSIZE s = SFS_BITMAPSIZE (sp_nblocks (sfs_super s))"

definition SFS_FS_BITBLOCKS :: "sfs_fs \<Rightarrow> nat" where
  "SFS_FS_BITBLOCKS s = SFS_BITBLOCKS (sp_nblocks (sfs_super s))"

text \<open>The loop of \<^verbatim>\<open>sfs_mapio\<close> over the sectors \<open>j, \<dots>, j + n - 1\<close> of the bit map.\<close>

fun mapio_loop :: "nat \<Rightarrow> nat \<Rightarrow> uio_rw \<Rightarrow> sfs_fs \<Rightarrow> ((errno + unit) \<times> sfs_fs) run" where
  "mapio_loop 0 j rw s = Ret (Inr (), s)"
| "mapio_loop (Suc n) j rw s =
     bindE (case rw of
         UIO_READ \<Rightarrow> bindE (sfs_rblock (SFS_MAP_LOCATION + j) s) (\<lambda>bs s.
           andthen (buf_put (bitmap_getdata (sfs_freemap s)) (j * SFS_BLOCKSIZE) bs) (\<lambda>v.
           Ret (Inr (), s\<lparr>sfs_freemap := (sfs_freemap s)\<lparr>bm_v := v\<rparr>\<rparr>)))
       | UIO_WRITE \<Rightarrow> andthen (buf_get (bitmap_getdata (sfs_freemap s)) (j * SFS_BLOCKSIZE) SFS_BLOCKSIZE) (\<lambda>bs.
           sfs_wblock bs (SFS_MAP_LOCATION + j) s))
     (\<lambda>_ s. mapio_loop n (j + 1) rw s)"

definition sfs_mapio :: "uio_rw \<Rightarrow> sfs_fs \<Rightarrow> ((errno + unit) \<times> sfs_fs) run" where
  "sfs_mapio rw s = mapio_loop (SFS_FS_BITBLOCKS s) 0 rw s"

fun sync_vnodes :: "nat \<Rightarrow> int \<Rightarrow> sfs_fs \<Rightarrow> sfs_fs run" where
  "sync_vnodes 0 i s = Ret s"
| "sync_vnodes (Suc n) i s =
     andthen (array_getguy (sfs_vnodes s) i) (\<lambda>g.
     deref g (\<lambda>p. andthen (sfs_fsync p s) (\<lambda>(result, s). sync_vnodes n (i + 1) s)))"

definition sfs_sync :: "sfs_fs \<Rightarrow> ((errno + unit) \<times> sfs_fs) run" where
  "sfs_sync s =
     andthen (sync_vnodes (nat (array_getnum (sfs_vnodes s))) 0 s) (\<lambda>s.
     bindE (if sfs_freemapdirty s
            then bindE (sfs_mapio UIO_WRITE s) (\<lambda>_ s. Ret (Inr (), s\<lparr>sfs_freemapdirty := False\<rparr>))
            else Ret (Inr (), s)) (\<lambda>_ s.
     if sfs_superdirty s
     then bindE (sfs_wblock (super_bytes (sfs_super s)) SFS_SB_LOCATION s) (\<lambda>_ s.
          Ret (Inr (), s\<lparr>sfs_superdirty := False\<rparr>))
     else Ret (Inr (), s)))"

definition sfs_getvolname :: "sfs_fs \<Rightarrow> byte list" where
  "sfs_getvolname s = sp_volname (sfs_super s)"

definition sfs_unmount :: "sfs_fs \<Rightarrow> (errno + unit) run" where
  "sfs_unmount s =
     (if array_getnum (sfs_vnodes s) > 0 then Ret (Inl EBUSY)
      else assertk (\<not> sfs_superdirty s) (assertk (\<not> sfs_freemapdirty s) (Ret (Inr ()))))"

definition sfs_domount :: "nat \<Rightarrow> sfs_fs \<Rightarrow> ((errno + unit) \<times> sfs_fs) run" where
  "sfs_domount d_blocksize s =
     (if d_blocksize \<noteq> SFS_BLOCKSIZE then Ret (Inl ENXIO, s)
      else case s_kmalloc s of (ok, s) \<Rightarrow> if \<not> ok then Ret (Inl ENOMEM, s)
      else case s_kmalloc s of (ok, s) \<Rightarrow>
      (case array_create ok of None \<Rightarrow> Ret (Inl ENOMEM, s)
       | Some a \<Rightarrow>
           let s = s\<lparr>sfs_vnodes := a\<rparr> in
           bindE (sfs_rblock SFS_SB_LOCATION s) (\<lambda>bs s.
           let sp = bytes_super bs in
           if sp_magic sp \<noteq> SFS_MAGIC then Ret (Inl EINVAL, s\<lparr>sfs_super := sp\<rparr>)
           else
             let s = s\<lparr>sfs_super := sp\<lparr>sp_volname := (sp_volname sp)[SFS_VOLNAME_SIZE - 1 := 0]\<rparr>\<rparr> in
             case s_kmalloc s of (ok1, s) \<Rightarrow>
             case (if ok1 then s_kmalloc s else (False, s)) of (ok2, s) \<Rightarrow>
             andthen (bitmap_create ok1 ok2 (SFS_FS_BITMAPSIZE s)) (\<lambda>b.
             case b of None \<Rightarrow> Ret (Inl ENOMEM, s)
             | Some b \<Rightarrow>
                 bindE (sfs_mapio UIO_READ (s\<lparr>sfs_freemap := b\<rparr>)) (\<lambda>_ s.
                 Ret (Inr (), s\<lparr>sfs_superdirty := False, sfs_freemapdirty := False\<rparr>))))))"

end
