(* ===== verification/SfsProps.thy ===== *)
theory SfsProps
  imports SfsExample SfsFs
begin

text \<open>
  The properties of the SFS file system: reads and writes against the contents of a file, truncation,
  and what happens when the disk reports an error.
\<close>

section \<open>Disk errors\<close>

text \<open>The disk has sectors of the right size and few enough of them, but may report errors.\<close>

definition disk_shape :: "sfs_fs \<Rightarrow> bool" where
  "disk_shape s \<longleftrightarrow> length (s_disk s) < 2 ^ 22 \<and> (\<forall>b \<in> set (s_disk s). length b = SFS_BLOCKSIZE)"

lemma lhd_io_one:
  assumes "disk_shape s" "b < length (s_disk s)" "uio_resid u = SFS_BLOCKSIZE" "uio_offset u = int (SFS_BLOCKSIZE * b)"
  shows "lhd_io u s = lhd_loop 1 b (replicate LHD_SECTSIZE 0) u s"
proof -
  have b: "b < 2 ^ 22" using assms(1,2) by (simp add: disk_shape_def)
  then show ?thesis using assms(2-4) sector_of [OF b] by (simp add: lhd_io_def Let_def) (simp add: sfs_consts)
qed

lemma lhd_io_read_fails:
  assumes "disk_shape s" "b < length (s_disk s)" "uio_rw u = UIO_READ" "uio_resid u = SFS_BLOCKSIZE"
    "uio_offset u = int (SFS_BLOCKSIZE * b)" "s_lhd s = (LHD_MEDIA, junk) # rest"
  shows "lhd_io u s = Ret ((Some EIO, u), s\<lparr>s_lhd := rest\<rparr>)"
  using assms(2,3,6) by (simp add: lhd_io_one [OF assms(1,2,4,5)] lhd_start_def lhd_code_to_errno_def)

lemma sfs_retry_read:
  assumes "disk_shape s" "b < length (s_disk s)" "kuio_ok u" "uio_rw u = UIO_READ" "uio_resid u = SFS_BLOCKSIZE"
    "uio_offset u = int (SFS_BLOCKSIZE * b)" "s_lhd s = map (Pair LHD_MEDIA) junk"
  shows "sfs_retry m u s = (if length junk \<le> m then Ret ((None, uio_fill (s_disk s ! b) u), s\<lparr>s_lhd := []\<rparr>)
    else Ret ((Some EIO, u), s\<lparr>s_lhd := drop (m + 1) (s_lhd s)\<rparr>))"
  using assms(1,2,7)
proof (induction m arbitrary: s junk)
  case 0
  show ?case
  proof (cases junk)
    case Nil
    then have "disk_ok s" using 0 by (simp add: disk_ok_def disk_shape_def)
    from lhd_io_read [OF this 0(2) assms(3-6)] Nil 0(3) show ?thesis by (simp add: sfs_retry.simps)
  next
    case (Cons j js)
    with lhd_io_read_fails [OF 0(1,2) assms(4-6), of j] 0(3) show ?thesis by (simp add: sfs_retry.simps)
  qed
next
  case (Suc m)
  show ?case
  proof (cases junk)
    case Nil
    then have "disk_ok s" using Suc.prems by (simp add: disk_ok_def disk_shape_def)
    from lhd_io_read [OF this Suc.prems(2) assms(3-6)] Nil Suc.prems(3) show ?thesis by (simp add: sfs_retry.simps)
  next
    case (Cons j js)
    let ?s = "s\<lparr>s_lhd := map (Pair LHD_MEDIA) js\<rparr>"
    have "sfs_retry (Suc m) u s = sfs_retry m u ?s"
      using lhd_io_read_fails [OF Suc.prems(1,2) assms(4-6), of j] Cons Suc.prems(3) by (subst sfs_retry.simps) simp
    then show ?thesis using Suc.IH [of ?s js] Suc.prems Cons by (simp add: disk_shape_def)
  qed
qed

lemma lhd_io_write_fails:
  assumes "disk_shape s" "b < length (s_disk s)" "kuio_ok u" "uio_rw u = UIO_WRITE" "uio_resid u = SFS_BLOCKSIZE"
    "uio_offset u = int (SFS_BLOCKSIZE * b)" "s_lhd s = (LHD_MEDIA, junk) # rest"
  shows "lhd_io u s = Ret ((Some EIO, uio_adv SFS_BLOCKSIZE u), s\<lparr>s_lhd := rest, s_disk := (s_disk s)[b := junk]\<rparr>)"
proof -
  have "uiomove (s_space s) (replicate LHD_SECTSIZE 0) LHD_SECTSIZE u s =
      Ret ((None, uio_bytes SFS_BLOCKSIZE u, uio_adv SFS_BLOCKSIZE u), s)"
    using uiomove_write [OF assms(3,4), of LHD_SECTSIZE "replicate LHD_SECTSIZE 0" "s_space s" s] assms(5) by (simp add: sfs_consts)
  then show ?thesis using assms(2,4,7)
    by (simp add: lhd_io_one [OF assms(1,2,5,6)] lhd_start_def lhd_code_to_errno_def)
qed

text \<open>A transfer of no bytes returns at once.\<close>

lemma lhd_io_empty:
  assumes "length (s_disk s) < 2 ^ 22" "b \<le> length (s_disk s)" "uio_resid u = 0" "uio_offset u = int (SFS_BLOCKSIZE * b)"
  shows "lhd_io u s = Ret ((None, u), s)"
proof -
  have b: "b < 2 ^ 22" using assms(1,2) by simp
  then show ?thesis using assms(2-4) sector_of [OF b] by (simp add: lhd_io_def Let_def)
qed

text \<open>C33: A write of a block that the disk fails once with a media error is reported as a success, although the
  block holds whatever the failed operation left there.  The driver has consumed the data when the error
  is reported, so the second attempt has nothing left to transfer and succeeds.\<close>
theorem sfs_wblock_lost:
  assumes "disk_shape s" "b < length (s_disk s)" "length data = SFS_BLOCKSIZE" "s_lhd s = (LHD_MEDIA, junk) # rest"
  shows "sfs_wblock data b s = Ret (Inr (), s\<lparr>s_lhd := rest, s_disk := (s_disk s)[b := junk]\<rparr>)"
proof -
  let ?u = "SFSUIO data b UIO_WRITE" and ?s = "s\<lparr>s_lhd := rest, s_disk := (s_disk s)[b := junk]\<rparr>"
  have b: "b < 2 ^ 22 - 1" using assms(1,2) by (simp add: disk_shape_def)
  note u = SFSUIO_ok [OF assms(3) b, of UIO_WRITE] SFSUIO_sels [of data b UIO_WRITE]
  have first: "lhd_io ?u s = Ret ((Some EIO, uio_adv SFS_BLOCKSIZE ?u), ?s)"
    by (rule lhd_io_write_fails [OF assms(1,2) u(1,3,4,2) assms(4)])
  have second: "lhd_io (uio_adv SFS_BLOCKSIZE ?u) ?s = Ret ((None, uio_adv SFS_BLOCKSIZE ?u), ?s)"
    using assms(1,2) u by (intro lhd_io_empty [of _ "b + 1"]) (simp_all add: disk_shape_def)
  have "sfs_retry 10 ?u s = sfs_retry 9 (uio_adv SFS_BLOCKSIZE ?u) ?s"
    using first by (subst sfs_retry.simps) (simp add: numeral_eq_Suc)
  also have "\<dots> = Ret ((None, uio_adv SFS_BLOCKSIZE ?u), ?s)" using second by (subst sfs_retry.simps) simp
  finally show ?thesis by (simp add: sfs_wblock_def sfs_rwblock_def)
qed

lemma ex_shape: "disk_shape ex_fs"
  using ex_fs_ok by (simp add: fs_ok_def disk_ok_def disk_shape_def)

theorem sfs_wblock_lost_witness:
  "sfs_wblock (replicate SFS_BLOCKSIZE 7) 6 (ex_fs\<lparr>s_lhd := [(LHD_MEDIA, replicate SFS_BLOCKSIZE 0)]\<rparr>) =
     Ret (Inr (), ex_fs\<lparr>s_disk := (s_disk ex_fs)[6 := replicate SFS_BLOCKSIZE 0]\<rparr>)"
proof -
  have "disk_shape (ex_fs\<lparr>s_lhd := [(LHD_MEDIA, replicate SFS_BLOCKSIZE 0)]\<rparr>)" using ex_shape by (simp add: disk_shape_def)
  from sfs_wblock_lost [OF this, of 6 "replicate SFS_BLOCKSIZE 7" "replicate SFS_BLOCKSIZE 0" "[]"]
  show ?thesis by (simp add: ex_fs_def)
qed

text \<open>A read of a block is tried eleven times: it returns the contents of the block when one of the
  first eleven attempts succeeds, and \<open>EIO\<close> when all of them fail.\<close>
theorem sfs_rblock_retries:
  assumes "disk_shape s" "b < length (s_disk s)" "s_lhd s = map (Pair LHD_MEDIA) junk"
  shows "sfs_rblock b s = (if length junk \<le> 10 then Ret (Inr (s_disk s ! b), s\<lparr>s_lhd := []\<rparr>)
    else Ret (Inl EIO, s\<lparr>s_lhd := drop 11 (s_lhd s)\<rparr>))"
proof -
  let ?u = "SFSUIO (replicate SFS_BLOCKSIZE 0) b UIO_READ"
  have b: "b < 2 ^ 22 - 1" using assms(1,2) by (simp add: disk_shape_def)
  note u = SFSUIO_ok [OF length_replicate b, of 0 UIO_READ] SFSUIO_sels [of "replicate SFS_BLOCKSIZE 0" b UIO_READ]
  have len: "length (s_disk s ! b) = SFS_BLOCKSIZE" using assms(1,2) by (simp add: disk_shape_def)
  then have buf: "iov_kbuf (uio_fill (s_disk s ! b) ?u) = s_disk s ! b" by (simp add: uio_fill_def SFSUIO_def mk_kuio_def)
  show ?thesis using sfs_retry_read [OF assms(1,2) u(1,3,4,2) assms(3), of 10] buf
    by (simp add: sfs_rblock_def sfs_rwblock_def)
qed

theorem sfs_rblock_retries_witness:
  "sfs_rblock 4 (ex_fs\<lparr>s_lhd := [(LHD_MEDIA, []), (LHD_MEDIA, [])]\<rparr>) = Ret (Inr ([104, 101, 108, 108, 111] @ replicate 507 0), ex_fs)"
proof -
  have "disk_shape (ex_fs\<lparr>s_lhd := [(LHD_MEDIA, []), (LHD_MEDIA, [])]\<rparr>)" using ex_shape by (simp add: disk_shape_def)
  from sfs_rblock_retries [OF this, of 4 "[[], []]"] show ?thesis by (simp add: ex_fs_def)
qed

section \<open>Reading and writing\<close>

lemma mk_kuio_ok:
  assumes "length buf = n" "off + n \<le> SFS_MAXBLOCKS * SFS_BLOCKSIZE"
  shows "kuio_ok (mk_kuio buf n (int off) rw)"
  using assms by (simp add: kuio_ok_def mk_kuio_def SFS_MAXBLOCKS_def sfs_consts)

lemma mk_kuio_sels [simp]:
  "uio_rw (mk_kuio buf n off rw) = rw" "uio_resid (mk_kuio buf n off rw) = n" "uio_offset (mk_kuio buf n off rw) = off"
  "iov_kbuf (mk_kuio buf n off rw) = buf" "uio_bytes m (mk_kuio buf n off rw) = take m buf"
  by (simp_all add: mk_kuio_def uio_bytes_def)

text \<open>C30: A write to a file puts the data at the position asked for, and changes no other byte of the file
  and no byte of any other file whose blocks are its own.  It stops early, after a prefix of the data, only
  when every block of the disk is in use; the file ends where it ended before or where the write stopped,
  whichever is further.\<close>
theorem sfs_write_contents:
  assumes "file_at s p" "off + length data \<le> SFS_MAXBLOCKS * SFS_BLOCKSIZE" "off < SFS_MAXBLOCKS * SFS_BLOCKSIZE"
    "fsize s p \<le> SFS_MAXBLOCKS * SFS_BLOCKSIZE" "file_at s q" "q \<noteq> p" "fblocks s q \<inter> fblocks s p = {}"
  defines "u \<equiv> mk_kuio data (length data) (int off) UIO_WRITE"
  shows "\<exists>r n s'. sfs_write p u s = Ret ((r, uio_adv n u), s') \<and> file_at s' p \<and>
    fdata s' p = put_bytes off (take n data) (fdata s p) \<and> fsize s' p = max (fsize s p) (off + n) \<and>
    file_at s' q \<and> fdata s' q = fdata s q \<and> fsize s' q = fsize s q \<and> fblocks s' q \<inter> fblocks s' p = {} \<and>
    (r = None \<and> n = length data \<or>
     r = Some ENOSPC \<and> n \<le> length data \<and> used s' = {..<sp_nblocks (sfs_super s)})"
proof -
  have "kuio_ok u" unfolding u_def by (rule mk_kuio_ok [OF refl assms(2)])
  from sfs_io_write [OF assms(1) this, of off] assms(2-4) obtain r n s' where
    io: "sfs_io p u s = Ret ((r, uio_adv n u), s')" "touches p s s'" "file_at s' p"
      "fdata s' p = put_bytes off (take n data) (fdata s p)" "fsize s' p = max (fsize s p) (off + n)"
      "r = None \<and> n = length data \<or> r = Some ENOSPC \<and> n \<le> length data \<and> used s' = {..<sp_nblocks (sfs_super s)}"
    by (auto simp: u_def)
  have "fs_ok s'" using io(3) by (simp add: file_at_def)
  note other = touches_other [OF io(2) this assms(5-7)]
  show ?thesis
    by (intro exI [of _ r] exI [of _ n] exI [of _ s'] conjI io(3-6) other(1-4)) (use io(1) in \<open>simp add: sfs_write_def u_def\<close>)
qed

theorem sfs_write_contents_witness:
  "\<exists>r n s'. sfs_write 10 (mk_kuio [1, 2, 3] 3 4 UIO_WRITE) ex_fs = Ret ((r, uio_adv n (mk_kuio [1, 2, 3] 3 4 UIO_WRITE)), s') \<and>
     fdata s' 10 = put_bytes 4 (take n [1, 2, 3]) (fdata ex_fs 10) \<and> fdata s' 9 = fdata ex_fs 9"
  using sfs_write_contents [OF ex_file_at(2), of 4 "[1, 2, 3]" 9] ex_file_at(1) ex_fblocks ex_fsize(2)
  by (auto simp: SFS_MAXBLOCKS_def sfs_consts numeral_3_eq_3)

text \<open>C31: A read of a file returns the bytes at the position asked for, up to the end of the file, and
  changes nothing; positions in a block that was never written read as zeros.\<close>
theorem sfs_read_contents:
  assumes "file_at s p" "fsize s p \<le> SFS_MAXBLOCKS * SFS_BLOCKSIZE" "off + length buf \<le> SFS_MAXBLOCKS * SFS_BLOCKSIZE"
  shows "\<exists>u. sfs_read p (mk_kuio buf (length buf) (int off) UIO_READ) s = Ret ((None, u), s) \<and>
    (let n = min (length buf) (fsize s p - off) in
     iov_kbuf u = get_bytes off n (fdata s p) @ drop n buf \<and> uio_resid u = length buf - n \<and> uio_offset u = int (off + n))"
proof -
  let ?u = "mk_kuio buf (length buf) (int off) UIO_READ" and ?n = "min (length buf) (fsize s p - off)"
  have "sfs_io p ?u s = Ret ((None, uio_fill (get_bytes off ?n (fdata s p)) ?u), s)"
    using sfs_io_read [OF assms(1) mk_kuio_ok [OF refl assms(3)], of UIO_READ off] assms(2) by simp
  then show ?thesis by (simp add: sfs_read_def Let_def) (simp add: uio_fill_def mk_kuio_def)
qed

theorem sfs_read_contents_witness:
  "\<exists>u. sfs_read 10 (mk_kuio (replicate 8 0) 8 2 UIO_READ) ex_fs = Ret ((None, u), ex_fs) \<and> take 3 (iov_kbuf u) = [108, 108, 111]"
proof -
  have "map (fdata ex_fs 10) [2, 3, 4] = [108, 108, 111]"
    unfolding fdata_def ex_inodes ex_file_def file_byte_def by (simp add: ex_block sfs_consts ex_fs_def)
  then have "get_bytes 2 3 (fdata ex_fs 10) = [108, 108, 111]" by (simp add: get_bytes_def upt_rec numeral_eq_Suc)
  then show ?thesis
    using sfs_read_contents [OF ex_file_at(2), of 2 "replicate 8 0"] ex_fsize(2)
    by (auto simp: SFS_MAXBLOCKS_def sfs_consts Let_def)
qed

section \<open>Truncation\<close>

text \<open>C32: Truncating a file to \<open>len\<close> bytes, which are \<open>bl\<close> blocks, keeps exactly the blocks below \<open>bl\<close> and also
  block \<open>bl\<close> when it is mapped through the indirect block; exactly the blocks that are no
  longer part of the file are free again, and no block of another file is touched.  The bytes of the kept blocks stay as
  they were, also those past the new end of the file.\<close>
theorem sfs_truncate_contents:
  assumes "file_at s p" "len < 2 ^ 31 - SFS_BLOCKSIZE" "bl = (len + SFS_BLOCKSIZE - 1) div SFS_BLOCKSIZE"
  shows "\<exists>s'. sfs_truncate p (int len) s = Ret (Inr (), s') \<and> touches p s s' \<and> file_at s' p \<and> fsize s' p = len \<and>
    used s' = used s - (fblocks s p - fblocks s' p) \<and>
    (\<forall>k. fblock s' p k = (if k < bl \<or> k = bl \<and> SFS_NDIRECT \<le> k then fblock s p k else 0)) \<and>
    (\<forall>x. fdata s' p x = (if x div SFS_BLOCKSIZE < bl \<or> x div SFS_BLOCKSIZE = bl \<and> SFS_NDIRECT \<le> bl then fdata s p x else 0))"
proof -
  from sfs_truncate_run [OF assms(1,2)] obtain s1 where
    s1: "sfs_truncate p (int len) s = Ret (Inr (), upd_inode p (\<lambda>x. x\<lparr>sfi_size := len\<rparr>) s1)" "truncated p (kept bl) s s1"
    unfolding assms(3) by blast
  have "len < 2 ^ 32" using assms(2) by simp
  note t = truncated_size [OF s1(2) this]
  show ?thesis
    by (intro exI [of _ "upd_inode p (\<lambda>x. x\<lparr>sfi_size := len\<rparr>) s1"] conjI s1(1) t(1-3,6) allI)
      (auto simp: t(4,5) kept_def)
qed

theorem sfs_truncate_contents_witness:
  "\<exists>s'. sfs_truncate 10 0 ex_fs = Ret (Inr (), s') \<and> fsize s' 10 = 0 \<and> fdata s' 10 0 = 0 \<and> fblock s' 10 0 = 0"
  using sfs_truncate_contents [OF ex_file_at(2) _ refl, of 0] by (auto simp: sfs_consts)

end
