(* ===== verification/SfsDir.thy ===== *)
theory SfsDir
  imports SfsVnode SfsIO
begin

text \<open>
  Directories of SFS as finite maps from names to inode numbers: what the slots of a directory file mean,
  and what searching, adding and removing an entry do.
\<close>

section \<open>Entries\<close>

definition dir_entry :: "sfs_fs \<Rightarrow> nat \<Rightarrow> nat \<Rightarrow> sfs_dir" where
  "dir_entry s p i = bytes_dir (get_bytes (i * SFS_DIRSIZE) SFS_DIRSIZE (fdata s p))"

definition entry_name :: "sfs_dir \<Rightarrow> byte list" where
  "entry_name e = takeWhile (\<lambda>c. c \<noteq> 0) (take (SFS_NAMELEN - 1) (sfd_name e))"

definition dir_slots :: "sfs_fs \<Rightarrow> nat \<Rightarrow> nat" where
  "dir_slots s p = fsize s p div SFS_DIRSIZE"

definition dir_live :: "sfs_fs \<Rightarrow> nat \<Rightarrow> nat set" where
  "dir_live s p = {i. i < dir_slots s p \<and> sfd_ino (dir_entry s p i) \<noteq> SFS_NOINO}"

definition dir_at :: "sfs_fs \<Rightarrow> nat \<Rightarrow> bool" where
  "dir_at s p \<longleftrightarrow> file_at s p \<and> sfi_type (inode_of s p) = SFS_TYPE_DIR \<and> fsize s p mod SFS_DIRSIZE = 0 \<and>
     fsize s p \<le> SFS_MAXBLOCKS * SFS_BLOCKSIZE \<and> inj_on (entry_name \<circ> dir_entry s p) (dir_live s p)"

text \<open>The map: the last live slot with the name, there being at most one.\<close>

fun slots_find :: "(nat \<Rightarrow> sfs_dir) \<Rightarrow> byte list \<Rightarrow> nat \<Rightarrow> nat option" where
  "slots_find e name 0 = None"
| "slots_find e name (Suc n) =
     (if sfd_ino (e n) \<noteq> SFS_NOINO \<and> entry_name (e n) = name then Some n else slots_find e name n)"

definition dir_find :: "sfs_fs \<Rightarrow> nat \<Rightarrow> byte list \<Rightarrow> nat option" where
  "dir_find s p name = slots_find (dir_entry s p) name (dir_slots s p)"

definition dir_map :: "sfs_fs \<Rightarrow> nat \<Rightarrow> byte list \<Rightarrow> nat option" where
  "dir_map s p name = map_option (\<lambda>i. sfd_ino (dir_entry s p i)) (dir_find s p name)"

lemma slots_find_Some:
  assumes "slots_find e name n = Some i"
  shows "i < n \<and> sfd_ino (e i) \<noteq> SFS_NOINO \<and> entry_name (e i) = name"
  using assms by (induction n) (auto simp: less_Suc_eq split: if_splits)

lemma slots_find_None: "slots_find e name n = None \<longleftrightarrow> (\<forall>i<n. sfd_ino (e i) \<noteq> SFS_NOINO \<longrightarrow> entry_name (e i) \<noteq> name)"
  by (induction n) (auto simp: less_Suc_eq)

lemma slots_find_cong: "(\<And>i. i < n \<Longrightarrow> e i = e' i) \<Longrightarrow> slots_find e name n = slots_find e' name n"
  by (induction n) auto

lemma dir_find_iff:
  assumes "dir_at s p"
  shows "dir_find s p name = Some i \<longleftrightarrow> i \<in> dir_live s p \<and> entry_name (dir_entry s p i) = name"
proof
  assume "dir_find s p name = Some i"
  then show "i \<in> dir_live s p \<and> entry_name (dir_entry s p i) = name"
    unfolding dir_find_def dir_live_def by (auto dest: slots_find_Some)
next
  assume i: "i \<in> dir_live s p \<and> entry_name (dir_entry s p i) = name"
  then have "dir_find s p name \<noteq> None" by (auto simp: dir_find_def dir_live_def slots_find_None)
  then obtain j where j: "dir_find s p name = Some j" by blast
  then have "j \<in> dir_live s p" "entry_name (dir_entry s p j) = name"
    unfolding dir_find_def dir_live_def by (auto dest: slots_find_Some)
  moreover have "inj_on (entry_name \<circ> dir_entry s p) (dir_live s p)" using assms by (simp add: dir_at_def)
  ultimately have "j = i" using i by (metis comp_apply inj_onD)
  with j show "dir_find s p name = Some i" by simp
qed

section \<open>Reading and writing slots\<close>

lemma dirsize: "SFS_DIRSIZE = 64"
  by (simp add: SFS_DIRSIZE_def sfs_consts)

lemma dir_atE:
  assumes "dir_at s p"
  obtains sv where "s_vn s p = Some sv" "file_at s p" "inode_of s p = sv_i sv" "sfi_type (sv_i sv) = SFS_TYPE_DIR"
    "sfi_size (sv_i sv) = dir_slots s p * SFS_DIRSIZE" "dir_slots s p * SFS_DIRSIZE = fsize s p"
    "fsize s p \<le> SFS_MAXBLOCKS * SFS_BLOCKSIZE"
proof -
  have f: "file_at s p" using assms by (simp add: dir_at_def)
  from f obtain sv where sv: "s_vn s p = Some sv" "inode_of s p = sv_i sv" by (rule file_atE)
  have "dir_slots s p * SFS_DIRSIZE = fsize s p" using assms by (auto simp: dir_at_def dir_slots_def)
  with sv f assms show ?thesis by (intro that [of sv]) (auto simp: dir_at_def fsize_def)
qed

lemma slot_pos:
  assumes "i * SFS_DIRSIZE < SFS_MAXBLOCKS * SFS_BLOCKSIZE"
  shows "to_off (int i * int SFS_DIRSIZE) = int (i * SFS_DIRSIZE)" "i * SFS_DIRSIZE + SFS_DIRSIZE \<le> SFS_MAXBLOCKS * SFS_BLOCKSIZE"
    "i * SFS_DIRSIZE mod SFS_BLOCKSIZE + SFS_DIRSIZE \<le> SFS_BLOCKSIZE"
proof -
  have i: "i < 1144" using assms by (simp add: SFS_MAXBLOCKS_def sfs_consts dirsize)
  then show "to_off (int i * int SFS_DIRSIZE) = int (i * SFS_DIRSIZE)" by (simp add: dirsize)
  show "i * SFS_DIRSIZE + SFS_DIRSIZE \<le> SFS_MAXBLOCKS * SFS_BLOCKSIZE" using i by (simp add: SFS_MAXBLOCKS_def sfs_consts dirsize)
  have "i * 64 mod (8 * 64) = i mod 8 * 64" by (rule mod_mult_mult2)
  then show "i * SFS_DIRSIZE mod SFS_BLOCKSIZE + SFS_DIRSIZE \<le> SFS_BLOCKSIZE" by (simp add: sfs_consts dirsize)
qed

lemma sfs_dir_nentries_spec:
  assumes "dir_at s p"
  shows "sfs_dir_nentries p s = Ret (int (dir_slots s p))"
proof -
  have "fsize s p mod SFS_DIRSIZE = 0" using assms by (simp add: dir_at_def)
  moreover obtain sv where "s_vn s p = Some sv" "sfi_type (sv_i sv) = SFS_TYPE_DIR" "inode_of s p = sv_i sv"
    using assms by (rule dir_atE)
  ultimately show ?thesis by (simp add: sfs_dir_nentries_def dir_slots_def fsize_def)
qed

lemma sfs_readdir_spec:
  assumes "dir_at s p" "i < dir_slots s p"
  shows "sfs_readdir p (int i) s = Ret (Inr (dir_entry s p i), s)"
proof -
  obtain sv where sv: "file_at s p" "dir_slots s p * SFS_DIRSIZE = fsize s p" "fsize s p \<le> SFS_MAXBLOCKS * SFS_BLOCKSIZE"
    using assms(1) by (rule dir_atE)
  have e: "i * SFS_DIRSIZE + SFS_DIRSIZE \<le> fsize s p"
    using assms(2) unfolding sv(2) [symmetric] by (metis Suc_leI add.commute mult_Suc mult_le_mono1)
  then have "i * SFS_DIRSIZE < SFS_MAXBLOCKS * SFS_BLOCKSIZE" using sv(3) by (simp add: dirsize)
  note pos = slot_pos [OF this]
  let ?u = "mk_kuio (replicate SFS_DIRSIZE 0) SFS_DIRSIZE (int (i * SFS_DIRSIZE)) UIO_READ"
  let ?bs = "get_bytes (i * SFS_DIRSIZE) SFS_DIRSIZE (fdata s p)"
  have k: "kuio_ok ?u" using pos(2) by (simp add: kuio_ok_def mk_kuio_def SFS_MAXBLOCKS_def sfs_consts dirsize)
  have "sfs_io p ?u s = Ret ((None, uio_fill ?bs ?u), s)"
    using sfs_io_read [OF sv(1) k, of "i * SFS_DIRSIZE"] sv(3) e by (simp add: mk_kuio_def)
  then show ?thesis
    by (simp add: sfs_readdir_def pos(1) Let_def dir_entry_def) (simp add: uio_fill_def mk_kuio_def)
qed

lemma dir_entry_other:
  assumes "fdata s' p = put_bytes (i * SFS_DIRSIZE) bs (fdata s p)" "length bs = SFS_DIRSIZE" "j \<noteq> i"
  shows "dir_entry s' p j = dir_entry s p j"
proof -
  have "\<not> (i * SFS_DIRSIZE \<le> x \<and> x < i * SFS_DIRSIZE + SFS_DIRSIZE)" if "j * SFS_DIRSIZE \<le> x" "x < j * SFS_DIRSIZE + SFS_DIRSIZE" for x
    using assms(3) that by (auto simp: dirsize)
  then have "get_bytes (j * SFS_DIRSIZE) SFS_DIRSIZE (fdata s' p) = get_bytes (j * SFS_DIRSIZE) SFS_DIRSIZE (fdata s p)"
    by (auto simp: get_bytes_def assms(1,2) put_bytes_def)
  then show ?thesis by (simp add: dir_entry_def)
qed

definition sfs_dir_ok :: "sfs_dir \<Rightarrow> bool" where
  "sfs_dir_ok d \<longleftrightarrow> sfd_ino d < 2 ^ 32 \<and> length (sfd_name d) = SFS_NAMELEN"

lemma bytes_dir_bytes: "sfs_dir_ok d \<Longrightarrow> bytes_dir (dir_bytes d) = d" "sfs_dir_ok d \<Longrightarrow> length (dir_bytes d) = SFS_DIRSIZE"
  by (simp_all add: sfs_dir_ok_def bytes_dir_def dir_bytes_def SFS_DIRSIZE_def)

lemma dir_entry_hole:
  assumes "file_at s p" "i * SFS_DIRSIZE mod SFS_BLOCKSIZE + SFS_DIRSIZE \<le> SFS_BLOCKSIZE" "fblock s p (i * SFS_DIRSIZE div SFS_BLOCKSIZE) = 0"
  shows "sfd_ino (dir_entry s p i) = SFS_NOINO"
proof -
  have "get_bytes (i * SFS_DIRSIZE) SFS_DIRSIZE (fdata s p) = replicate SFS_DIRSIZE 0"
    using block_data_bytes [OF assms(1,2), of "i * SFS_DIRSIZE" "i * SFS_DIRSIZE div SFS_BLOCKSIZE"] assms(2,3)
    by (simp add: block_data_def)
  then show ?thesis by (simp add: dir_entry_def bytes_dir_def dirsize sfs_consts numeral_eq_Suc)
qed

lemma sfs_writedir_spec:
  assumes "dir_at s p" "sfs_dir_ok d" "i \<le> dir_slots s p" "i * SFS_DIRSIZE < SFS_MAXBLOCKS * SFS_BLOCKSIZE"
  obtains s' where "sfs_writedir p d (int i) s = Ret (Inr (), s')" "touches p s s'" "file_at s' p" "dir_entry s' p = (dir_entry s p)(i := d)"
    "fsize s' p = max (fsize s p) (i * SFS_DIRSIZE + SFS_DIRSIZE)"
  | s' where "sfs_writedir p d (int i) s = Ret (Inl ENOSPC, s')" "touches p s s'" "file_at s' p" "dir_entry s' p = dir_entry s p"
    "fsize s' p = fsize s p" "used s' = {..<sp_nblocks (sfs_super s)}" "sfd_ino (dir_entry s p i) = SFS_NOINO"
proof -
  obtain sv where sv: "file_at s p" "dir_slots s p * SFS_DIRSIZE = fsize s p" "fsize s p \<le> SFS_MAXBLOCKS * SFS_BLOCKSIZE"
    using assms(1) by (rule dir_atE)
  note pos = slot_pos [OF assms(4)]
  let ?off = "i * SFS_DIRSIZE"
  let ?u = "mk_kuio (dir_bytes d) SFS_DIRSIZE (int ?off) UIO_WRITE"
  have k: "kuio_ok ?u"
    using pos(2) bytes_dir_bytes(2) [OF assms(2)] by (simp add: kuio_ok_def mk_kuio_def SFS_MAXBLOCKS_def sfs_consts dirsize)
  have sels: "uio_rw ?u = UIO_WRITE" "uio_offset ?u = int ?off" "uio_resid ?u = SFS_DIRSIZE" "uio_bytes SFS_DIRSIZE ?u = dir_bytes d"
    using bytes_dir_bytes(2) [OF assms(2)] by (simp_all add: mk_kuio_def uio_bytes_def)
  have le: "?off \<le> fsize s p" using assms(3) unfolding sv(2) [symmetric] by simp
  have sz: "0 < SFS_DIRSIZE" "SFS_DIRSIZE < SFS_BLOCKSIZE" by (simp_all add: dirsize sfs_consts)
  consider s' where "sfs_io p ?u s = Ret ((None, uio_adv SFS_DIRSIZE ?u), s')" "touches p s s'" "file_at s' p"
      "fdata s' p = put_bytes ?off (dir_bytes d) (fdata s p)" "fsize s' p = max (fsize s p) (?off + SFS_DIRSIZE)"
    | s' where "sfs_io p ?u s = Ret ((Some ENOSPC, ?u), s')" "touches p s s'" "file_at s' p" "fdata s' p = fdata s p"
      "fsize s' p = max (fsize s p) ?off" "used s' = {..<sp_nblocks (sfs_super s)}" "fblock s p (?off div SFS_BLOCKSIZE) = 0"
    by (rule sfs_io_write_small [OF sv(1) k sels(1,2) _ sv(3)]) (use pos(2,3) sz sels(3,4) in auto)
  then show ?thesis
  proof cases
    case 1
    have "dir_entry s' p i = d"
      using bytes_dir_bytes [OF assms(2)] get_put_bytes [of ?off "dir_bytes d" "fdata s p"] by (simp add: dir_entry_def 1(4))
    moreover have "dir_entry s' p j = dir_entry s p j" if "j \<noteq> i" for j
      by (rule dir_entry_other [OF 1(4) bytes_dir_bytes(2) [OF assms(2)] that])
    ultimately have "dir_entry s' p = (dir_entry s p)(i := d)" by auto
    then show ?thesis using 1 pos(1) sels(3) by (intro that(1) [of s']) (simp_all add: sfs_writedir_def)
  next
    case 2
    have "sfd_ino (dir_entry s p i) = SFS_NOINO" by (rule dir_entry_hole [OF sv(1) pos(3) 2(7)])
    with 2 show ?thesis using pos(1) le by (intro that(2) [of s']) (simp_all add: sfs_writedir_def dir_entry_def [abs_def])
  qed
qed

section \<open>Searching\<close>

text \<open>The free slot that a search reports: the last one, or \<open>-1\<close>.\<close>

fun slots_empty :: "(nat \<Rightarrow> sfs_dir) \<Rightarrow> nat \<Rightarrow> int" where
  "slots_empty e 0 = - 1"
| "slots_empty e (Suc n) = (if sfd_ino (e n) = SFS_NOINO then int n else slots_empty e n)"

lemma slots_empty_cases: "slots_empty e n = - 1 \<or> (\<exists>i<n. slots_empty e n = int i \<and> sfd_ino (e i) = SFS_NOINO)"
  by (induction n) (auto simp: less_Suc_eq)

lemma entry_strcmp:
  assumes "length (sfd_name e) = SFS_NAMELEN" "0 \<notin> set name"
  shows "\<exists>c. strcmp ((sfd_name e)[SFS_NAMELEN - 1 := 0]) (cstr name) = Ret c \<and> (c = 0 \<longleftrightarrow> entry_name e = name)"
proof -
  let ?n = "sfd_name e" and ?t = "take (SFS_NAMELEN - 1) (sfd_name e)"
  have "drop SFS_NAMELEN ?n = []" using assms(1) by simp
  moreover have "SFS_NAMELEN - 1 < length ?n" "Suc (SFS_NAMELEN - 1) = SFS_NAMELEN" using assms(1) by (simp_all add: sfs_consts)
  ultimately have nm: "?n[SFS_NAMELEN - 1 := 0] = ?t @ [0]" by (simp add: upd_conv_take_nth_drop)
  have "\<exists>r. ?t @ [0] = entry_name e @ 0 # r"
  proof (cases "\<exists>c\<in>set ?t. c = 0")
    case True
    then have "dropWhile (\<lambda>c. c \<noteq> 0) ?t \<noteq> []" by (simp add: dropWhile_eq_Nil_conv)
    then obtain d r where d: "dropWhile (\<lambda>c. c \<noteq> 0) ?t = d # r" "d = 0" using hd_dropWhile [of "\<lambda>c. c \<noteq> 0" ?t] by (metis list.exhaust_sel)
    then have "?t = entry_name e @ 0 # r" by (metis entry_name_def takeWhile_dropWhile_id)
    then show ?thesis by simp
  next
    case False
    then have "entry_name e = ?t" by (auto simp: entry_name_def takeWhile_eq_all_conv)
    then show ?thesis by simp
  qed
  then obtain r where r: "?n[SFS_NAMELEN - 1 := 0] = entry_name e @ 0 # r" using nm by auto
  have "0 \<notin> set (entry_name e)" by (auto simp: entry_name_def dest: set_takeWhileD)
  from strcmp_cstr [OF this assms(2), of r "[]"] show ?thesis by (simp only: r cstr_def)
qed

lemma dir_entry_length: "length (sfd_name (dir_entry s p i)) = SFS_NAMELEN"
  by (simp add: dir_entry_def bytes_dir_def SFS_DIRSIZE_def)

lemma sfs_dir_scan_spec:
  assumes "dir_at s p" "0 \<notin> set name" "i + n = dir_slots s p"
  shows "sfs_dir_scan n p name (int i) (map_option (\<lambda>i. (sfd_ino (dir_entry s p i), int i)) (slots_find (dir_entry s p) name i))
      (slots_empty (dir_entry s p) i) s =
    Ret ((case dir_find s p name of None \<Rightarrow> Inl ENOENT | Some i \<Rightarrow> Inr (sfd_ino (dir_entry s p i), int i),
          slots_empty (dir_entry s p) (dir_slots s p)), s)"
  using assms(3)
proof (induction n arbitrary: i)
  case 0
  then show ?case by (simp add: dir_find_def split: option.split)
next
  case (Suc n)
  let ?e = "dir_entry s p"
  have i: "i < dir_slots s p" using Suc.prems by simp
  note rd = sfs_readdir_spec [OF assms(1) i]
  note IH = Suc.IH [of "Suc i"]
  show ?case
  proof (cases "sfd_ino (?e i) = SFS_NOINO")
    case True
    then show ?thesis using IH Suc.prems rd by (simp add: add.commute)
  next
    case False
    obtain c where c: "strcmp ((sfd_name (?e i))[SFS_NAMELEN - 1 := 0]) (cstr name) = Ret c" "c = 0 \<longleftrightarrow> entry_name (?e i) = name"
      using entry_strcmp [OF dir_entry_length assms(2)] by blast
    have "slots_find ?e name i = None" if "entry_name (?e i) = name"
    proof (rule ccontr)
      assume "slots_find ?e name i \<noteq> None"
      then obtain j where "slots_find ?e name i = Some j" by blast
      from slots_find_Some [OF this] have "j < i" "j \<in> dir_live s p" "entry_name (?e j) = name" using i by (auto simp: dir_live_def)
      moreover have "i \<in> dir_live s p" using i False by (simp add: dir_live_def)
      ultimately show False using assms(1) that by (metis comp_apply dir_at_def inj_onD less_irrefl)
    qed
    then show ?thesis using IH Suc.prems rd c False by (cases "entry_name (?e i) = name") (simp_all add: add.commute)
  qed
qed

lemma sfs_dir_findname_spec:
  assumes "dir_at s p" "0 \<notin> set name"
  shows "sfs_dir_findname p name s =
    Ret ((case dir_find s p name of None \<Rightarrow> Inl ENOENT | Some i \<Rightarrow> Inr (sfd_ino (dir_entry s p i), int i),
          slots_empty (dir_entry s p) (dir_slots s p)), s)"
  using sfs_dir_nentries_spec [OF assms(1)] sfs_dir_scan_spec [OF assms, of 0 "dir_slots s p"] by (simp add: sfs_dir_findname_def)

section \<open>Adding and removing\<close>

lemma dir_map_iff:
  assumes "dir_at s p"
  shows "dir_map s p name = Some x \<longleftrightarrow> (\<exists>i\<in>dir_live s p. entry_name (dir_entry s p i) = name \<and> sfd_ino (dir_entry s p i) = x)"
  using dir_find_iff [OF assms, of name] by (auto simp: dir_map_def)

lemma dir_map_None:
  assumes "dir_at s p"
  shows "dir_map s p name = None \<longleftrightarrow> (\<forall>i\<in>dir_live s p. entry_name (dir_entry s p i) \<noteq> name)"
  using dir_map_iff [OF assms, of name] by (metis not_None_eq)

lemma slots_of_size:
  assumes "dir_at s p" "fsize s' p = max (fsize s p) (i * SFS_DIRSIZE + SFS_DIRSIZE)"
  shows "dir_slots s' p = max (dir_slots s p) (Suc i)" "fsize s' p mod SFS_DIRSIZE = 0"
proof -
  have f: "fsize s p = dir_slots s p * SFS_DIRSIZE" using assms(1) by (rule dir_atE) simp
  have "fsize s' p = max (dir_slots s p) (Suc i) * SFS_DIRSIZE"
    unfolding assms(2) f by (simp add: max_def dirsize)
  then show "dir_slots s' p = max (dir_slots s p) (Suc i)" "fsize s' p mod SFS_DIRSIZE = 0" by (simp_all add: dir_slots_def dirsize)
qed

definition dir_written :: "nat \<Rightarrow> nat \<Rightarrow> sfs_dir \<Rightarrow> sfs_fs \<Rightarrow> sfs_fs \<Rightarrow> bool" where
  "dir_written p i d s s' \<longleftrightarrow> touches p s s' \<and> file_at s' p \<and> dir_entry s' p = (dir_entry s p)(i := d) \<and>
     fsize s' p = max (fsize s p) (i * SFS_DIRSIZE + SFS_DIRSIZE)"

lemma dir_written_at:
  assumes "dir_at s p" "dir_written p i d s s'" "i * SFS_DIRSIZE < SFS_MAXBLOCKS * SFS_BLOCKSIZE"
    "inj_on (entry_name \<circ> dir_entry s' p) (dir_live s' p)"
  shows "dir_at s' p"
proof -
  have w: "touches p s s'" "file_at s' p" "fsize s' p = max (fsize s p) (i * SFS_DIRSIZE + SFS_DIRSIZE)"
    using assms(2) by (simp_all add: dir_written_def)
  have d: "sfi_type (inode_of s p) = SFS_TYPE_DIR" "s_vn s p \<noteq> None" "fsize s p \<le> SFS_MAXBLOCKS * SFS_BLOCKSIZE"
    using assms(1) by (auto simp: dir_at_def file_at_def)
  show ?thesis
    using w(2,3) touches_inode(1) [OF w(1) d(2)] d(1,3) slots_of_size(2) [OF assms(1) w(3)] slot_pos(2) [OF assms(3)] assms(4)
    by (simp add: dir_at_def)
qed

lemma dir_written_live:
  assumes "dir_at s p" "dir_written p i d s s'" "i \<le> dir_slots s p"
  shows "dir_live s' p = (if sfd_ino d = SFS_NOINO then dir_live s p - {i} else insert i (dir_live s p))"
proof -
  have w: "dir_entry s' p = (dir_entry s p)(i := d)" "fsize s' p = max (fsize s p) (i * SFS_DIRSIZE + SFS_DIRSIZE)"
    using assms(2) by (simp_all add: dir_written_def)
  show ?thesis
    using assms(3) by (auto simp: dir_live_def w(1) slots_of_size(1) [OF assms(1) w(2)] max_def split: if_splits)
qed

lemma dir_written_add:
  assumes "dir_at s p" "dir_written p i d s s'" "i * SFS_DIRSIZE < SFS_MAXBLOCKS * SFS_BLOCKSIZE" "i \<le> dir_slots s p"
    "i \<notin> dir_live s p" "sfd_ino d \<noteq> SFS_NOINO" "dir_map s p (entry_name d) = None"
  shows "dir_at s' p" "dir_map s' p = (dir_map s p)(entry_name d \<mapsto> sfd_ino d)"
proof -
  have e: "dir_entry s' p = (dir_entry s p)(i := d)" using assms(2) by (simp add: dir_written_def)
  have live: "dir_live s' p = insert i (dir_live s p)" using dir_written_live [OF assms(1,2,4)] assms(6) by simp
  have new: "\<forall>j\<in>dir_live s p. entry_name (dir_entry s p j) \<noteq> entry_name d" using assms(7) dir_map_None [OF assms(1)] by simp
  have "inj_on (entry_name \<circ> dir_entry s p) (dir_live s p)" using assms(1) by (simp add: dir_at_def)
  then have "inj_on (entry_name \<circ> dir_entry s' p) (dir_live s' p)"
    using assms(5) new unfolding live e inj_on_def by auto
  then show dir': "dir_at s' p" by (rule dir_written_at [OF assms(1-3)])
  have "dir_map s' p name = ((dir_map s p)(entry_name d \<mapsto> sfd_ino d)) name" for name
  proof (cases "dir_map s' p name")
    case None
    then have "\<forall>j\<in>insert i (dir_live s p). entry_name (dir_entry s' p j) \<noteq> name" using dir_map_None [OF dir'] live by simp
    then have "name \<noteq> entry_name d" "dir_map s p name = None"
      using assms(5) dir_map_None [OF assms(1)] by (auto simp: e split: if_splits)
    with None show ?thesis by simp
  next
    case (Some x)
    then obtain j where j: "j \<in> insert i (dir_live s p)" "entry_name (dir_entry s' p j) = name" "sfd_ino (dir_entry s' p j) = x"
      using dir_map_iff [OF dir'] live by auto
    show ?thesis
    proof (cases "j = i")
      case True
      with j Some show ?thesis by (simp add: e)
    next
      case False
      with j have "dir_map s p name = Some x" "name \<noteq> entry_name d" using dir_map_iff [OF assms(1)] new by (auto simp: e)
      with Some show ?thesis by simp
    qed
  qed
  then show "dir_map s' p = (dir_map s p)(entry_name d \<mapsto> sfd_ino d)" by (rule ext)
qed

lemma dir_written_del:
  assumes "dir_at s p" "dir_written p i d s s'" "i \<in> dir_live s p" "sfd_ino d = SFS_NOINO"
  shows "dir_at s' p" "dir_map s' p = (dir_map s p)(entry_name (dir_entry s p i) := None)"
proof -
  let ?e = "dir_entry s p"
  have e: "dir_entry s' p = ?e(i := d)" using assms(2) by (simp add: dir_written_def)
  have i: "i \<le> dir_slots s p" "i * SFS_DIRSIZE < SFS_MAXBLOCKS * SFS_BLOCKSIZE"
  proof -
    show "i \<le> dir_slots s p" using assms(3) by (simp add: dir_live_def)
    have "i < dir_slots s p" using assms(3) by (simp add: dir_live_def)
    moreover have "dir_slots s p * SFS_DIRSIZE \<le> SFS_MAXBLOCKS * SFS_BLOCKSIZE" using assms(1) by (rule dir_atE) simp
    ultimately show "i * SFS_DIRSIZE < SFS_MAXBLOCKS * SFS_BLOCKSIZE" by (simp add: dirsize)
  qed
  have live: "dir_live s' p = dir_live s p - {i}" using dir_written_live [OF assms(1,2) i(1)] assms(4) by simp
  have inj: "inj_on (entry_name \<circ> ?e) (dir_live s p)" using assms(1) by (simp add: dir_at_def)
  then have "inj_on (entry_name \<circ> dir_entry s' p) (dir_live s' p)" unfolding live e inj_on_def by auto
  then show dir': "dir_at s' p" by (rule dir_written_at [OF assms(1,2) i(2)])
  have other: "entry_name (?e j) \<noteq> entry_name (?e i)" if "j \<in> dir_live s p" "j \<noteq> i" for j
    using inj that assms(3) by (metis comp_apply inj_onD)
  have "dir_map s' p name = Some x \<longleftrightarrow> ((dir_map s p)(entry_name (?e i) := None)) name = Some x" for name x
    using dir_map_iff [OF dir', of name x] dir_map_iff [OF assms(1), of name x] other by (auto simp: live e)
  then have "dir_map s' p name = ((dir_map s p)(entry_name (?e i) := None)) name" for name by (metis not_None_eq)
  then show "dir_map s' p = (dir_map s p)(entry_name (?e i) := None)" by (rule ext)
qed

lemma entry_name_cstr:
  assumes "0 \<notin> set name" "length name < SFS_NAMELEN"
  shows "entry_name \<lparr>sfd_ino = ino, sfd_name = name @ 0 # r\<rparr> = name"
proof -
  have t: "takeWhile (\<lambda>c. c \<noteq> 0) name = name" using assms(1) by (auto simp: takeWhile_eq_all_conv)
  show ?thesis
  proof (cases "length name = SFS_NAMELEN - 1")
    case False
    then have "take (SFS_NAMELEN - 1) (name @ 0 # r) = name @ 0 # take (SFS_NAMELEN - 2 - length name) r"
      using assms(2) by (simp add: sfs_consts take_Cons')
    then show ?thesis using t assms(1) by (simp add: entry_name_def takeWhile_append2)
  qed (simp add: entry_name_def t)
qed

lemma same_entries:
  assumes "dir_at s p" "touches p s s'" "file_at s' p" "dir_entry s' p = dir_entry s p" "fsize s' p = fsize s p"
  shows "dir_at s' p" "dir_map s' p = dir_map s p"
proof -
  have "s_vn s p \<noteq> None" using assms(1) by (auto simp: dir_at_def file_at_def)
  with assms show "dir_at s' p" by (simp add: dir_at_def dir_live_def dir_slots_def touches_inode)
  show "dir_map s' p = dir_map s p" by (simp add: dir_map_def [abs_def] dir_find_def dir_slots_def assms(4,5))
qed

text \<open>Adding a name that is not there.\<close>

lemma sfs_dir_link_new:
  assumes "dir_at s p" "fsize s p < SFS_MAXBLOCKS * SFS_BLOCKSIZE" "0 \<notin> set name" "length name < SFS_NAMELEN"
    "0 < ino" "ino < 2 ^ 32" "dir_map s p name = None"
  obtains i s' where "sfs_dir_link p name ino s = Ret (Inr (int i), s')" "touches p s s'" "dir_at s' p"
      "dir_map s' p = (dir_map s p)(name \<mapsto> ino)"
  | s' where "sfs_dir_link p name ino s = Ret (Inl ENOSPC, s')" "touches p s s'" "dir_at s' p" "dir_map s' p = dir_map s p"
      "used s' = {..<sp_nblocks (sfs_super s)}"
proof -
  let ?e = "dir_entry s p"
  obtain sv where sv: "s_vn s p = Some sv" "sfi_type (sv_i sv) = SFS_TYPE_DIR" "sfi_size (sv_i sv) = dir_slots s p * SFS_DIRSIZE"
    "dir_slots s p * SFS_DIRSIZE = fsize s p" using assms(1) by (rule dir_atE)
  note n = sfs_dir_nentries_spec [OF assms(1)]
  have "dir_find s p name = None" using assms(7) by (simp add: dir_map_def)
  then have fn: "sfs_dir_findname p name s = Ret ((Inl ENOENT, slots_empty ?e (dir_slots s p)), s)"
    using sfs_dir_findname_spec [OF assms(1,3)] by simp
  define i where "i = (if slots_empty ?e (dir_slots s p) < 0 then dir_slots s p else nat (slots_empty ?e (dir_slots s p)))"
  have i: "i \<le> dir_slots s p" "i \<notin> dir_live s p"
    using slots_empty_cases [of ?e "dir_slots s p"] by (auto simp: i_def dir_live_def)
  then have "i * SFS_DIRSIZE \<le> fsize s p" unfolding sv(4) [symmetric] by simp
  with assms(2) have pos: "i * SFS_DIRSIZE < SFS_MAXBLOCKS * SFS_BLOCKSIZE" by simp
  define d where "d = \<lparr>sfd_ino = ino, sfd_name = name @ 0 # drop (length name + 1) (replicate SFS_NAMELEN 0)\<rparr>"
  have d: "sfs_dir_ok d" "entry_name d = name" "sfd_ino d = ino"
    using assms(3,4,6) entry_name_cstr [OF assms(3,4)] by (simp_all add: d_def sfs_dir_ok_def)
  have cp: "strcpy (replicate SFS_NAMELEN 0) (cstr name) = Ret (sfd_name d)"
    using strcpy_cstr [OF assms(3), of "replicate SFS_NAMELEN 0" "[]"] assms(4) by (simp add: d_def cstr_def)
  have ln: "strlen (cstr name) = Ret (length name)" using strlen_cstr [OF assms(3), of "[]"] by (simp add: cstr_def)
  have link: "sfs_dir_link p name ino s = bindE (sfs_writedir p d (int i) s) (\<lambda>_ s. Ret (Inr (int i), s))"
    using fn ln cp n assms(4) d(3) slots_empty_cases [of ?e "dir_slots s p"]
    by (auto simp: sfs_dir_link_def i_def d_def)
  show ?thesis
  proof (rule sfs_writedir_spec [OF assms(1) d(1) i(1) pos])
    fix s' assume w: "sfs_writedir p d (int i) s = Ret (Inr (), s')" "touches p s s'" "file_at s' p" "dir_entry s' p = ?e(i := d)"
      "fsize s' p = max (fsize s p) (i * SFS_DIRSIZE + SFS_DIRSIZE)"
    then have "dir_written p i d s s'" by (simp add: dir_written_def)
    from dir_written_add [OF assms(1) this pos i] d(2,3) assms(5,7)
    have "dir_at s' p" "dir_map s' p = (dir_map s p)(name \<mapsto> ino)" by (simp_all add: sfs_consts)
    with w(1,2) link show ?thesis by (intro that(1) [of i s']) simp_all
  next
    fix s' assume w: "sfs_writedir p d (int i) s = Ret (Inl ENOSPC, s')" "touches p s s'" "file_at s' p" "dir_entry s' p = ?e"
      "fsize s' p = fsize s p" "used s' = {..<sp_nblocks (sfs_super s)}"
    with same_entries [OF assms(1) w(2-5)] link show ?thesis by (intro that(2) [of s']) simp_all
  qed
qed

text \<open>The errors of adding a name.\<close>

lemma sfs_dir_link_errors:
  assumes "dir_at s p" "0 \<notin> set name"
  shows "dir_map s p name \<noteq> None \<Longrightarrow> sfs_dir_link p name ino s = Ret (Inl EEXIST, s)"
    "dir_map s p name = None \<Longrightarrow> SFS_NAMELEN \<le> length name \<Longrightarrow> sfs_dir_link p name ino s = Ret (Inl ENAMETOOLONG, s)"
  using sfs_dir_findname_spec [OF assms] strlen_cstr [OF assms(2), of "[]"]
  by (auto simp: dir_map_def sfs_dir_link_def cstr_def split: option.splits)

text \<open>Removing a name that is there always succeeds.\<close>

lemma sfs_dir_unlink_live:
  assumes "dir_at s p" "dir_find s p name = Some i"
  obtains s' where "sfs_dir_unlink p (int i) s = Ret (Inr (), s')" "touches p s s'" "dir_at s' p"
    "dir_map s' p = (dir_map s p)(name := None)"
proof -
  let ?d = "\<lparr>sfd_ino = SFS_NOINO, sfd_name = replicate SFS_NAMELEN 0\<rparr>"
  have i: "i \<in> dir_live s p" "entry_name (dir_entry s p i) = name" using dir_find_iff [OF assms(1)] assms(2) by auto
  then have il: "i < dir_slots s p" "sfd_ino (dir_entry s p i) \<noteq> SFS_NOINO" by (simp_all add: dir_live_def)
  moreover have "dir_slots s p * SFS_DIRSIZE \<le> SFS_MAXBLOCKS * SFS_BLOCKSIZE" using assms(1) by (rule dir_atE) simp
  ultimately have pos: "i * SFS_DIRSIZE < SFS_MAXBLOCKS * SFS_BLOCKSIZE" by (simp add: dirsize)
  have ok: "sfs_dir_ok ?d" by (simp add: sfs_dir_ok_def sfs_consts)
  obtain s' where w: "sfs_writedir p ?d (int i) s = Ret (Inr (), s')" "touches p s s'" "file_at s' p"
      "dir_entry s' p = (dir_entry s p)(i := ?d)" "fsize s' p = max (fsize s p) (i * SFS_DIRSIZE + SFS_DIRSIZE)"
    by (rule sfs_writedir_spec [OF assms(1) ok _ pos]) (use il in auto)
  then have "dir_written p i ?d s s'" by (simp add: dir_written_def)
  from dir_written_del [OF assms(1) this i(1)] i(2) w(1,2) show ?thesis by (intro that [of s']) (simp_all add: sfs_dir_unlink_def)
qed

end
