(* ===== verification/SfsDirProps.thy ===== *)
theory SfsDirProps
  imports SfsExample SfsDir
begin

text \<open>
  The theorems on SFS directories: adding and removing entries, on the map from names to inode numbers that
  a directory stands for.
\<close>

section \<open>The example directory\<close>

lemma ex_dir_at: "dir_at ex_fs 9"
proof -
  have "dir_live ex_fs 9 \<subseteq> {0}" by (auto simp: dir_live_def dir_slots_def ex_fsize dirsize)
  then have "inj_on (entry_name \<circ> dir_entry ex_fs 9) (dir_live ex_fs 9)" by (auto simp: inj_on_def)
  then show ?thesis
    using ex_file_at(1) by (simp add: dir_at_def ex_inodes ex_fsize dirsize SFS_MAXBLOCKS_def) (simp add: ex_root_def ex_inode_def sfs_consts)
qed

lemma ex_dir_entry: "dir_entry ex_fs 9 0 = \<lparr>sfd_ino = 3, sfd_name = 97 # replicate 59 0\<rparr>"
proof -
  let ?d = "\<lparr>sfd_ino = 3, sfd_name = 97 # replicate 59 (0 :: byte)\<rparr>"
  have ok: "sfs_dir_ok ?d" by (simp add: sfs_dir_ok_def sfs_consts)
  have b: "fblock ex_fs 9 0 = 5" by (simp add: fblock_def ex_inodes ex_root_def ex_block)
  have d: "s_disk ex_fs ! 5 = dir_bytes ?d @ replicate 448 0" by (simp add: ex_fs_def)
  have "take SFS_DIRSIZE (drop 0 (block_data ex_fs 9 0)) = get_bytes 0 SFS_DIRSIZE (fdata ex_fs 9)"
    by (rule block_data_bytes [OF ex_file_at(1)]) (simp_all add: dirsize sfs_consts)
  then have "get_bytes 0 SFS_DIRSIZE (fdata ex_fs 9) = dir_bytes ?d"
    using bytes_dir_bytes(2) [OF ok] by (simp add: block_data_def b d)
  then show ?thesis using bytes_dir_bytes(1) [OF ok] by (simp add: dir_entry_def)
qed

lemma ex_dir_map: "dir_map ex_fs 9 = [[97] \<mapsto> 3]"
proof -
  have "dir_slots ex_fs 9 = Suc 0" by (simp add: dir_slots_def ex_fsize dirsize)
  then show ?thesis
    by (auto simp: fun_eq_iff dir_map_def dir_find_def ex_dir_entry entry_name_def sfs_consts)
qed

section \<open>Adding a name\<close>

text \<open>C34: Adding a name to a directory either adds exactly this name, with the inode number given, or fails and
  leaves the directory as it was: with \<^verbatim>\<open>EEXIST\<close> exactly when the name is there, with
  \<^verbatim>\<open>ENAMETOOLONG\<close> when it does not fit a slot, and with \<^verbatim>\<open>ENOSPC\<close> only when the disk is full.  Nothing but the
  directory changes.\<close>
theorem sfs_dir_link_map:
  assumes "dir_at s p" "fsize s p < SFS_MAXBLOCKS * SFS_BLOCKSIZE" "0 \<notin> set name" "0 < ino" "ino < 2 ^ 32"
  shows "\<exists>r s'. sfs_dir_link p name ino s = Ret (r, s') \<and> touches p s s' \<and> dir_at s' p \<and>
    (if dir_map s p name \<noteq> None then r = Inl EEXIST \<and> s' = s
     else if SFS_NAMELEN \<le> length name then r = Inl ENAMETOOLONG \<and> s' = s
     else (\<exists>slot. r = Inr slot) \<and> dir_map s' p = (dir_map s p)(name \<mapsto> ino) \<or>
          r = Inl ENOSPC \<and> dir_map s' p = dir_map s p \<and> used s' = {..<sp_nblocks (sfs_super s)})"
proof (cases "dir_map s p name = None \<and> length name < SFS_NAMELEN")
  case True
  then have n: "dir_map s p name = None" "length name < SFS_NAMELEN" by simp_all
  show ?thesis
  proof (rule sfs_dir_link_new [OF assms(1-3) n(2) assms(4,5) n(1)])
    fix i s' assume "sfs_dir_link p name ino s = Ret (Inr (int i), s')" "touches p s s'" "dir_at s' p"
      "dir_map s' p = (dir_map s p)(name \<mapsto> ino)"
    then show ?thesis using n by auto
  next
    fix s' assume "sfs_dir_link p name ino s = Ret (Inl ENOSPC, s')" "touches p s s'" "dir_at s' p" "dir_map s' p = dir_map s p"
      "used s' = {..<sp_nblocks (sfs_super s)}"
    then show ?thesis using n by auto
  qed
next
  case False
  have "touches p s s" using assms(1) by (auto simp: dir_at_def intro: touches_refl)
  then show ?thesis using False sfs_dir_link_errors [OF assms(1,3), of ino] assms(1)
    by (cases "dir_map s p name = None") (auto simp: not_less)
qed

theorem sfs_dir_link_map_witness:
  "sfs_dir_link 9 [97] 3 ex_fs = Ret (Inl EEXIST, ex_fs)"
  using sfs_dir_link_map [OF ex_dir_at, of "[97]" 3] by (auto simp: ex_fsize ex_dir_map SFS_MAXBLOCKS_def sfs_consts)

section \<open>Finding and removing a name\<close>

text \<open>C35: A search finds a name exactly when the directory has it, and reports its inode number and slot;
  clearing that slot removes this name and no other, and cannot fail.\<close>
theorem sfs_dir_unlink_map:
  assumes "dir_at s p" "0 \<notin> set name"
  shows "case dir_map s p name of
      None \<Rightarrow> \<exists>free. sfs_dir_findname p name s = Ret ((Inl ENOENT, free), s)
    | Some ino \<Rightarrow> \<exists>slot free s'. sfs_dir_findname p name s = Ret ((Inr (ino, slot), free), s) \<and>
        sfs_dir_unlink p slot s = Ret (Inr (), s') \<and> touches p s s' \<and> dir_at s' p \<and> dir_map s' p = (dir_map s p)(name := None)"
proof (cases "dir_find s p name")
  case None
  then show ?thesis using sfs_dir_findname_spec [OF assms] by (simp add: dir_map_def)
next
  case (Some i)
  from sfs_dir_unlink_live [OF assms(1) Some] obtain s' where "sfs_dir_unlink p (int i) s = Ret (Inr (), s')" "touches p s s'"
    "dir_at s' p" "dir_map s' p = (dir_map s p)(name := None)" .
  then show ?thesis using Some sfs_dir_findname_spec [OF assms] by (simp add: dir_map_def [of s p name])
qed

theorem sfs_dir_unlink_map_witness:
  "\<exists>slot free s'. sfs_dir_findname 9 [97] ex_fs = Ret ((Inr (3, slot), free), ex_fs) \<and>
     sfs_dir_unlink 9 slot ex_fs = Ret (Inr (), s') \<and> dir_map s' 9 = Map.empty"
  using sfs_dir_unlink_map [OF ex_dir_at, of "[97]"] by (auto simp: ex_dir_map)

end
