(* ===== verification/CPrintf.thy ===== *)
theory CPrintf
  imports CString
begin

text \<open>
  Formatted output: \<^verbatim>\<open>src/lib/libc/__printf.c\<close>, which libc and the kernel share, and
  \<^verbatim>\<open>snprintf.c\<close>.

  The function that takes the text, \<^verbatim>\<open>sendfunc\<close>, is a parameter; it gets the client data, the
  characters from the pointer on, and how many of them to take.  An argument of the list \<^verbatim>\<open>ap\<close> is a 32-bit word
  or a pointer to characters; taking an argument that is not there, or of the other kind, is a \<open>Fault\<close>.
  A \<^verbatim>\<open>long\<close> has 32 bits, so the two sizes of integers do not differ.
\<close>

abbreviation c8 :: "char \<Rightarrow> byte" where
  "c8 c \<equiv> of_char c"

definition s8 :: "string \<Rightarrow> byte list" where
  "s8 s = map of_char s"

datatype va_arg = Va_word "32 word" | Va_str "byte list option"

datatype pf_size = INTSZ | LONGSZ

record 'c PF =
  clientdata :: 'c
  pf_ap :: "va_arg list"
  charcount :: int
  in_pct :: bool
  pf_sz :: pf_size
  num :: "32 word"
  sign :: bool
  spacing :: int
  rightspc :: bool
  fillchar :: byte
  pf_base :: nat
  baseprefix :: bool
  altformat :: bool

definition NUMBER_BUF_SIZE :: nat where
  "NUMBER_BUF_SIZE = (4 * 8) div 3 + 2"

definition int32 :: "int \<Rightarrow> int" where
  "int32 x = signed_take_bit 31 x"

type_synonym 'c sendfunc = "'c \<Rightarrow> byte list \<Rightarrow> nat \<Rightarrow> 'c run"

section \<open>The state\<close>

definition pf_print :: "'c sendfunc \<Rightarrow> 'c PF \<Rightarrow> byte list \<Rightarrow> nat \<Rightarrow> 'c PF run" where
  "pf_print sendfunc pf txt len =
     andthen (sendfunc (clientdata pf) txt len) (\<lambda>c.
     Ret (pf\<lparr>clientdata := c, charcount := int32 (charcount pf + int len)\<rparr>))"

definition pf_endfield :: "'c PF \<Rightarrow> 'c PF" where
  "pf_endfield pf = pf\<lparr>in_pct := False, pf_sz := INTSZ, num := 0, sign := False, spacing := 0, rightspc := False,
     fillchar := c8 CHR '' '', pf_base := 0, baseprefix := False, altformat := False\<rparr>"

definition pf_modifier :: "'c PF \<Rightarrow> byte \<Rightarrow> 'c PF run" where
  "pf_modifier pf ch =
     (if ch = c8 CHR ''#'' then Ret (pf\<lparr>altformat := True\<rparr>)
      else if ch = c8 CHR ''-'' then Ret (pf\<lparr>rightspc := True\<rparr>)
      else if ch = c8 CHR ''l'' then Ret (if pf_sz pf = LONGSZ then pf else pf\<lparr>pf_sz := LONGSZ\<rparr>)
      else if ch = c8 CHR ''q'' then Ret (pf\<lparr>pf_sz := LONGSZ\<rparr>)
      else if ch = c8 CHR ''0'' then
        Ret (if spacing pf > 0 then pf\<lparr>spacing := int32 (spacing pf * 10)\<rparr> else pf\<lparr>fillchar := c8 CHR ''0''\<rparr>)
      else assertk (sint ch > 48 \<and> sint ch \<le> 57)
        (Ret (pf\<lparr>spacing := int32 (int32 (spacing pf * 10) + (sint ch - 48))\<rparr>)))"

section \<open>Numbers\<close>

definition va_word :: "'c PF \<Rightarrow> (32 word \<Rightarrow> 'c PF \<Rightarrow> 'b run) \<Rightarrow> 'b run" where
  "va_word pf f = (case pf_ap pf of Va_word w # rest \<Rightarrow> f w (pf\<lparr>pf_ap := rest\<rparr>) | _ \<Rightarrow> Fault)"

definition pf_getnum :: "'c PF \<Rightarrow> byte \<Rightarrow> 'c PF run" where
  "pf_getnum pf ch =
     va_word pf (\<lambda>w pf.
     if ch = c8 CHR ''d'' then
       (if sint w < 0 then Ret (pf\<lparr>sign := True, num := - w\<rparr>) else Ret (pf\<lparr>num := w\<rparr>))
     else Ret (pf\<lparr>num := w\<rparr>))"

definition pf_setbase :: "'c PF \<Rightarrow> byte \<Rightarrow> 'c PF" where
  "pf_setbase pf ch =
     (let pf = (if ch = c8 CHR ''d'' \<or> ch = c8 CHR ''u'' then pf\<lparr>pf_base := 10\<rparr>
                else if ch = c8 CHR ''x'' \<or> ch = c8 CHR ''p'' then pf\<lparr>pf_base := 16\<rparr>
                else if ch = c8 CHR ''o'' then pf\<lparr>pf_base := 8\<rparr> else pf) in
      if altformat pf \<or> ch = c8 CHR ''p'' then pf\<lparr>baseprefix := True\<rparr> else pf)"

section \<open>Fields\<close>

fun pf_fill_loop :: "'c sendfunc \<Rightarrow> nat \<Rightarrow> byte \<Rightarrow> 'c PF \<Rightarrow> 'c PF run" where
  "pf_fill_loop sendfunc 0 f pf = Ret pf"
| "pf_fill_loop sendfunc (Suc n) f pf = andthen (pf_print sendfunc pf [f] 1) (pf_fill_loop sendfunc n f)"

definition pf_fill :: "'c sendfunc \<Rightarrow> 'c PF \<Rightarrow> int \<Rightarrow> 'c PF run" where
  "pf_fill sendfunc pf spc = pf_fill_loop sendfunc (nat spc) (fillchar pf) pf"

definition pf_printstuff :: "'c sendfunc \<Rightarrow> 'c PF \<Rightarrow> byte list \<Rightarrow> byte list \<Rightarrow> byte list \<Rightarrow> 'c PF run" where
  "pf_printstuff sendfunc pf prefix prefix2 stuff =
     andthen (strlen prefix) (\<lambda>l1. andthen (strlen prefix2) (\<lambda>l2. andthen (strlen stuff) (\<lambda>l3.
     let len = int32 (int l1 + int l2 + int l3);
         spc = (if spacing pf > len then int32 (spacing pf - len) else 0) in
     andthen (if spc > 0 \<and> \<not> rightspc pf \<and> fillchar pf \<noteq> c8 CHR ''0'' then pf_fill sendfunc pf spc else Ret pf) (\<lambda>pf.
     andthen (pf_print sendfunc pf prefix l1) (\<lambda>pf.
     andthen (pf_print sendfunc pf prefix2 l2) (\<lambda>pf.
     andthen (if spc > 0 \<and> \<not> rightspc pf \<and> fillchar pf = c8 CHR ''0'' then pf_fill sendfunc pf spc else Ret pf) (\<lambda>pf.
     andthen (pf_print sendfunc pf stuff l3) (\<lambda>pf.
     if spc > 0 \<and> rightspc pf then pf_fill sendfunc pf spc else Ret pf))))))))"

text \<open>
  The loop of \<^verbatim>\<open>__pf_printnum\<close>: the pointer \<^verbatim>\<open>x\<close> is one less than the third argument, so that the slot before
  the buffer is \<open>0\<close>.  The result is the first slot of the text and the buffer.
\<close>

definition pf_digits :: "byte list" where
  "pf_digits = s8 ''0123456789abcdef'' @ [0]"

fun pf_convert :: "nat \<Rightarrow> nat \<Rightarrow> nat \<Rightarrow> byte list \<Rightarrow> (nat \<times> byte list) run" where
  "pf_convert base xnum 0 buf = Fault"
| "pf_convert base xnum (Suc x) buf =
     (if base = 0 then Fault
      else let buf = buf[x := pf_digits ! (xnum mod base)]; xnum = xnum div base in
           if xnum > 0 then pf_convert base xnum x buf else Ret (x, buf))"

definition pf_printnum :: "'c sendfunc \<Rightarrow> 'c PF \<Rightarrow> 'c PF run" where
  "pf_printnum sendfunc pf =
     (let buf = (replicate NUMBER_BUF_SIZE 0)[NUMBER_BUF_SIZE - 1 := 0] in
      andthen (pf_convert (pf_base pf) (unat (num pf)) (NUMBER_BUF_SIZE - 1) buf) (\<lambda>(x, buf).
      let bprefix = (if baseprefix pf \<and> pf_base pf = 16 then s8 ''0x''
                     else if baseprefix pf \<and> pf_base pf = 8 then s8 ''0'' else []);
          sprefix = (if sign pf then s8 ''-'' else []) in
      pf_printstuff sendfunc pf (cstr sprefix) (cstr bprefix) (drop x buf)))"

section \<open>The format\<close>

definition pf_send :: "'c sendfunc \<Rightarrow> 'c PF \<Rightarrow> byte \<Rightarrow> 'c PF run" where
  "pf_send sendfunc pf ch =
     assertk (ch \<noteq> 0)
     (if \<not> in_pct pf \<and> ch \<noteq> c8 CHR ''%'' then pf_print sendfunc pf [ch] 1
      else if \<not> in_pct pf then Ret (pf\<lparr>in_pct := True\<rparr>)
      else andthen (strchr (cstr (s8 ''#-ql0123456789'')) (sint ch)) (\<lambda>r.
      if r \<noteq> None then pf_modifier pf ch
      else andthen (strchr (cstr (s8 ''doupx'')) (sint ch)) (\<lambda>r.
      if r \<noteq> None then
        andthen (pf_getnum pf ch) (\<lambda>pf.
        andthen (pf_printnum sendfunc (pf_setbase pf ch)) (\<lambda>pf. Ret (pf_endfield pf)))
      else if ch = c8 CHR ''s'' then
        (case pf_ap pf of
           Va_str str # rest \<Rightarrow>
             andthen (pf_printstuff sendfunc (pf\<lparr>pf_ap := rest\<rparr>) [0] [0] (case str of None \<Rightarrow> cstr (s8 ''(null)'') | Some t \<Rightarrow> t))
               (\<lambda>pf. Ret (pf_endfield pf))
         | _ \<Rightarrow> Fault)
      else
        andthen (if ch = c8 CHR ''c'' then va_word pf (\<lambda>w pf. Ret (ucast w, pf)) else Ret (ch, pf)) (\<lambda>(x, pf).
        andthen (pf_printstuff sendfunc pf [0] [0] [x, 0]) (\<lambda>pf. Ret (pf_endfield pf))))))"

fun vprintf_loop :: "'c sendfunc \<Rightarrow> byte list \<Rightarrow> 'c PF \<Rightarrow> 'c PF run" where
  "vprintf_loop sendfunc [] pf = Fault"
| "vprintf_loop sendfunc (c # format) pf =
     (if c \<noteq> 0 then andthen (pf_send sendfunc pf c) (vprintf_loop sendfunc format) else Ret pf)"

definition vprintf :: "'c sendfunc \<Rightarrow> 'c \<Rightarrow> byte list \<Rightarrow> va_arg list \<Rightarrow> (int \<times> 'c) run" where
  "vprintf func clientdata0 format ap0 =
     andthen (vprintf_loop func format (pf_endfield
       \<lparr>clientdata = clientdata0, pf_ap = ap0, charcount = 0, in_pct = False, pf_sz = INTSZ, num = 0, sign = False, spacing = 0,
        rightspc = False, fillchar = 0, pf_base = 0, baseprefix = False, altformat = False\<rparr>))
     (\<lambda>pf. Ret (charcount pf, clientdata pf))"

section \<open>Printing into a buffer\<close>

record SNP =
  snp_buf :: "byte list"
  buflen :: nat
  bufpos :: nat

fun snprintf_send :: "SNP \<Rightarrow> byte list \<Rightarrow> nat \<Rightarrow> SNP run" where
  "snprintf_send snp data 0 = Ret snp"
| "snprintf_send snp [] (Suc n) = Fault"
| "snprintf_send snp (c # data) (Suc n) =
     (if bufpos snp < buflen snp then
        if bufpos snp < length (snp_buf snp)
        then snprintf_send (snp\<lparr>snp_buf := (snp_buf snp)[bufpos snp := c], bufpos := bufpos snp + 1\<rparr>) data n
        else Fault
      else snprintf_send snp data n)"

definition vsnprintf :: "byte list \<Rightarrow> nat \<Rightarrow> byte list \<Rightarrow> va_arg list \<Rightarrow> (int \<times> byte list) run" where
  "vsnprintf buf len fmt ap =
     andthen (vprintf snprintf_send \<lparr>snp_buf = buf, buflen = (if len = 0 then 0 else len - 1), bufpos = 0\<rparr> fmt ap)
     (\<lambda>(chars, snp).
      if len > 0
      then if bufpos snp < length (snp_buf snp) then Ret (chars, (snp_buf snp)[bufpos snp := 0]) else Fault
      else Ret (chars, snp_buf snp))"

definition snprintf :: "byte list \<Rightarrow> nat \<Rightarrow> byte list \<Rightarrow> va_arg list \<Rightarrow> (int \<times> byte list) run" where
  "snprintf buf len fmt ap = vsnprintf buf len fmt ap"

section \<open>Where the text goes\<close>

text \<open>
  What is printed does not depend on where it is sent: if one client data is the image of another under
  \<open>h\<close>, so are the results.
\<close>

definition pf_map :: "('a \<Rightarrow> 'b) \<Rightarrow> 'a PF \<Rightarrow> 'b PF" where
  "pf_map h pf = \<lparr>clientdata = h (clientdata pf), pf_ap = pf_ap pf, charcount = charcount pf, in_pct = in_pct pf, pf_sz = pf_sz pf,
     num = num pf, sign = sign pf, spacing = spacing pf, rightspc = rightspc pf, fillchar = fillchar pf, pf_base = pf_base pf,
     baseprefix = baseprefix pf, altformat = altformat pf\<rparr>"

lemma pf_map_sels [simp]:
  "clientdata (pf_map h pf) = h (clientdata pf)" "pf_ap (pf_map h pf) = pf_ap pf" "charcount (pf_map h pf) = charcount pf"
  "in_pct (pf_map h pf) = in_pct pf" "pf_sz (pf_map h pf) = pf_sz pf" "num (pf_map h pf) = num pf" "sign (pf_map h pf) = sign pf"
  "spacing (pf_map h pf) = spacing pf" "rightspc (pf_map h pf) = rightspc pf" "fillchar (pf_map h pf) = fillchar pf"
  "pf_base (pf_map h pf) = pf_base pf" "baseprefix (pf_map h pf) = baseprefix pf" "altformat (pf_map h pf) = altformat pf"
  by (simp_all add: pf_map_def)

lemma pf_map_upds:
  "(pf_map h pf)\<lparr>pf_ap := a\<rparr> = pf_map h (pf\<lparr>pf_ap := a\<rparr>)" "(pf_map h pf)\<lparr>charcount := n\<rparr> = pf_map h (pf\<lparr>charcount := n\<rparr>)"
  "(pf_map h pf)\<lparr>in_pct := b\<rparr> = pf_map h (pf\<lparr>in_pct := b\<rparr>)" "(pf_map h pf)\<lparr>pf_sz := z\<rparr> = pf_map h (pf\<lparr>pf_sz := z\<rparr>)"
  "(pf_map h pf)\<lparr>num := w\<rparr> = pf_map h (pf\<lparr>num := w\<rparr>)" "(pf_map h pf)\<lparr>sign := b\<rparr> = pf_map h (pf\<lparr>sign := b\<rparr>)"
  "(pf_map h pf)\<lparr>spacing := n\<rparr> = pf_map h (pf\<lparr>spacing := n\<rparr>)" "(pf_map h pf)\<lparr>rightspc := b\<rparr> = pf_map h (pf\<lparr>rightspc := b\<rparr>)"
  "(pf_map h pf)\<lparr>fillchar := c\<rparr> = pf_map h (pf\<lparr>fillchar := c\<rparr>)" "(pf_map h pf)\<lparr>pf_base := m\<rparr> = pf_map h (pf\<lparr>pf_base := m\<rparr>)"
  "(pf_map h pf)\<lparr>baseprefix := b\<rparr> = pf_map h (pf\<lparr>baseprefix := b\<rparr>)" "(pf_map h pf)\<lparr>altformat := b\<rparr> = pf_map h (pf\<lparr>altformat := b\<rparr>)"
  "(pf_map h pf)\<lparr>clientdata := h d\<rparr> = pf_map h (pf\<lparr>clientdata := d\<rparr>)"
  by (simp_all add: pf_map_def)

definition run_map :: "('a \<Rightarrow> 'b) \<Rightarrow> 'a run \<Rightarrow> 'b run" where
  "run_map f r = andthen r (\<lambda>x. Ret (f x))"

lemma run_map_simps [simp]: "run_map f (Ret x) = Ret (f x)" "run_map f Panic = Panic" "run_map f Fault = Fault" "run_map f Loops = Loops"
  by (simp_all add: run_map_def)

lemma run_map_andthen: "run_map f (andthen r g) = andthen r (\<lambda>x. run_map f (g x))"
  by (cases r) simp_all

lemma andthen_run_map: "andthen (run_map f r) g = andthen r (\<lambda>x. g (f x))"
  by (cases r) simp_all

lemma run_map_if: "run_map f (if b then r else q) = (if b then run_map f r else run_map f q)"
  by simp

lemma va_word_map: "va_word (pf_map h pf) f = va_word pf (\<lambda>w pf. f w (pf_map h pf))"
  by (simp add: va_word_def pf_map_upds split: list.split va_arg.split)

lemma va_word_andthen: "andthen (va_word pf f) g = va_word pf (\<lambda>w pf. andthen (f w pf) g)"
  by (simp add: va_word_def split: list.split va_arg.split)

lemma run_map_va_word: "run_map g (va_word pf f) = va_word pf (\<lambda>w pf. run_map g (f w pf))"
  by (simp add: va_word_def split: list.split va_arg.split)

locale redirect =
  fixes send1 :: "'a sendfunc" and send2 :: "'b sendfunc" and h :: "'a \<Rightarrow> 'b"
  assumes send: "send2 (h c) data n = run_map h (send1 c data n)"
begin

lemma print: "pf_print send2 (pf_map h pf) txt len = run_map (pf_map h) (pf_print send1 pf txt len)"
  by (simp add: pf_print_def send andthen_run_map run_map_andthen) (simp add: pf_map_def)

lemma fill_loop: "pf_fill_loop send2 n f (pf_map h pf) = run_map (pf_map h) (pf_fill_loop send1 n f pf)"
  by (induction n arbitrary: pf) (simp_all add: print andthen_run_map run_map_andthen)

lemma fill: "pf_fill send2 (pf_map h pf) spc = run_map (pf_map h) (pf_fill send1 pf spc)"
  by (simp add: pf_fill_def fill_loop)

lemma fill_if: "(if b then pf_fill send2 (pf_map h pf) spc else Ret (pf_map h pf)) = run_map (pf_map h) (if b then pf_fill send1 pf spc else Ret pf)"
  by (simp add: fill)

lemma printstuff: "pf_printstuff send2 (pf_map h pf) a b c = run_map (pf_map h) (pf_printstuff send1 pf a b c)"
  unfolding pf_printstuff_def Let_def run_map_andthen pf_map_sels fill_if print andthen_run_map by (rule refl)

lemma printnum: "pf_printnum send2 (pf_map h pf) = run_map (pf_map h) (pf_printnum send1 pf)"
  unfolding pf_printnum_def Let_def run_map_andthen pf_map_sels split_beta printstuff by (rule refl)

lemma endfield: "pf_endfield (pf_map h pf) = pf_map h (pf_endfield pf)"
  by (simp add: pf_endfield_def pf_map_def)

lemma setbase: "pf_setbase (pf_map h pf) ch = pf_map h (pf_setbase pf ch)"
  by (simp add: pf_setbase_def pf_map_upds Let_def)

lemma getnum: "pf_getnum (pf_map h pf) ch = run_map (pf_map h) (pf_getnum pf ch)"
  by (simp add: pf_getnum_def va_word_map run_map_va_word run_map_if pf_map_upds cong: if_cong)

lemma modifier: "pf_modifier (pf_map h pf) ch = run_map (pf_map h) (pf_modifier pf ch)"
  by (auto simp: pf_modifier_def pf_map_upds assertk_def)

lemma send_char: "pf_send send2 (pf_map h pf) ch = run_map (pf_map h) (pf_send send1 pf ch)"
proof -
  have c: "andthen (if b then va_word (pf_map h pf) (\<lambda>w pf. Ret (ucast w, pf)) else Ret (ch, pf_map h pf)) (\<lambda>(x, pf).
      andthen (pf_printstuff send2 pf [0] [0] [x, 0]) (\<lambda>pf. Ret (pf_endfield pf))) =
    run_map (pf_map h) (andthen (if b then va_word pf (\<lambda>w pf. Ret (ucast w, pf)) else Ret (ch, pf)) (\<lambda>(x, pf).
      andthen (pf_printstuff send1 pf [0] [0] [x, 0]) (\<lambda>pf. Ret (pf_endfield pf))))" for b
    by (simp add: va_word_map va_word_andthen run_map_va_word printstuff andthen_run_map run_map_andthen endfield)
  have s: "(case pf_ap pf of Va_str str # rest \<Rightarrow> andthen (pf_printstuff send2 ((pf_map h pf)\<lparr>pf_ap := rest\<rparr>) [0] [0] (f str))
        (\<lambda>pf. Ret (pf_endfield pf)) | _ \<Rightarrow> Fault) =
    run_map (pf_map h) (case pf_ap pf of Va_str str # rest \<Rightarrow> andthen (pf_printstuff send1 (pf\<lparr>pf_ap := rest\<rparr>) [0] [0] (f str))
        (\<lambda>pf. Ret (pf_endfield pf)) | _ \<Rightarrow> Fault)" for f
    by (auto simp: pf_map_upds printstuff andthen_run_map run_map_andthen endfield split: list.split va_arg.split)
  have n: "andthen (pf_getnum (pf_map h pf) ch) (\<lambda>pf. andthen (pf_printnum send2 (pf_setbase pf ch)) (\<lambda>pf. Ret (pf_endfield pf))) =
    run_map (pf_map h) (andthen (pf_getnum pf ch) (\<lambda>pf. andthen (pf_printnum send1 (pf_setbase pf ch)) (\<lambda>pf. Ret (pf_endfield pf))))"
    by (simp add: getnum setbase printnum andthen_run_map run_map_andthen endfield)
  show ?thesis
    unfolding pf_send_def pf_map_sels c s n
    by (simp add: assertk_def run_map_andthen print modifier pf_map_upds run_map_if cong: if_cong)
qed

lemma loop: "vprintf_loop send2 format (pf_map h pf) = run_map (pf_map h) (vprintf_loop send1 format pf)"
  by (induction format arbitrary: pf) (simp_all add: send_char andthen_run_map run_map_andthen)

lemma vprintf_redirect: "vprintf send2 (h c) format ap = run_map (\<lambda>(n, c). (n, h c)) (vprintf send1 c format ap)"
proof -
  let ?pf = "\<lambda>c. \<lparr>clientdata = c, pf_ap = ap, charcount = 0, in_pct = False, pf_sz = INTSZ, num = 0, sign = False, spacing = 0,
    rightspc = False, fillchar = 0, pf_base = 0, baseprefix = False, altformat = False\<rparr>"
  have "?pf (h c) = pf_map h (?pf c)" by (simp add: pf_map_def)
  then show ?thesis unfolding vprintf_def by (simp only: endfield loop andthen_run_map run_map_andthen pf_map_sels run_map_simps prod.case)
qed

end

section \<open>The text printed\<close>

definition text_send :: "byte list \<Rightarrow> byte list \<Rightarrow> nat \<Rightarrow> byte list run" where
  "text_send out data n = (if n \<le> length data then Ret (out @ take n data) else Fault)"

text \<open>The buffer of \<^verbatim>\<open>snprintf\<close> after the text \<open>out\<close> has been sent to it.\<close>

definition snp_of :: "byte list \<Rightarrow> nat \<Rightarrow> byte list \<Rightarrow> SNP" where
  "snp_of B l out = (let m = min l (length B) in
     \<lparr>snp_buf = blit 0 (take m out) B, buflen = m, bufpos = min m (length out)\<rparr>)"

lemma snp_of_full: "\<not> bufpos (snp_of B l out) < buflen (snp_of B l out) \<Longrightarrow> snp_of B l (out @ [c]) = snp_of B l out"
  by (auto simp: snp_of_def Let_def min_def split: if_splits)

lemma snp_of_add:
  assumes "bufpos (snp_of B l out) < buflen (snp_of B l out)"
  defines "snp \<equiv> snp_of B l out"
  shows "bufpos snp < length (snp_buf snp)" "snp\<lparr>snp_buf := (snp_buf snp)[bufpos snp := c], bufpos := bufpos snp + 1\<rparr> = snp_of B l (out @ [c])"
proof -
  have l: "length out < min l (length B)" using assms(1) by (auto simp: snp_of_def Let_def)
  then show "bufpos snp < length (snp_buf snp)" by (simp add: snp_def snp_of_def Let_def)
  have "(out @ drop (length out) B)[length out := c] = out @ c # drop (Suc (length out)) B"
    using l by (simp add: list_update_append Cons_nth_drop_Suc [symmetric])
  then show "snp\<lparr>snp_buf := (snp_buf snp)[bufpos snp := c], bufpos := bufpos snp + 1\<rparr> = snp_of B l (out @ [c])"
    using l by (simp add: snp_def snp_of_def Let_def blit_def min_def)
qed

lemma snprintf_send_text: "snprintf_send (snp_of B l out) data n = run_map (snp_of B l) (text_send out data n)"
proof (induction n arbitrary: out data)
  case (Suc n)
  show ?case
  proof (cases data)
    case (Cons c d)
    have "snprintf_send (snp_of B l out) (c # d) (Suc n) = snprintf_send (snp_of B l (out @ [c])) d n"
      using snp_of_add(1) [of B l out] snp_of_add(2) [of B l out c] snp_of_full [of B l out c] by (cases "bufpos (snp_of B l out) < buflen (snp_of B l out)") simp_all
    then show ?thesis using Suc.IH [of "out @ [c]" d] by (simp add: Cons text_send_def)
  qed (simp add: text_send_def)
qed (simp add: text_send_def)

interpretation snp: redirect text_send snprintf_send "snp_of B l"
  by unfold_locales (rule snprintf_send_text)

lemma vsnprintf_text:
  assumes "0 < len" "len \<le> length buf"
  shows "vsnprintf buf len fmt args =
    run_map (\<lambda>(n, out). (n, blit 0 (take (len - 1) out @ [0]) buf)) (vprintf text_send [] fmt args)"
proof -
  have m: "min (len - 1) (length buf) = len - 1" using assms by (intro min_absorb1) linarith
  have "snp_of buf (len - 1) [] = \<lparr>snp_buf = buf, buflen = len - 1, bufpos = 0\<rparr>"
    unfolding snp_of_def Let_def m by (simp add: blit_def)
  then have v: "vprintf snprintf_send \<lparr>snp_buf = buf, buflen = len - 1, bufpos = 0\<rparr> fmt args =
      run_map (\<lambda>(n, out). (n, snp_of buf (len - 1) out)) (vprintf text_send [] fmt args)"
    using snp.vprintf_redirect [of buf "len - 1" "[]" fmt args] by simp
  have e: "(snp_buf snp)[bufpos snp := 0] = blit 0 (take (len - 1) out @ [0]) buf \<and> bufpos snp < length (snp_buf snp)"
    if "snp = snp_of buf (len - 1) out" for snp out
  proof -
    let ?t = "take (len - 1) out"
    have l: "length ?t < length buf" using assms by simp
    have "(?t @ drop (length ?t) buf)[length ?t := 0] = ?t @ 0 # drop (Suc (length ?t)) buf"
      using l by (simp add: list_update_append Cons_nth_drop_Suc [symmetric])
    moreover have "snp = \<lparr>snp_buf = ?t @ drop (length ?t) buf, buflen = len - 1, bufpos = length ?t\<rparr>"
      unfolding that snp_of_def Let_def m by (simp add: blit_def min.commute)
    ultimately show ?thesis using l by (simp add: blit_def)
  qed
  show ?thesis using assms(1) v by (cases "vprintf text_send [] fmt args") (auto simp: vsnprintf_def e)
qed

text \<open>The count of characters is the length of the text, as a C integer.\<close>

definition counted :: "byte list PF \<Rightarrow> bool" where
  "counted pf \<longleftrightarrow> charcount pf = int32 (int (length (clientdata pf)))"

definition counts :: "byte list PF run \<Rightarrow> bool" where
  "counts r \<longleftrightarrow> (\<forall>pf. r = Ret pf \<longrightarrow> counted pf)"

lemma counts_simps [simp]: "counts (Ret pf) = counted pf" "counts Panic" "counts Fault" "counts Loops"
  by (simp_all add: counts_def)

lemma counts_andthen: "(\<And>x. r = Ret x \<Longrightarrow> counts (f x)) \<Longrightarrow> counts (andthen r f)"
  by (cases r) simp_all

lemma counts_then: "counts r \<Longrightarrow> (\<And>pf. counted pf \<Longrightarrow> counts (f pf)) \<Longrightarrow> counts (andthen r f)"
  by (cases r) simp_all

lemma int32_add: "int32 (int32 x + y) = int32 (x + y)"
  using signed_take_bit_add [of 31 "signed_take_bit 31 x" y] signed_take_bit_add [of 31 x y] by (simp add: int32_def)

lemma counted_upds [simp]:
  "counted (pf\<lparr>pf_ap := a\<rparr>) = counted pf" "counted (pf\<lparr>in_pct := b\<rparr>) = counted pf" "counted (pf\<lparr>pf_sz := z\<rparr>) = counted pf"
  "counted (pf\<lparr>num := w\<rparr>) = counted pf" "counted (pf\<lparr>sign := b\<rparr>) = counted pf" "counted (pf\<lparr>spacing := n\<rparr>) = counted pf"
  "counted (pf\<lparr>rightspc := b\<rparr>) = counted pf" "counted (pf\<lparr>fillchar := c\<rparr>) = counted pf" "counted (pf\<lparr>pf_base := m\<rparr>) = counted pf"
  "counted (pf\<lparr>baseprefix := b\<rparr>) = counted pf" "counted (pf\<lparr>altformat := b\<rparr>) = counted pf" "counted (pf_endfield pf) = counted pf"
  "counted (pf_setbase pf ch) = counted pf"
  by (simp_all add: counted_def pf_endfield_def pf_setbase_def Let_def)

lemma counted_print: "counted pf \<Longrightarrow> counts (pf_print text_send pf txt len)"
  by (simp add: pf_print_def text_send_def counted_def int32_add)

lemma counted_fill: "counted pf \<Longrightarrow> counts (pf_fill text_send pf spc)"
proof -
  have "counted pf \<Longrightarrow> counts (pf_fill_loop text_send n f pf)" for n f
    by (induction n arbitrary: pf) (auto intro: counts_then counted_print)
  then show "counted pf \<Longrightarrow> counts (pf_fill text_send pf spc)" by (simp add: pf_fill_def)
qed

lemma counted_printstuff: "counted pf \<Longrightarrow> counts (pf_printstuff text_send pf a b c)"
  unfolding pf_printstuff_def Let_def
  by (intro counts_andthen counts_then [where r = "if _ then _ else _"] counts_then [where r = "pf_print _ _ _ _"] counted_print)
    (auto intro: counted_fill)

lemma counted_send:
  assumes "counted pf"
  shows "counts (pf_send text_send pf ch)"
proof -
  have m: "counts (pf_modifier pf ch)" using assms by (simp add: pf_modifier_def assertk_def)
  have n: "counts (andthen (pf_getnum pf ch) (\<lambda>pf. andthen (pf_printnum text_send (pf_setbase pf ch)) (\<lambda>pf. Ret (pf_endfield pf))))"
  proof (rule counts_then)
    show "counts (pf_getnum pf ch)" using assms by (auto simp: pf_getnum_def va_word_def split: list.split va_arg.split)
    fix pf :: "byte list PF" assume "counted pf"
    then show "counts (andthen (pf_printnum text_send (pf_setbase pf ch)) (\<lambda>pf. Ret (pf_endfield pf)))"
      by (intro counts_then) (auto simp: pf_printnum_def Let_def intro!: counts_andthen counted_printstuff)
  qed
  have f: "counts (andthen (pf_printstuff text_send pf a b c) (\<lambda>pf. Ret (pf_endfield pf)))" if "counted pf" for pf a b c
    using counted_printstuff [OF that] by (rule counts_then) simp
  show ?thesis
    using assms m n f counted_print [OF assms]
    by (auto simp: pf_send_def assertk_def va_word_def split: list.split va_arg.split intro!: counts_andthen)
qed

lemma vprintf_count:
  assumes "vprintf text_send [] fmt args = Ret (n, out)"
  shows "n = int32 (int (length out))"
proof -
  have "counted pf \<Longrightarrow> counts (vprintf_loop text_send fmt pf)" for pf
    by (induction fmt arbitrary: pf) (auto intro: counts_then counted_send)
  then have "counts (vprintf_loop text_send fmt (pf_endfield \<lparr>clientdata = [], pf_ap = args, charcount = 0, in_pct = False, pf_sz = INTSZ, num = 0,
      sign = False, spacing = 0, rightspc = False, fillchar = 0, pf_base = 0, baseprefix = False, altformat = False\<rparr>))"
    by (auto simp: counted_def int32_def simp del: counted_upds simp: pf_endfield_def)
  with assms show ?thesis by (auto simp: vprintf_def andthen_Ret_iff counts_def counted_def)
qed

section \<open>Numerals\<close>

function numeral_text :: "nat \<Rightarrow> nat \<Rightarrow> byte list" where
  "numeral_text base n =
     (if n < base \<or> base < 2 then [pf_digits ! (n mod base)] else numeral_text base (n div base) @ [pf_digits ! (n mod base)])"
  by pat_completeness auto
termination
  by (relation "measure snd") auto

declare numeral_text.simps [simp del]

lemma numeral_text_small: "n < base \<Longrightarrow> numeral_text base n = [pf_digits ! n]"
  by (subst numeral_text.simps) simp

lemma numeral_text_step:
  "2 \<le> base \<Longrightarrow> base \<le> n \<Longrightarrow> numeral_text base n = numeral_text base (n div base) @ [pf_digits ! (n mod base)]"
  by (subst numeral_text.simps) simp

lemma numeral_text_length:
  assumes "2 \<le> base" "n < base ^ Suc k"
  shows "length (numeral_text base n) \<le> Suc k"
  using assms(2)
proof (induction k arbitrary: n)
  case (Suc k)
  show ?case
  proof (cases "n < base")
    case False
    then have "n div base < base ^ Suc k" using Suc.prems assms(1) by (simp add: less_mult_imp_div_less mult.commute)
    from Suc.IH [OF this] show ?thesis using False assms(1) by (simp add: numeral_text_step)
  qed (simp add: numeral_text_small)
qed (simp add: numeral_text_small)

lemma pf_convert_text:
  assumes "2 \<le> base" "length (numeral_text base n) \<le> k" "k \<le> length buf"
  shows "pf_convert base n k buf = Ret (k - length (numeral_text base n), take (k - length (numeral_text base n)) buf @ numeral_text base n @ drop k buf)"
  using assms(2,3)
proof (induction n arbitrary: k buf rule: less_induct)
  case (less n)
  show ?case
  proof (cases "n < base")
    case True
    with less.prems obtain x where x: "k = Suc x" by (cases k) (simp_all add: numeral_text_small)
    with less.prems True assms(1) show ?thesis by (simp add: numeral_text_small upd_conv_take_nth_drop)
  next
    case False
    let ?t = "numeral_text base (n div base)" and ?d = "pf_digits ! (n mod base)"
    have t: "numeral_text base n = ?t @ [?d]" using False assms(1) by (simp add: numeral_text_step)
    with less.prems obtain x where x: "k = Suc x" by (cases k) simp_all
    have n: "0 < n div base" "n div base < n" using False assms(1) by (simp_all add: div_greater_zero_iff)
    have "pf_convert base (n div base) x (buf[x := ?d]) = Ret (x - length ?t, take (x - length ?t) (buf[x := ?d]) @ ?t @ drop x (buf[x := ?d]))"
      using less.prems x t by (intro less.IH [OF n(2)]) simp_all
    moreover have "drop x (buf[x := ?d]) = ?d # drop (Suc x) buf" using less.prems x by (simp add: upd_conv_take_nth_drop)
    moreover have "take (x - length ?t) (buf[x := ?d]) = take (x - length ?t) buf" by simp
    ultimately show ?thesis using n(1) assms(1) x by (simp add: t)
  qed
qed

lemma pf_digits_eq: "pf_digits = [48, 49, 50, 51, 52, 53, 54, 55, 56, 57, 97, 98, 99, 100, 101, 102, 0]"
  by (simp add: pf_digits_def s8_def)

lemma pf_digit_not_0:
  assumes "d < 16"
  shows "pf_digits ! d \<noteq> 0"
proof -
  have "pf_digits ! d = take 16 pf_digits ! d" using assms by simp
  also have "\<dots> \<in> set (take 16 pf_digits)" using assms by (intro nth_mem) (simp add: pf_digits_eq)
  finally show ?thesis by (auto simp: pf_digits_eq)
qed

lemma numeral_text_not_0:
  assumes "2 \<le> base" "base \<le> 16"
  shows "0 \<notin> set (numeral_text base n)"
proof (induction n rule: less_induct)
  case (less n)
  have "n mod base < base" using assms(1) by simp
  then have "n mod base < 16" using assms(2) by linarith
  then show ?case
    using less.IH [of "n div base"] assms pf_digit_not_0 [of n] pf_digit_not_0 [of "n mod base"]
    by (cases "n < base") (auto simp: numeral_text_small numeral_text_step)
qed

text \<open>\<^verbatim>\<open>atoi\<close> reads what \<^verbatim>\<open>%d\<close> prints.\<close>

lemma strchr_digit:
  assumes "d < 10"
  shows "strchr digits (sint (pf_digits ! d)) = Ret (Some d)"
proof -
  have "\<forall>d \<in> set [0..<10]. strchr digits (sint (pf_digits ! d)) = Ret (Some d)" by code_simp
  with assms show ?thesis by simp
qed

lemma atoi_digits_text:
  "atoi_digits val (numeral_text 10 n @ s) = atoi_digits (val * 10 ^ length (numeral_text 10 n) + of_nat n) s"
proof (induction n arbitrary: val s rule: less_induct)
  case (less n)
  have step: "atoi_digits val (pf_digits ! d # s) = atoi_digits (val * 10 + of_nat d) s" if "d < 10" for val d s
    using that strchr_digit [OF that] pf_digit_not_0 [of d] by simp
  show ?case
  proof (cases "n < 10")
    case True
    then show ?thesis using step [OF True, of val s] by (simp add: numeral_text_small del: atoi_digits.simps)
  next
    case False
    have "n div 10 * 10 + n mod 10 = n" by simp
    then have n: "of_nat (n div 10) * 10 + of_nat (n mod 10) = (of_nat n :: 32 word)" by (metis of_nat_add of_nat_mult of_nat_numeral)
    have "atoi_digits val (numeral_text 10 (n div 10) @ pf_digits ! (n mod 10) # s) =
        atoi_digits ((val * 10 ^ length (numeral_text 10 (n div 10)) + of_nat (n div 10)) * 10 + of_nat (n mod 10)) s"
      using False less.IH [of "n div 10"] step [of "n mod 10"] by (simp del: atoi_digits.simps)
    then show ?thesis using False n by (simp add: numeral_text_step distrib_right add.assoc mult_ac)
  qed
qed

lemma numeral_text_head:
  obtains d t where "numeral_text 10 n = pf_digits ! d # t" "d < 10"
proof -
  have "\<exists>d t. numeral_text 10 n = pf_digits ! d # t \<and> d < 10"
  proof (induction n rule: less_induct)
    case (less n)
    show ?case using less.IH [of "n div 10"] by (cases "n < 10") (auto simp: numeral_text_small numeral_text_step)
  qed
  with that show ?thesis by blast
qed

definition decimal :: "32 word \<Rightarrow> byte list" where
  "decimal w = (if sint w < 0 then [45] else []) @ numeral_text 10 (unat (if sint w < 0 then - w else w))"

lemma atoi_decimal: "atoi (decimal w @ 0 # r) = Ret (sint w)"
proof -
  let ?v = "if sint w < 0 then - w else w"
  have d: "atoi_digits 0 (numeral_text 10 (unat ?v) @ 0 # r) = Ret ?v" by (simp add: atoi_digits_text)
  obtain k t where h: "numeral_text 10 (unat ?v) = pf_digits ! k # t" "k < 10" by (rule numeral_text_head)
  have "\<forall>k \<in> set [0..<10]. pf_digits ! k \<notin> {32, 9, 45, 43}" by code_simp
  with h(2) have "pf_digits ! k \<notin> {32, 9, 45, 43}" by simp
  with d h show ?thesis by (auto simp: atoi_def decimal_def)
qed

lemma decimal_length: "length (decimal w) \<le> 11"
proof -
  have "unat v < 10 ^ Suc 9" for v :: "32 word" using unsigned_less [of v, where ?'a = nat] by simp
  from numeral_text_length [OF _ this] have "length (numeral_text 10 (unat v)) \<le> 10" for v :: "32 word" by simp
  from this [of w] this [of "- w"] show ?thesis by (simp add: decimal_def)
qed

lemma pf_printstuff_plain:
  assumes "0 \<notin> set a" "0 \<notin> set b" "0 \<notin> set c" "spacing pf = 0" "length (a @ b @ c) < 2 ^ 31"
  shows "pf_printstuff text_send pf (cstr a) (cstr b) (cstr c) = Ret (pf\<lparr>clientdata := clientdata pf @ a @ b @ c,
    charcount := int32 (charcount pf + int (length (a @ b @ c)))\<rparr>)"
proof -
  have "int32 (int (length a) + int (length b) + int (length c)) = int (length (a @ b @ c))"
    using assms(5) by (simp add: int32_def signed_take_bit_int_eq_self)
  moreover have "strlen (cstr x) = Ret (length x)" if "0 \<notin> set x" for x using strlen_cstr [OF that, of "[]"] by (simp add: cstr_def)
  ultimately show ?thesis
    using assms(1-4) by (simp add: pf_printstuff_def Let_def pf_print_def text_send_def int32_add add.assoc) (simp add: cstr_def)
qed

lemma pf_printnum_decimal:
  assumes "pf_base pf = 10" "spacing pf = 0"
  shows "pf_printnum text_send pf = Ret (pf\<lparr>clientdata := clientdata pf @ (if sign pf then [45] else []) @ numeral_text 10 (unat (num pf)),
    charcount := int32 (charcount pf + int (length ((if sign pf then [45 :: byte] else []) @ numeral_text 10 (unat (num pf)))))\<rparr>)"
proof -
  let ?t = "numeral_text 10 (unat (num pf))" and ?b = "replicate NUMBER_BUF_SIZE (0 :: byte)"
  have "unat (num pf) < 10 ^ Suc 9" using unsigned_less [of "num pf", where ?'a = nat] by simp
  from numeral_text_length [OF _ this] have l: "length ?t \<le> 10" by simp
  have b: "?b[NUMBER_BUF_SIZE - 1 := 0] = ?b" by (rule nth_equalityI) (auto simp: nth_list_update)
  have "pf_convert 10 (unat (num pf)) (NUMBER_BUF_SIZE - 1) ?b = pf_convert 10 (unat (num pf)) 11 ?b" by (simp add: NUMBER_BUF_SIZE_def)
  also have "\<dots> = Ret (11 - length ?t, take (11 - length ?t) ?b @ ?t @ drop 11 ?b)"
    using l by (intro pf_convert_text) (simp_all add: NUMBER_BUF_SIZE_def)
  finally have cv: "pf_convert 10 (unat (num pf)) (NUMBER_BUF_SIZE - 1) ?b = Ret (11 - length ?t, take (11 - length ?t) ?b @ ?t @ drop 11 ?b)" .
  have dr: "drop (11 - length ?t) (take (11 - length ?t) ?b @ ?t @ drop 11 ?b) = ?t @ [0]"
    by (simp add: NUMBER_BUF_SIZE_def)
  have "pf_printnum text_send pf = pf_printstuff text_send pf (cstr (if sign pf then [45] else [])) (cstr []) (?t @ [0])"
    unfolding pf_printnum_def Let_def b assms(1) cv andthen.simps prod.case dr by (simp add: s8_def)
  also have "\<dots> = pf_printstuff text_send pf (cstr (if sign pf then [45] else [])) (cstr []) (cstr ?t)" by (simp add: cstr_def)
  also have "\<dots> = Ret (pf\<lparr>clientdata := clientdata pf @ (if sign pf then [45] else []) @ [] @ ?t,
      charcount := int32 (charcount pf + int (length ((if sign pf then [45 :: byte] else []) @ [] @ ?t)))\<rparr>)"
    using l by (intro pf_printstuff_plain numeral_text_not_0 assms(2)) auto
  finally show ?thesis by simp
qed

lemma vprintf_decimal: "vprintf text_send [] (cstr (s8 ''%d'')) [Va_word w] = Ret (int (length (decimal w)), decimal w)"
proof -
  have c: "strchr (cstr (s8 ''#-ql0123456789'')) 100 = Ret None" "strchr (cstr (s8 ''doupx'')) 100 = Ret (Some 0)"
    by (simp_all add: cstr_def s8_def)
  define pf :: "byte list PF" where "pf = \<lparr>clientdata = [], pf_ap = [], charcount = 0, in_pct = True, pf_sz = INTSZ, num = (if sint w < 0 then - w else w),
    sign = (sint w < 0), spacing = 0, rightspc = False, fillchar = 32, pf_base = 10, baseprefix = False, altformat = False\<rparr>"
  have "pf_printnum text_send pf = Ret (pf\<lparr>clientdata := decimal w, charcount := int32 (int (length (decimal w)))\<rparr>)"
    using pf_printnum_decimal [of pf] by (simp add: pf_def decimal_def)
  moreover have "int32 (int (length (decimal w))) = int (length (decimal w))"
    using decimal_length [of w] by (simp add: int32_def signed_take_bit_int_eq_self)
  moreover have "cstr (s8 ''%d'') = [37, 100, 0]" by (simp add: cstr_def s8_def)
  ultimately show ?thesis
    by (cases "sint w < 0")
      (simp_all add: vprintf_def pf_send_def pf_endfield_def pf_getnum_def va_word_def pf_setbase_def c pf_def)
qed

lemma snprintf_decimal:
  assumes "12 \<le> len" "len \<le> length buf"
  shows "snprintf buf len (cstr (s8 ''%d'')) [Va_word w] = Ret (int (length (decimal w)), decimal w @ 0 # drop (length (decimal w) + 1) buf)"
proof -
  have t: "take (len - 1) (decimal w) = decimal w" using assms(1) decimal_length [of w] by (intro take_all) linarith
  have "0 < len" using assms(1) by simp
  from vsnprintf_text [OF this assms(2), of "cstr (s8 ''%d'')" "[Va_word w]"] show ?thesis
    by (simp only: snprintf_def vprintf_decimal run_map_simps prod.case t) (simp add: blit_def)
qed

section \<open>The theorems\<close>

text \<open>C36: \<^verbatim>\<open>vsnprintf\<close> with room for \<open>len\<close> bytes stores the first \<open>len - 1\<close> characters of the text that the format and
  the arguments stand for, and a null character after them; it writes nothing past the \<open>len\<close> bytes it was
  given, and it returns the length of the whole text, also when that does not fit.\<close>
theorem vsnprintf_bounded:
  assumes "0 < len" "len \<le> length buf" "vprintf text_send [] fmt args = Ret (n, out)"
  shows "\<exists>buf'. vsnprintf buf len fmt args = Ret (int32 (int (length out)), buf') \<and>
    buf' = take (len - 1) out @ 0 # drop (min (len - 1) (length out) + 1) buf \<and> drop len buf' = drop len buf"
proof -
  obtain m where m: "len = Suc m" using assms(1) by (cases len) simp_all
  have "vsnprintf buf len fmt args = Ret (int32 (int (length out)), take m out @ 0 # drop (min m (length out) + 1) buf)"
    using vsnprintf_text [OF assms(1,2), of fmt args] vprintf_count [OF assms(3)] assms(3) by (simp add: blit_def min.commute m)
  moreover have "drop len (take m out @ 0 # drop (min m (length out) + 1) buf) = drop len buf"
    by (cases "m \<le> length out") (simp_all add: m drop_Cons' min_def)
  ultimately show ?thesis by (simp add: m)
qed

theorem vsnprintf_bounded_witness:
  "vsnprintf [7, 7, 7] 2 (cstr (s8 ''%d'')) [Va_word 42] = Ret (2, [52, 0, 7])"
proof -
  have d: "decimal 42 = [52, 50]"
    by (simp add: decimal_def numeral_text_step numeral_text_small pf_digits_eq)
  from vsnprintf_bounded [of 2 "[7, 7, 7]", OF _ _ vprintf_decimal [of 42]] show ?thesis by (simp add: d int32_def)
qed

text \<open>C37: \<^verbatim>\<open>atoi\<close> reads back what \<^verbatim>\<open>snprintf\<close> prints with \<^verbatim>\<open>%d\<close>, for every C integer, the most negative one
  included; twelve bytes are always enough.\<close>
theorem snprintf_atoi:
  assumes "12 \<le> len" "len \<le> length buf"
  shows "\<exists>n out. snprintf buf len (cstr (s8 ''%d'')) [Va_word w] = Ret (n, out) \<and> atoi out = Ret (sint w)"
  using snprintf_decimal [OF assms] atoi_decimal by blast

theorem snprintf_atoi_witness:
  "\<exists>n out. snprintf (replicate 12 0) 12 (cstr (s8 ''%d'')) [Va_word 0x80000000] = Ret (n, out) \<and> atoi out = Ret (- 2147483648)"
  using snprintf_atoi [of 12 "replicate 12 0" "0x80000000"] by simp

end
