(* ===== verification/KHeap.thy ===== *)
theory KHeap
  imports DumbVM
begin

text \<open>
  The kernel heap, \<^verbatim>\<open>src/kern/lib/kheap.c\<close>: pages cut into blocks of one size, with the list of free blocks of
  a page threaded through the blocks themselves.

  A pointer to a \<^verbatim>\<open>struct pageref\<close> is an index into \<^verbatim>\<open>pagerefs\<close>; a kernel address is a natural number below
  \<open>2\<^sup>3\<^sup>2\<close>, \<open>0\<close> being the null pointer.  The blocks are in the memory of \<open>DumbVM\<close>, which kernel addresses
  from \<^verbatim>\<open>MIPS_KSEG0\<close> on reach directly; the links are big-endian words in it.  The consistency checks
  are compiled out (\<^verbatim>\<open>SLOW\<close> is undefined), and messages are not part of the state.  The loops over the lists
  of pages have fuel for the \<^verbatim>\<open>NPAGEREFS\<close> structures there are.
\<close>

section \<open>Data\<close>

definition NSIZES :: nat where "NSIZES = 8"

definition sizes :: "nat list" where
  "sizes = [16, 32, 64, 128, 256, 512, 1024, 2048]"

definition LARGEST_SUBPAGE_SIZE :: nat where "LARGEST_SUBPAGE_SIZE = 2048"

definition INVALID_OFFSET :: nat where "INVALID_OFFSET = 0xffff"

definition PGSZ :: nat where "PGSZ = 4096"

record pageref =
  next_samesize :: "nat option"
  next_all :: "nat option"
  pageaddr_and_blocktype :: nat
  freelist_offset :: nat
  nfree :: nat

definition PR_PAGEADDR :: "pageref \<Rightarrow> nat" where
  "PR_PAGEADDR pr = pageaddr_and_blocktype pr div PGSZ * PGSZ"

definition PR_BLOCKTYPE :: "pageref \<Rightarrow> nat" where
  "PR_BLOCKTYPE pr = pageaddr_and_blocktype pr mod PGSZ"

definition MKPAB :: "nat \<Rightarrow> nat \<Rightarrow> nat" where
  "MKPAB pa blk = pa div PGSZ * PGSZ + blk mod PGSZ"

definition NPAGEREFS :: nat where "NPAGEREFS = 256"

definition INUSE_WORDS :: nat where "INUSE_WORDS = NPAGEREFS div 32"

record kheap = vmstate +
  pagerefs :: "pageref list"
  pagerefs_inuse :: "u32 list"
  sizebases :: "nat option list"
  allbase :: "nat option"

section \<open>Memory\<close>

definition kaddr_ok :: "nat \<Rightarrow> bool" where
  "kaddr_ok a \<longleftrightarrow> 2 ^ 31 \<le> a \<and> a < 2 ^ 31 + 2 ^ 29 \<and> a mod 4 = 0"

definition kpa :: "nat \<Rightarrow> u32" where
  "kpa a = of_nat (a - 2 ^ 31)"

definition kword :: "(u32 \<Rightarrow> 8 word) \<Rightarrow> nat \<Rightarrow> nat" where
  "kword m a = unat (m (kpa a)) * 2 ^ 24 + unat (m (kpa (a + 1))) * 2 ^ 16 + unat (m (kpa (a + 2))) * 2 ^ 8 + unat (m (kpa (a + 3)))"

definition kput :: "nat \<Rightarrow> nat \<Rightarrow> (u32 \<Rightarrow> 8 word) \<Rightarrow> u32 \<Rightarrow> 8 word" where
  "kput a v m = m(kpa a := of_nat (v div 2 ^ 24), kpa (a + 1) := of_nat (v div 2 ^ 16), kpa (a + 2) := of_nat (v div 2 ^ 8),
     kpa (a + 3) := of_nat v)"

definition kload :: "nat \<Rightarrow> kheap \<Rightarrow> nat run" where
  "kload a h = (if kaddr_ok a then Ret (kword (ram h) a) else Fault)"

definition kstore :: "nat \<Rightarrow> nat \<Rightarrow> kheap \<Rightarrow> kheap run" where
  "kstore a v h = (if kaddr_ok a then Ret (h\<lparr>ram := kput a v (ram h)\<rparr>) else Fault)"

fun fill_deadbeef :: "nat \<Rightarrow> nat \<Rightarrow> kheap \<Rightarrow> kheap run" where
  "fill_deadbeef ptr 0 h = Ret h"
| "fill_deadbeef ptr (Suc n) h = andthen (kstore ptr 0xdeadbeef h) (fill_deadbeef (ptr + 4) n)"

section \<open>Page references\<close>

text \<open>The inner loop of \<^verbatim>\<open>allocpageref\<close>, over the last \<open>n\<close> bits of a word.\<close>

fun clear_bit :: "nat \<Rightarrow> nat \<Rightarrow> u32 \<Rightarrow> nat option" where
  "clear_bit 0 j w = None"
| "clear_bit (Suc n) j w = (if w AND push_bit j 1 = 0 then Some j else clear_bit n (j + 1) w)"

fun allocpageref_loop :: "nat \<Rightarrow> nat \<Rightarrow> kheap \<Rightarrow> (nat option \<times> kheap) run" where
  "allocpageref_loop 0 i h = Ret (None, h)"
| "allocpageref_loop (Suc n) i h =
     (let w = pagerefs_inuse h ! i in
      if w = 0xffffffff then allocpageref_loop n (i + 1) h
      else case clear_bit 32 0 w of
             None \<Rightarrow> Panic
           | Some j \<Rightarrow> Ret (Some (i * 32 + j), h\<lparr>pagerefs_inuse := (pagerefs_inuse h)[i := w OR push_bit j 1]\<rparr>))"

definition allocpageref :: "kheap \<Rightarrow> (nat option \<times> kheap) run" where
  "allocpageref h = allocpageref_loop INUSE_WORDS 0 h"

definition freepageref :: "nat \<Rightarrow> kheap \<Rightarrow> kheap run" where
  "freepageref p h =
     (let j = p in
      assertk (j < NPAGEREFS)
      (let i = j div 32; k = push_bit (j mod 32) 1; w = pagerefs_inuse h ! i in
       assertk (w AND k \<noteq> 0) (Ret (h\<lparr>pagerefs_inuse := (pagerefs_inuse h)[i := w AND NOT k]\<rparr>))))"

definition pr_at :: "nat \<Rightarrow> kheap \<Rightarrow> (pageref \<Rightarrow> 'a run) \<Rightarrow> 'a run" where
  "pr_at p h f = (if p < length (pagerefs h) then f (pagerefs h ! p) else Fault)"

definition upd_pr :: "nat \<Rightarrow> (pageref \<Rightarrow> pageref) \<Rightarrow> kheap \<Rightarrow> kheap" where
  "upd_pr p f h = h\<lparr>pagerefs := (pagerefs h)[p := f (pagerefs h ! p)]\<rparr>"

section \<open>Lists of pages\<close>

text \<open>
  The two loops of \<^verbatim>\<open>remove_lists\<close>: \<^verbatim>\<open>guy\<close> points to the base of the list (\<open>None\<close>) or to the link in a page
  reference.
\<close>

fun unlink_samesize :: "nat \<Rightarrow> nat option \<Rightarrow> nat \<Rightarrow> nat \<Rightarrow> kheap \<Rightarrow> kheap run" where
  "unlink_samesize 0 guy p blktype h = Loops"
| "unlink_samesize (Suc n) guy p blktype h =
     (case (case guy of None \<Rightarrow> sizebases h ! blktype | Some g \<Rightarrow> next_samesize (pagerefs h ! g)) of
        None \<Rightarrow> Ret h
      | Some q \<Rightarrow>
          pr_at q h (\<lambda>pr.
          if q = p then
            Ret (case guy of None \<Rightarrow> h\<lparr>sizebases := (sizebases h)[blktype := next_samesize pr]\<rparr>
                 | Some g \<Rightarrow> upd_pr g (\<lambda>r. r\<lparr>next_samesize := next_samesize pr\<rparr>) h)
          else unlink_samesize n (Some q) p blktype h))"

fun unlink_all :: "nat \<Rightarrow> nat option \<Rightarrow> nat \<Rightarrow> kheap \<Rightarrow> kheap run" where
  "unlink_all 0 guy p h = Loops"
| "unlink_all (Suc n) guy p h =
     (case (case guy of None \<Rightarrow> allbase h | Some g \<Rightarrow> next_all (pagerefs h ! g)) of
        None \<Rightarrow> Ret h
      | Some q \<Rightarrow>
          pr_at q h (\<lambda>pr.
          if q = p then
            Ret (case guy of None \<Rightarrow> h\<lparr>allbase := next_all pr\<rparr>
                 | Some g \<Rightarrow> upd_pr g (\<lambda>r. r\<lparr>next_all := next_all pr\<rparr>) h)
          else unlink_all n (Some q) p h))"

definition remove_lists :: "nat \<Rightarrow> nat \<Rightarrow> kheap \<Rightarrow> kheap run" where
  "remove_lists p blktype h =
     assertk (blktype < NSIZES)
     (andthen (unlink_samesize (NPAGEREFS + 1) None p blktype h) (unlink_all (NPAGEREFS + 1) None p))"

fun blocktype_loop :: "nat \<Rightarrow> nat \<Rightarrow> nat \<Rightarrow> nat run" where
  "blocktype_loop 0 i sz = Panic"
| "blocktype_loop (Suc n) i sz = (if sz \<le> sizes ! i then Ret i else blocktype_loop n (i + 1) sz)"

definition blocktype :: "nat \<Rightarrow> nat run" where
  "blocktype sz = blocktype_loop NSIZES 0 sz"

section \<open>Allocation of blocks\<close>

text \<open>The search for a page with a free block.\<close>

fun subpage_search :: "nat \<Rightarrow> nat \<Rightarrow> nat option \<Rightarrow> kheap \<Rightarrow> nat option run" where
  "subpage_search 0 blktype p h = Loops"
| "subpage_search (Suc n) blktype p h =
     (case p of None \<Rightarrow> Ret None
      | Some q \<Rightarrow> pr_at q h (\<lambda>pr.
          assertk (PR_BLOCKTYPE pr = blktype)
          (if nfree pr > 0 then Ret (Some q) else subpage_search n blktype (next_samesize pr) h)))"

text \<open>The code at the label \<^verbatim>\<open>doalloc\<close>.\<close>

definition subpage_doalloc :: "nat \<Rightarrow> kheap \<Rightarrow> (nat \<times> kheap) run" where
  "subpage_doalloc p h =
     pr_at p h (\<lambda>pr.
     assertk (freelist_offset pr < PGSZ)
     (let prpage = PR_PAGEADDR pr; fla = prpage + freelist_offset pr; n = (nfree pr + 2 ^ 16 - 1) mod 2 ^ 16 in
      andthen (kload fla h) (\<lambda>fl.
      if fl \<noteq> 0 then
        assertk (n > 0)
        (let off = (fl + 2 ^ 32 - prpage) mod 2 ^ 32 in
         assertk (off < PGSZ) (Ret (fla, upd_pr p (\<lambda>r. r\<lparr>nfree := n, freelist_offset := off\<rparr>) h)))
      else
        assertk (n = 0) (Ret (fla, upd_pr p (\<lambda>r. r\<lparr>nfree := n, freelist_offset := INVALID_OFFSET\<rparr>) h)))))"

text \<open>The loop that links the blocks of a new page, from block \<open>i\<close> on.\<close>

fun link_blocks :: "nat \<Rightarrow> nat \<Rightarrow> nat \<Rightarrow> nat \<Rightarrow> kheap \<Rightarrow> kheap run" where
  "link_blocks 0 i fla sz h = Ret h"
| "link_blocks (Suc n) i fla sz h =
     (let fl = fla + i * sz; nx = fla + (i - 1) * sz in
      andthen (kstore fl nx h) (\<lambda>h. assertk (fl \<noteq> nx) (link_blocks n (i + 1) fla sz h)))"

definition subpage_newpage :: "nat \<Rightarrow> kheap \<Rightarrow> (nat option \<times> kheap) run" where
  "subpage_newpage blktype h =
     andthen (allocpageref h) (\<lambda>(r, h).
     case r of None \<Rightarrow> Ret (None, h)
     | Some p \<Rightarrow>
         (case alloc_kpages 1 h of (pg, h) \<Rightarrow>
          if pg = 0 then andthen (freepageref p h) (\<lambda>h. Ret (None, h))
          else
            let prpage = unat pg; sz = sizes ! blktype; n = PGSZ div sz in
            pr_at p h (\<lambda>_.
            let h = upd_pr p (\<lambda>r. r\<lparr>pageaddr_and_blocktype := MKPAB prpage blktype, nfree := n\<rparr>) h in
            andthen (kstore prpage 0 h) (\<lambda>h.
            andthen (link_blocks (n - 1) 1 prpage sz h) (\<lambda>h.
            let off = (n - 1) * sz in
            let h = upd_pr p (\<lambda>r. r\<lparr>freelist_offset := off, next_samesize := sizebases h ! blktype, next_all := allbase h\<rparr>) h in
            Ret (Some p, h\<lparr>sizebases := (sizebases h)[blktype := Some p], allbase := Some p\<rparr>))))))"

definition subpage_kmalloc :: "nat \<Rightarrow> kheap \<Rightarrow> (nat \<times> kheap) run" where
  "subpage_kmalloc sz h =
     andthen (blocktype sz) (\<lambda>blktype.
     case splhigh h of (spl, h) \<Rightarrow>
     andthen (subpage_search (NPAGEREFS + 1) blktype (sizebases h ! blktype) h) (\<lambda>r.
     andthen (case r of Some p \<Rightarrow> Ret (Some p, h) | None \<Rightarrow> subpage_newpage blktype h) (\<lambda>(r, h).
     case r of None \<Rightarrow> Ret (0, snd (splx spl h))
     | Some p \<Rightarrow> andthen (subpage_doalloc p h) (\<lambda>(ptr, h). Ret (ptr, snd (splx spl h))))))"

section \<open>Release of blocks\<close>

fun subpage_find :: "nat \<Rightarrow> nat \<Rightarrow> nat option \<Rightarrow> kheap \<Rightarrow> nat option run" where
  "subpage_find 0 ptraddr p h = Loops"
| "subpage_find (Suc n) ptraddr p h =
     (case p of None \<Rightarrow> Ret None
      | Some q \<Rightarrow> pr_at q h (\<lambda>pr.
          assertk (PR_BLOCKTYPE pr < NSIZES)
          (if PR_PAGEADDR pr \<le> ptraddr \<and> ptraddr < (PR_PAGEADDR pr + PGSZ) mod 2 ^ 32 then Ret (Some q)
           else subpage_find n ptraddr (next_all pr) h)))"

text \<open>The result tells whether the address was in a page of the allocator.\<close>

definition subpage_kfree :: "nat \<Rightarrow> kheap \<Rightarrow> (bool \<times> kheap) run" where
  "subpage_kfree ptraddr h =
     (case splhigh h of (spl, h) \<Rightarrow>
      andthen (subpage_find (NPAGEREFS + 1) ptraddr (allbase h) h) (\<lambda>r.
      case r of None \<Rightarrow> Ret (False, snd (splx spl h))
      | Some p \<Rightarrow> pr_at p h (\<lambda>pr.
          let prpage = PR_PAGEADDR pr; blktype = PR_BLOCKTYPE pr; sz = sizes ! blktype; offset = ptraddr - prpage in
          if offset \<ge> PGSZ \<or> offset mod sz \<noteq> 0 then Panic
          else
            andthen (fill_deadbeef ptraddr (sz div 4) h) (\<lambda>h.
            andthen (kstore (prpage + offset) (if freelist_offset pr = INVALID_OFFSET then 0 else prpage + freelist_offset pr) h) (\<lambda>h.
            let n = (nfree pr + 1) mod 2 ^ 16; h = upd_pr p (\<lambda>r. r\<lparr>freelist_offset := offset, nfree := n\<rparr>) h in
            assertk (n \<le> PGSZ div sz)
            (andthen (if n = PGSZ div sz
                      then andthen (remove_lists p blktype h) (\<lambda>h. freepageref p (free_kpages (of_nat prpage) h))
                      else Ret h) (\<lambda>h.
             Ret (True, snd (splx spl h)))))))))"

section \<open>The interface\<close>

definition kmalloc_bytes :: "nat \<Rightarrow> kheap \<Rightarrow> (nat \<times> kheap) run" where
  "kmalloc_bytes sz h =
     (if sz \<ge> LARGEST_SUBPAGE_SIZE then
        let npages = ((sz + PGSZ - 1) mod 2 ^ 32) div PGSZ in
        case alloc_kpages (of_nat npages) h of (address, h) \<Rightarrow> Ret (unat address, h)
      else subpage_kmalloc sz h)"

definition kfree :: "nat \<Rightarrow> kheap \<Rightarrow> kheap run" where
  "kfree ptr h =
     (if ptr = 0 then Ret h
      else andthen (subpage_kfree ptr h) (\<lambda>(ok, h).
           if ok then Ret h else assertk (ptr mod PGSZ = 0) (Ret (free_kpages (of_nat ptr) h))))"

end
