(* ===== verification/KHeapInv.thy ===== *)
theory KHeapInv
  imports KHeap
begin

text \<open>
  The invariant of the kernel heap, and what allocation and release do to the set of blocks in use.
\<close>

section \<open>Memory\<close>

lemma kpa_inj: "2 ^ 31 \<le> a \<Longrightarrow> a < 2 ^ 32 \<Longrightarrow> 2 ^ 31 \<le> b \<Longrightarrow> b < 2 ^ 32 \<Longrightarrow> kpa a = kpa b \<longleftrightarrow> a = b"
  by (auto simp: kpa_def unat_of_nat take_bit_nat_eq_self dest!: arg_cong [where f = unat])

definition kbyte :: "kheap \<Rightarrow> nat \<Rightarrow> 8 word" where
  "kbyte h a = ram h (kpa a)"

lemma kaddr_range: "kaddr_ok a \<Longrightarrow> i < 4 \<Longrightarrow> 2 ^ 31 \<le> a + i \<and> a + i < 2 ^ 32"
  by (simp add: kaddr_ok_def)

lemma kput_other:
  assumes "kaddr_ok a" "2 ^ 31 \<le> b" "b < 2 ^ 32" "b < a \<or> a + 4 \<le> b"
  shows "kput a v m (kpa b) = m (kpa b)"
proof -
  have "kpa b \<noteq> kpa (a + i)" if "i < 4" for i
    using kpa_inj [of b "a + i"] kaddr_range [OF assms(1) that] assms(2-4) that by auto
  from this [of 0] this [of 1] this [of 2] this [of 3] show ?thesis by (simp add: kput_def)
qed

lemma bytes4:
  fixes v :: nat
  assumes "v = b * 256 + r0" "b = c * 256 + r1" "c = d * 256 + r2" "d' = d"
  shows "d' * 2 ^ 24 + r2 * 2 ^ 16 + r1 * 2 ^ 8 + r0 = v"
  using assms by simp

lemma kput_word:
  assumes "kaddr_ok a" "v < 2 ^ 32"
  shows "kword (kput a v m) a = v"
proof -
  have ne: "kpa (a + i) \<noteq> kpa (a + j)" if "i < 4" "j < 4" "i \<noteq> j" for i j
    using kpa_inj [of "a + i" "a + j"] kaddr_range [OF assms(1) that(1)] kaddr_range [OF assms(1) that(2)] that(3) by auto
  have b: "unat (of_nat k :: 8 word) = k mod 256" for k by (simp add: unat_of_nat)
  have "kword (kput a v m) a = v div 2 ^ 24 mod 256 * 2 ^ 24 + v div 2 ^ 16 mod 256 * 2 ^ 16 + v div 2 ^ 8 mod 256 * 2 ^ 8 + v mod 256"
    using ne [of 0 1] ne [of 0 2] ne [of 0 3] ne [of 1 2] ne [of 1 3] ne [of 2 3] by (simp add: kword_def kput_def b)
  also have "\<dots> = v"
  proof -
    let ?b = "v div 256" and ?c = "v div 256 div 256" and ?d = "v div 256 div 256 div 256"
    have "v = ?b * 256 + v mod 256" "?b = ?c * 256 + ?b mod 256" "?c = ?d * 256 + ?c mod 256" by simp_all
    moreover have "v div 2 ^ 8 = ?b" "v div 2 ^ 16 = ?c" "v div 2 ^ 24 = ?d" by (simp_all add: div_mult2_eq [symmetric])
    moreover have "?d mod 256 = ?d" using assms(2) by (simp add: div_mult2_eq [symmetric] less_mult_imp_div_less)
    ultimately show ?thesis by (intro bytes4 [of v ?b _ ?c _ ?d]) simp_all
  qed
  finally show ?thesis .
qed

lemma kword_cong: "(\<And>i. i < 4 \<Longrightarrow> m (kpa (a + i)) = m' (kpa (a + i))) \<Longrightarrow> kword m a = kword m' a"
proof -
  assume "\<And>i. i < 4 \<Longrightarrow> m (kpa (a + i)) = m' (kpa (a + i))"
  from this [of 0] this [of 1] this [of 2] this [of 3] show ?thesis by (simp add: kword_def)
qed

lemma kput_word_other:
  assumes "kaddr_ok a" "kaddr_ok b" "a \<noteq> b"
  shows "kword (kput a v m) b = kword m b"
proof (rule kword_cong)
  fix i :: nat assume i: "i < 4"
  have "b + i < a \<or> a + 4 \<le> b + i" using assms i by (auto simp: kaddr_ok_def elim!: dvdE)
  with kaddr_range [OF assms(2) i] show "kput a v m (kpa (b + i)) = m (kpa (b + i))" by (intro kput_other [OF assms(1)]) auto
qed

section \<open>Sizes\<close>

lemma sizes_pow: "t < NSIZES \<Longrightarrow> sizes ! t = 2 ^ (t + 4)"
proof -
  have "\<forall>t \<in> set [0..<8]. sizes ! t = 2 ^ (t + 4)" by code_simp
  then show "t < NSIZES \<Longrightarrow> sizes ! t = 2 ^ (t + 4)" by (simp add: NSIZES_def)
qed

lemma sizes_dvd:
  assumes "t < NSIZES"
  shows "16 dvd sizes ! t" "sizes ! t dvd PGSZ" "0 < sizes ! t" "16 \<le> sizes ! t" "2 \<le> PGSZ div sizes ! t" "PGSZ div sizes ! t \<le> 256"
    "PGSZ div sizes ! t * sizes ! t = PGSZ"
proof -
  note p = sizes_pow [OF assms]
  have t: "t \<le> 7" using assms by (simp add: NSIZES_def)
  have e: "(16 :: nat) = 2 ^ 4" "PGSZ = 2 ^ (8 - t) * 2 ^ (t + 4)" using t by (simp_all add: PGSZ_def flip: power_add)
  show "16 dvd sizes ! t" unfolding p e(1) by (rule le_imp_power_dvd) simp
  show "sizes ! t dvd PGSZ" "0 < sizes ! t" unfolding p e(2) by simp_all
  show "16 \<le> sizes ! t" unfolding p e(1) by (rule power_increasing) simp_all
  have d: "PGSZ div sizes ! t = 2 ^ (8 - t)" unfolding p e(2) by simp
  have "(2 :: nat) ^ 1 \<le> 2 ^ (8 - t)" "(2 :: nat) ^ (8 - t) \<le> 2 ^ 8" using t by (intro power_increasing; simp)+
  then show "2 \<le> PGSZ div sizes ! t" "PGSZ div sizes ! t \<le> 256" unfolding d by simp_all
  show "PGSZ div sizes ! t * sizes ! t = PGSZ" unfolding d using p e(2) by simp
qed

lemma blocktype_loop_spec:
  assumes "\<exists>k. i \<le> k \<and> k < i + n \<and> sz \<le> sizes ! k"
  obtains t where "blocktype_loop n i sz = Ret t" "i \<le> t" "t < i + n" "sz \<le> sizes ! t"
  using assms
proof (induction n arbitrary: i thesis)
  case 0 then show ?case by auto
next
  case (Suc n)
  show ?case
  proof (cases "sz \<le> sizes ! i")
    case True then show ?thesis using Suc.prems(1) [of i] by simp
  next
    case False
    with Suc.prems(2) have "\<exists>k. i + 1 \<le> k \<and> k < i + 1 + n \<and> sz \<le> sizes ! k" by (metis add_Suc_right add_Suc_shift Suc_eq_plus1 Suc_leI le_neq_implies_less)
    from Suc.IH [OF _ this] obtain t where "blocktype_loop n (i + 1) sz = Ret t" "i + 1 \<le> t" "t < i + 1 + n" "sz \<le> sizes ! t" .
    with False show ?thesis by (intro Suc.prems(1) [of t]) simp_all
  qed
qed

lemma blocktype_spec:
  assumes "sz \<le> 2048"
  obtains t where "blocktype sz = Ret t" "t < NSIZES" "sz \<le> sizes ! t"
proof -
  have "\<exists>k. 0 \<le> k \<and> k < 0 + NSIZES \<and> sz \<le> sizes ! k" using assms by (intro exI [of _ 7]) (simp add: NSIZES_def sizes_def)
  from blocktype_loop_spec [OF this] that show thesis unfolding blocktype_def by (metis add_0)
qed

section \<open>Lists\<close>

fun lseg :: "(nat \<Rightarrow> nat option) \<Rightarrow> nat option \<Rightarrow> nat list \<Rightarrow> bool" where
  "lseg nx b [] = (b = None)"
| "lseg nx b (p # ps) = (b = Some p \<and> lseg nx (nx p) ps)"

lemma lseg_cong: "(\<And>p. p \<in> set ps \<Longrightarrow> nx p = nx' p) \<Longrightarrow> lseg nx b ps = lseg nx' b ps"
  by (induction ps arbitrary: b) auto

text \<open>What the first link of a list of free blocks holds, and the links in the blocks.\<close>

definition fl_link :: "nat \<Rightarrow> nat list \<Rightarrow> nat" where
  "fl_link a os = (case os of [] \<Rightarrow> 0 | x # _ \<Rightarrow> a + x)"

definition fl_off :: "nat list \<Rightarrow> nat" where
  "fl_off os = (case os of [] \<Rightarrow> INVALID_OFFSET | x # _ \<Rightarrow> x)"

fun chain :: "(u32 \<Rightarrow> 8 word) \<Rightarrow> nat \<Rightarrow> nat list \<Rightarrow> bool" where
  "chain m a [] = True"
| "chain m a (x # os) = (kword m (a + x) = fl_link a os \<and> chain m a os)"

lemma chain_cong: "(\<And>x. x \<in> set os \<Longrightarrow> kword m (a + x) = kword m' (a + x)) \<Longrightarrow> chain m a os = chain m' a os"
  by (induction os) auto

section \<open>Pages\<close>

definition page_at :: "pageref \<Rightarrow> bool" where
  "page_at pr \<longleftrightarrow> PR_BLOCKTYPE pr < NSIZES \<and> 2 ^ 31 \<le> PR_PAGEADDR pr \<and> PR_PAGEADDR pr + PGSZ \<le> 2 ^ 31 + 2 ^ 29"

definition blksz :: "pageref \<Rightarrow> nat" where
  "blksz pr = sizes ! PR_BLOCKTYPE pr"

definition slot :: "pageref \<Rightarrow> nat \<Rightarrow> bool" where
  "slot pr x \<longleftrightarrow> x < PGSZ \<and> x mod blksz pr = 0"

definition page_ok :: "(u32 \<Rightarrow> 8 word) \<Rightarrow> pageref \<Rightarrow> nat list \<Rightarrow> bool" where
  "page_ok m pr os \<longleftrightarrow> page_at pr \<and> distinct os \<and> (\<forall>x \<in> set os. slot pr x) \<and> nfree pr = length os \<and>
     freelist_offset pr = fl_off os \<and> chain m (PR_PAGEADDR pr) os"

lemma pageaddr_dvd: "PGSZ dvd PR_PAGEADDR pr"
  by (simp add: PR_PAGEADDR_def)

lemma blksz_facts:
  assumes "page_at pr"
  shows "16 dvd blksz pr" "blksz pr dvd PGSZ" "0 < blksz pr" "16 \<le> blksz pr" "2 \<le> PGSZ div blksz pr" "PGSZ div blksz pr \<le> 256"
    "PGSZ div blksz pr * blksz pr = PGSZ"
  using assms sizes_dvd [of "PR_BLOCKTYPE pr"] by (simp_all add: page_at_def blksz_def)

lemma slot_room:
  assumes "page_at pr" "slot pr x"
  shows "x + blksz pr \<le> PGSZ"
proof -
  obtain k j where k: "PGSZ = blksz pr * k" "x = blksz pr * j" using blksz_facts(2) [OF assms(1)] assms(2) by (auto simp: slot_def elim!: dvdE)
  have "j < k" using assms(2) blksz_facts(3) [OF assms(1)] unfolding slot_def k by simp
  then have "blksz pr * Suc j \<le> blksz pr * k" by (intro mult_le_mono2) simp
  then show ?thesis using k by simp
qed

lemma slot_kaddr:
  assumes "page_at pr" "slot pr x"
  shows "kaddr_ok (PR_PAGEADDR pr + x)" "16 dvd PR_PAGEADDR pr + x"
proof -
  have "16 dvd x" using assms(2) blksz_facts(1) [OF assms(1)] dvd_trans by (auto simp: slot_def mod_eq_0_iff_dvd)
  moreover have "16 dvd PR_PAGEADDR pr" using pageaddr_dvd [of pr] dvd_trans [of 16 PGSZ] by (simp add: PGSZ_def)
  ultimately show "16 dvd PR_PAGEADDR pr + x" by simp
  then have "4 dvd PR_PAGEADDR pr + x" using dvd_trans [of 4 16 "PR_PAGEADDR pr + x"] by simp
  then show "kaddr_ok (PR_PAGEADDR pr + x)" using assms by (auto simp: kaddr_ok_def page_at_def slot_def PGSZ_def mod_eq_0_iff_dvd)
qed

lemma slots_apart:
  assumes "page_at pr" "slot pr x" "slot pr y" "x \<noteq> y"
  shows "x + blksz pr \<le> y \<or> y + blksz pr \<le> x"
proof -
  obtain i j where k: "x = blksz pr * i" "y = blksz pr * j" using assms(2,3) by (auto simp: slot_def elim!: dvdE)
  then consider "Suc i \<le> j" | "Suc j \<le> i" using assms(4) by fastforce
  then show ?thesis
  proof cases
    case 1 then have "blksz pr * Suc i \<le> blksz pr * j" by (rule mult_le_mono2)
    with k show ?thesis by simp
  next
    case 2 then have "blksz pr * Suc j \<le> blksz pr * i" by (rule mult_le_mono2)
    with k show ?thesis by simp
  qed
qed

lemma slots_card:
  assumes "page_at pr"
  shows "card {x. slot pr x} = PGSZ div blksz pr" "finite {x. slot pr x}"
proof -
  have n: "PGSZ div blksz pr * blksz pr = PGSZ" "0 < blksz pr" using blksz_facts [OF assms] by simp_all
  have e: "{x. slot pr x} = (\<lambda>k. k * blksz pr) ` {..<PGSZ div blksz pr}" (is "_ = ?R")
  proof (intro set_eqI iffI)
    fix x assume "x \<in> {x. slot pr x}"
    then obtain k where "x = k * blksz pr" "k * blksz pr < PGSZ div blksz pr * blksz pr" using n by (auto simp: slot_def elim!: dvdE)
    then show "x \<in> ?R" by auto
  next
    fix x assume "x \<in> ?R"
    then obtain k where "x = k * blksz pr" "k < PGSZ div blksz pr" by auto
    then have "x < PGSZ div blksz pr * blksz pr" using n(2) by simp
    with \<open>x = _\<close> n show "x \<in> {x. slot pr x}" by (simp add: slot_def)
  qed
  show "finite {x. slot pr x}" unfolding e by simp
  show "card {x. slot pr x} = PGSZ div blksz pr" unfolding e using n(2) by (subst card_image) (auto simp: inj_on_def)
qed

lemma page_room:
  assumes "page_ok m pr os"
  shows "length os \<le> PGSZ div blksz pr" "slot pr x \<Longrightarrow> x \<notin> set os \<Longrightarrow> length os < PGSZ div blksz pr" "length os \<le> 256"
proof -
  have a: "page_at pr" "set os \<subseteq> {x. slot pr x}" "card (set os) = length os" using assms by (auto simp: page_ok_def distinct_card)
  from card_mono [OF slots_card(2) [OF a(1)] a(2)] slots_card(1) [OF a(1)] a(3) show l: "length os \<le> PGSZ div blksz pr" by simp
  show "length os \<le> 256" using l blksz_facts(6) [OF a(1)] by simp
  assume "slot pr x" "x \<notin> set os"
  then have "set os \<subset> {x. slot pr x}" using a(2) by auto
  from psubset_card_mono [OF slots_card(2) [OF a(1)] this] slots_card(1) [OF a(1)] a(3) show "length os < PGSZ div blksz pr" by simp
qed

lemma page_ok_cong:
  assumes "page_ok m pr os" "\<And>b. PR_PAGEADDR pr \<le> b \<Longrightarrow> b < PR_PAGEADDR pr + PGSZ \<Longrightarrow> m' (kpa b) = m (kpa b)"
  shows "page_ok m' pr os"
proof -
  have "kword m' (PR_PAGEADDR pr + x) = kword m (PR_PAGEADDR pr + x)" if "x \<in> set os" for x
  proof (rule kword_cong)
    fix i :: nat assume "i < 4"
    moreover have "page_at pr" "slot pr x" using assms(1) that by (auto simp: page_ok_def)
    ultimately have "x + i < PGSZ" using slot_room [of pr x] blksz_facts(4) [of pr] by simp
    then show "m' (kpa (PR_PAGEADDR pr + x + i)) = m (kpa (PR_PAGEADDR pr + x + i))" using assms(2) [of "PR_PAGEADDR pr + x + i"] by (simp add: ac_simps)
  qed
  with chain_cong [of os m' "PR_PAGEADDR pr" m] assms(1) show ?thesis by (simp add: page_ok_def)
qed

section \<open>The invariant\<close>

text \<open>
  The lists of pages: \<open>A\<close> is the list of all pages, \<open>S t\<close> that of the pages with blocks of type \<open>t\<close>, and a bit is
  set for each page reference in use.
\<close>

definition inuse :: "kheap \<Rightarrow> nat \<Rightarrow> bool" where
  "inuse h p \<longleftrightarrow> bit (pagerefs_inuse h ! (p div 32)) (p mod 32)"

definition pref :: "kheap \<Rightarrow> nat \<Rightarrow> pageref" where
  "pref h p = pagerefs h ! p"

definition lists_ok :: "kheap \<Rightarrow> (nat \<Rightarrow> nat list) \<Rightarrow> nat list \<Rightarrow> bool" where
  "lists_ok h S A \<longleftrightarrow> length (pagerefs h) = NPAGEREFS \<and> length (pagerefs_inuse h) = INUSE_WORDS \<and> length (sizebases h) = NSIZES \<and>
     set A \<subseteq> {..<NPAGEREFS} \<and> distinct A \<and> lseg (\<lambda>p. next_all (pref h p)) (allbase h) A \<and>
     (\<forall>t < NSIZES. distinct (S t) \<and> set (S t) = {p \<in> set A. PR_BLOCKTYPE (pref h p) = t} \<and>
        lseg (\<lambda>p. next_samesize (pref h p)) (sizebases h ! t) (S t)) \<and>
     (\<forall>p < NPAGEREFS. inuse h p \<longleftrightarrow> p \<in> set A)"

text \<open>The pages: \<open>F p\<close> is the list of the offsets of the free blocks of page \<open>p\<close>.\<close>

definition pages_ok :: "kheap \<Rightarrow> nat list \<Rightarrow> (nat \<Rightarrow> nat list) \<Rightarrow> bool" where
  "pages_ok h A F \<longleftrightarrow> ram_ok h \<and>
     (\<forall>p \<in> set A. page_ok (ram h) (pref h p) (F p) \<and> PR_PAGEADDR (pref h p) + PGSZ \<le> 2 ^ 31 + unat (firstpaddr h)) \<and>
     (\<forall>p \<in> set A. \<forall>q \<in> set A. PR_PAGEADDR (pref h p) = PR_PAGEADDR (pref h q) \<longrightarrow> p = q)"

definition live :: "kheap \<Rightarrow> nat list \<Rightarrow> (nat \<Rightarrow> nat list) \<Rightarrow> (nat \<times> nat) set" where
  "live h A F = {(PR_PAGEADDR (pref h p) + x, blksz (pref h p)) |p x. p \<in> set A \<and> slot (pref h p) x \<and> x \<notin> set (F p)}"

definition heap_is :: "kheap \<Rightarrow> (nat \<times> nat) set \<Rightarrow> bool" where
  "heap_is h B \<longleftrightarrow> (\<exists>S A F. lists_ok h S A \<and> pages_ok h A F \<and> B = live h A F)"

text \<open>Different pages are apart, so different blocks are.\<close>

lemma pages_apart:
  assumes "PR_PAGEADDR pr \<noteq> PR_PAGEADDR qr"
  shows "PR_PAGEADDR pr + PGSZ \<le> PR_PAGEADDR qr \<or> PR_PAGEADDR qr + PGSZ \<le> PR_PAGEADDR pr"
proof -
  obtain i j where "PR_PAGEADDR pr = PGSZ * i" "PR_PAGEADDR qr = PGSZ * j" using pageaddr_dvd by (meson dvdE)
  with assms show ?thesis by (auto simp: PGSZ_def)
qed

lemma blocks_apart:
  assumes ok: "pages_ok h A F" and p: "p \<in> set A" "slot (pref h p) x" and q: "q \<in> set A" "slot (pref h q) y" and ne: "(p, x) \<noteq> (q, y)"
  shows "PR_PAGEADDR (pref h p) + x + blksz (pref h p) \<le> PR_PAGEADDR (pref h q) + y \<or>
         PR_PAGEADDR (pref h q) + y + blksz (pref h q) \<le> PR_PAGEADDR (pref h p) + x"
proof -
  have at: "page_at (pref h p)" "page_at (pref h q)" using ok p(1) q(1) by (auto simp: pages_ok_def page_ok_def)
  show ?thesis
  proof (cases "p = q")
    case True
    with slots_apart [OF at(1) p(2), of y] q ne show ?thesis by auto
  next
    case False
    with ok p(1) q(1) have "PR_PAGEADDR (pref h p) \<noteq> PR_PAGEADDR (pref h q)" by (auto simp: pages_ok_def)
    from pages_apart [OF this] slot_room [OF at(1) p(2)] slot_room [OF at(2) q(2)] show ?thesis by auto
  qed
qed

lemma live_apart:
  assumes "heap_is h B" "(a, m) \<in> B" "(b, n) \<in> B" "(a, m) \<noteq> (b, n)"
  shows "a + m \<le> b \<or> b + n \<le> a"
proof -
  obtain S A F where ok: "pages_ok h A F" "B = live h A F" using assms(1) by (auto simp: heap_is_def)
  from assms(2,3) obtain p x q y where e: "p \<in> set A" "slot (pref h p) x" "q \<in> set A" "slot (pref h q) y"
    "(a, m) = (PR_PAGEADDR (pref h p) + x, blksz (pref h p))" "(b, n) = (PR_PAGEADDR (pref h q) + y, blksz (pref h q))"
    unfolding ok(2) live_def by blast
  then have "(p, x) \<noteq> (q, y)" using assms(4) by auto
  from blocks_apart [OF ok(1) e(1-4) this] e(5,6) show ?thesis by simp
qed

lemma live_block:
  assumes "heap_is h B" "(a, n) \<in> B"
  shows "16 dvd a" "2 ^ 31 \<le> a" "a + n \<le> 2 ^ 31 + unat (firstpaddr h)" "16 \<le> n" "16 dvd n"
proof -
  obtain S A F where ok: "pages_ok h A F" "B = live h A F" using assms(1) by (auto simp: heap_is_def)
  from assms(2) obtain p x where e: "p \<in> set A" "slot (pref h p) x" "a = PR_PAGEADDR (pref h p) + x" "n = blksz (pref h p)"
    unfolding ok(2) live_def by blast
  have at: "page_at (pref h p)" "PR_PAGEADDR (pref h p) + PGSZ \<le> 2 ^ 31 + unat (firstpaddr h)" using ok(1) e(1) by (auto simp: pages_ok_def page_ok_def)
  show "16 dvd a" "16 \<le> n" "16 dvd n" using slot_kaddr(2) [OF at(1) e(2)] blksz_facts(1,4) [OF at(1)] e(3,4) by simp_all
  show "2 ^ 31 \<le> a" "a + n \<le> 2 ^ 31 + unat (firstpaddr h)" using at slot_room [OF at(1) e(2)] e(3,4) by (simp_all add: page_at_def)
qed

end
