(* ===== verification/KHeapOps.thy ===== *)
theory KHeapOps
  imports KHeapInv
begin

text \<open>
  What the operations of the kernel heap do to the invariant of \<open>KHeapInv\<close>: the search for a page, taking a block
  from a page, making a new page, and giving a block back.
\<close>

unbundle bit_operations_syntax

section \<open>Changes to one page\<close>

lemma upd_pr_sel: "sizebases (upd_pr p f h) = sizebases h" "allbase (upd_pr p f h) = allbase h"
  by (simp_all add: upd_pr_def)

lemma lists_ok_cong:
  assumes "lists_ok h S A" "length (pagerefs h') = length (pagerefs h)" "pagerefs_inuse h' = pagerefs_inuse h" "sizebases h' = sizebases h"
    "allbase h' = allbase h"
    "\<And>p. p \<in> set A \<Longrightarrow> next_all (pref h' p) = next_all (pref h p) \<and> next_samesize (pref h' p) = next_samesize (pref h p) \<and>
       PR_BLOCKTYPE (pref h' p) = PR_BLOCKTYPE (pref h p)"
  shows "lists_ok h' S A"
proof -
  have 1: "lseg (\<lambda>p. next_all (pref h' p)) b A = lseg (\<lambda>p. next_all (pref h p)) b A" for b using assms(6) by (intro lseg_cong) simp
  have 2: "lseg (\<lambda>p. next_samesize (pref h' p)) b (S t) = lseg (\<lambda>p. next_samesize (pref h p)) b (S t)" if "t < NSIZES" for b t
    using assms(1,6) that by (intro lseg_cong) (auto simp: lists_ok_def)
  have 3: "{p \<in> set A. PR_BLOCKTYPE (pref h' p) = t} = {p \<in> set A. PR_BLOCKTYPE (pref h p) = t}" for t using assms(6) by auto
  have 4: "inuse h' = inuse h" by (simp add: inuse_def fun_eq_iff assms(3))
  show ?thesis using assms(1) by (simp add: lists_ok_def 1 2 3 4 assms(2-5) cong: conj_cong)
qed

text \<open>A page whose free list changes, along with memory inside the page.\<close>

definition set_free :: "nat \<Rightarrow> nat list \<Rightarrow> (u32 \<Rightarrow> 8 word) \<Rightarrow> kheap \<Rightarrow> kheap" where
  "set_free p os m h = upd_pr p (\<lambda>r. r\<lparr>nfree := length os, freelist_offset := fl_off os\<rparr>) (h\<lparr>ram := m\<rparr>)"

lemma pref_set_free:
  "p < length (pagerefs h) \<Longrightarrow>
   pref (set_free p os m h) q = (if q = p then (pref h p)\<lparr>nfree := length os, freelist_offset := fl_off os\<rparr> else pref h q)"
  by (simp add: pref_def set_free_def upd_pr_def nth_list_update)

lemma set_free_simps [simp]:
  "ram (set_free p os m h) = m" "firstpaddr (set_free p os m h) = firstpaddr h" "lastpaddr (set_free p os m h) = lastpaddr h"
  "curspl (set_free p os m h) = curspl h" "ram_ok (set_free p os m h) = ram_ok h" "length (pagerefs (set_free p os m h)) = length (pagerefs h)"
  "pagerefs_inuse (set_free p os m h) = pagerefs_inuse h" "sizebases (set_free p os m h) = sizebases h" "allbase (set_free p os m h) = allbase h"
  "tlb (set_free p os m h) = tlb h"
  by (simp_all add: set_free_def upd_pr_def ram_ok_def)

lemma page_upd [simp]:
  "PR_PAGEADDR (pr\<lparr>nfree := n, freelist_offset := f\<rparr>) = PR_PAGEADDR pr" "PR_BLOCKTYPE (pr\<lparr>nfree := n, freelist_offset := f\<rparr>) = PR_BLOCKTYPE pr"
  "blksz (pr\<lparr>nfree := n, freelist_offset := f\<rparr>) = blksz pr" "slot (pr\<lparr>nfree := n, freelist_offset := f\<rparr>) = slot pr"
  "page_at (pr\<lparr>nfree := n, freelist_offset := f\<rparr>) = page_at pr"
  by (simp_all add: PR_PAGEADDR_def PR_BLOCKTYPE_def blksz_def slot_def page_at_def fun_eq_iff)

lemma set_free_lists:
  assumes "lists_ok h S A" "p \<in> set A"
  shows "lists_ok (set_free p os m h) S A"
proof -
  have "p < length (pagerefs h)" using assms by (auto simp: lists_ok_def)
  then show ?thesis by (intro lists_ok_cong [OF assms(1)]) (simp_all add: pref_set_free)
qed

lemma pref_set_free_page:
  assumes "p < length (pagerefs h)"
  shows "PR_PAGEADDR (pref (set_free p os m h) q) = PR_PAGEADDR (pref h q)" "blksz (pref (set_free p os m h) q) = blksz (pref h q)"
    "slot (pref (set_free p os m h) q) = slot (pref h q)"
  by (simp_all add: pref_set_free [OF assms])

lemma set_free_pages:
  assumes ok: "pages_ok h A F" and p: "p \<in> set A" "p < length (pagerefs h)"
    and os: "distinct os" "\<forall>x \<in> set os. slot (pref h p) x" "chain m (PR_PAGEADDR (pref h p)) os"
    and m: "\<And>b. b < PR_PAGEADDR (pref h p) \<or> PR_PAGEADDR (pref h p) + PGSZ \<le> b \<Longrightarrow> 2 ^ 31 \<le> b \<Longrightarrow> b < 2 ^ 32 \<Longrightarrow> m (kpa b) = ram h (kpa b)"
  shows "pages_ok (set_free p os m h) A (F(p := os))"
proof -
  have o: "page_ok m (pref h q) (F q)" if q: "q \<in> set A" "q \<noteq> p" for q
  proof (rule page_ok_cong)
    show "page_ok (ram h) (pref h q) (F q)" using ok q(1) by (simp add: pages_ok_def)
    then have at: "page_at (pref h q)" by (simp add: page_ok_def)
    fix b assume b: "PR_PAGEADDR (pref h q) \<le> b" "b < PR_PAGEADDR (pref h q) + PGSZ"
    have "PR_PAGEADDR (pref h q) \<noteq> PR_PAGEADDR (pref h p)" using ok p(1) q by (auto simp: pages_ok_def)
    from pages_apart [OF this] b at show "m (kpa b) = ram h (kpa b)" by (intro m) (auto simp: page_at_def)
  qed
  have "page_at (pref h p)" using ok p(1) by (simp add: pages_ok_def page_ok_def)
  with os have "page_ok m ((pref h p)\<lparr>nfree := length os, freelist_offset := fl_off os\<rparr>) os" by (simp add: page_ok_def)
  with o have "\<forall>q \<in> set A. page_ok m (pref (set_free p os m h) q) ((F(p := os)) q)" by (simp add: pref_set_free [OF p(2)])
  with ok show ?thesis by (simp add: pages_ok_def pref_set_free_page [OF p(2)])
qed

lemma set_free_live:
  assumes "p < length (pagerefs h)"
  shows "live (set_free p os m h) A F = live h A F"
  by (simp add: live_def pref_set_free_page [OF assms])

lemma live_take:
  assumes "p \<in> set A" "slot (pref h p) x" "F p = x # os" "x \<notin> set os"
  shows "live h A (F(p := os)) = insert (PR_PAGEADDR (pref h p) + x, blksz (pref h p)) (live h A F)" (is "?L = insert ?b ?R")
proof (intro set_eqI iffI)
  fix e assume "e \<in> ?L"
  then obtain q y where e: "e = (PR_PAGEADDR (pref h q) + y, blksz (pref h q))" "q \<in> set A" "slot (pref h q) y" "y \<notin> set ((F(p := os)) q)"
    by (auto simp: live_def)
  show "e \<in> insert ?b ?R"
  proof (cases "q = p \<and> y = x")
    case False
    with e(4) assms(3) have "y \<notin> set (F q)" by (auto split: if_splits)
    with e(1-3) show ?thesis by (auto simp: live_def)
  qed (use e in simp)
next
  fix e assume "e \<in> insert ?b ?R"
  then obtain q y where e: "e = (PR_PAGEADDR (pref h q) + y, blksz (pref h q))" "q \<in> set A" "slot (pref h q) y" "y \<notin> set ((F(p := os)) q)"
  proof (cases "e = ?b")
    case True with that [of p x] assms show thesis by simp
  next
    case False
    with \<open>e \<in> insert ?b ?R\<close> obtain q y where "e = (PR_PAGEADDR (pref h q) + y, blksz (pref h q))" "q \<in> set A" "slot (pref h q) y" "y \<notin> set (F q)"
      by (auto simp: live_def)
    moreover from this(4) have "y \<notin> set ((F(p := os)) q)" using assms(3) by (auto split: if_splits)
    ultimately show thesis using that by blast
  qed
  then show "e \<in> ?L" unfolding live_def by blast
qed

lemma live_give:
  assumes ok: "pages_ok h A F" and p: "p \<in> set A" "slot (pref h p) x"
  shows "live h A (F(p := x # F p)) = live h A F - {(PR_PAGEADDR (pref h p) + x, blksz (pref h p))}" (is "?L = ?R - {?b}")
proof (intro set_eqI iffI)
  fix e assume "e \<in> ?L"
  then obtain q y where e: "e = (PR_PAGEADDR (pref h q) + y, blksz (pref h q))" "q \<in> set A" "slot (pref h q) y" "y \<notin> set ((F(p := x # F p)) q)"
    by (auto simp: live_def)
  then have ne: "(q, y) \<noteq> (p, x)" by auto
  have "page_at (pref h p)" "page_at (pref h q)" using ok p(1) e(2) by (auto simp: pages_ok_def page_ok_def)
  then have "0 < blksz (pref h p)" "0 < blksz (pref h q)" by (simp_all add: blksz_facts)
  with blocks_apart [OF ok e(2,3) p ne] e(1) have "e \<noteq> ?b" by auto
  moreover have "y \<notin> set (F q)" using e(4) by (auto split: if_splits)
  ultimately show "e \<in> ?R - {?b}" using e(1-3) by (auto simp: live_def)
next
  fix e assume "e \<in> ?R - {?b}"
  then obtain q y where e: "e = (PR_PAGEADDR (pref h q) + y, blksz (pref h q))" "q \<in> set A" "slot (pref h q) y" "y \<notin> set (F q)" "e \<noteq> ?b"
    by (auto simp: live_def)
  then have "y \<notin> set ((F(p := x # F p)) q)" by auto
  with e show "e \<in> ?L" unfolding live_def by blast
qed

section \<open>Taking a block\<close>

lemma subpage_search_spec:
  assumes "lseg (\<lambda>p. next_samesize (pref h p)) b ps" "set ps \<subseteq> {..<length (pagerefs h)}" "\<forall>p \<in> set ps. PR_BLOCKTYPE (pref h p) = t" "length ps < n"
  shows "subpage_search n t b h = Ret None \<or> (\<exists>p \<in> set ps. subpage_search n t b h = Ret (Some p) \<and> 0 < nfree (pref h p))"
  using assms
proof (induction n arbitrary: b ps)
  case (Suc n)
  show ?case
  proof (cases ps)
    case (Cons q qs)
    with Suc.prems Suc.IH [of "next_samesize (pref h q)" qs] show ?thesis by (auto simp: pr_at_def assertk_def pref_def)
  qed (use Suc.prems in simp)
qed simp

lemma fl_link_pos: "0 < a \<Longrightarrow> fl_link a os = 0 \<longleftrightarrow> os = []"
  by (simp add: fl_link_def split: list.splits)

lemma subpage_doalloc_spec:
  assumes ls: "lists_ok h S A" and ok: "pages_ok h A F" and p: "p \<in> set A" and F: "F p = x # os"
  shows "subpage_doalloc p h = Ret (PR_PAGEADDR (pref h p) + x, set_free p os (ram h) h)"
proof -
  let ?a = "PR_PAGEADDR (pref h p)"
  have len: "p < length (pagerefs h)" using ls p by (auto simp: lists_ok_def)
  have pk: "page_ok (ram h) (pref h p) (x # os)" using ok p F by (metis pages_ok_def)
  then have k: "slot (pref h p) x" "page_at (pref h p)" "nfree (pref h p) = Suc (length os)" "freelist_offset (pref h p) = x" "kword (ram h) (?a + x) = fl_link ?a os"
    "\<forall>y \<in> set os. slot (pref h p) y" by (auto simp: page_ok_def fl_off_def)
  have x: "x < PGSZ" "0 < ?a" "?a < 2 ^ 32" using k(1,2) by (auto simp: slot_def page_at_def)
  have l: "length os < 256" using page_room(3) [OF pk] by simp
  have n: "(Suc (length os) + 2 ^ 16 - 1) mod 2 ^ 16 = length os" using l by simp
  have off: "(fl_link ?a os + 2 ^ 32 - ?a) mod 2 ^ 32 = fl_off os" "fl_off os < PGSZ" if "os \<noteq> []"
    using that k(6) by (auto simp: fl_link_def fl_off_def slot_def PGSZ_def neq_Nil_conv)
  have u: "set_free p os (ram h) h = upd_pr p (\<lambda>r. r\<lparr>nfree := length os, freelist_offset := fl_off os\<rparr>) h" by (simp add: set_free_def)
  have ld: "kload (?a + x) h = Ret (fl_link ?a os)" using slot_kaddr(1) [OF k(2,1)] k(5) by (simp add: kload_def)
  show ?thesis
  proof (cases "os = []")
    case True
    then show ?thesis using ld n x len k(3,4) unfolding u
      by (simp add: subpage_doalloc_def pr_at_def pref_def [symmetric] assertk_def Let_def fl_link_def fl_off_def)
  next
    case False
    then show ?thesis using ld n off x len k(3,4) unfolding u
      by (simp add: subpage_doalloc_def pr_at_def pref_def [symmetric] assertk_def Let_def fl_link_pos)
  qed
qed

lemma doalloc_heap:
  assumes ls: "lists_ok h S A" and ok: "pages_ok h A F" and p: "p \<in> set A" and F: "F p = x # os"
  shows "heap_is (set_free p os (ram h) h) (insert (PR_PAGEADDR (pref h p) + x, blksz (pref h p)) (live h A F))"
    "slot (pref h p) x" "x \<in> set (F p)"
proof -
  have len: "p < length (pagerefs h)" using ls p by (auto simp: lists_ok_def)
  have pk: "page_ok (ram h) (pref h p) (x # os)" using ok p F by (metis pages_ok_def)
  then show k: "slot (pref h p) x" by (simp add: page_ok_def)
  show "x \<in> set (F p)" by (simp add: F)
  have "lists_ok (set_free p os (ram h) h) S A" by (rule set_free_lists [OF ls p])
  moreover have "pages_ok (set_free p os (ram h) h) A (F(p := os))" using pk by (intro set_free_pages [OF ok p len]) (simp_all add: page_ok_def)
  moreover have "insert (PR_PAGEADDR (pref h p) + x, blksz (pref h p)) (live h A F) = live (set_free p os (ram h) h) A (F(p := os))"
    using pk by (simp add: set_free_live [OF len] live_take [where F = F, OF p k F] page_ok_def)
  ultimately show "heap_is (set_free p os (ram h) h) (insert (PR_PAGEADDR (pref h p) + x, blksz (pref h p)) (live h A F))"
    unfolding heap_is_def by blast
qed

section \<open>Page references\<close>

lemma clear_bit_spec:
  "clear_bit n j w = Some k \<Longrightarrow> j \<le> k \<and> k < j + n \<and> \<not> bit w k"
  "clear_bit n j w = None \<Longrightarrow> j \<le> i \<Longrightarrow> i < j + n \<Longrightarrow> bit w i"
proof (induction n arbitrary: j)
  case (Suc n)
  { case 1 with Suc.IH(1) [of "j + 1"] show ?case by (auto simp: and_exp_eq_0_iff_not_bit split: if_splits) }
  { case 2 with Suc.IH(2) [of "j + 1"] show ?case by (cases "i = j") (auto simp: and_exp_eq_0_iff_not_bit split: if_splits) }
qed simp_all

lemma full_word: "(\<And>i. i < 32 \<Longrightarrow> bit w i) \<Longrightarrow> w = 0xffffffff" for w :: u32
proof -
  assume "\<And>i. i < 32 \<Longrightarrow> bit w i"
  then have "w = -1" by (intro bit_word_eqI) simp
  then show ?thesis by simp
qed

definition mark :: "nat \<Rightarrow> kheap \<Rightarrow> kheap" where
  "mark p h = h\<lparr>pagerefs_inuse := (pagerefs_inuse h)[p div 32 := pagerefs_inuse h ! (p div 32) OR push_bit (p mod 32) 1]\<rparr>"

definition unmark :: "nat \<Rightarrow> kheap \<Rightarrow> kheap" where
  "unmark p h = h\<lparr>pagerefs_inuse := (pagerefs_inuse h)[p div 32 := pagerefs_inuse h ! (p div 32) AND NOT (push_bit (p mod 32) 1)]\<rparr>"

lemma allocpageref_loop_spec:
  assumes "i + n \<le> length (pagerefs_inuse h)"
  shows "allocpageref_loop n i h = Ret (None, h) \<and> (\<forall>p. i * 32 \<le> p \<and> p < (i + n) * 32 \<longrightarrow> inuse h p) \<or>
    (\<exists>p. allocpageref_loop n i h = Ret (Some p, mark p h) \<and> i * 32 \<le> p \<and> p < (i + n) * 32 \<and> \<not> inuse h p)"
  using assms
proof (induction n arbitrary: i)
  case (Suc n)
  let ?w = "pagerefs_inuse h ! i"
  show ?case
  proof (cases "?w = 0xffffffff")
    case True
    have w: "inuse h p" if "i * 32 \<le> p" "p < (i + 1) * 32" for p
    proof -
      have "p div 32 = i" using that by (intro div_nat_eqI) simp_all
      moreover have "?w = -1" using True by simp
      ultimately show ?thesis by (simp add: inuse_def)
    qed
    consider "allocpageref_loop n (i + 1) h = Ret (None, h)" "\<forall>p. (i + 1) * 32 \<le> p \<and> p < (i + 1 + n) * 32 \<longrightarrow> inuse h p"
      | p where "allocpageref_loop n (i + 1) h = Ret (Some p, mark p h)" "(i + 1) * 32 \<le> p" "p < (i + 1 + n) * 32" "\<not> inuse h p"
      using Suc.IH [of "i + 1"] Suc.prems by auto
    then show ?thesis
    proof cases
      case 1
      have "inuse h p" if "i * 32 \<le> p" "p < (i + Suc n) * 32" for p using 1(2) w [of p] that by (cases "p < (i + 1) * 32") auto
      with 1(1) True show ?thesis by (simp add: Let_def)
    next
      case 2 with True show ?thesis by (auto simp: Let_def)
    qed
  next
    case False
    obtain k where k: "clear_bit 32 0 ?w = Some k" using full_word [of ?w] clear_bit_spec(2) [of 32 0 ?w] False by (cases "clear_bit 32 0 ?w") auto
    then have "k < 32" "\<not> bit ?w k" using clear_bit_spec(1) by fastforce+
    moreover have "(i * 32 + k) div 32 = i" "(i * 32 + k) mod 32 = k" using \<open>k < 32\<close> by simp_all
    ultimately show ?thesis using False k by (intro disjI2 exI [of _ "i * 32 + k"]) (simp add: Let_def mark_def inuse_def)
  qed
qed auto

lemma allocpageref_spec:
  assumes "lists_ok h S A"
  obtains "allocpageref h = Ret (None, h)" "\<forall>p < NPAGEREFS. inuse h p" | p where "allocpageref h = Ret (Some p, mark p h)" "p < NPAGEREFS" "p \<notin> set A"
proof -
  have "0 + INUSE_WORDS \<le> length (pagerefs_inuse h)" using assms by (simp add: lists_ok_def)
  from allocpageref_loop_spec [OF this] that assms show thesis
    by (auto simp: allocpageref_def lists_ok_def INUSE_WORDS_def NPAGEREFS_def)
qed

lemma page_word:
  assumes "lists_ok h S A" "p < NPAGEREFS"
  shows "p div 32 < length (pagerefs_inuse h)"
  using assms by (simp add: lists_ok_def INUSE_WORDS_def NPAGEREFS_def less_mult_imp_div_less)

lemma bit_eq_div_mod: "p div 32 = q div 32 \<Longrightarrow> p mod 32 = q mod 32 \<longleftrightarrow> p = q" for p q :: nat
  by (metis div_mult_mod_eq)

lemma inuse_mark:
  assumes "p div 32 < length (pagerefs_inuse h)"
  shows "inuse (mark p h) q \<longleftrightarrow> p = q \<or> inuse h q"
proof (cases "p div 32 = q div 32")
  case True
  show ?thesis using assms unfolding bit_eq_div_mod [OF True, symmetric] by (simp add: inuse_def mark_def True bit_or_iff bit_exp_iff) metis
qed (use assms in \<open>auto simp: inuse_def mark_def\<close>)

lemma inuse_unmark:
  assumes "p div 32 < length (pagerefs_inuse h)"
  shows "inuse (unmark p h) q \<longleftrightarrow> p \<noteq> q \<and> inuse h q"
proof (cases "p div 32 = q div 32")
  case True
  show ?thesis using assms unfolding bit_eq_div_mod [OF True, symmetric] by (simp add: inuse_def unmark_def True bit_and_iff bit_not_iff bit_exp_iff) metis
qed (use assms in \<open>auto simp: inuse_def unmark_def\<close>)

lemma freepageref_spec:
  "p < NPAGEREFS \<Longrightarrow> inuse h p \<Longrightarrow> freepageref p h = Ret (unmark p h)"
  by (simp add: freepageref_def assertk_def Let_def inuse_def unmark_def and_exp_eq_0_iff_not_bit)

lemma unmark_mark:
  assumes "p div 32 < length (pagerefs_inuse h)" "\<not> inuse h p"
  shows "unmark p (mark p h) = h"
proof -
  let ?w = "pagerefs_inuse h ! (p div 32)"
  have "(?w OR push_bit (p mod 32) 1) AND NOT (push_bit (p mod 32) 1) = ?w"
    using assms(2) by (intro bit_word_eqI) (auto simp: inuse_def bit_and_iff bit_or_iff bit_not_iff bit_exp_iff)
  with assms(1) show ?thesis by (simp add: unmark_def mark_def)
qed

section \<open>A new page\<close>

lemma link_blocks_spec:
  assumes "\<And>k. k < i + n \<Longrightarrow> kaddr_ok (a + k * sz)" "4 \<le> sz" "0 < i"
  obtains m where "link_blocks n i a sz h = Ret (h\<lparr>ram := m\<rparr>)"
    "\<And>b. b < a + i * sz \<or> a + (i + n) * sz \<le> b \<Longrightarrow> 2 ^ 31 \<le> b \<Longrightarrow> b < 2 ^ 32 \<Longrightarrow> m (kpa b) = ram h (kpa b)"
    "\<And>k. i \<le> k \<Longrightarrow> k < i + n \<Longrightarrow> kword m (a + k * sz) = a + (k - 1) * sz"
  using assms
proof (induction n arbitrary: i h thesis)
  case 0
  show ?case by (rule "0.prems"(1) [of "ram h"]) simp_all
next
  case (Suc n)
  let ?v = "a + (i - 1) * sz"
  have ak: "kaddr_ok (a + i * sz)" "kaddr_ok ?v" using Suc.prems(2) [of i] Suc.prems(2) [of "i - 1"] by simp_all
  have ne: "a + i * sz \<noteq> ?v" using Suc.prems(3,4) by (cases i) simp_all
  let ?h = "h\<lparr>ram := kput (a + i * sz) ?v (ram h)\<rparr>"
  obtain m where m: "link_blocks n (i + 1) a sz ?h = Ret (?h\<lparr>ram := m\<rparr>)"
    "\<And>b. b < a + (i + 1) * sz \<or> a + (i + 1 + n) * sz \<le> b \<Longrightarrow> 2 ^ 31 \<le> b \<Longrightarrow> b < 2 ^ 32 \<Longrightarrow> m (kpa b) = ram ?h (kpa b)"
    "\<And>k. i + 1 \<le> k \<Longrightarrow> k < i + 1 + n \<Longrightarrow> kword m (a + k * sz) = a + (k - 1) * sz"
    using Suc.IH [of "i + 1" ?h] Suc.prems(2,3) by (metis add_Suc_right add_Suc_shift Suc_eq_plus1 zero_less_Suc)
  show ?case
  proof (rule Suc.prems(1) [of m])
    show "link_blocks (Suc n) i a sz h = Ret (h\<lparr>ram := m\<rparr>)" using m(1) ak(1) ne by (simp add: Let_def kstore_def assertk_def)
  next
    fix b assume b: "b < a + i * sz \<or> a + (i + Suc n) * sz \<le> b" "2 ^ 31 \<le> b" "b < 2 ^ 32"
    then have "b < a + i * sz \<or> a + i * sz + 4 \<le> b" "b < a + (i + 1) * sz \<or> a + (i + 1 + n) * sz \<le> b"
      using Suc.prems(3) by (auto simp: algebra_simps)
    then show "m (kpa b) = ram h (kpa b)" using m(2) [OF _ b(2,3)] kput_other [OF ak(1) b(2,3)] by simp
  next
    fix k assume k: "i \<le> k" "k < i + Suc n"
    show "kword m (a + k * sz) = a + (k - 1) * sz"
    proof (cases "k = i")
      case True
      have "kword m (a + i * sz) = kword (ram ?h) (a + i * sz)"
      proof (rule kword_cong)
        fix j :: nat assume "j < 4"
        then show "m (kpa (a + i * sz + j)) = ram ?h (kpa (a + i * sz + j))" using Suc.prems(3) kaddr_range [OF ak(1), of j] by (intro m(2)) auto
      qed
      also have "\<dots> = ?v" using kput_word [OF ak(1), of ?v] ak(2) by (simp add: kaddr_ok_def)
      finally show ?thesis using True by simp
    qed (use m(3) [of k] k in simp)
  qed
qed

lemma chain_linked:
  assumes "kword m a = 0" "\<And>j. 0 < j \<Longrightarrow> j < n \<Longrightarrow> kword m (a + j * sz) = a + (j - 1) * sz"
  shows "chain m a (rev (map (\<lambda>j. j * sz) [0..<n]))"
  using assms
proof (induction n)
  case (Suc n)
  have "kword m (a + n * sz) = fl_link a (rev (map (\<lambda>j. j * sz) [0..<n]))"
    using Suc.prems(1) Suc.prems(2) [of n] by (cases n) (simp_all add: fl_link_def)
  with Suc show ?case by simp
qed simp

lemma alloc_kpages_spec:
  fixes h :: kheap
  assumes "ram_ok h" "unat n < 2 ^ 19"
  obtains (fail) "alloc_kpages n h = (0, h)" "unat (lastpaddr h) < unat (firstpaddr h) + unat n * PGSZ"
  | (ok) pg q where "alloc_kpages n h = (pg, h\<lparr>firstpaddr := q\<rparr>)" "unat pg = 2 ^ 31 + unat (firstpaddr h)" "ram_ok (h\<lparr>firstpaddr := q\<rparr>)"
      "unat q = unat (firstpaddr h) + unat n * PGSZ" "unat q \<le> 508 * 1024 * 1024" "PGSZ dvd unat pg"
  using assms
proof (cases rule: getppages_spec)
  case fail then show thesis using that(1) by (simp add: alloc_kpages_def PGSZ_def)
next
  case (ok q)
  let ?f = "firstpaddr h"
  have q: "unat q \<le> 508 * 1024 * 1024" using ok(3) by (auto simp: ram_ok_def word_le_nat_alt)
  moreover have pg: "unat (?f + MIPS_KSEG0) = 2 ^ 31 + unat ?f" using q ok(2) by (subst unat_plus_simple [THEN iffD1]) (simp_all add: MIPS_KSEG0_def word_le_nat_alt unat_word_ariths)
  moreover have "PGSZ dvd 2 ^ 31 + unat ?f" using assms(1) by (simp add: ram_ok_def PGSZ_def)
  ultimately show thesis using ok by (intro that(2) [of "?f + MIPS_KSEG0" q]) (simp_all add: alloc_kpages_def PGSZ_def)
qed

definition fresh_ref :: "kheap \<Rightarrow> nat \<Rightarrow> nat \<Rightarrow> pageref" where
  "fresh_ref h t a = \<lparr>next_samesize = sizebases h ! t, next_all = allbase h, pageaddr_and_blocktype = MKPAB a t,
     freelist_offset = (PGSZ div sizes ! t - 1) * sizes ! t, nfree = PGSZ div sizes ! t\<rparr>"

definition fresh_offsets :: "nat \<Rightarrow> nat list" where
  "fresh_offsets t = rev (map (\<lambda>j. j * sizes ! t) [0..<PGSZ div sizes ! t])"

definition add_page :: "nat \<Rightarrow> nat \<Rightarrow> nat \<Rightarrow> u32 \<Rightarrow> (u32 \<Rightarrow> 8 word) \<Rightarrow> kheap \<Rightarrow> kheap" where
  "add_page p t a q m h =
     (mark p h)\<lparr>firstpaddr := q, ram := m, pagerefs := (pagerefs h)[p := fresh_ref h t a], sizebases := (sizebases h)[t := Some p], allbase := Some p\<rparr>"

lemma add_page_simps [simp]:
  "curspl (add_page p t a q m h) = curspl h" "ram (add_page p t a q m h) = m" "firstpaddr (add_page p t a q m h) = q"
  "lastpaddr (add_page p t a q m h) = lastpaddr h" "sizebases (add_page p t a q m h) = (sizebases h)[t := Some p]"
  "allbase (add_page p t a q m h) = Some p" "inuse (add_page p t a q m h) = inuse (mark p h)"
  "length (pagerefs (add_page p t a q m h)) = length (pagerefs h)" "length (pagerefs_inuse (add_page p t a q m h)) = length (pagerefs_inuse h)"
  by (simp_all add: add_page_def mark_def inuse_def fun_eq_iff)

lemma pref_add_page: "p < length (pagerefs h) \<Longrightarrow> pref (add_page p t a q m h) r = (if r = p then fresh_ref h t a else pref h r)"
  by (simp add: pref_def add_page_def nth_list_update)

lemma fresh_ref_sel:
  "nfree (fresh_ref h t a) = PGSZ div sizes ! t" "freelist_offset (fresh_ref h t a) = (PGSZ div sizes ! t - 1) * sizes ! t"
  by (simp_all add: fresh_ref_def)

lemma fresh_ref_page:
  assumes "t < NSIZES" "PGSZ dvd a"
  shows "PR_PAGEADDR (fresh_ref h t a) = a" "PR_BLOCKTYPE (fresh_ref h t a) = t" "blksz (fresh_ref h t a) = sizes ! t"
proof -
  obtain k where k: "a = PGSZ * k" using assms(2) by (rule dvdE)
  have "t < PGSZ" using assms(1) by (simp add: NSIZES_def PGSZ_def)
  then show "PR_PAGEADDR (fresh_ref h t a) = a" "PR_BLOCKTYPE (fresh_ref h t a) = t"
    unfolding k by (simp_all add: PR_PAGEADDR_def PR_BLOCKTYPE_def fresh_ref_def MKPAB_def PGSZ_def)
  then show "blksz (fresh_ref h t a) = sizes ! t" by (simp add: blksz_def)
qed

lemma fresh_offsets_slots:
  assumes "t < NSIZES" "PGSZ dvd a"
  shows "set (fresh_offsets t) = {x. slot (fresh_ref h t a) x}" "distinct (fresh_offsets t)" "length (fresh_offsets t) = PGSZ div sizes ! t"
    "fl_off (fresh_offsets t) = (PGSZ div sizes ! t - 1) * sizes ! t" "fresh_offsets t \<noteq> []"
proof -
  note z = sizes_dvd [OF assms(1)]
  have "x \<in> (\<lambda>j. j * sizes ! t) ` {0..<PGSZ div sizes ! t} \<longleftrightarrow> x < PGSZ \<and> sizes ! t dvd x" for x
  proof
    assume "x < PGSZ \<and> sizes ! t dvd x"
    then obtain k where "x = sizes ! t * k" "sizes ! t * k < PGSZ div sizes ! t * sizes ! t" using z(7) by (auto elim!: dvdE)
    then show "x \<in> (\<lambda>j. j * sizes ! t) ` {0..<PGSZ div sizes ! t}" by (auto simp: ac_simps)
  next
    assume "x \<in> (\<lambda>j. j * sizes ! t) ` {0..<PGSZ div sizes ! t}"
    then obtain k where k: "x = k * sizes ! t" "k < PGSZ div sizes ! t" by (elim imageE) (rule that, simp_all)
    then have "x < PGSZ div sizes ! t * sizes ! t" using z(3) by simp
    then show "x < PGSZ \<and> sizes ! t dvd x" using z(7) k(1) by simp
  qed
  then show "set (fresh_offsets t) = {x. slot (fresh_ref h t a) x}"
    by (auto simp: fresh_offsets_def slot_def fresh_ref_page [OF assms] mod_eq_0_iff_dvd)
  show "distinct (fresh_offsets t)" "length (fresh_offsets t) = PGSZ div sizes ! t"
    using z(3) by (simp_all add: fresh_offsets_def distinct_map inj_on_def)
  obtain n where "PGSZ div sizes ! t = Suc n" using z(5) by (cases "PGSZ div sizes ! t") simp_all
  then show "fl_off (fresh_offsets t) = (PGSZ div sizes ! t - 1) * sizes ! t" "fresh_offsets t \<noteq> []"
    by (simp_all add: fresh_offsets_def fl_off_def)
qed

lemma add_page_lists:
  assumes ls: "lists_ok h S A" and p: "p < NPAGEREFS" "p \<notin> set A" and t: "t < NSIZES" "PGSZ dvd a"
  shows "lists_ok (add_page p t a q m h) (S(t := p # S t)) (p # A)"
proof -
  let ?h = "add_page p t a q m h"
  have len: "p < length (pagerefs h)" using ls p(1) by (simp add: lists_ok_def)
  note pr = pref_add_page [OF len] fresh_ref_page [OF t]
  have n: "next_all (fresh_ref h t a) = allbase h" "next_samesize (fresh_ref h t a) = sizebases h ! t" by (simp_all add: fresh_ref_def)
  have "lseg (\<lambda>r. next_all (pref ?h r)) b A = lseg (\<lambda>r. next_all (pref h r)) b A" for b using p(2) by (intro lseg_cong) (auto simp: pr)
  then have 1: "lseg (\<lambda>r. next_all (pref ?h r)) (allbase ?h) (p # A)" using ls by (simp add: pr n lists_ok_def)
  have 2: "distinct ((S(t := p # S t)) u) \<and> set ((S(t := p # S t)) u) = {r \<in> set (p # A). PR_BLOCKTYPE (pref ?h r) = u} \<and>
      lseg (\<lambda>r. next_samesize (pref ?h r)) (sizebases ?h ! u) ((S(t := p # S t)) u)" if u: "u < NSIZES" for u
  proof -
    have S: "distinct (S u)" "set (S u) = {r \<in> set A. PR_BLOCKTYPE (pref h r) = u}" "lseg (\<lambda>r. next_samesize (pref h r)) (sizebases h ! u) (S u)"
      "length (sizebases h) = NSIZES" using ls u by (simp_all add: lists_ok_def)
    have np: "p \<notin> set (S u)" using S(2) p(2) by simp
    then have "lseg (\<lambda>r. next_samesize (pref ?h r)) b (S u) = lseg (\<lambda>r. next_samesize (pref h r)) b (S u)" for b by (intro lseg_cong) (auto simp: pr)
    moreover have "{r \<in> set (p # A). PR_BLOCKTYPE (pref ?h r) = u} = (if u = t then {p} else {}) \<union> set (S u)" using S(2) p(2) by (auto simp: pr)
    ultimately show ?thesis using S(1,3,4) np t(1) n by (auto simp: pr)
  qed
  have 3: "inuse ?h r \<longleftrightarrow> r \<in> set (p # A)" if "r < NPAGEREFS" for r
    using inuse_mark [OF page_word [OF ls p(1)]] ls that by (auto simp: lists_ok_def)
  show ?thesis using ls p 1 2 3 unfolding lists_ok_def by simp
qed

lemma add_page_pages:
  assumes ok: "pages_ok h A F" and p: "p < length (pagerefs h)" "p \<notin> set A" and t: "t < NSIZES" "PGSZ dvd a"
    and q: "ram_ok (h\<lparr>firstpaddr := q\<rparr>)" "a = 2 ^ 31 + unat (firstpaddr h)" "unat q = unat (firstpaddr h) + PGSZ" "unat q \<le> 508 * 1024 * 1024"
    and m: "\<And>b. 2 ^ 31 \<le> b \<Longrightarrow> b < a \<Longrightarrow> m (kpa b) = ram h (kpa b)" "chain m a (fresh_offsets t)"
  shows "pages_ok (add_page p t a q m h) (p # A) (F(p := fresh_offsets t))"
    "live (add_page p t a q m h) (p # A) (F(p := fresh_offsets t)) = live h A F"
proof -
  let ?h = "add_page p t a q m h" and ?F = "F(p := fresh_offsets t)"
  note pr = pref_add_page [OF p(1)] fresh_ref_page [OF t]
  have r: "ram_ok ?h" using q(1) by (simp add: ram_ok_def)
  have at: "page_at (fresh_ref h t a)" unfolding page_at_def pr using q(2,3,4) t(1) by (simp add: PGSZ_def)
  have new: "page_ok m (fresh_ref h t a) (fresh_offsets t)"
    using at fresh_offsets_slots(1) [OF t, of h] fresh_offsets_slots(2-4) [OF t] m(2) unfolding page_ok_def pr by (simp add: fresh_ref_sel)
  have old: "page_ok m (pref h r) (F r) \<and> PR_PAGEADDR (pref h r) + PGSZ \<le> a" if "r \<in> set A" for r
  proof -
    have k: "page_ok (ram h) (pref h r) (F r)" "PR_PAGEADDR (pref h r) + PGSZ \<le> a" using ok that q(2) by (simp_all add: pages_ok_def)
    moreover have "2 ^ 31 \<le> PR_PAGEADDR (pref h r)" using k(1) by (simp add: page_ok_def page_at_def)
    ultimately show ?thesis using page_ok_cong [OF k(1), of m] m(1) by auto
  qed
  have ne: "PR_PAGEADDR (pref h r) \<noteq> a" if "r \<in> set A" for r using old [OF that] by (auto simp: PGSZ_def)
  have "\<forall>r \<in> set (p # A). page_ok (ram ?h) (pref ?h r) (?F r) \<and> PR_PAGEADDR (pref ?h r) + PGSZ \<le> 2 ^ 31 + unat (firstpaddr ?h)"
  proof
    fix r assume r: "r \<in> set (p # A)"
    have l: "a + PGSZ \<le> 2 ^ 31 + unat (firstpaddr ?h)" using q(2,3) by simp
    show "page_ok (ram ?h) (pref ?h r) (?F r) \<and> PR_PAGEADDR (pref ?h r) + PGSZ \<le> 2 ^ 31 + unat (firstpaddr ?h)"
    proof (cases "r = p")
      case True then show ?thesis using new l by (simp add: pr)
    next
      case False
      with r have "r \<in> set A" by simp
      from old [OF this] l False show ?thesis by (simp add: pr)
    qed
  qed
  moreover have "\<forall>r \<in> set (p # A). \<forall>s \<in> set (p # A). PR_PAGEADDR (pref ?h r) = PR_PAGEADDR (pref ?h s) \<longrightarrow> r = s"
    using ok ne p(2) by (auto simp: pr pages_ok_def)
  ultimately show "pages_ok ?h (p # A) ?F" using r unfolding pages_ok_def by simp
  show "live ?h (p # A) ?F = live h A F"
  proof (intro set_eqI iffI)
    fix e assume "e \<in> live ?h (p # A) ?F"
    then obtain r x where "e = (PR_PAGEADDR (pref ?h r) + x, blksz (pref ?h r))" "r \<in> set (p # A)" "slot (pref ?h r) x" "x \<notin> set (?F r)" by (auto simp: live_def)
    moreover have "r \<noteq> p" using calculation(3,4) fresh_offsets_slots(1) [OF t, of h] by (auto simp: pr)
    ultimately show "e \<in> live h A F" by (auto simp: live_def pr)
  next
    fix e assume "e \<in> live h A F"
    then obtain r x where "e = (PR_PAGEADDR (pref h r) + x, blksz (pref h r))" "r \<in> set A" "slot (pref h r) x" "x \<notin> set (F r)" by (auto simp: live_def)
    moreover have "r \<noteq> p" using calculation(2) p(2) by auto
    ultimately have "e = (PR_PAGEADDR (pref ?h r) + x, blksz (pref ?h r))" "r \<in> set (p # A)" "slot (pref ?h r) x" "x \<notin> set (?F r)" by (simp_all add: pr)
    then show "e \<in> live ?h (p # A) ?F" unfolding live_def by blast
  qed
qed

text \<open>No page reference or no page is left.\<close>

definition heap_full :: "kheap \<Rightarrow> bool" where
  "heap_full h \<longleftrightarrow> (\<forall>p < NPAGEREFS. inuse h p) \<or> unat (lastpaddr h) < unat (firstpaddr h) + PGSZ"

lemma subpage_newpage_spec:
  assumes ls: "lists_ok h S A" and ok: "pages_ok h A F" and t: "t < NSIZES"
  obtains (none) "subpage_newpage t h = Ret (None, h)" "heap_full h"
  | (page) p h' where "subpage_newpage t h = Ret (Some p, h')" "lists_ok h' (S(t := p # S t)) (p # A)" "pages_ok h' (p # A) (F(p := fresh_offsets t))"
      "live h' (p # A) (F(p := fresh_offsets t)) = live h A F" "blksz (pref h' p) = sizes ! t" "curspl h' = curspl h"
      "\<And>b. 2 ^ 31 \<le> b \<Longrightarrow> b < 2 ^ 31 + unat (firstpaddr h) \<Longrightarrow> kbyte h' b = kbyte h b" "unat (firstpaddr h) \<le> unat (firstpaddr h')"
  using ls
proof (cases rule: allocpageref_spec)
  case 1 then show thesis using none by (simp add: subpage_newpage_def heap_full_def)
next
  case (2 p)
  have len: "p < length (pagerefs h)" "p div 32 < length (pagerefs_inuse h)" using ls 2(2) page_word [OF ls 2(2)] by (simp_all add: lists_ok_def)
  have nu: "\<not> inuse h p" using ls 2(2,3) by (simp add: lists_ok_def)
  have rk: "ram_ok (mark p h)" "unat (1 :: u32) < 2 ^ 19" using ok by (simp_all add: pages_ok_def ram_ok_def mark_def)
  then show thesis
  proof (cases rule: alloc_kpages_spec)
    case fail
    have "freepageref p (mark p h) = Ret h" using freepageref_spec [OF 2(2), of "mark p h"] inuse_mark [OF len(2)] unmark_mark [OF len(2) nu] by simp
    moreover have "heap_full h" using fail(2) by (simp add: heap_full_def mark_def)
    ultimately show thesis using none 2(1) fail(1) by (simp add: subpage_newpage_def)
  next
    case (ok pg q)
    let ?a = "unat pg" and ?sz = "sizes ! t" and ?n = "PGSZ div sizes ! t"
    define h1 where "h1 = (mark p h)\<lparr>firstpaddr := q, pagerefs := (pagerefs h)[p := (pagerefs h ! p)\<lparr>pageaddr_and_blocktype := MKPAB ?a t, nfree := ?n\<rparr>]\<rparr>"
    note z = sizes_dvd [OF t]
    have f: "firstpaddr (mark p h) = firstpaddr h" "ram (mark p h) = ram h" by (simp_all add: mark_def)
    have q: "?a = 2 ^ 31 + unat (firstpaddr h)" "unat q = unat (firstpaddr h) + PGSZ" "ram_ok (h\<lparr>firstpaddr := q\<rparr>)"
      using ok(2-4) f by (simp_all add: ram_ok_def mark_def)
    have ka: "kaddr_ok (?a + k * ?sz)" if "k < ?n" for k
    proof -
      have "k * ?sz < PGSZ" using that z(3,7) by (metis mult_less_mono1)
      moreover have "4 dvd ?a + k * ?sz" using ok(6) z(1) dvd_trans [of 4 16 ?sz] dvd_trans [of 4 PGSZ ?a] by (simp add: PGSZ_def)
      ultimately show ?thesis using q(1,2) ok(5) by (simp add: kaddr_ok_def)
    qed
    have k0: "kaddr_ok ?a" using ka [of 0] z(5) by simp
    define h2 where "h2 = h1\<lparr>ram := kput ?a 0 (ram h)\<rparr>"
    obtain m where m: "link_blocks (?n - 1) 1 ?a ?sz h2 = Ret (h2\<lparr>ram := m\<rparr>)"
      "\<And>b. b < ?a + 1 * ?sz \<or> ?a + (1 + (?n - 1)) * ?sz \<le> b \<Longrightarrow> 2 ^ 31 \<le> b \<Longrightarrow> b < 2 ^ 32 \<Longrightarrow> m (kpa b) = ram h2 (kpa b)"
      "\<And>k. 1 \<le> k \<Longrightarrow> k < 1 + (?n - 1) \<Longrightarrow> kword m (?a + k * ?sz) = ?a + (k - 1) * ?sz"
      using link_blocks_spec [of 1 "?n - 1" ?a ?sz h2] ka z(4,5) by auto
    have m1: "m (kpa b) = ram h (kpa b)" if "2 ^ 31 \<le> b" "b < ?a" for b
      using m(2) [of b] kput_other [OF k0 that(1), of 0 "ram h"] that k0 by (simp add: h2_def kaddr_ok_def)
    have "kword m ?a = kword (kput ?a 0 (ram h)) ?a"
      using m(2) z(4) kaddr_range [OF k0] by (intro kword_cong) (simp add: h2_def)
    then have "kword m ?a = 0" using kput_word [OF k0] by simp
    then have ch: "chain m ?a (fresh_offsets t)" unfolding fresh_offsets_def using m(3) z(5) by (intro chain_linked) auto
    have e: "subpage_newpage t h = Ret (Some p, add_page p t ?a q m h)"
    proof -
      have ns: "pg \<noteq> 0" using q(1) by auto
      have st: "kstore ?a 0 h1 = Ret h2" using k0 by (simp add: kstore_def h2_def h1_def f)
      have up: "upd_pr p (\<lambda>r. r\<lparr>pageaddr_and_blocktype := MKPAB ?a t, nfree := ?n\<rparr>) ((mark p h)\<lparr>firstpaddr := q\<rparr>) = h1"
        by (simp add: upd_pr_def h1_def mark_def)
      have fin: "upd_pr p (\<lambda>r. r\<lparr>freelist_offset := (?n - 1) * ?sz, next_samesize := sizebases h ! t, next_all := allbase h\<rparr>) (h2\<lparr>ram := m\<rparr>)
          \<lparr>sizebases := (sizebases h)[t := Some p], allbase := Some p\<rparr> = add_page p t ?a q m h"
        using len(1) by (cases "pagerefs h ! p") (simp add: upd_pr_def h2_def h1_def add_page_def fresh_ref_def mark_def)
      have bs: "sizebases (h2\<lparr>ram := m\<rparr>) = sizebases h" "allbase (h2\<lparr>ram := m\<rparr>) = allbase h" "length (pagerefs ((mark p h)\<lparr>firstpaddr := q\<rparr>)) = length (pagerefs h)"
        by (simp_all add: h2_def h1_def mark_def)
      show ?thesis unfolding subpage_newpage_def 2(1) andthen.simps prod.case option.case ok(1) Let_def pr_at_def bs(3)
        using ns len(1) by (simp only: up st m(1) andthen.simps upd_pr_sel bs fin if_True if_False simp_thms)
    qed
    show thesis
    proof (rule page [OF e add_page_lists [OF ls 2(2,3) t ok(6)] add_page_pages [OF assms(2) len(1) 2(3) t ok(6) q(3,1,2) ok(5) m1 ch]])
      show "blksz (pref (add_page p t ?a q m h) p) = ?sz" unfolding pref_add_page [OF len(1)] using fresh_ref_page [OF t ok(6)] by simp
    qed (use m1 q(1,2) in \<open>simp_all add: kbyte_def\<close>)
  qed
qed

end
