(* ===== verification/KHeapFree.thy ===== *)
theory KHeapFree
  imports KHeapOps
begin

text \<open>
  Giving blocks of the kernel heap back: filling the block, finding its page, and taking a page whose blocks are all
  free off the lists.
\<close>

section \<open>Filling and finding\<close>

lemma fill_deadbeef_spec:
  assumes "\<And>k. k < n \<Longrightarrow> kaddr_ok (a + 4 * k)"
  obtains m where "fill_deadbeef a n h = Ret (h\<lparr>ram := m\<rparr>)"
    "\<And>b. b < a \<or> a + 4 * n \<le> b \<Longrightarrow> 2 ^ 31 \<le> b \<Longrightarrow> b < 2 ^ 32 \<Longrightarrow> m (kpa b) = ram h (kpa b)"
  using assms
proof (induction n arbitrary: a h thesis)
  case 0
  show ?case by (rule "0.prems"(1) [of "ram h"]) simp_all
next
  case (Suc n)
  let ?h = "h\<lparr>ram := kput a 0xdeadbeef (ram h)\<rparr>"
  have a: "kaddr_ok a" using Suc.prems(2) [of 0] by simp
  have "kaddr_ok (a + 4 + 4 * k)" if "k < n" for k using Suc.prems(2) [of "Suc k"] that by (simp add: add.assoc)
  then obtain m where m: "fill_deadbeef (a + 4) n ?h = Ret (?h\<lparr>ram := m\<rparr>)"
    "\<And>b. b < a + 4 \<or> a + 4 + 4 * n \<le> b \<Longrightarrow> 2 ^ 31 \<le> b \<Longrightarrow> b < 2 ^ 32 \<Longrightarrow> m (kpa b) = ram ?h (kpa b)"
    using Suc.IH [of "a + 4" ?h] by blast
  show ?case
  proof (rule Suc.prems(1) [of m])
    show "fill_deadbeef a (Suc n) h = Ret (h\<lparr>ram := m\<rparr>)" using m(1) a by (simp add: kstore_def)
    fix b assume "b < a \<or> a + 4 * Suc n \<le> b" "2 ^ 31 \<le> b" "b < 2 ^ 32"
    then show "m (kpa b) = ram h (kpa b)" using m(2) [of b] kput_other [OF a, of b _ "ram h"] by auto
  qed
qed

lemma subpage_find_spec:
  assumes "lseg (\<lambda>p. next_all (pref h p)) b ps" "set ps \<subseteq> {..<length (pagerefs h)}" "length ps < n"
    "\<forall>q \<in> set ps. page_at (pref h q)" "\<forall>q \<in> set ps. PR_PAGEADDR (pref h q) = PR_PAGEADDR (pref h p) \<longrightarrow> q = p"
    "p \<in> set ps" "PR_PAGEADDR (pref h p) \<le> a" "a < PR_PAGEADDR (pref h p) + PGSZ"
  shows "subpage_find n a b h = Ret (Some p)"
  using assms
proof (induction n arbitrary: b ps)
  case (Suc n)
  then obtain q qs where ps: "ps = q # qs" by (cases ps) simp_all
  have at: "PR_BLOCKTYPE (pref h q) < NSIZES" "PR_PAGEADDR (pref h q) + PGSZ < 2 ^ 32" "b = Some q" "q < length (pagerefs h)"
    using Suc.prems(1,2,4) ps by (simp_all add: page_at_def)
  have in_page: "PR_PAGEADDR (pref h q) \<le> a \<and> a < PR_PAGEADDR (pref h q) + PGSZ \<longleftrightarrow> q = p"
    using pages_apart [of "pref h q" "pref h p"] Suc.prems(5,7,8) ps by auto
  have "subpage_find (Suc n) a b h = (if q = p then Ret (Some q) else subpage_find n a (next_all (pref h q)) h)"
    using in_page at by (simp add: pr_at_def assertk_def pref_def [symmetric])
  moreover have "subpage_find n a (next_all (pref h q)) h = Ret (Some p)" if "q \<noteq> p"
    using Suc.prems ps that by (intro Suc.IH [of _ qs]) auto
  ultimately show ?case by simp
qed simp

lemma subpage_find_none:
  assumes "lseg (\<lambda>p. next_all (pref h p)) b ps" "set ps \<subseteq> {..<length (pagerefs h)}" "length ps < n"
    "\<forall>q \<in> set ps. page_at (pref h q) \<and> (a < PR_PAGEADDR (pref h q) \<or> PR_PAGEADDR (pref h q) + PGSZ \<le> a)"
  shows "subpage_find n a b h = Ret None"
  using assms
proof (induction n arbitrary: b ps)
  case (Suc n)
  show ?case
  proof (cases ps)
    case (Cons q qs)
    have at: "PR_BLOCKTYPE (pref h q) < NSIZES" "PR_PAGEADDR (pref h q) + PGSZ < 2 ^ 32" "b = Some q" "q < length (pagerefs h)"
      using Suc.prems(1,2,4) Cons by (simp_all add: page_at_def)
    have no: "\<not> (PR_PAGEADDR (pref h q) \<le> a \<and> a < PR_PAGEADDR (pref h q) + PGSZ)" using Suc.prems(4) Cons by auto
    have "subpage_find (Suc n) a b h = subpage_find n a (next_all (pref h q)) h"
      using no at by (auto simp: pr_at_def assertk_def pref_def [symmetric])
    also have "\<dots> = Ret None" using Suc.prems Cons by (intro Suc.IH [of _ qs]) auto
    finally show ?thesis .
  qed (use Suc.prems in simp)
qed simp

section \<open>Taking a page off the lists\<close>

lemma lseg_remove_first: "lseg nx b (p # ys) \<Longrightarrow> lseg nx (nx p) ys"
  by simp

lemma lseg_remove:
  assumes "lseg nx b (xs @ g # p # ys)" "distinct (xs @ g # p # ys)" "\<And>q. q \<in> set (xs @ p # ys) \<Longrightarrow> nx' q = nx q" "nx' g = nx p"
  shows "lseg nx' b (xs @ g # ys)"
  using assms
proof (induction xs arbitrary: b)
  case Nil
  then have "lseg nx' (nx p) ys = lseg nx (nx p) ys" by (intro lseg_cong) simp
  with Nil show ?case by simp
next
  case (Cons x xs)
  then show ?case by simp
qed

lemma pref_upd: "g < length (pagerefs h) \<Longrightarrow> pref (upd_pr g f h) q = (if q = g then f (pref h g) else pref h q)"
  by (simp add: pref_def upd_pr_def nth_list_update)

definition samesize_link :: "nat option \<Rightarrow> nat \<Rightarrow> kheap \<Rightarrow> nat option" where
  "samesize_link guy t h = (case guy of None \<Rightarrow> sizebases h ! t | Some g \<Rightarrow> next_samesize (pref h g))"

definition set_samesize :: "nat option \<Rightarrow> nat \<Rightarrow> nat option \<Rightarrow> kheap \<Rightarrow> kheap" where
  "set_samesize guy t v h = (case guy of None \<Rightarrow> h\<lparr>sizebases := (sizebases h)[t := v]\<rparr> | Some g \<Rightarrow> upd_pr g (\<lambda>r. r\<lparr>next_samesize := v\<rparr>) h)"

definition all_link :: "nat option \<Rightarrow> kheap \<Rightarrow> nat option" where
  "all_link guy h = (case guy of None \<Rightarrow> allbase h | Some g \<Rightarrow> next_all (pref h g))"

definition set_all :: "nat option \<Rightarrow> nat option \<Rightarrow> kheap \<Rightarrow> kheap" where
  "set_all guy v h = (case guy of None \<Rightarrow> h\<lparr>allbase := v\<rparr> | Some g \<Rightarrow> upd_pr g (\<lambda>r. r\<lparr>next_all := v\<rparr>) h)"

text \<open>The link a list element is reached by.\<close>

definition pred :: "nat option \<Rightarrow> nat list \<Rightarrow> nat option" where
  "pred guy xs = (if xs = [] then guy else Some (last xs))"

lemma pred_Cons: "pred guy (x # xs) = pred (Some x) xs"
  by (simp add: pred_def)

lemma unlink_samesize_spec:
  assumes "lseg (\<lambda>q. next_samesize (pref h q)) (samesize_link guy t h) (xs @ p # ys)" "p \<notin> set xs" "set (xs @ [p]) \<subseteq> {..<length (pagerefs h)}" "length xs < n"
  shows "unlink_samesize n guy p t h = Ret (set_samesize (pred guy xs) t (next_samesize (pref h p)) h)"
  using assms
proof (induction xs arbitrary: n guy)
  case Nil
  then obtain k where "n = Suc k" by (cases n) simp_all
  with Nil show ?case by (simp add: samesize_link_def pref_def pr_at_def set_samesize_def pred_def split: option.splits)
next
  case (Cons x xs)
  then obtain k where n: "n = Suc k" by (cases n) simp_all
  have "unlink_samesize n guy p t h = unlink_samesize k (Some x) p t h"
    using Cons.prems unfolding n by (simp add: samesize_link_def pref_def pr_at_def split: option.splits)
  also have "\<dots> = Ret (set_samesize (pred (Some x) xs) t (next_samesize (pref h p)) h)"
    using Cons.prems n by (intro Cons.IH) (simp_all add: samesize_link_def)
  finally show ?case unfolding pred_Cons .
qed

lemma unlink_all_spec:
  assumes "lseg (\<lambda>q. next_all (pref h q)) (all_link guy h) (xs @ p # ys)" "p \<notin> set xs" "set (xs @ [p]) \<subseteq> {..<length (pagerefs h)}" "length xs < n"
  shows "unlink_all n guy p h = Ret (set_all (pred guy xs) (next_all (pref h p)) h)"
  using assms
proof (induction xs arbitrary: n guy)
  case Nil
  then obtain k where "n = Suc k" by (cases n) simp_all
  with Nil show ?case by (simp add: all_link_def pref_def pr_at_def set_all_def pred_def split: option.splits)
next
  case (Cons x xs)
  then obtain k where n: "n = Suc k" by (cases n) simp_all
  have "unlink_all n guy p h = unlink_all k (Some x) p h"
    using Cons.prems unfolding n by (simp add: all_link_def pref_def pr_at_def split: option.splits)
  also have "\<dots> = Ret (set_all (pred (Some x) xs) (next_all (pref h p)) h)"
    using Cons.prems n by (intro Cons.IH) (simp_all add: all_link_def)
  finally show ?case unfolding pred_Cons .
qed

text \<open>What writing one link leaves alone.\<close>

definition same_page :: "pageref \<Rightarrow> pageref \<Rightarrow> bool" where
  "same_page r r' \<longleftrightarrow> pageaddr_and_blocktype r' = pageaddr_and_blocktype r \<and> freelist_offset r' = freelist_offset r \<and> nfree r' = nfree r"

definition links_only :: "kheap \<Rightarrow> kheap \<Rightarrow> bool" where
  "links_only h h' \<longleftrightarrow> length (pagerefs h') = length (pagerefs h) \<and> pagerefs_inuse h' = pagerefs_inuse h \<and>
     length (sizebases h') = length (sizebases h) \<and> ram h' = ram h \<and> firstpaddr h' = firstpaddr h \<and> lastpaddr h' = lastpaddr h \<and>
     curspl h' = curspl h \<and> (\<forall>q. same_page (pref h q) (pref h' q))"

lemma links_only_trans: "links_only h h' \<Longrightarrow> links_only h' h'' \<Longrightarrow> links_only h h''"
  by (simp add: links_only_def same_page_def)

lemma links_only_page:
  assumes "links_only h h'"
  shows "PR_PAGEADDR (pref h' q) = PR_PAGEADDR (pref h q)" "PR_BLOCKTYPE (pref h' q) = PR_BLOCKTYPE (pref h q)" "blksz (pref h' q) = blksz (pref h q)"
    "slot (pref h' q) = slot (pref h q)" "page_ok m (pref h' q) os = page_ok m (pref h q) os" "inuse h' = inuse h"
proof -
  have s: "same_page (pref h q) (pref h' q)" using assms by (simp add: links_only_def)
  then show 1: "PR_PAGEADDR (pref h' q) = PR_PAGEADDR (pref h q)" "PR_BLOCKTYPE (pref h' q) = PR_BLOCKTYPE (pref h q)"
    by (simp_all add: same_page_def PR_PAGEADDR_def PR_BLOCKTYPE_def)
  then show 2: "blksz (pref h' q) = blksz (pref h q)" by (simp add: blksz_def)
  then show 3: "slot (pref h' q) = slot (pref h q)" by (simp add: slot_def fun_eq_iff)
  show "page_ok m (pref h' q) os = page_ok m (pref h q) os" using s 1 3 by (simp add: page_ok_def page_at_def same_page_def)
  show "inuse h' = inuse h" using assms by (simp add: links_only_def inuse_def fun_eq_iff)
qed

definition off_samesize :: "nat \<Rightarrow> nat \<Rightarrow> nat list \<Rightarrow> kheap \<Rightarrow> kheap \<Rightarrow> bool" where
  "off_samesize p t ps h h' \<longleftrightarrow> links_only h h' \<and> (\<forall>q. next_all (pref h' q) = next_all (pref h q)) \<and> allbase h' = allbase h \<and>
    lseg (\<lambda>q. next_samesize (pref h' q)) (sizebases h' ! t) (remove1 p ps) \<and>
    (\<forall>u. u \<noteq> t \<longrightarrow> sizebases h' ! u = sizebases h ! u) \<and> (\<forall>q. q \<notin> set ps \<longrightarrow> next_samesize (pref h' q) = next_samesize (pref h q))"

definition off_all :: "nat \<Rightarrow> nat list \<Rightarrow> kheap \<Rightarrow> kheap \<Rightarrow> bool" where
  "off_all p ps h h' \<longleftrightarrow> links_only h h' \<and> (\<forall>q. next_samesize (pref h' q) = next_samesize (pref h q)) \<and> sizebases h' = sizebases h \<and>
    lseg (\<lambda>q. next_all (pref h' q)) (allbase h') (remove1 p ps)"

lemma remove_samesize:
  assumes S: "lseg (\<lambda>q. next_samesize (pref h q)) (sizebases h ! t) (S t)" "distinct (S t)" "p \<in> set (S t)" "set (S t) \<subseteq> {..<length (pagerefs h)}"
    and n: "length (S t) < n" and t: "t < length (sizebases h)"
  obtains h' where "unlink_samesize n None p t h = Ret h'" "off_samesize p t (S t) h h'"
proof -
  obtain xs ys where e: "S t = xs @ p # ys" using S(3) by (meson split_list)
  have d: "p \<notin> set xs" "remove1 p (S t) = xs @ ys" using S(2) unfolding e by (simp_all add: remove1_append)
  let ?v = "next_samesize (pref h p)"
  have u: "unlink_samesize n None p t h = Ret (set_samesize (pred None xs) t ?v h)"
    using S(1,4) n d(1) unfolding e by (intro unlink_samesize_spec [where ys = ys]) (simp_all add: samesize_link_def)
  show thesis
  proof (cases xs rule: rev_cases)
    case Nil
    then show thesis using u t S(1) unfolding e
      by (intro that [of "h\<lparr>sizebases := (sizebases h)[t := ?v]\<rparr>"]) (simp_all add: off_samesize_def set_samesize_def pred_def links_only_def same_page_def pref_def e)
  next
    case (snoc zs g)
    have g: "g < length (pagerefs h)" "g \<in> set (S t)" using S(4) e snoc by auto
    let ?h = "upd_pr g (\<lambda>r. r\<lparr>next_samesize := ?v\<rparr>) h"
    have l: "lseg (\<lambda>q. next_samesize (pref ?h q)) (sizebases ?h ! t) (zs @ g # ys)"
      using S(1,2) unfolding e snoc upd_pr_sel by (intro lseg_remove [of "\<lambda>q. next_samesize (pref h q)" _ zs g p ys]) (auto simp: pref_upd [OF g(1)])
    have "pred None xs = Some g" using snoc by (simp add: pred_def)
    with u have "unlink_samesize n None p t h = Ret ?h" by (simp add: set_samesize_def)
    then show thesis
      using l d(2) snoc g(2) by (intro that [of ?h]) (auto simp: off_samesize_def pref_upd [OF g(1)] upd_pr_sel links_only_def same_page_def, simp_all add: upd_pr_def)
  qed
qed

lemma remove_all:
  assumes A: "lseg (\<lambda>q. next_all (pref h q)) (allbase h) A" "distinct A" "p \<in> set A" "set A \<subseteq> {..<length (pagerefs h)}" and n: "length A < n"
  obtains h' where "unlink_all n None p h = Ret h'" "off_all p A h h'"
proof -
  obtain xs ys where e: "A = xs @ p # ys" using A(3) by (meson split_list)
  have d: "p \<notin> set xs" "remove1 p A = xs @ ys" using A(2) unfolding e by (simp_all add: remove1_append)
  let ?v = "next_all (pref h p)"
  have u: "unlink_all n None p h = Ret (set_all (pred None xs) ?v h)"
    using A(1,4) n d(1) unfolding e by (intro unlink_all_spec [where ys = ys]) (simp_all add: all_link_def)
  show thesis
  proof (cases xs rule: rev_cases)
    case Nil
    then show thesis using u A(1) unfolding e
      by (intro that [of "h\<lparr>allbase := ?v\<rparr>"]) (simp_all add: off_all_def set_all_def pred_def links_only_def same_page_def pref_def e)
  next
    case (snoc zs g)
    have g: "g < length (pagerefs h)" using A(4) e snoc by auto
    let ?h = "upd_pr g (\<lambda>r. r\<lparr>next_all := ?v\<rparr>) h"
    have l: "lseg (\<lambda>q. next_all (pref ?h q)) (allbase ?h) (zs @ g # ys)"
      using A(1,2) unfolding e snoc upd_pr_sel by (intro lseg_remove [of "\<lambda>q. next_all (pref h q)" _ zs g p ys]) (auto simp: pref_upd [OF g])
    have "pred None xs = Some g" using snoc by (simp add: pred_def)
    with u have "unlink_all n None p h = Ret ?h" by (simp add: set_all_def)
    then show thesis
      using l d(2) snoc by (intro that [of ?h]) (auto simp: off_all_def pref_upd [OF g] upd_pr_sel links_only_def same_page_def, simp_all add: upd_pr_def)
  qed
qed

lemma remove_lists_spec:
  assumes ls: "lists_ok h S A" and p: "p \<in> set A" and t: "t = PR_BLOCKTYPE (pref h p)" "t < NSIZES"
  obtains h' where "remove_lists p t h = Ret h'" "links_only h h'" "lists_ok (unmark p h') (S(t := remove1 p (S t))) (remove1 p A)"
proof -
  define n where "n = NPAGEREFS + 1"
  have L: "length (pagerefs h) = NPAGEREFS" "length (pagerefs_inuse h) = INUSE_WORDS" "length (sizebases h) = NSIZES" "set A \<subseteq> {..<NPAGEREFS}" "distinct A"
    "lseg (\<lambda>q. next_all (pref h q)) (allbase h) A" "\<And>r. r < NPAGEREFS \<Longrightarrow> inuse h r \<longleftrightarrow> r \<in> set A" using ls by (simp_all add: lists_ok_def)
  have S: "distinct (S u)" "set (S u) = {q \<in> set A. PR_BLOCKTYPE (pref h q) = u}" "lseg (\<lambda>q. next_samesize (pref h q)) (sizebases h ! u) (S u)"
    "length (S u) < n" if "u < NSIZES" for u
  proof -
    show 1: "distinct (S u)" "set (S u) = {q \<in> set A. PR_BLOCKTYPE (pref h q) = u}" "lseg (\<lambda>q. next_samesize (pref h q)) (sizebases h ! u) (S u)"
      using ls that by (simp_all add: lists_ok_def)
    then have "card (set (S u)) \<le> card {..<NPAGEREFS}" using L(4) by (intro card_mono) auto
    with 1(1) show "length (S u) < n" by (simp add: distinct_card n_def)
  qed
  have "card (set A) \<le> card {..<NPAGEREFS}" using L(4) by (intro card_mono) auto
  then have lA: "length A < n" using L(5) by (simp add: distinct_card n_def)
  have pS: "p \<in> set (S t)" "set (S t) \<subseteq> {..<length (pagerefs h)}" "t < length (sizebases h)" using p t L(1,3,4) unfolding S(2) [OF t(2)] by auto
  obtain h1 where u1: "unlink_samesize n None p t h = Ret h1" "off_samesize p t (S t) h h1"
    using remove_samesize [where S = S and t = t, OF S(3) [OF t(2)] S(1) [OF t(2)] pS(1,2) S(4) [OF t(2)] pS(3)] .
  then have h1: "links_only h h1" "\<And>q. next_all (pref h1 q) = next_all (pref h q)" "allbase h1 = allbase h"
    "lseg (\<lambda>q. next_samesize (pref h1 q)) (sizebases h1 ! t) (remove1 p (S t))"
    "\<And>u. u \<noteq> t \<Longrightarrow> sizebases h1 ! u = sizebases h ! u" "\<And>q. q \<notin> set (S t) \<Longrightarrow> next_samesize (pref h1 q) = next_samesize (pref h q)"
    by (simp_all add: off_samesize_def)
  have A1: "lseg (\<lambda>q. next_all (pref h1 q)) (allbase h1) A" "set A \<subseteq> {..<length (pagerefs h1)}" using L(1,4,6) h1(1-3) by (simp_all add: links_only_def)
  obtain h2 where u2: "unlink_all n None p h1 = Ret h2" "off_all p A h1 h2" using remove_all [OF A1(1) L(5) p A1(2) lA] .
  then have h2: "links_only h1 h2" "\<And>q. next_samesize (pref h2 q) = next_samesize (pref h1 q)" "sizebases h2 = sizebases h1"
    "lseg (\<lambda>q. next_all (pref h2 q)) (allbase h2) (remove1 p A)" by (simp_all add: off_all_def)
  note lo = links_only_trans [OF h1(1) h2(1)]
  have um: "pref (unmark p h2) = pref h2" "allbase (unmark p h2) = allbase h2" "sizebases (unmark p h2) = sizebases h2" by (simp_all add: unmark_def pref_def fun_eq_iff)
  have iu: "inuse (unmark p h2) r \<longleftrightarrow> r \<in> set (remove1 p A)" if "r < NPAGEREFS" for r
  proof -
    have "p div 32 < length (pagerefs_inuse h2)" using page_word [OF ls] p L(4) lo by (auto simp: links_only_def)
    from inuse_unmark [OF this] links_only_page(6) [OF lo] L(5,7) that show ?thesis by auto
  qed
  have sz: "distinct ((S(t := remove1 p (S t))) u) \<and> set ((S(t := remove1 p (S t))) u) = {q \<in> set (remove1 p A). PR_BLOCKTYPE (pref (unmark p h2) q) = u} \<and>
      lseg (\<lambda>q. next_samesize (pref (unmark p h2) q)) (sizebases (unmark p h2) ! u) ((S(t := remove1 p (S t))) u)" if u: "u < NSIZES" for u
  proof (cases "u = t")
    case True
    then show ?thesis using S(1,2) [OF t(2)] h1(4) h2(3) L(5) unfolding True by (auto simp: um h2(2) links_only_page(2) [OF lo])
  next
    case False
    then have "q \<notin> set (S t)" if "q \<in> set (S u)" for q using S(2) [OF u] S(2) [OF t(2)] that by auto
    then have "lseg (\<lambda>q. next_samesize (pref h2 q)) (sizebases h ! u) (S u) = lseg (\<lambda>q. next_samesize (pref h q)) (sizebases h ! u) (S u)"
      using h1(6) h2(2) by (intro lseg_cong) simp
    then show ?thesis using S(1-3) [OF u] h1(5) [OF False] h2(3) L(5) t(1) [symmetric] False by (auto simp: um links_only_page(2) [OF lo])
  qed
  have "lists_ok (unmark p h2) (S(t := remove1 p (S t))) (remove1 p A)"
    using L(1-5) lo h2(4) sz iu unfolding lists_ok_def um by (auto simp: links_only_def unmark_def dest: notin_set_remove1)
  then show thesis using u1(1) u2(1) t(2) lo by (intro that [of h2]) (simp_all add: remove_lists_def assertk_def n_def [symmetric] del: One_nat_def add_Suc_right add_0_right)
qed

end
