(* ===== verification/BlockAlloc.thy ===== *)
theory BlockAlloc
  imports Prelude
begin

text \<open>
  The contract between an allocator of memory blocks and its users, as a locale.  It is met by the kernel heap and
  by the user-level heap.
\<close>

section \<open>The contract of an allocator\<close>

text \<open>
  What users of a heap rely on: blocks in use are apart, an allocation makes a new block and a release takes one away,
  and both leave the bytes of all other blocks in use alone.
\<close>

locale block_allocator =
  fixes inv :: "'s \<Rightarrow> (nat \<times> nat) set \<Rightarrow> bool"
    and bytes :: "'s \<Rightarrow> nat \<Rightarrow> 8 word"
    and alloc :: "nat \<Rightarrow> 's \<Rightarrow> (nat \<times> 's) run"
    and release :: "nat \<Rightarrow> 's \<Rightarrow> 's run"
    and fits :: "nat \<Rightarrow> bool"
  assumes apart: "inv s B \<Longrightarrow> (a, m) \<in> B \<Longrightarrow> (b, n) \<in> B \<Longrightarrow> (a, m) \<noteq> (b, n) \<Longrightarrow> a + m \<le> b \<or> b + n \<le> a"
    and pos: "inv s B \<Longrightarrow> (a, n) \<in> B \<Longrightarrow> 0 < n"
    and alloc: "inv s B \<Longrightarrow> fits sz \<Longrightarrow> \<exists>a s'. alloc sz s = Ret (a, s') \<and>
      (\<forall>(b, n) \<in> B. \<forall>i < n. bytes s' (b + i) = bytes s (b + i)) \<and>
      (if a = 0 then inv s' B else \<exists>n \<ge> sz. (a, n) \<notin> B \<and> inv s' (insert (a, n) B))"
    and release: "inv s B \<Longrightarrow> (a, n) \<in> B \<Longrightarrow> \<exists>s'. release a s = Ret s' \<and> inv s' (B - {(a, n)}) \<and>
      (\<forall>(b, m) \<in> B - {(a, n)}. \<forall>i < m. bytes s' (b + i) = bytes s (b + i))"

text \<open>A client: a sequence of requests, each release naming one of the pointers held by its place.\<close>

datatype heap_req = Alloc nat | Release nat

fun serve :: "(nat \<Rightarrow> 's \<Rightarrow> (nat \<times> 's) run) \<Rightarrow> (nat \<Rightarrow> 's \<Rightarrow> 's run) \<Rightarrow> heap_req list \<Rightarrow> nat list \<Rightarrow> 's \<Rightarrow> (nat list \<times> 's) run" where
  "serve al fr [] held s = Ret (held, s)"
| "serve al fr (Alloc sz # rs) held s = andthen (al sz s) (\<lambda>(a, s). serve al fr rs (if a = 0 then held else a # held) s)"
| "serve al fr (Release i # rs) held s =
     (if i < length held then andthen (fr (held ! i) s) (serve al fr rs (take i held @ drop (Suc i) held)) else serve al fr rs held s)"

fun req_ok :: "(nat \<Rightarrow> bool) \<Rightarrow> heap_req \<Rightarrow> bool" where
  "req_ok fits (Alloc sz) = fits sz"
| "req_ok fits (Release i) = True"

text \<open>The pointers a client holds are the blocks in use.\<close>

definition holds :: "nat list \<Rightarrow> (nat \<times> nat) set \<Rightarrow> bool" where
  "holds held B \<longleftrightarrow> distinct held \<and> fst ` B = set held"

context block_allocator
begin

lemma same_start:
  assumes "inv s B" "(a, m) \<in> B" "(a, n) \<in> B"
  shows "m = n"
  using apart [OF assms] pos [OF assms(1,2)] pos [OF assms(1,3)] by auto

lemma fresh_start:
  assumes "inv s (insert (a, n) B)" "(a, n) \<notin> B"
  shows "a \<notin> fst ` B"
  using same_start [OF assms(1), of a n] assms(2) by force

lemma holds_release:
  assumes "inv s B" "holds held B" "i < length held" "(held ! i, n) \<in> B"
  shows "holds (take i held @ drop (Suc i) held) (B - {(held ! i, n)})"
proof -
  let ?a = "held ! i"
  have e: "held = take i held @ ?a # drop (Suc i) held" using id_take_nth_drop [OF assms(3)] .
  have "distinct (take i held @ ?a # drop (Suc i) held)" using assms(2) e unfolding holds_def by metis
  moreover have "fst ` (B - {(?a, n)}) = fst ` B - {?a}" using same_start [OF assms(1,4)] by force
  moreover have "set held = set (take i held @ ?a # drop (Suc i) held)" using e by metis
  ultimately show ?thesis using assms(2) by (auto simp: holds_def)
qed

lemma serve_ok:
  assumes "inv s B" "holds held B" "\<forall>r \<in> set rs. req_ok fits r"
  shows "\<exists>held' s' B'. serve alloc release rs held s = Ret (held', s') \<and> inv s' B' \<and> holds held' B'"
  using assms
proof (induction rs arbitrary: held s B)
  case (Cons r rs)
  show ?case
  proof (cases r)
    case (Alloc sz)
    then obtain a s' where a: "alloc sz s = Ret (a, s')" "if a = 0 then inv s' B else \<exists>n \<ge> sz. (a, n) \<notin> B \<and> inv s' (insert (a, n) B)"
      using alloc [OF Cons.prems(1), of sz] Cons.prems(3) by auto
    have "\<exists>B'. inv s' B' \<and> holds (if a = 0 then held else a # held) B'"
    proof (cases "a = 0")
      case False
      then obtain n where n: "(a, n) \<notin> B" "inv s' (insert (a, n) B)" using a(2) by auto
      with fresh_start [OF n(2,1)] Cons.prems(2) False show ?thesis by (auto simp: holds_def intro!: exI [of _ "insert (a, n) B"])
    qed (use a(2) Cons.prems(2) in auto)
    with Cons.IH Cons.prems(3) Alloc a(1) show ?thesis by fastforce
  next
    case (Release i)
    show ?thesis
    proof (cases "i < length held")
      case True
      then have "held ! i \<in> fst ` B" using Cons.prems(2) by (simp add: holds_def)
      then obtain n where n: "(held ! i, n) \<in> B" by auto
      obtain s' where s': "release (held ! i) s = Ret s'" "inv s' (B - {(held ! i, n)})" using release [OF Cons.prems(1) n] by auto
      from Cons.IH [OF s'(2) holds_release [OF Cons.prems(1,2) True n]] Cons.prems(3) Release True s'(1) show ?thesis by simp
    qed (use Cons Release in auto)
  qed
qed auto

end

end
