(* ===== verification/KHeapProps.thy ===== *)
theory KHeapProps
  imports KHeapFree BlockAlloc
begin

text \<open>
  What \<^verbatim>\<open>kmalloc\<close> and \<^verbatim>\<open>kfree\<close> promise to the rest of the kernel: blocks in use never overlap, their contents are
  only changed by their owner, and any sequence of requests can be served.
\<close>

section \<open>The interrupt level\<close>

lemma spl_heap:
  "lists_ok (h\<lparr>curspl := c\<rparr>) = lists_ok h" "pages_ok (h\<lparr>curspl := c\<rparr>) = pages_ok h" "live (h\<lparr>curspl := c\<rparr>) = live h"
  "heap_is (h\<lparr>curspl := c\<rparr>) = heap_is h" "kbyte (h\<lparr>curspl := c\<rparr>) = kbyte h" "heap_full (h\<lparr>curspl := c\<rparr>) = heap_full h"
proof -
  have p: "pref (h\<lparr>curspl := c\<rparr>) = pref h" "inuse (h\<lparr>curspl := c\<rparr>) = inuse h" "ram_ok (h\<lparr>curspl := c\<rparr>) = ram_ok h"
    by (simp_all add: pref_def inuse_def ram_ok_def fun_eq_iff)
  show 1: "lists_ok (h\<lparr>curspl := c\<rparr>) = lists_ok h" "pages_ok (h\<lparr>curspl := c\<rparr>) = pages_ok h" "live (h\<lparr>curspl := c\<rparr>) = live h"
    by (simp_all add: fun_eq_iff lists_ok_def pages_ok_def live_def p)
  show "heap_is (h\<lparr>curspl := c\<rparr>) = heap_is h" by (simp add: fun_eq_iff heap_is_def 1)
  show "kbyte (h\<lparr>curspl := c\<rparr>) = kbyte h" "heap_full (h\<lparr>curspl := c\<rparr>) = heap_full h" by (simp_all add: fun_eq_iff kbyte_def heap_full_def p)
qed

section \<open>Allocation\<close>

lemma free_not_live:
  assumes ok: "pages_ok h A F" and p: "p \<in> set A" "slot (pref h p) x" "x \<in> set (F p)"
  shows "(PR_PAGEADDR (pref h p) + x, blksz (pref h p)) \<notin> live h A F"
proof
  assume "(PR_PAGEADDR (pref h p) + x, blksz (pref h p)) \<in> live h A F"
  then obtain q y where q: "PR_PAGEADDR (pref h p) + x = PR_PAGEADDR (pref h q) + y" "q \<in> set A" "slot (pref h q) y" "y \<notin> set (F q)" by (auto simp: live_def)
  then have "(p, x) \<noteq> (q, y)" using p(3) by auto
  moreover have "0 < blksz (pref h p)" "0 < blksz (pref h q)" using ok p(1) q(2) blksz_facts(3) by (auto simp: pages_ok_def page_ok_def)
  ultimately show False using blocks_apart [OF ok p(1,2) q(2,3)] q(1) by auto
qed

text \<open>What a successful or failed allocation does.\<close>

definition alloc_result :: "kheap \<Rightarrow> (nat \<times> nat) set \<Rightarrow> nat \<Rightarrow> nat \<Rightarrow> kheap \<Rightarrow> bool" where
  "alloc_result h B sz a h' \<longleftrightarrow> curspl h' = curspl h \<and>
     (\<forall>b. 2 ^ 31 \<le> b \<and> b < 2 ^ 31 + unat (firstpaddr h) \<longrightarrow> kbyte h' b = kbyte h b) \<and>
     (if a = 0 then heap_full h \<and> heap_is h' B else \<exists>n \<ge> sz. (a, n) \<notin> B \<and> heap_is h' (insert (a, n) B))"

lemma doalloc_result:
  assumes ls: "lists_ok h S A" and ok: "pages_ok h A F" and p: "p \<in> set A" and F: "F p = x # os" and sz: "sz \<le> blksz (pref h p)"
  obtains a h' where "subpage_doalloc p h = Ret (a, h')" "alloc_result h (live h A F) sz a h'" "a \<noteq> 0"
proof (rule that)
  note d = doalloc_heap [OF ls ok p F]
  have "2 ^ 31 \<le> PR_PAGEADDR (pref h p)" using ok p by (auto simp: pages_ok_def page_ok_def page_at_def)
  then show "PR_PAGEADDR (pref h p) + x \<noteq> 0" by simp
  then show "alloc_result h (live h A F) sz (PR_PAGEADDR (pref h p) + x) (set_free p os (ram h) h)"
    using d(1) free_not_live [OF ok p d(2,3)] sz by (auto simp: alloc_result_def kbyte_def)
qed (rule subpage_doalloc_spec [OF ls ok p F])

lemma subpage_kmalloc_spec:
  assumes h: "heap_is h B" and sz: "sz \<le> 2048"
  obtains (res) a h' where "subpage_kmalloc sz h = Ret (a, h')" "alloc_result h B sz a h'"
proof -
  define n where "n = NPAGEREFS + 1"
  let ?h = "h\<lparr>curspl := SPL_HIGH\<rparr>"
  obtain t where t: "blocktype sz = Ret t" "t < NSIZES" "sz \<le> sizes ! t" using blocktype_spec [OF sz] .
  obtain S A F where hi: "lists_ok ?h S A" "pages_ok ?h A F" "B = live ?h A F" using h by (auto simp: heap_is_def spl_heap)
  have S: "set (S t) = {p \<in> set A. PR_BLOCKTYPE (pref ?h p) = t}" "lseg (\<lambda>p. next_samesize (pref ?h p)) (sizebases ?h ! t) (S t)" "distinct (S t)"
    "set A \<subseteq> {..<NPAGEREFS}" "length (pagerefs ?h) = NPAGEREFS" using hi(1) t(2) by (simp_all add: lists_ok_def)
  then have "card (set (S t)) \<le> card {..<NPAGEREFS}" by (intro card_mono) auto
  then have l: "length (S t) < n" using S(3) by (simp add: distinct_card n_def)
  have fin: thesis if d: "subpage_kmalloc sz h = andthen (subpage_doalloc p h1) (\<lambda>(ptr, h'). Ret (ptr, snd (splx (curspl h) h')))"
    and a: "lists_ok h1 S1 A1" "pages_ok h1 A1 F1" "p \<in> set A1" "F1 p \<noteq> []" "sizes ! t = blksz (pref h1 p)" "live h1 A1 F1 = B"
      "\<And>b. 2 ^ 31 \<le> b \<Longrightarrow> b < 2 ^ 31 + unat (firstpaddr h) \<Longrightarrow> kbyte h1 b = kbyte h b" "unat (firstpaddr h) \<le> unat (firstpaddr h1)" for h1 S1 A1 F1 p
  proof -
    obtain x os where F: "F1 p = x # os" using a(4) by (cases "F1 p") auto
    from t(3) a(5) have "sz \<le> blksz (pref h1 p)" by simp
    from doalloc_result [OF a(1-3) F this] obtain ptr h' where r: "subpage_doalloc p h1 = Ret (ptr, h')" "alloc_result h1 B sz ptr h'" "ptr \<noteq> 0" unfolding a(6) .
    show thesis
    proof (rule res)
      show "subpage_kmalloc sz h = Ret (ptr, h'\<lparr>curspl := curspl h\<rparr>)" using d r(1) by (simp add: splx_def)
      show "alloc_result h B sz ptr (h'\<lparr>curspl := curspl h\<rparr>)" using r(2,3) a(7,8) by (auto simp: alloc_result_def spl_heap)
    qed
  qed
  have e: "subpage_kmalloc sz h = andthen (subpage_search n t (sizebases ?h ! t) ?h) (\<lambda>r.
     andthen (case r of Some p \<Rightarrow> Ret (Some p, ?h) | None \<Rightarrow> subpage_newpage t ?h) (\<lambda>(r, h').
     case r of None \<Rightarrow> Ret (0, snd (splx (curspl h) h'))
     | Some p \<Rightarrow> andthen (subpage_doalloc p h') (\<lambda>(ptr, h'). Ret (ptr, snd (splx (curspl h) h')))))"
    unfolding subpage_kmalloc_def t(1) andthen.simps splhigh_def splx_def prod.case n_def ..
  have fb: "kbyte ?h = kbyte h" "firstpaddr ?h = firstpaddr h" by (simp_all add: spl_heap)
  have sp: "set (S t) \<subseteq> {..<length (pagerefs ?h)}" "\<forall>p \<in> set (S t). PR_BLOCKTYPE (pref ?h p) = t" using S(4,5) unfolding S(1) by auto
  consider (none) "subpage_search n t (sizebases ?h ! t) ?h = Ret None"
    | (some) p where "p \<in> set (S t)" "subpage_search n t (sizebases ?h ! t) ?h = Ret (Some p)" "0 < nfree (pref ?h p)"
    using subpage_search_spec [OF S(2) sp l] by blast
  then show thesis
  proof cases
    case none
    show thesis using hi(1,2) t(2)
    proof (cases rule: subpage_newpage_spec)
      case none': none
      show thesis using h none none' by (intro res [of 0 h]) (simp_all add: e splx_def alloc_result_def spl_heap)
    next
      case (page p h1)
      have "subpage_kmalloc sz h = andthen (subpage_doalloc p h1) (\<lambda>(ptr, h'). Ret (ptr, snd (splx (curspl h) h')))"
        unfolding e none page(1) by simp
      from this page(2,3) _ _ page(5) [symmetric] page(4) [folded hi(3)] page(7,8) [unfolded fb] show thesis
        by (rule fin) (simp_all add: fresh_offsets_slots(5) [OF t(2) dvd_refl])
    qed
  next
    case (some p)
    have "subpage_kmalloc sz h = andthen (subpage_doalloc p ?h) (\<lambda>(ptr, h'). Ret (ptr, snd (splx (curspl h) h')))"
      unfolding e some(2) by simp
    moreover have "p \<in> set A" "sizes ! t = blksz (pref ?h p)" using some(1) S(1) by (auto simp: blksz_def)
    moreover have "F p \<noteq> []" using some(3) hi(2) \<open>p \<in> set A\<close> by (auto simp: pages_ok_def page_ok_def)
    ultimately show thesis by (intro fin [OF _ hi(1,2)]) (simp_all add: hi(3) spl_heap)
  qed
qed

section \<open>Release\<close>

text \<open>What giving the block at \<open>a\<close> back does.\<close>

definition free_result :: "kheap \<Rightarrow> (nat \<times> nat) set \<Rightarrow> nat \<Rightarrow> nat \<Rightarrow> kheap \<Rightarrow> bool" where
  "free_result h B a n h' \<longleftrightarrow> curspl h' = curspl h \<and> firstpaddr h' = firstpaddr h \<and> heap_is h' (B - {(a, n)}) \<and>
     (\<forall>b. 2 ^ 31 \<le> b \<and> b < 2 ^ 32 \<and> (b < a \<or> a + n \<le> b) \<longrightarrow> kbyte h' b = kbyte h b)"

lemma links_only_pages:
  assumes lo: "links_only h h'" and ok: "pages_ok h A F"
  shows "pages_ok (unmark p h') (remove1 p A) F"
proof -
  have e: "pref (unmark p h') = pref h'" "ram (unmark p h') = ram h" "firstpaddr (unmark p h') = firstpaddr h" "ram_ok (unmark p h') = ram_ok h"
    using lo by (simp_all add: unmark_def pref_def fun_eq_iff links_only_def ram_ok_def)
  show ?thesis using ok notin_set_remove1 unfolding pages_ok_def e links_only_page [OF lo] by metis
qed

lemma links_only_live:
  assumes lo: "links_only h h'" and p: "distinct A" "\<And>x. slot (pref h p) x \<Longrightarrow> x \<in> set (F p)"
  shows "live (unmark p h') (remove1 p A) F = live h A F"
proof -
  have e: "pref (unmark p h') = pref h'" by (simp add: unmark_def pref_def fun_eq_iff)
  have "q \<in> set (remove1 p A) \<and> slot (pref h q) x \<and> x \<notin> set (F q) \<longleftrightarrow> q \<in> set A \<and> slot (pref h q) x \<and> x \<notin> set (F q)" for q x
    using p by auto
  then show ?thesis unfolding live_def e links_only_page [OF lo] by simp
qed

text \<open>The end of \<^verbatim>\<open>subpage_kfree\<close>: a page with no block in use is dropped.\<close>

lemma drop_page:
  assumes ls: "lists_ok h S A" and ok: "pages_ok h A F" and p: "p \<in> set A"
  obtains h' where "(if length (F p) = PGSZ div blksz (pref h p)
      then andthen (remove_lists p (PR_BLOCKTYPE (pref h p)) h) (\<lambda>h. freepageref p (free_kpages a h)) else Ret h) = Ret h'"
    "heap_is h' (live h A F)" "ram h' = ram h" "curspl h' = curspl h" "firstpaddr h' = firstpaddr h"
proof (cases "length (F p) = PGSZ div blksz (pref h p)")
  case False
  then show thesis using ls ok by (intro that [of h]) (auto simp: heap_is_def)
next
  case True
  have pk: "page_ok (ram h) (pref h p) (F p)" using ok p by (simp add: pages_ok_def)
  then have t: "PR_BLOCKTYPE (pref h p) < NSIZES" by (simp add: page_ok_def page_at_def)
  obtain h2 where h2: "remove_lists p (PR_BLOCKTYPE (pref h p)) h = Ret h2" "links_only h h2"
    "lists_ok (unmark p h2) (S(PR_BLOCKTYPE (pref h p) := remove1 p (S (PR_BLOCKTYPE (pref h p))))) (remove1 p A)"
    using remove_lists_spec [OF ls p refl t] .
  have pn: "p < NPAGEREFS" "inuse h2 p" "distinct A" using ls p links_only_page(6) [OF h2(2)] by (auto simp: lists_ok_def)
  have "slot (pref h p) x \<Longrightarrow> x \<in> set (F p)" for x using page_room(2) [OF pk, of x] True by fastforce
  from links_only_live [where F = F, OF h2(2) pn(3) this] links_only_pages [OF h2(2) ok] h2(3) have "heap_is (unmark p h2) (live h A F)"
    unfolding heap_is_def by metis
  moreover have "ram (unmark p h2) = ram h" "curspl (unmark p h2) = curspl h" "firstpaddr (unmark p h2) = firstpaddr h"
    using h2(2) by (simp_all add: unmark_def links_only_def)
  ultimately show thesis using True h2(1) freepageref_spec [OF pn(1,2)] by (intro that [of "unmark p h2"]) (simp_all add: free_kpages_def)
qed

lemma block_words:
  assumes "page_at pr" "slot pr x" "k < blksz pr div 4"
  shows "kaddr_ok (PR_PAGEADDR pr + x + 4 * k)"
proof -
  have "x + 4 * k < PGSZ" using slot_room [OF assms(1,2)] assms(3) by simp
  moreover have "4 dvd PR_PAGEADDR pr + x" using slot_kaddr(1) [OF assms(1,2)] by (simp add: kaddr_ok_def mod_eq_0_iff_dvd)
  ultimately show ?thesis using assms(1) by (simp add: kaddr_ok_def page_at_def mod_eq_0_iff_dvd)
qed

lemma chain_give:
  assumes at: "page_at pr" "slot pr x" "x \<notin> set os" "\<forall>y \<in> set os. slot pr y" and ch: "chain m (PR_PAGEADDR pr) os"
    and m: "\<And>b. b < PR_PAGEADDR pr + x \<or> PR_PAGEADDR pr + x + blksz pr \<le> b \<Longrightarrow> 2 ^ 31 \<le> b \<Longrightarrow> b < 2 ^ 32 \<Longrightarrow> m' (kpa b) = m (kpa b)"
    and w: "kword m' (PR_PAGEADDR pr + x) = fl_link (PR_PAGEADDR pr) os"
  shows "chain m' (PR_PAGEADDR pr) (x # os)"
proof -
  have "kword m' (PR_PAGEADDR pr + y) = kword m (PR_PAGEADDR pr + y)" if "y \<in> set os" for y
  proof (rule kword_cong)
    fix i :: nat assume i: "i < 4"
    have y: "slot pr y" "y \<noteq> x" using at(3,4) that by auto
    have "y + i < x \<or> x + blksz pr \<le> y + i" using slots_apart [OF at(1,2) y(1)] y(2) blksz_facts(4) [OF at(1)] i by auto
    then show "m' (kpa (PR_PAGEADDR pr + y + i)) = m (kpa (PR_PAGEADDR pr + y + i))"
      using kaddr_range [OF slot_kaddr(1) [OF at(1) y(1)] i] by (intro m) auto
  qed
  with chain_cong [of os m' "PR_PAGEADDR pr" m] ch w show ?thesis by simp
qed

text \<open>Filling a block and linking it into the free list of its page.\<close>

lemma give_block:
  assumes ok: "pages_ok h A F" and p: "p \<in> set A" "slot (pref h p) x" "x \<notin> set (F p)" "p < length (pagerefs h)"
    and e: "a = PR_PAGEADDR (pref h p) + x" "n = blksz (pref h p)"
  obtains m1 m where "fill_deadbeef a (n div 4) h = Ret (h\<lparr>ram := m1\<rparr>)"
    "kstore a (if freelist_offset (pref h p) = INVALID_OFFSET then 0 else PR_PAGEADDR (pref h p) + freelist_offset (pref h p)) (h\<lparr>ram := m1\<rparr>) = Ret (h\<lparr>ram := m\<rparr>)"
    "pages_ok (set_free p (x # F p) m h) A (F(p := x # F p))"
    "\<forall>b. (b < a \<or> a + n \<le> b) \<and> 2 ^ 31 \<le> b \<and> b < 2 ^ 32 \<longrightarrow> m (kpa b) = ram h (kpa b)"
proof -
  let ?pr = "pref h p" and ?os = "F p"
  have pk: "page_at ?pr" "distinct ?os" "\<forall>y \<in> set ?os. slot ?pr y" "nfree ?pr = length ?os" "freelist_offset ?pr = fl_off ?os" "chain (ram h) (PR_PAGEADDR ?pr) ?os"
    using ok p(1) by (simp_all add: pages_ok_def page_ok_def)
  obtain m1 where m1: "fill_deadbeef a (n div 4) h = Ret (h\<lparr>ram := m1\<rparr>)"
    "\<And>b. b < a \<or> a + 4 * (n div 4) \<le> b \<Longrightarrow> 2 ^ 31 \<le> b \<Longrightarrow> b < 2 ^ 32 \<Longrightarrow> m1 (kpa b) = ram h (kpa b)"
    using fill_deadbeef_spec [of "n div 4" a h] block_words [OF pk(1) p(2)] unfolding e by blast
  have n4: "4 * (n div 4) = n" "16 \<le> n" using blksz_facts(1,4) [OF pk(1)] e(2) dvd_trans [of 4 16 n] by simp_all
  have ka: "kaddr_ok a" using slot_kaddr(1) [OF pk(1) p(2)] e(1) by simp
  let ?l = "fl_link (PR_PAGEADDR ?pr) ?os"
  let ?m = "kput a ?l m1"
  have lk: "?l < 2 ^ 32" "(if freelist_offset ?pr = INVALID_OFFSET then 0 else PR_PAGEADDR ?pr + freelist_offset ?pr) = ?l"
    using pk(1,3,5) by (auto simp: fl_link_def fl_off_def page_at_def slot_def INVALID_OFFSET_def PGSZ_def split: list.splits)
  have m: "?m (kpa b) = ram h (kpa b)" if "b < a \<or> a + n \<le> b" "2 ^ 31 \<le> b" "b < 2 ^ 32" for b
    using m1(2) [of b] kput_other [OF ka that(2,3), of _ m1] that n4 by auto
  have ch: "chain ?m (PR_PAGEADDR ?pr) (x # ?os)"
    using m kput_word [OF ka lk(1)] unfolding e by (intro chain_give [OF pk(1) p(2,3) pk(3,6)]) simp_all
  show thesis
  proof (rule that [of m1 ?m])
    show "pages_ok (set_free p (x # ?os) ?m h) A (F(p := x # ?os))"
      using pk(2,3) p(2,3) ch m slot_room [OF pk(1) p(2)] e by (intro set_free_pages [OF ok p(1,4)]) auto
    show "kstore a (if freelist_offset ?pr = INVALID_OFFSET then 0 else PR_PAGEADDR ?pr + freelist_offset ?pr) (h\<lparr>ram := m1\<rparr>) = Ret (h\<lparr>ram := ?m\<rparr>)"
      unfolding lk(2) using ka by (simp add: kstore_def)
  qed (use m1(1) m in simp_all)
qed

lemma kheap_free_spec:
  assumes h: "heap_is h B" and a: "(a, n) \<in> B"
  obtains h' where "subpage_kfree a h = Ret (True, h')" "free_result h B a n h'"
proof -
  define fuel where "fuel = NPAGEREFS + 1"
  define h0 where "h0 = h\<lparr>curspl := SPL_HIGH\<rparr>"
  obtain S A F where hi: "lists_ok h0 S A" "pages_ok h0 A F" "B = live h0 A F" using h by (auto simp: heap_is_def spl_heap h0_def)
  obtain p x where p: "p \<in> set A" "slot (pref h0 p) x" "x \<notin> set (F p)" and e: "a = PR_PAGEADDR (pref h0 p) + x" "n = blksz (pref h0 p)"
    using a unfolding hi(3) live_def by auto
  let ?pr = "pref h0 p" and ?F = "F(p := x # F p)"
  have A: "lseg (\<lambda>p. next_all (pref h0 p)) (allbase h0) A" "set A \<subseteq> {..<length (pagerefs h0)}" "distinct A" using hi(1) by (simp_all add: lists_ok_def)
  have "card (set A) \<le> card {..<NPAGEREFS}" using hi(1) by (intro card_mono) (auto simp: lists_ok_def)
  then have l: "length A < fuel" using A(3) by (simp add: distinct_card fuel_def)
  have pg: "\<forall>q \<in> set A. page_at (pref h0 q)" "\<forall>q \<in> set A. PR_PAGEADDR (pref h0 q) = PR_PAGEADDR ?pr \<longrightarrow> q = p" "page_ok (ram h0) ?pr (F p)"
    using hi(2) p(1) by (auto simp: pages_ok_def page_ok_def)
  have len: "p < length (pagerefs h0)" using A(2) p(1) by auto
  have xr: "x < PGSZ" "x mod blksz ?pr = 0" using p(2) by (simp_all add: slot_def)
  have find: "subpage_find fuel a (allbase h0) h0 = Ret (Some p)" using e(1) xr by (intro subpage_find_spec [OF A(1,2) l pg(1,2) p(1)]) simp_all
  obtain m1 m where m: "fill_deadbeef a (n div 4) h0 = Ret (h0\<lparr>ram := m1\<rparr>)"
    "kstore a (if freelist_offset ?pr = INVALID_OFFSET then 0 else PR_PAGEADDR ?pr + freelist_offset ?pr) (h0\<lparr>ram := m1\<rparr>) = Ret (h0\<lparr>ram := m\<rparr>)"
    "pages_ok (set_free p (x # F p) m h0) A ?F"
    "\<forall>b. (b < a \<or> a + n \<le> b) \<and> 2 ^ 31 \<le> b \<and> b < 2 ^ 32 \<longrightarrow> m (kpa b) = ram h0 (kpa b)"
    using give_block [OF hi(2) p len e] .
  let ?h1 = "set_free p (x # F p) m h0"
  have lv: "live ?h1 A ?F = B - {(a, n)}" unfolding set_free_live [OF len] live_give [OF hi(2) p(1,2)] hi(3) e ..
  have same: "blksz (pref ?h1 p) = n" "PR_BLOCKTYPE (pref ?h1 p) = PR_BLOCKTYPE ?pr" using e(2) by (simp_all add: pref_set_free [OF len])
  obtain h' where h': "(if length (?F p) = PGSZ div blksz (pref ?h1 p)
      then andthen (remove_lists p (PR_BLOCKTYPE (pref ?h1 p)) ?h1) (\<lambda>h. freepageref p (free_kpages (of_nat (PR_PAGEADDR ?pr)) h)) else Ret ?h1) = Ret h'"
    "heap_is h' (B - {(a, n)})" "ram h' = ram ?h1" "curspl h' = curspl ?h1" "firstpaddr h' = firstpaddr ?h1"
    using drop_page [OF set_free_lists [OF hi(1) p(1)] m(3) p(1)] unfolding lv .
  have room: "length (F p) < PGSZ div n" "length (F p) < 256"
    using page_room(2) [OF pg(3) p(2,3)] blksz_facts(6) [of ?pr] pg(1) p(1) e(2) by auto
  have nf: "nfree ?pr = length (F p)" "(nfree ?pr + 1) mod 2 ^ 16 = length (x # F p)" "fl_off (x # F p) = x" "a - PR_PAGEADDR ?pr = x"
    "sizes ! PR_BLOCKTYPE ?pr = n" "x mod n = 0" using pg(3) room(2) e xr(2) by (simp_all add: page_ok_def fl_off_def blksz_def)
  have u: "upd_pr p (\<lambda>r. r\<lparr>freelist_offset := x, nfree := length (x # F p)\<rparr>) (h0\<lparr>ram := m\<rparr>) = ?h1"
    by (cases "pagerefs h0 ! p") (simp add: set_free_def upd_pr_def nf(3))
  have ne: "\<not> (x \<ge> PGSZ \<or> x mod n \<noteq> 0)" "length (x # F p) \<le> PGSZ div n" using xr(1) nf(6) room(1) by simp_all
  have "subpage_kfree a h = andthen (if length (x # F p) = PGSZ div n
      then andthen (remove_lists p (PR_BLOCKTYPE ?pr) ?h1) (\<lambda>h. freepageref p (free_kpages (of_nat (PR_PAGEADDR ?pr)) h)) else Ret ?h1)
      (\<lambda>h'. Ret (True, snd (splx (curspl h) h')))"
    unfolding subpage_kfree_def splhigh_def splx_def prod.case fuel_def [symmetric] h0_def [symmetric] find andthen.simps option.case pr_at_def
      pref_def [symmetric] Let_def nf(4,5) e(1) [symmetric] m(1,2) nf(2) u assertk_def using len ne by simp
  then have r: "subpage_kfree a h = Ret (True, h'\<lparr>curspl := curspl h\<rparr>)" unfolding h'(1) [unfolded same fun_upd_same] by (simp add: splx_def)
  have "ram h0 = ram h" "firstpaddr h0 = firstpaddr h" by (simp_all add: h0_def)
  with h'(2-5) m(4) have "free_result h B a n (h'\<lparr>curspl := curspl h\<rparr>)" by (auto simp: free_result_def spl_heap kbyte_def)
  with r show thesis by (rule that)
qed

section \<open>The kernel heap as an allocator\<close>

lemma kheap_alloc_law:
  assumes h: "heap_is h B" and sz: "sz < LARGEST_SUBPAGE_SIZE"
  shows "\<exists>a h'. kmalloc_bytes sz h = Ret (a, h') \<and> (\<forall>(b, n) \<in> B. \<forall>i < n. kbyte h' (b + i) = kbyte h (b + i)) \<and>
    (if a = 0 then heap_is h' B else \<exists>n \<ge> sz. (a, n) \<notin> B \<and> heap_is h' (insert (a, n) B))"
proof -
  have "sz \<le> 2048" using sz by (simp add: LARGEST_SUBPAGE_SIZE_def)
  from subpage_kmalloc_spec [OF h this] obtain a h' where r: "subpage_kmalloc sz h = Ret (a, h')" "alloc_result h B sz a h'" .
  have "kbyte h' (b + i) = kbyte h (b + i)" if "(b, n) \<in> B" "i < n" for b n i
    using r(2) live_block(2,3) [OF h that(1)] that(2) by (simp add: alloc_result_def)
  with r sz show ?thesis by (auto simp: kmalloc_bytes_def alloc_result_def)
qed

lemma kheap_release_law:
  assumes h: "heap_is h B" and a: "(a, n) \<in> B"
  shows "\<exists>h'. kfree a h = Ret h' \<and> heap_is h' (B - {(a, n)}) \<and> (\<forall>(b, m) \<in> B - {(a, n)}. \<forall>i < m. kbyte h' (b + i) = kbyte h (b + i))"
proof -
  from kheap_free_spec [OF h a] obtain h' where r: "subpage_kfree a h = Ret (True, h')" "free_result h B a n h'" .
  have "kbyte h' (b + i) = kbyte h (b + i)" if "(b, m) \<in> B - {(a, n)}" "i < m" for b m i
  proof -
    have b: "(b, m) \<in> B" "(a, n) \<noteq> (b, m)" using that(1) by auto
    have "unat (firstpaddr h) < 2 ^ 31" using h by (auto simp: heap_is_def pages_ok_def ram_ok_def word_le_nat_alt)
    with live_apart [OF h a b] live_block(2,3) [OF h b(1)] that(2) r(2) show ?thesis by (auto simp: free_result_def)
  qed
  moreover have "a \<noteq> 0" using live_block(2) [OF h a] by auto
  ultimately show ?thesis using r by (auto simp: kfree_def free_result_def)
qed

interpretation khp: block_allocator heap_is kbyte kmalloc_bytes kfree "\<lambda>sz. sz < LARGEST_SUBPAGE_SIZE"
proof
  show "0 < n" if "heap_is s B" "(a, n) \<in> B" for s B a n using live_block(4) [OF that] by simp
qed (rule live_apart kheap_alloc_law kheap_release_law; assumption)+

text \<open>The heap at boot, all of it in the zeroed data of the kernel.\<close>

definition kheap_boot :: "vmstate \<Rightarrow> kheap" where
  "kheap_boot v = \<lparr>curspl = curspl v, firstpaddr = firstpaddr v, lastpaddr = lastpaddr v, tlb = tlb v, ram = ram v,
     pagerefs = replicate NPAGEREFS \<lparr>next_samesize = None, next_all = None, pageaddr_and_blocktype = 0, freelist_offset = 0, nfree = 0\<rparr>,
     pagerefs_inuse = replicate INUSE_WORDS 0, sizebases = replicate NSIZES None, allbase = None\<rparr>"

lemma kheap_boot_ok:
  assumes "ram_ok v"
  shows "heap_is (kheap_boot v) {}"
proof -
  have "lists_ok (kheap_boot v) (\<lambda>t. []) []"
    by (simp add: lists_ok_def kheap_boot_def inuse_def INUSE_WORDS_def NPAGEREFS_def NSIZES_def less_mult_imp_div_less)
  moreover have "pages_ok (kheap_boot v) [] (\<lambda>p. [])" using assms by (simp add: pages_ok_def ram_ok_def kheap_boot_def)
  moreover have "live (kheap_boot v) [] (\<lambda>p. []) = {}" by (simp add: live_def)
  ultimately show ?thesis unfolding heap_is_def by metis
qed

lemma kheap_boot_room: "\<not> heap_full (kheap_boot vm_example)"
  by (auto simp: heap_full_def kheap_boot_def vm_example_def inuse_def INUSE_WORDS_def NPAGEREFS_def PGSZ_def intro!: exI [of _ 0])

lemma kheap_one_block: "\<exists>h a n. heap_is h {(a, n)}"
proof -
  have "\<exists>a h'. kmalloc_bytes 100 (kheap_boot vm_example) = Ret (a, h') \<and> alloc_result (kheap_boot vm_example) {} 100 a h'"
    by (rule subpage_kmalloc_spec [OF kheap_boot_ok [OF vm_example_ok(1)], of 100]) (simp_all add: kmalloc_bytes_def LARGEST_SUBPAGE_SIZE_def)
  with kheap_boot_room show ?thesis by (auto simp: alloc_result_def split: if_splits)
qed

section \<open>Properties\<close>

text \<open>C27: a request for less than 2048 bytes always returns, with the interrupt level as before.  Either it returns the null
  pointer because every page reference is in use or no page of memory is left, and the blocks in use are the same, or it returns an address aligned to 16 bytes: that of a new block of at
  least the size asked for, which overlaps none of the blocks in use.  No byte of a block in use changes.\<close>

theorem kmalloc_block:
  assumes h: "heap_is h B" and sz: "sz < LARGEST_SUBPAGE_SIZE"
  shows "\<exists>a h'. kmalloc_bytes sz h = Ret (a, h') \<and> curspl h' = curspl h \<and>
    (\<forall>(b, n) \<in> B. \<forall>i < n. kbyte h' (b + i) = kbyte h (b + i)) \<and>
    (if a = 0 then heap_full h \<and> heap_is h' B
     else 16 dvd a \<and> (\<exists>n \<ge> sz. heap_is h' (insert (a, n) B) \<and> (\<forall>(b, m) \<in> B. a + n \<le> b \<or> b + m \<le> a)))"
proof -
  have "sz \<le> 2048" using sz by (simp add: LARGEST_SUBPAGE_SIZE_def)
  from subpage_kmalloc_spec [OF h this] obtain a h' where r: "subpage_kmalloc sz h = Ret (a, h')" "alloc_result h B sz a h'" .
  have k: "kmalloc_bytes sz h = Ret (a, h')" using r(1) sz by (simp add: kmalloc_bytes_def)
  from khp.alloc [OF h sz] k have old: "\<forall>(b, n) \<in> B. \<forall>i < n. kbyte h' (b + i) = kbyte h (b + i)"
    and new: "if a = 0 then heap_is h' B else \<exists>n \<ge> sz. (a, n) \<notin> B \<and> heap_is h' (insert (a, n) B)" by auto
  have "16 dvd a \<and> (\<exists>n \<ge> sz. heap_is h' (insert (a, n) B) \<and> (\<forall>(b, m) \<in> B. a + n \<le> b \<or> b + m \<le> a))" if nz: "a \<noteq> 0"
  proof -
    obtain n where n: "n \<ge> sz" "(a, n) \<notin> B" "heap_is h' (insert (a, n) B)" using new nz by auto
    have "a + n \<le> b \<or> b + m \<le> a" if "(b, m) \<in> B" for b m using khp.apart [OF n(3), of a n b m] that n(2) by auto
    moreover have "16 dvd a" using live_block(1) [OF n(3), of a n] by simp
    ultimately show ?thesis using n(1,3) by blast
  qed
  with k r(2) old new show ?thesis by (auto simp: alloc_result_def)
qed

theorem kmalloc_block_witness:
  "\<exists>a h'. kmalloc_bytes 100 (kheap_boot vm_example) = Ret (a, h') \<and> a \<noteq> 0 \<and> (\<exists>n \<ge> 100. heap_is h' {(a, n)})"
proof -
  have "\<not> heap_full (kheap_boot vm_example)" by (rule kheap_boot_room)
  with kmalloc_block [OF kheap_boot_ok [OF vm_example_ok(1)], of 100] show ?thesis by (auto simp: LARGEST_SUBPAGE_SIZE_def split: if_splits)
qed

text \<open>C28: \<^verbatim>\<open>kfree\<close> of a block in use always returns, with the interrupt level as before.  Exactly that block is
  no longer in use, and no byte of any other block in use changes.\<close>

theorem kfree_block:
  assumes h: "heap_is h B" and a: "(a, n) \<in> B"
  shows "\<exists>h'. kfree a h = Ret h' \<and> curspl h' = curspl h \<and> heap_is h' (B - {(a, n)}) \<and>
    (\<forall>(b, m) \<in> B - {(a, n)}. \<forall>i < m. kbyte h' (b + i) = kbyte h (b + i))"
proof -
  from kheap_free_spec [OF h a] obtain h' where r: "subpage_kfree a h = Ret (True, h')" "free_result h B a n h'" .
  have "a \<noteq> 0" using live_block(2) [OF h a] by auto
  then have "kfree a h = Ret h'" using r(1) by (simp add: kfree_def)
  with khp.release [OF h a] r(2) show ?thesis by (auto simp: free_result_def)
qed

theorem kfree_block_witness: "\<exists>h a n h'. heap_is h {(a, n)} \<and> kfree a h = Ret h' \<and> heap_is h' {}"
proof -
  obtain h a n where h: "heap_is h {(a, n)}" using kheap_one_block by auto
  from kfree_block [OF h, of a n] h show ?thesis by auto
qed

text \<open>C29: any sequence of allocations of less than 2048 bytes and releases of pointers held is served from boot on: no
  assertion of the allocator fails, no link of a free list faults, no walk over a list runs forever, and at the end the
  blocks in use are exactly those at the pointers held.\<close>

theorem kheap_serves:
  assumes "ram_ok v" "\<forall>r \<in> set rs. req_ok (\<lambda>sz. sz < LARGEST_SUBPAGE_SIZE) r"
  shows "\<exists>held h B. serve kmalloc_bytes kfree rs [] (kheap_boot v) = Ret (held, h) \<and> heap_is h B \<and> holds held B"
  using khp.serve_ok [OF kheap_boot_ok [OF assms(1)] _ assms(2), of "[]"] by (simp add: holds_def)

theorem kheap_serves_witness:
  "\<exists>held h B. serve kmalloc_bytes kfree [Alloc 20, Alloc 1000, Release 1, Alloc 7] [] (kheap_boot vm_example) = Ret (held, h) \<and>
     heap_is h B \<and> holds held B"
  by (rule kheap_serves [OF vm_example_ok(1)]) (simp add: LARGEST_SUBPAGE_SIZE_def)

text \<open>the size of a large request wraps: asking for more than \<open>2\<^sup>3\<^sup>2 - 4096\<close> bytes asks for no pages, and so
  returns the address of the next free page without reserving anything.\<close>

theorem kmalloc_wraps:
  assumes "ram_ok h" "2 ^ 32 - PGSZ < sz" "sz < 2 ^ 32"
  shows "\<exists>a. kmalloc_bytes sz h = Ret (a, h) \<and> a = 2 ^ 31 + unat (firstpaddr h)"
proof -
  have "(sz + PGSZ - 1) mod 2 ^ 32 = sz + PGSZ - 1 - 2 ^ 32" using assms(2,3) by (simp add: PGSZ_def mod_if)
  then have n: "(sz + PGSZ - 1) mod 2 ^ 32 div PGSZ = 0" using assms(2,3) by (simp add: PGSZ_def)
  have l: "\<not> sz < LARGEST_SUBPAGE_SIZE" using assms(2) by (simp add: PGSZ_def LARGEST_SUBPAGE_SIZE_def)
  have z: "unat (0 :: u32) < 2 ^ 19" by simp
  from assms(1) z show ?thesis
  proof (cases rule: alloc_kpages_spec)
    case fail then show ?thesis using assms(1) by (simp add: ram_ok_def word_le_nat_alt)
  next
    case (ok pg q)
    then have "q = firstpaddr h" by (simp add: word_unat_eq_iff)
    with ok(1,2) n l show ?thesis by (simp add: kmalloc_bytes_def)
  qed
qed

theorem kmalloc_wraps_witness:
  "\<exists>a. kmalloc_bytes (2 ^ 32 - 1) (kheap_boot vm_example) = Ret (a, kheap_boot vm_example) \<and> a = 2 ^ 31 + 0x50000"
  using kmalloc_wraps [of "kheap_boot vm_example" "2 ^ 32 - 1"] vm_example_ok(1)
  by (simp add: ram_ok_def kheap_boot_def vm_example_def PGSZ_def)

end
