(* ===== verification/UMalloc.thy ===== *)
theory UMalloc
  imports Prelude
begin

text \<open>
  The user-level allocator, \<^verbatim>\<open>src/lib/libc/malloc.c\<close>: a first-fit search over blocks that lie one after the other
  from the base to the top of the heap, each behind a header of 8 bytes.

  Addresses are natural numbers below \<open>2\<^sup>3\<^sup>2\<close>.  The memory of the process is a function from addresses to bytes; an
  access at or past the break, or one that is not aligned, faults.  Headers are kept as the bytes the compiler
  makes of the bit fields (the first field in the high bits, big-endian words).  \<^verbatim>\<open>errx\<close> ends the program: the outcome
  is \<open>Panic\<close>.  The system call \<^verbatim>\<open>sbrk\<close> is not implemented by this kernel; the model takes a function \<open>grant\<close> that tells
  whether the system moves the break by the amount asked for.  The code is that of the 32-bit platform with
  debugging off.
\<close>

section \<open>Headers\<close>

record mheader =
  mh_prevblock :: nat
  mh_pad :: nat
  mh_magic1 :: nat
  mh_nextblock :: nat
  mh_inuse :: nat
  mh_magic2 :: nat

definition MBLOCKSIZE :: nat where "MBLOCKSIZE = 8"

definition MBLOCKSHIFT :: nat where "MBLOCKSHIFT = 3"

definition MMAGIC :: nat where "MMAGIC = 2"

definition M_NEXTOFF :: "mheader \<Rightarrow> nat" where
  "M_NEXTOFF mh = mh_nextblock mh * 2 ^ MBLOCKSHIFT mod 2 ^ 32"

definition M_PREVOFF :: "mheader \<Rightarrow> nat" where
  "M_PREVOFF mh = mh_prevblock mh * 2 ^ MBLOCKSHIFT mod 2 ^ 32"

definition M_NEXT :: "nat \<Rightarrow> mheader \<Rightarrow> nat" where
  "M_NEXT a mh = (a + M_NEXTOFF mh) mod 2 ^ 32"

definition M_PREV :: "nat \<Rightarrow> mheader \<Rightarrow> nat" where
  "M_PREV a mh = (a + 2 ^ 32 - M_PREVOFF mh) mod 2 ^ 32"

definition M_DATA :: "nat \<Rightarrow> nat" where
  "M_DATA a = (a + MBLOCKSIZE) mod 2 ^ 32"

definition M_SIZE :: "mheader \<Rightarrow> nat" where
  "M_SIZE mh = (M_NEXTOFF mh + 2 ^ 32 - MBLOCKSIZE) mod 2 ^ 32"

definition M_OK :: "mheader \<Rightarrow> bool" where
  "M_OK mh \<longleftrightarrow> mh_magic1 mh = MMAGIC \<and> mh_magic2 mh = MMAGIC"

text \<open>The value that ends up in a field of 29 bits.\<close>

definition M_MKFIELD :: "nat \<Rightarrow> nat" where
  "M_MKFIELD off = off div 2 ^ MBLOCKSHIFT mod 2 ^ 29"

section \<open>Memory\<close>

record uheap =
  umem :: "nat \<Rightarrow> 8 word"
  ubrk :: nat
  heapbase :: nat
  heaptop :: nat

definition uword :: "(nat \<Rightarrow> 8 word) \<Rightarrow> nat \<Rightarrow> nat" where
  "uword m a = unat (m a) * 2 ^ 24 + unat (m (a + 1)) * 2 ^ 16 + unat (m (a + 2)) * 2 ^ 8 + unat (m (a + 3))"

definition uput :: "nat \<Rightarrow> nat \<Rightarrow> (nat \<Rightarrow> 8 word) \<Rightarrow> nat \<Rightarrow> 8 word" where
  "uput a v m = m(a := of_nat (v div 2 ^ 24), a + 1 := of_nat (v div 2 ^ 16), a + 2 := of_nat (v div 2 ^ 8), a + 3 := of_nat v)"

definition uaddr_ok :: "nat \<Rightarrow> nat \<Rightarrow> uheap \<Rightarrow> bool" where
  "uaddr_ok a n h \<longleftrightarrow> a mod 4 = 0 \<and> a + n \<le> ubrk h"

definition get_mh :: "(nat \<Rightarrow> 8 word) \<Rightarrow> nat \<Rightarrow> mheader" where
  "get_mh m a = (let w = uword m a; v = uword m (a + 4) in
     \<lparr>mh_prevblock = w div 8, mh_pad = w div 4 mod 2, mh_magic1 = w mod 4,
      mh_nextblock = v div 8, mh_inuse = v div 4 mod 2, mh_magic2 = v mod 4\<rparr>)"

definition put_mh :: "nat \<Rightarrow> mheader \<Rightarrow> (nat \<Rightarrow> 8 word) \<Rightarrow> nat \<Rightarrow> 8 word" where
  "put_mh a mh m = uput (a + 4) (mh_nextblock mh * 8 + mh_inuse mh * 4 + mh_magic2 mh) (uput a (mh_prevblock mh * 8 + mh_pad mh * 4 + mh_magic1 mh) m)"

text \<open>Reading a header, and changing fields of one.\<close>

definition mh_at :: "nat \<Rightarrow> uheap \<Rightarrow> (mheader \<Rightarrow> 'a run) \<Rightarrow> 'a run" where
  "mh_at a h f = (if uaddr_ok a 8 h then f (get_mh (umem h) a) else Fault)"

definition mh_set :: "nat \<Rightarrow> (mheader \<Rightarrow> mheader) \<Rightarrow> uheap \<Rightarrow> uheap run" where
  "mh_set a f h = (if uaddr_ok a 8 h then Ret (h\<lparr>umem := put_mh a (f (get_mh (umem h) a)) (umem h)\<rparr>) else Fault)"

section \<open>The heap region\<close>

definition sbrk :: "(nat \<Rightarrow> nat \<Rightarrow> bool) \<Rightarrow> nat \<Rightarrow> uheap \<Rightarrow> nat option \<times> uheap" where
  "sbrk grant n h = (if grant (ubrk h) n then (Some (ubrk h), h\<lparr>ubrk := (ubrk h + n) mod 2 ^ 32\<rparr>) else (None, h))"

definition malloc_init :: "(nat \<Rightarrow> nat \<Rightarrow> bool) \<Rightarrow> uheap \<Rightarrow> uheap run" where
  "malloc_init grant h =
     (if heapbase h \<noteq> 0 \<or> heaptop h \<noteq> 0 then Panic
      else case sbrk grant 0 h of
        (None, h) \<Rightarrow> Panic
      | (Some x, h) \<Rightarrow>
          if x = 0 then Panic
          else
            let h = h\<lparr>heapbase := x, heaptop := x\<rparr> in
            if heapbase h mod MBLOCKSIZE \<noteq> 0 then
              let adjust = MBLOCKSIZE - heapbase h mod MBLOCKSIZE in
              case sbrk grant adjust h of
                (None, h) \<Rightarrow> Panic
              | (Some x, h) \<Rightarrow>
                  if x \<noteq> heapbase h then Panic
                  else let h = h\<lparr>heapbase := heapbase h + adjust\<rparr> in Ret (h\<lparr>heaptop := heapbase h\<rparr>)
            else Ret h)"

definition malloc_sbrk :: "(nat \<Rightarrow> nat \<Rightarrow> bool) \<Rightarrow> nat \<Rightarrow> uheap \<Rightarrow> (nat \<times> uheap) run" where
  "malloc_sbrk grant sz h =
     (case sbrk grant sz h of
        (None, h) \<Rightarrow> Ret (0, h)
      | (Some x, h) \<Rightarrow> if x \<noteq> heaptop h then Panic else Ret (x, h\<lparr>heaptop := (heaptop h + sz) mod 2 ^ 32\<rparr>))"

section \<open>Allocation\<close>

definition malloc_split :: "nat \<Rightarrow> nat \<Rightarrow> uheap \<Rightarrow> uheap run" where
  "malloc_split mh sz h =
     (if sz mod MBLOCKSIZE \<noteq> 0 then Panic
      else mh_at mh h (\<lambda>m.
        if (M_SIZE m + 2 ^ 32 - sz) mod 2 ^ 32 < 2 * MBLOCKSIZE then Ret h
        else
          let mhnext = M_NEXT mh m; oldsize = M_SIZE m in
          andthen (mh_set mh (\<lambda>r. r\<lparr>mh_nextblock := M_MKFIELD ((sz + MBLOCKSIZE) mod 2 ^ 32)\<rparr>) h) (\<lambda>h.
          mh_at mh h (\<lambda>m.
          let mhnew = M_NEXT mh m in
          if mhnew = mhnext then Panic
          else
            andthen (mh_set mhnew (\<lambda>_. \<lparr>mh_prevblock = M_MKFIELD ((sz + MBLOCKSIZE) mod 2 ^ 32), mh_pad = 0, mh_magic1 = MMAGIC,
               mh_nextblock = M_MKFIELD ((oldsize + 2 ^ 32 - sz) mod 2 ^ 32), mh_inuse = 0, mh_magic2 = MMAGIC\<rparr>) h) (\<lambda>h.
            if mhnext \<noteq> heaptop h
            then mh_at mhnew h (\<lambda>n. mh_set mhnext (\<lambda>r. r\<lparr>mh_prevblock := mh_nextblock n\<rparr>) h)
            else Ret h)))))"

text \<open>
  The search: the header of a free block that is large enough, or the place where the loop stopped with the
  size of the last block.
\<close>

fun malloc_search :: "nat \<Rightarrow> nat \<Rightarrow> nat \<Rightarrow> nat \<Rightarrow> uheap \<Rightarrow> (nat \<times> nat + nat) run" where
  "malloc_search 0 i rightprevblock sz h = Loops"
| "malloc_search (Suc n) i rightprevblock sz h =
     (if i < heaptop h then
        mh_at i h (\<lambda>mh.
          if \<not> M_OK mh then Panic
          else if mh_prevblock mh \<noteq> rightprevblock then Panic
          else if mh_inuse mh \<noteq> 0 \<or> M_SIZE mh < sz
          then malloc_search n (M_NEXT i mh) (mh_nextblock mh) sz h
          else Ret (Inr i))
      else Ret (Inl (i, rightprevblock)))"

definition malloc :: "(nat \<Rightarrow> nat \<Rightarrow> bool) \<Rightarrow> nat \<Rightarrow> uheap \<Rightarrow> (nat \<times> uheap) run" where
  "malloc grant sz h =
     andthen (if heapbase h = 0 then malloc_init grant h else Ret h) (\<lambda>h.
     if heapbase h = 0 \<or> heaptop h = 0 \<or> heapbase h > heaptop h then Panic
     else
       let sz = (sz + MBLOCKSIZE - 1) mod 2 ^ 32 div MBLOCKSIZE * MBLOCKSIZE in
       andthen (malloc_search (heaptop h - heapbase h + 1) (heapbase h) 0 sz h) (\<lambda>r.
       case r of
         Inr mh \<Rightarrow>
           andthen (malloc_split mh sz h) (\<lambda>h.
           andthen (mh_set mh (\<lambda>r. r\<lparr>mh_inuse := 1\<rparr>) h) (\<lambda>h. Ret (M_DATA mh, h)))
       | Inl (i, rightprevblock) \<Rightarrow>
           if i \<noteq> heaptop h then Panic
           else
             andthen (malloc_sbrk grant ((sz + MBLOCKSIZE) mod 2 ^ 32) h) (\<lambda>(mh, h).
             if mh = 0 then Ret (0, h)
             else
               andthen (mh_set mh (\<lambda>_. \<lparr>mh_prevblock = rightprevblock, mh_pad = 0, mh_magic1 = MMAGIC,
                  mh_nextblock = M_MKFIELD ((sz + MBLOCKSIZE) mod 2 ^ 32), mh_inuse = 1, mh_magic2 = MMAGIC\<rparr>) h) (\<lambda>h.
               Ret (M_DATA mh, h)))))"

section \<open>Release\<close>

fun malloc_deadbeef_loop :: "nat \<Rightarrow> nat \<Rightarrow> uheap \<Rightarrow> uheap run" where
  "malloc_deadbeef_loop ptr 0 h = Ret h"
| "malloc_deadbeef_loop ptr (Suc n) h =
     (if uaddr_ok ptr 4 h then malloc_deadbeef_loop (ptr + 4) n (h\<lparr>umem := uput ptr 0xdeadbeef (umem h)\<rparr>) else Fault)"

definition malloc_deadbeef :: "nat \<Rightarrow> nat \<Rightarrow> uheap \<Rightarrow> uheap run" where
  "malloc_deadbeef ptr sz h = malloc_deadbeef_loop ptr (sz div 4) h"

definition malloc_trymerge :: "nat \<Rightarrow> nat \<Rightarrow> uheap \<Rightarrow> uheap run" where
  "malloc_trymerge mh mhnext h =
     mh_at mh h (\<lambda>m. mh_at mhnext h (\<lambda>n.
     if mh_nextblock m \<noteq> mh_prevblock n then Panic
     else if mh_inuse m \<noteq> 0 \<or> mh_inuse n \<noteq> 0 then Ret h
     else
       let mhnextnext = M_NEXT mhnext n in
       andthen (mh_set mh (\<lambda>r. r\<lparr>mh_nextblock := M_MKFIELD ((MBLOCKSIZE + M_SIZE m + MBLOCKSIZE + M_SIZE n) mod 2 ^ 32)\<rparr>) h) (\<lambda>h.
       andthen (if mhnextnext \<noteq> heaptop h
                then mh_at mh h (\<lambda>m. mh_set mhnextnext (\<lambda>r. r\<lparr>mh_prevblock := mh_nextblock m\<rparr>) h)
                else Ret h) (\<lambda>h.
       malloc_deadbeef mhnext 8 h))))"

definition free :: "nat \<Rightarrow> uheap \<Rightarrow> uheap run" where
  "free x h =
     (if x = 0 then Ret h
      else if heapbase h = 0 \<or> heaptop h = 0 \<or> heapbase h > heaptop h then Panic
      else if x < heapbase h \<or> x \<ge> heaptop h then Panic
      else
        let mh = (x + 2 ^ 32 - MBLOCKSIZE) mod 2 ^ 32 in
        mh_at mh h (\<lambda>m.
        if \<not> M_OK m then Panic
        else if mh_inuse m = 0 then Panic
        else
          andthen (mh_set mh (\<lambda>r. r\<lparr>mh_inuse := 0\<rparr>) h) (\<lambda>h.
          andthen (malloc_deadbeef (M_DATA mh) (M_SIZE m) h) (\<lambda>h.
          mh_at mh h (\<lambda>m.
          let mhnext = M_NEXT mh m in
          andthen (if mhnext \<noteq> heaptop h then malloc_trymerge mh mhnext h else Ret h) (\<lambda>h.
          if mh \<noteq> heapbase h then mh_at mh h (\<lambda>m. malloc_trymerge (M_PREV mh m) mh h)
          else Ret h))))))"

end
