(* ===== verification/UMallocInv.thy ===== *)
theory UMallocInv
  imports UMalloc KHeapInv
begin

text \<open>
  The layout of the user heap as a list of blocks, and what the parts of \<^verbatim>\<open>malloc\<close> and \<^verbatim>\<open>free\<close> do to it.
\<close>

section \<open>Words and headers in memory\<close>

lemma uput_other: "b < a \<or> a + 4 \<le> b \<Longrightarrow> uput a v m b = m b"
  by (auto simp: uput_def)

lemma uput_word:
  assumes "v < 2 ^ 32"
  shows "uword (uput a v m) a = v"
proof -
  have b: "unat (of_nat k :: 8 word) = k mod 256" for k by (simp add: unat_of_nat)
  let ?b = "v div 256" and ?c = "v div 256 div 256" and ?d = "v div 256 div 256 div 256"
  have "v = ?b * 256 + v mod 256" "?b = ?c * 256 + ?b mod 256" "?c = ?d * 256 + ?c mod 256" by simp_all
  moreover have "v div 2 ^ 8 = ?b" "v div 2 ^ 16 = ?c" "v div 2 ^ 24 = ?d" by (simp_all add: div_mult2_eq [symmetric])
  moreover have "?d mod 256 = ?d" using assms by (simp add: div_mult2_eq [symmetric] less_mult_imp_div_less)
  ultimately have "v div 2 ^ 24 mod 256 * 2 ^ 24 + v div 2 ^ 16 mod 256 * 2 ^ 16 + v div 2 ^ 8 mod 256 * 2 ^ 8 + v mod 256 = v"
    by (intro bytes4 [of v ?b _ ?c _ ?d]) simp_all
  moreover have "v div 2 ^ 24 < 256" using assms by (simp add: less_mult_imp_div_less)
  ultimately show ?thesis by (simp add: uword_def uput_def b)
qed

lemma uword_cong: "(\<And>i. i < 4 \<Longrightarrow> m (a + i) = m' (a + i)) \<Longrightarrow> uword m a = uword m' a"
proof -
  assume "\<And>i. i < 4 \<Longrightarrow> m (a + i) = m' (a + i)"
  from this [of 0] this [of 1] this [of 2] this [of 3] show ?thesis by (simp add: uword_def)
qed

lemma put_mh_other: "b < a \<or> a + 8 \<le> b \<Longrightarrow> put_mh a mh m b = m b"
  by (auto simp: put_mh_def uput_other)

definition hdr_fits :: "mheader \<Rightarrow> bool" where
  "hdr_fits mh \<longleftrightarrow> mh_prevblock mh < 2 ^ 29 \<and> mh_pad mh < 2 \<and> mh_magic1 mh < 4 \<and> mh_nextblock mh < 2 ^ 29 \<and> mh_inuse mh < 2 \<and> mh_magic2 mh < 4"

lemma field_split:
  fixes p q r :: nat
  assumes "q < 2" "r < 4"
  shows "(p * 8 + q * 4 + r) div 8 = p" "(p * 8 + q * 4 + r) div 4 mod 2 = q" "(p * 8 + q * 4 + r) mod 4 = r"
proof -
  have "q * 4 + r < 8" using assms by simp
  then have "(p * 8 + (q * 4 + r)) div 8 = p" by simp
  then show "(p * 8 + q * 4 + r) div 8 = p" by (simp add: add.assoc)
  have e: "p * 8 + q * 4 + r = (p * 2 + q) * 4 + r" by simp
  have "(x * 4 + r) div 4 = x" "(x * 4 + r) mod 4 = r" for x using assms(2) by simp_all
  from this [of "p * 2 + q"] show "(p * 8 + q * 4 + r) div 4 mod 2 = q" "(p * 8 + q * 4 + r) mod 4 = r" unfolding e using assms(1) by simp_all
qed

lemma get_put:
  assumes "hdr_fits mh"
  shows "get_mh (put_mh a mh m) a = mh"
proof -
  note f = assms [unfolded hdr_fits_def]
  let ?w = "mh_prevblock mh * 8 + mh_pad mh * 4 + mh_magic1 mh" and ?v = "mh_nextblock mh * 8 + mh_inuse mh * 4 + mh_magic2 mh"
  have lt: "?w < 2 ^ 32" "?v < 2 ^ 32" using f by simp_all
  have "uword (put_mh a mh m) a = uword (uput a ?w m) a" by (rule uword_cong) (simp add: put_mh_def uput_other)
  then have w: "uword (put_mh a mh m) a = ?w" using uput_word [OF lt(1)] by simp
  have v: "uword (put_mh a mh m) (a + 4) = ?v" unfolding put_mh_def by (rule uput_word [OF lt(2)])
  show ?thesis unfolding get_mh_def w v Let_def using f by (simp add: field_split)
qed

lemma get_cong: "(\<And>b. a \<le> b \<Longrightarrow> b < a + 8 \<Longrightarrow> m b = m' b) \<Longrightarrow> get_mh m a = get_mh m' a"
proof -
  assume e: "\<And>b. a \<le> b \<Longrightarrow> b < a + 8 \<Longrightarrow> m b = m' b"
  have "uword m a = uword m' a" "uword m (a + 4) = uword m' (a + 4)" using e by (auto intro!: uword_cong)
  then show ?thesis by (simp add: get_mh_def)
qed

section \<open>Layout\<close>

text \<open>A block is given by its length in units of 8 bytes, header included, and whether it is in use.\<close>

type_synonym blocks = "(nat \<times> bool) list"

definition H :: "nat \<Rightarrow> nat \<Rightarrow> bool \<Rightarrow> mheader" where
  "H pv n u = \<lparr>mh_prevblock = pv, mh_pad = 0, mh_magic1 = MMAGIC, mh_nextblock = n, mh_inuse = (if u then 1 else 0), mh_magic2 = MMAGIC\<rparr>"

lemma H_simps [simp]:
  "mh_prevblock (H pv n u) = pv" "mh_nextblock (H pv n u) = n" "mh_inuse (H pv n u) = (if u then 1 else 0)" "M_OK (H pv n u)"
  "(H pv n u)\<lparr>mh_prevblock := pv'\<rparr> = H pv' n u" "(H pv n u)\<lparr>mh_nextblock := n'\<rparr> = H pv n' u"
  "(H pv n u)\<lparr>mh_inuse := 1\<rparr> = H pv n True" "(H pv n u)\<lparr>mh_inuse := 0\<rparr> = H pv n False" "(H pv n u)\<lparr>mh_inuse := Suc 0\<rparr> = H pv n True"
  by (simp_all add: H_def M_OK_def)

lemma H_fits: "pv < 2 ^ 29 \<Longrightarrow> n < 2 ^ 29 \<Longrightarrow> hdr_fits (H pv n u)"
  by (simp add: hdr_fits_def H_def MMAGIC_def)

lemma H_off: "n < 2 ^ 29 \<Longrightarrow> M_NEXTOFF (H pv n u) = 8 * n" "pv < 2 ^ 29 \<Longrightarrow> M_PREVOFF (H pv n u) = 8 * pv"
  by (simp_all add: M_NEXTOFF_def M_PREVOFF_def MBLOCKSHIFT_def)

lemma H_size: "0 < n \<Longrightarrow> n < 2 ^ 29 \<Longrightarrow> M_SIZE (H pv n u) = 8 * n - 8"
proof -
  assume a: "0 < n" "n < 2 ^ 29"
  then have "(8 * n + 2 ^ 32 - 8) mod 2 ^ 32 = (8 * n - 8 + 2 ^ 32) mod 2 ^ 32" by (simp add: algebra_simps)
  also have "\<dots> = 8 * n - 8" using a by (subst mod_add_self2) simp
  finally show ?thesis using a by (simp add: M_SIZE_def H_off MBLOCKSIZE_def)
qed

definition ext :: "blocks \<Rightarrow> nat" where
  "ext bs = 8 * sum_list (map fst bs)"

lemma ext_simps [simp]: "ext [] = 0" "ext ((n, u) # bs) = 8 * n + ext bs" "ext (xs @ ys) = ext xs + ext ys"
  by (simp_all add: ext_def)

fun lay :: "(nat \<Rightarrow> 8 word) \<Rightarrow> nat \<Rightarrow> nat \<Rightarrow> blocks \<Rightarrow> bool" where
  "lay m i pv [] = True"
| "lay m i pv ((n, u) # bs) = (get_mh m i = H pv n u \<and> 2 \<le> n \<and> n < 2 ^ 28 \<and> lay m (i + 8 * n) n bs)"

definition lastsz :: "nat \<Rightarrow> blocks \<Rightarrow> nat" where
  "lastsz pv bs = (if bs = [] then pv else fst (last bs))"

lemma lastsz_simps [simp]: "lastsz pv [] = pv" "lastsz pv ((n, u) # bs) = lastsz n bs" "lastsz pv (xs @ ys) = lastsz (lastsz pv xs) ys"
  by (simp_all add: lastsz_def)

lemma lay_append [simp]: "lay m i pv (xs @ ys) \<longleftrightarrow> lay m i pv xs \<and> lay m (i + ext xs) (lastsz pv xs) ys"
  by (induction m i pv xs rule: lay.induct) (auto simp: ac_simps)

lemma lastsz_lt: "lay m i pv bs \<Longrightarrow> pv < 2 ^ 28 \<Longrightarrow> lastsz pv bs < 2 ^ 28"
  by (induction m i pv bs rule: lay.induct) auto

lemma lay_cong: "lay m i pv bs \<Longrightarrow> (\<And>b. i \<le> b \<Longrightarrow> b < i + ext bs \<Longrightarrow> m' b = m b) \<Longrightarrow> lay m' i pv bs"
proof (induction m i pv bs rule: lay.induct)
  case (2 m i pv n u bs)
  have "get_mh m' i = get_mh m i" using 2 by (intro get_cong) auto
  with 2 show ?case by auto
qed simp

lemma lay_length: "lay m i pv bs \<Longrightarrow> length bs \<le> ext bs"
  by (induction m i pv bs rule: lay.induct) auto

text \<open>The blocks in use, by the address and length of their data.\<close>

fun ulive :: "nat \<Rightarrow> blocks \<Rightarrow> (nat \<times> nat) set" where
  "ulive i [] = {}"
| "ulive i ((n, u) # bs) = (if u then {(i + 8, 8 * n - 8)} else {}) \<union> ulive (i + 8 * n) bs"

lemma ulive_append [simp]: "ulive i (xs @ ys) = ulive i xs \<union> ulive (i + ext xs) ys"
  by (induction i xs rule: ulive.induct) (auto simp: ac_simps)

lemma ulive_range:
  assumes "lay m i pv bs" "(a, k) \<in> ulive i bs"
  shows "i + 8 \<le> a" "a + k \<le> i + ext bs" "8 \<le> k"
  using assms by (induction m i pv bs rule: lay.induct) (auto split: if_splits)

lemma ulive_aligned:
  assumes "8 dvd i" "(a, k) \<in> ulive i bs"
  shows "8 dvd a"
  using assms by (induction i bs rule: ulive.induct) (auto split: if_splits)

lemma ulive_apart:
  assumes "lay m i pv bs" "(a, k) \<in> ulive i bs" "(b, l) \<in> ulive i bs" "(a, k) \<noteq> (b, l)"
  shows "a + k \<le> b \<or> b + l \<le> a"
  using assms
proof (induction m i pv bs rule: lay.induct)
  case (2 m i pv n u bs)
  have t: "i + 8 * n \<le> c - 8 \<and> 8 \<le> c" if "(c, j) \<in> ulive (i + 8 * n) bs" for c j
    using ulive_range(1) [of m "i + 8 * n" n bs c j] 2(2) that by auto
  show ?case using 2 t [of a k] t [of b l] by (auto split: if_splits)
qed simp

text \<open>Two free blocks are never next to each other.\<close>

fun coal :: "blocks \<Rightarrow> bool" where
  "coal ((m, u) # (n, v) # bs) = ((u \<or> v) \<and> coal ((n, v) # bs))"
| "coal bs = True"

lemma coal_Cons: "coal ((n, u) # bs) \<longleftrightarrow> coal bs \<and> (bs = [] \<or> u \<or> snd (hd bs))"
  by (cases bs) auto

lemma coal_append: "coal (xs @ ys) \<longleftrightarrow> coal xs \<and> coal ys \<and> (xs = [] \<or> ys = [] \<or> snd (last xs) \<or> snd (hd ys))"
proof (induction xs)
  case (Cons x xs)
  obtain n u where "x = (n, u)" by force
  with Cons show ?case by (cases "xs = []") (auto simp: coal_Cons)
qed simp

section \<open>Changes to the layout\<close>

definition fixprev :: "nat \<Rightarrow> nat \<Rightarrow> blocks \<Rightarrow> (nat \<Rightarrow> 8 word) \<Rightarrow> nat \<Rightarrow> 8 word" where
  "fixprev j pv bs m = (if bs = [] then m else put_mh j ((get_mh m j)\<lparr>mh_prevblock := pv\<rparr>) m)"

lemma fixprev_other: "b < j \<or> j + 8 \<le> b \<Longrightarrow> fixprev j pv bs m b = m b"
  by (auto simp: fixprev_def put_mh_other)

lemma lay_fixprev:
  assumes "lay m j pv bs" "pv' < 2 ^ 29"
  shows "lay (fixprev j pv' bs m) j pv' bs"
proof (cases bs)
  case (Cons b cs)
  obtain n u where b: "b = (n, u)" by force
  have l: "get_mh m j = H pv n u" "2 \<le> n" "n < 2 ^ 28" "lay m (j + 8 * n) n cs" using assms(1) Cons b by auto
  have f: "fixprev j pv' bs m = put_mh j (H pv' n u) m" using l(1) Cons by (simp add: fixprev_def)
  have "get_mh (put_mh j (H pv' n u) m) j = H pv' n u" using l(3) assms(2) by (intro get_put H_fits) simp_all
  moreover have "lay (put_mh j (H pv' n u) m) (j + 8 * n) n cs" using l(2) by (intro lay_cong [OF l(4)] put_mh_other) auto
  ultimately show ?thesis unfolding f using l Cons b by simp
qed simp

text \<open>Bytes outside \<open>[lo, hi)\<close> are the same.\<close>

definition same_outside :: "nat \<Rightarrow> nat \<Rightarrow> (nat \<Rightarrow> 8 word) \<Rightarrow> (nat \<Rightarrow> 8 word) \<Rightarrow> bool" where
  "same_outside lo hi m m' \<longleftrightarrow> (\<forall>b. b < lo \<or> hi \<le> b \<longrightarrow> m' b = m b)"

lemma same_outside_trans: "same_outside lo hi m m' \<Longrightarrow> same_outside lo hi m' m'' \<Longrightarrow> same_outside lo hi m m''"
  by (simp add: same_outside_def)

lemma same_outside_mono: "same_outside lo hi m m' \<Longrightarrow> lo' \<le> lo \<Longrightarrow> hi \<le> hi' \<Longrightarrow> same_outside lo' hi' m m'"
  by (auto simp: same_outside_def)

lemma same_outside_put: "same_outside a (a + 8) m (put_mh a mh m)" "same_outside j (j + 8) m (fixprev j pv bs m)"
  by (simp_all add: same_outside_def put_mh_other fixprev_other)

lemma same_outside_refl [simp]: "same_outside lo hi m m"
  by (simp add: same_outside_def)

lemma lay_same: "lay m i pv bs \<Longrightarrow> same_outside lo hi m m' \<Longrightarrow> i + ext bs \<le> lo \<or> hi \<le> i \<Longrightarrow> lay m' i pv bs"
  by (erule lay_cong) (auto simp: same_outside_def)

lemma ulive_same:
  assumes "lay m i pv xs" "lay m (i + ext xs + len) pv' ys" "same_outside (i + ext xs) hi m m'" "hi \<le> i + ext xs + len + 8"
    "(b, l) \<in> ulive i xs \<union> ulive (i + ext xs + len) ys" "j < l"
  shows "m' (b + j) = m (b + j)"
proof -
  have "b + l \<le> i + ext xs \<or> hi \<le> b" using assms(4,5) ulive_range(2) [OF assms(1)] ulive_range(1) [OF assms(2)] by fastforce
  then show ?thesis using assms(3,6) by (auto simp: same_outside_def)
qed

section \<open>The heap\<close>

definition uheap_lay :: "uheap \<Rightarrow> blocks \<Rightarrow> bool" where
  "uheap_lay h bs \<longleftrightarrow> 0 < heapbase h \<and> 8 dvd heapbase h \<and> heaptop h = heapbase h + ext bs \<and> ubrk h = heaptop h \<and> heaptop h \<le> 2 ^ 31 \<and>
     lay (umem h) (heapbase h) 0 bs"

text \<open>A header of the layout can be read and written.\<close>

lemma ext_dvd: "8 dvd ext bs"
  by (simp add: ext_def)

lemma block_at:
  assumes "uheap_lay h (xs @ (n, u) # ys)" "a = heapbase h + ext xs"
  shows "uaddr_ok a 8 h" "get_mh (umem h) a = H (lastsz 0 xs) n u" "2 \<le> n" "n < 2 ^ 28" "a + 8 * n + ext ys = heaptop h" "lastsz 0 xs < 2 ^ 28" "a < 2 ^ 31"
    "a + 8 * n \<le> 2 ^ 31" "8 dvd a" "lay (umem h) (heapbase h) 0 xs" "lay (umem h) (a + 8 * n) n ys" "0 < a"
proof -
  note l = assms(1) [unfolded uheap_lay_def]
  show 1: "get_mh (umem h) a = H (lastsz 0 xs) n u" "2 \<le> n" "n < 2 ^ 28" "lay (umem h) (heapbase h) 0 xs" "lay (umem h) (a + 8 * n) n ys"
    using l assms(2) by simp_all
  show "a + 8 * n + ext ys = heaptop h" "a + 8 * n \<le> 2 ^ 31" "a < 2 ^ 31" "0 < a" using l 1(2) assms(2) by auto
  show d: "8 dvd a" using l assms(2) ext_dvd [of xs] by simp
  have "4 dvd a" using d dvd_trans [of 4 8 a] by simp
  then show "uaddr_ok a 8 h" using l 1(2) assms(2) by (simp add: uaddr_ok_def mod_eq_0_iff_dvd)
  show "lastsz 0 xs < 2 ^ 28" using lastsz_lt [OF 1(4)] by simp
qed

lemma next_block:
  assumes "n < 2 ^ 28" "a + 8 * n \<le> 2 ^ 31"
  shows "M_NEXT a (H pv n u) = a + 8 * n"
  using assms by (simp add: M_NEXT_def H_off)

lemma ext_zero: "lay m i pv bs \<Longrightarrow> ext bs = 0 \<longleftrightarrow> bs = []"
  by (cases bs) auto

section \<open>Search\<close>

lemma malloc_search_spec:
  assumes "uheap_lay h (xs @ bs)" "\<forall>(n, u) \<in> set xs. u \<or> 8 * n - 8 < sz" "length bs < f"
  shows "(malloc_search f (heapbase h + ext xs) (lastsz 0 xs) sz h = Ret (Inl (heaptop h, lastsz 0 (xs @ bs))) \<and> (\<forall>(n, u) \<in> set bs. u \<or> 8 * n - 8 < sz)) \<or>
    (\<exists>ys n zs. bs = ys @ (n, False) # zs \<and> sz \<le> 8 * n - 8 \<and> malloc_search f (heapbase h + ext xs) (lastsz 0 xs) sz h = Ret (Inr (heapbase h + ext (xs @ ys))))"
  using assms
proof (induction f arbitrary: xs bs)
  case (Suc f)
  show ?case
  proof (cases bs)
    case Nil
    then show ?thesis using Suc.prems(1) by (simp add: uheap_lay_def)
  next
    case (Cons b cs)
    obtain n u where b: "b = (n, u)" by force
    note k = block_at [OF Suc.prems(1) [unfolded Cons b] refl]
    let ?a = "heapbase h + ext xs"
    have lt: "?a < heaptop h" using k(3,5) by simp
    have sz: "M_SIZE (H (lastsz 0 xs) n u) = 8 * n - 8" "M_NEXT ?a (H (lastsz 0 xs) n u) = ?a + 8 * n"
      using k(3,4,8) by (simp_all add: H_size next_block)
    show ?thesis
    proof (cases "u \<or> 8 * n - 8 < sz")
      case True
      have e: "malloc_search (Suc f) ?a (lastsz 0 xs) sz h = malloc_search f (heapbase h + ext (xs @ [b])) (lastsz 0 (xs @ [b])) sz h"
        using lt k(1,2) True sz b by (auto simp: mh_at_def add.assoc)
      have "(malloc_search f (heapbase h + ext (xs @ [b])) (lastsz 0 (xs @ [b])) sz h = Ret (Inl (heaptop h, lastsz 0 ((xs @ [b]) @ cs))) \<and> (\<forall>(n, u) \<in> set cs. u \<or> 8 * n - 8 < sz)) \<or>
        (\<exists>ys n zs. cs = ys @ (n, False) # zs \<and> sz \<le> 8 * n - 8 \<and> malloc_search f (heapbase h + ext (xs @ [b])) (lastsz 0 (xs @ [b])) sz h = Ret (Inr (heapbase h + ext ((xs @ [b]) @ ys))))"
        using Suc.prems Cons True b by (intro Suc.IH) auto
      then show ?thesis
      proof
        assume "malloc_search f (heapbase h + ext (xs @ [b])) (lastsz 0 (xs @ [b])) sz h = Ret (Inl (heaptop h, lastsz 0 ((xs @ [b]) @ cs))) \<and> (\<forall>(n, u) \<in> set cs. u \<or> 8 * n - 8 < sz)"
        then show ?thesis using e Cons True b by simp
      next
        assume "\<exists>ys n zs. cs = ys @ (n, False) # zs \<and> sz \<le> 8 * n - 8 \<and> malloc_search f (heapbase h + ext (xs @ [b])) (lastsz 0 (xs @ [b])) sz h = Ret (Inr (heapbase h + ext ((xs @ [b]) @ ys)))"
        then obtain ys n' zs where "cs = ys @ (n', False) # zs" "sz \<le> 8 * n' - 8" "malloc_search f (heapbase h + ext (xs @ [b])) (lastsz 0 (xs @ [b])) sz h = Ret (Inr (heapbase h + ext ((xs @ [b]) @ ys)))" by auto
        then show ?thesis using e Cons by (intro disjI2 exI [of _ "b # ys"] exI [of _ n'] exI [of _ zs]) simp
      qed
    next
      case False
      then have "malloc_search (Suc f) ?a (lastsz 0 xs) sz h = Ret (Inr ?a)" using lt k(1,2) sz by (simp add: mh_at_def)
      then show ?thesis using False Cons b by (intro disjI2 exI [of _ "[]"] exI [of _ n] exI [of _ cs]) simp
    qed
  qed
qed simp

end
