(* ===== verification/UMallocOps.thy ===== *)
theory UMallocOps
  imports UMallocInv
begin

text \<open>
  Splitting and merging blocks of the user heap.
\<close>

section \<open>Splitting\<close>

lemma mh_set_eq: "uaddr_ok a 8 h \<Longrightarrow> mh_set a f h = Ret (h\<lparr>umem := put_mh a (f (get_mh (umem h) a)) (umem h)\<rparr>)"
  by (simp add: mh_set_def)

lemma mh_at_eq: "uaddr_ok a 8 h \<Longrightarrow> mh_at a h f = f (get_mh (umem h) a)"
  by (simp add: mh_at_def)

lemma uaddr_umem [simp]: "uaddr_ok a n (h\<lparr>umem := m\<rparr>) = uaddr_ok a n h"
  by (simp add: uaddr_ok_def)

lemma umem_upd:
  "umem (h\<lparr>umem := m\<rparr>) = m" "h\<lparr>umem := m, umem := m'\<rparr> = h\<lparr>umem := m'\<rparr>" "heaptop (h\<lparr>umem := m\<rparr>) = heaptop h" "heapbase (h\<lparr>umem := m\<rparr>) = heapbase h"
  by simp_all

lemma mkfield: "off = 8 * n \<Longrightarrow> n < 2 ^ 28 \<Longrightarrow> M_MKFIELD (off mod 2 ^ 32) = n"
proof -
  assume a: "off = 8 * n" "n < 2 ^ 28"
  have "off mod 2 ^ 32 = 8 * n" unfolding a(1) using a(2) by (intro mod_less) simp
  moreover have "8 * n div 2 ^ MBLOCKSHIFT = n" by (simp add: MBLOCKSHIFT_def)
  moreover have "n mod 2 ^ 29 = n" by (rule mod_less, rule less_trans [OF a(2)]) simp
  ultimately show ?thesis by (simp only: M_MKFIELD_def)
qed

text \<open>Replacing blocks in the middle of the layout.\<close>

lemma lay_replace:
  assumes "uheap_lay h (xs @ mid @ ys)" "a = heapbase h + ext xs" "ext mid' = ext mid" "same_outside a hi (umem h) m"
    "lay m a (lastsz 0 xs) mid'" "lay m (a + ext mid) (lastsz (lastsz 0 xs) mid') ys"
  shows "uheap_lay (h\<lparr>umem := m\<rparr>) (xs @ mid' @ ys)"
proof -
  note l = assms(1) [unfolded uheap_lay_def]
  have "lay (umem h) (heapbase h) 0 xs" using l by simp
  then have "lay m (heapbase h) 0 xs" by (rule lay_same [OF _ assms(4)]) (simp add: assms(2))
  then have "lay m (heapbase h) 0 (xs @ mid' @ ys)" using assms(5,6) unfolding lay_append assms(2,3) by simp
  moreover have "ext (xs @ mid' @ ys) = ext (xs @ mid @ ys)" using assms(3) by simp
  ultimately show ?thesis using l by (simp add: uheap_lay_def del: ext_simps lay_append)
qed

definition split_blocks :: "nat \<Rightarrow> nat \<Rightarrow> blocks" where
  "split_blocks n k = (if n - k < 2 then [(n, False)] else [(k, False), (n - k, False)])"

lemma split_layout:
  assumes l: "uheap_lay h (xs @ [(n, False)] @ ys)" "a = heapbase h + ext xs" and k: "2 \<le> k" "2 \<le> n - k"
    and m: "m1 = put_mh a (H (lastsz 0 xs) k False) (umem h)" "m2 = put_mh (a + 8 * k) (H k (n - k) False) m1" "m3 = fixprev (a + 8 * n) (n - k) ys m2"
  shows "uheap_lay (h\<lparr>umem := m3\<rparr>) (xs @ [(k, False), (n - k, False)] @ ys)" "same_outside a (a + 8 * n + 8) (umem h) m3"
    "get_mh m1 a = H (lastsz 0 xs) k False" "get_mh m2 (a + 8 * k) = H k (n - k) False"
proof -
  note b = block_at [OF l(1) [simplified] l(2)]
  let ?m = "umem h" and ?p = "lastsz 0 xs"
  have nk: "k < n" "k < 2 ^ 28" "n - k < 2 ^ 28" "8 * k + 16 \<le> 8 * n" using k b(4) by auto
  have s: "same_outside a (a + 8) ?m m1" "same_outside (a + 8 * k) (a + 8 * k + 8) m1 m2" "same_outside (a + 8 * n) (a + 8 * n + 8) m2 m3"
    unfolding m by (rule same_outside_put)+
  have s2: "same_outside a (a + 8 * n) ?m m2" 
    by (rule same_outside_trans [OF same_outside_mono [OF s(1)] same_outside_mono [OF s(2)]]) (use k(1) nk in auto)
  show s3: "same_outside a (a + 8 * n + 8) ?m m3" 
    by (rule same_outside_trans [OF same_outside_mono [OF s2] same_outside_mono [OF s(3)]]) auto
  show g1: "get_mh m1 a = H ?p k False" unfolding m(1) using nk(2) b(6) by (intro get_put H_fits) simp_all
  show g2: "get_mh m2 (a + 8 * k) = H k (n - k) False" unfolding m(2) using nk by (intro get_put H_fits) simp_all
  have "get_mh m3 a = get_mh m1 a" using s(2,3) k nk by (intro get_cong) (auto simp: same_outside_def)
  moreover have "get_mh m3 (a + 8 * k) = get_mh m2 (a + 8 * k)" using s(3) nk by (intro get_cong) (auto simp: same_outside_def)
  ultimately have mid: "lay m3 a ?p [(k, False), (n - k, False)]" using g1 g2 k nk by simp
  have "lay m2 (a + 8 * n) n ys" by (rule lay_same [OF b(11) s2]) simp
  then have ys: "lay m3 (a + 8 * n) (n - k) ys" unfolding m(3) using nk by (intro lay_fixprev) simp_all
  from lay_replace [OF l(1,2) _ s3 mid] ys nk show "uheap_lay (h\<lparr>umem := m3\<rparr>) (xs @ [(k, False), (n - k, False)] @ ys)" by simp
qed

lemma malloc_split_spec:
  assumes l: "uheap_lay h (xs @ [(n, False)] @ ys)" "a = heapbase h + ext xs" and sz: "sz = 8 * s" "1 \<le> s" "s + 1 \<le> n"
  obtains m where "malloc_split a sz h = Ret (h\<lparr>umem := m\<rparr>)" "uheap_lay (h\<lparr>umem := m\<rparr>) (xs @ split_blocks n (s + 1) @ ys)"
    "same_outside a (a + 8 * n + 8) (umem h) m"
proof -
  note b = block_at [OF l(1) [simplified] l(2)]
  let ?p = "lastsz 0 xs"
  have size: "M_SIZE (H ?p n False) = 8 * n - 8" "M_NEXT a (H ?p n False) = a + 8 * n" using b(3,4,8) by (simp_all add: H_size next_block)
  have "(8 * n - 8 + 2 ^ 32 - sz) = (8 * n - 8 - sz) + 2 ^ 32" using sz by simp
  then have rest: "(8 * n - 8 + 2 ^ 32 - sz) mod 2 ^ 32 = 8 * n - 8 - sz" using b(4) by simp
  show thesis
  proof (cases "n - (s + 1) < 2")
    case True
    then have "8 * n - 8 - sz < 16" using sz by simp
    then have "malloc_split a sz h = Ret h" using b(1,2) size rest sz(1) by (simp add: malloc_split_def mh_at_def MBLOCKSIZE_def)
    then show thesis using l(1) True by (intro that [of "umem h"]) (simp_all add: split_blocks_def)
  next
    case False
    let ?k = "s + 1"
    define m1 where "m1 = put_mh a (H ?p ?k False) (umem h)"
    define m2 where "m2 = put_mh (a + 8 * ?k) (H ?k (n - ?k) False) m1"
    define m3 where "m3 = fixprev (a + 8 * n) (n - ?k) ys m2"
    have nk: "2 \<le> ?k" "2 \<le> n - ?k" "?k < 2 ^ 28" "n - ?k < 2 ^ 28" "a + 8 * ?k \<le> 2 ^ 31" using False sz b(4,8) by auto
    note sl = split_layout [OF l nk(1,2) m1_def m2_def m3_def]
    have f: "M_MKFIELD ((sz + 8) mod 2 ^ 32) = ?k" by (rule mkfield [OF _ nk(3)]) (simp add: sz(1))
    have "M_MKFIELD ((8 * n - 8 - sz) mod 2 ^ 32) = n - ?k" by (rule mkfield [OF _ nk(4)]) (simp add: sz(1) diff_mult_distrib2)
    then have f2: "M_MKFIELD ((8 * n - 8 + 2 ^ 32 - sz) mod 2 ^ 32) = n - ?k" unfolding rest using b(4) by simp
    have ok2: "uaddr_ok (a + 8 * ?k) 8 h" using b(1,5) nk(2) l(1) by (auto simp: uaddr_ok_def uheap_lay_def mod_eq_0_iff_dvd)
    have hd: "put_mh a ((get_mh (umem h) a)\<lparr>mh_nextblock := ?k\<rparr>) (umem h) = m1" using b(2) by (simp add: m1_def)
    have newh: "\<lparr>mh_prevblock = ?k, mh_pad = 0, mh_magic1 = MMAGIC, mh_nextblock = n - ?k, mh_inuse = 0, mh_magic2 = MMAGIC\<rparr> = H ?k (n - ?k) False" by (simp add: H_def)
    have fin: "(if a + 8 * n \<noteq> heaptop h then mh_at (a + 8 * ?k) (h\<lparr>umem := m2\<rparr>) (\<lambda>r. mh_set (a + 8 * n) (\<lambda>q. q\<lparr>mh_prevblock := mh_nextblock r\<rparr>) (h\<lparr>umem := m2\<rparr>))
        else Ret (h\<lparr>umem := m2\<rparr>)) = Ret (h\<lparr>umem := m3\<rparr>)"
    proof (cases ys)
      case Nil then show ?thesis using b(5) by (simp add: m3_def fixprev_def)
    next
      case (Cons y zs)
      obtain n2 u2 where y: "y = (n2, u2)" by force
      have "uheap_lay h ((xs @ [(n, False)]) @ (n2, u2) # zs)" using l(1) Cons y by simp
      from block_at [OF this refl] have "uaddr_ok (a + 8 * n) 8 h" "a + 8 * n \<noteq> heaptop h" using l(2) by (simp_all add: add.assoc)
      then show ?thesis using ok2 sl(4) Cons by (simp add: mh_at_eq mh_set_eq m3_def fixprev_def)
    qed
    have c: "(sz mod 8 \<noteq> 0) = False" "((8 * n - 8 + 2 ^ 32 - sz) mod 2 ^ 32 < 2 * 8) = False" "(a + 8 * ?k = a + 8 * n) = False"
      unfolding rest using sz False by auto
    have o1: "uaddr_ok a 8 (h\<lparr>umem := m1\<rparr>)" "uaddr_ok (a + 8 * ?k) 8 (h\<lparr>umem := m1\<rparr>)" using b(1) ok2 by simp_all
    have st1: "mh_set a (\<lambda>r. r\<lparr>mh_nextblock := ?k\<rparr>) h = Ret (h\<lparr>umem := m1\<rparr>)" unfolding mh_set_eq [OF b(1)] hd ..
    have st2: "mh_set (a + 8 * ?k) (\<lambda>_. H ?k (n - ?k) False) (h\<lparr>umem := m1\<rparr>) = Ret (h\<lparr>umem := m2\<rparr>)"
      unfolding mh_set_eq [OF o1(2)] umem_upd m2_def ..
    have "malloc_split a sz h = Ret (h\<lparr>umem := m3\<rparr>)"
      unfolding malloc_split_def MBLOCKSIZE_def c(1) if_False mh_at_eq [OF b(1)] b(2) size c(2) Let_def f f2 newh st1 andthen.simps
        mh_at_eq [OF o1(1)] umem_upd sl(3) next_block [OF nk(3,5)] c(3) st2 fin ..
    then show thesis using sl(1,2) False by (intro that [of m3]) (simp_all add: split_blocks_def)
  qed
qed

section \<open>Marking and wiping\<close>

lemma mark_block:
  assumes l: "uheap_lay h (xs @ (n, u) # ys)" "a = heapbase h + ext xs" and v: "v = (if u' then 1 else 0)"
  obtains m where "mh_set a (\<lambda>r. r\<lparr>mh_inuse := v\<rparr>) h = Ret (h\<lparr>umem := m\<rparr>)" "uheap_lay (h\<lparr>umem := m\<rparr>) (xs @ (n, u') # ys)"
    "same_outside a (a + 8) (umem h) m"
proof -
  note b = block_at [OF l]
  let ?m = "put_mh a (H (lastsz 0 xs) n u') (umem h)"
  have g: "get_mh ?m a = H (lastsz 0 xs) n u'" using b(4,6) by (intro get_put H_fits) simp_all
  have "lay ?m (a + 8 * n) n ys" using b(3) by (intro lay_same [OF b(11) same_outside_put(1)]) simp
  then have "uheap_lay (h\<lparr>umem := ?m\<rparr>) (xs @ [(n, u')] @ ys)"
    using b(3,4) g l by (intro lay_replace [of h xs "[(n, u)]" ys a _ "a + 8"]) (simp_all add: same_outside_put)
  moreover have "mh_set a (\<lambda>r. r\<lparr>mh_inuse := v\<rparr>) h = Ret (h\<lparr>umem := ?m\<rparr>)" using b(1,2) v by (simp add: mh_set_eq)
  ultimately show thesis by (intro that [of ?m]) (simp_all add: same_outside_put)
qed

lemma malloc_deadbeef_loop_spec:
  assumes "4 dvd a" "a + 4 * n \<le> ubrk h"
  shows "\<exists>m. malloc_deadbeef_loop a n h = Ret (h\<lparr>umem := m\<rparr>) \<and> same_outside a (a + 4 * n) (umem h) m"
  using assms
proof (induction n arbitrary: a h)
  case 0
  show ?case by (rule exI [of _ "umem h"]) simp
next
  case (Suc n)
  let ?h = "h\<lparr>umem := uput a 0xdeadbeef (umem h)\<rparr>"
  obtain m where m: "malloc_deadbeef_loop (a + 4) n ?h = Ret (?h\<lparr>umem := m\<rparr>)" "same_outside (a + 4) (a + 4 + 4 * n) (umem ?h) m"
    using Suc.IH [of "a + 4" ?h] Suc.prems by auto
  have "malloc_deadbeef_loop a (Suc n) h = Ret (h\<lparr>umem := m\<rparr>)" using m(1) Suc.prems by (simp add: uaddr_ok_def mod_eq_0_iff_dvd)
  moreover have "same_outside a (a + 4 * Suc n) (umem h) m" using m(2) by (simp add: same_outside_def uput_other)
  ultimately show ?case by blast
qed

text \<open>Wiping bytes past the header of a free block leaves the layout as it is.\<close>

lemma wipe_block:
  assumes l: "uheap_lay h (xs @ (n, u) # ys)" "a = heapbase h + ext xs" and r: "a + 8 \<le> p" "p + k \<le> a + 8 * n" "8 dvd p" "8 dvd k"
  obtains m where "malloc_deadbeef p k h = Ret (h\<lparr>umem := m\<rparr>)" "uheap_lay (h\<lparr>umem := m\<rparr>) (xs @ (n, u) # ys)" "same_outside p (p + k) (umem h) m"
proof -
  note b = block_at [OF l]
  have d: "4 dvd p" "4 * (k div 4) = k" using r(3,4) dvd_trans [of 4 8 p] dvd_trans [of 4 8 k] by simp_all
  have "p + 4 * (k div 4) \<le> ubrk h" using d(2) r(2) b(5) l(1) by (simp add: uheap_lay_def)
  from malloc_deadbeef_loop_spec [OF d(1) this] obtain m where m: "malloc_deadbeef p k h = Ret (h\<lparr>umem := m\<rparr>)" "same_outside p (p + k) (umem h) m"
    unfolding malloc_deadbeef_def d(2) by blast
  have s: "same_outside a (a + 8 * n) (umem h) m" by (rule same_outside_mono [OF m(2)]) (use r in auto)
  have "get_mh m a = get_mh (umem h) a" using m(2) r(1) by (intro get_cong) (simp add: same_outside_def)
  moreover have "lay m (a + 8 * n) n ys" by (rule lay_same [OF b(11) s]) simp
  ultimately have "uheap_lay (h\<lparr>umem := m\<rparr>) (xs @ [(n, u)] @ ys)"
    using b(2,3,4) l s by (intro lay_replace [of h xs "[(n, u)]" ys a _ "a + 8 * n"]) simp_all
  then show thesis using m by (intro that [of m]) simp_all
qed

section \<open>Merging\<close>

lemma malloc_trymerge_used:
  assumes l: "uheap_lay h (xs @ (n1, u1) # (n2, u2) # ys)" "a = heapbase h + ext xs" and u: "u1 \<or> u2"
  shows "malloc_trymerge a (a + 8 * n1) h = Ret h"
proof -
  note b = block_at [OF l]
  have "uheap_lay h ((xs @ [(n1, u1)]) @ (n2, u2) # ys)" "a + 8 * n1 = heapbase h + ext (xs @ [(n1, u1)])" using l by simp_all
  note c = block_at [OF this]
  show ?thesis using b(1,2) c(1,2) u by (auto simp: malloc_trymerge_def mh_at_eq)
qed

lemma malloc_trymerge_free:
  assumes l: "uheap_lay h (xs @ (n1, False) # (n2, False) # ys)" "a = heapbase h + ext xs"
  obtains m where "malloc_trymerge a (a + 8 * n1) h = Ret (h\<lparr>umem := m\<rparr>)" "uheap_lay (h\<lparr>umem := m\<rparr>) (xs @ (n1 + n2, False) # ys)"
    "same_outside a (a + 8 * (n1 + n2) + 8) (umem h) m"
proof -
  note b = block_at [OF l]
  have l2: "uheap_lay h ((xs @ [(n1, False)]) @ (n2, False) # ys)" "a + 8 * n1 = heapbase h + ext (xs @ [(n1, False)])" using l by simp_all
  note c = block_at [OF l2]
  let ?p = "lastsz 0 xs" and ?n = "n1 + n2"
  have nn: "a + 8 * ?n \<le> 2 ^ 31" "?n < 2 ^ 28" "2 \<le> ?n" "a + 8 * n1 + 8 * n2 = a + 8 * ?n" using c(3,8) b(3,12) by simp_all
  define m1 where "m1 = put_mh a (H ?p ?n False) (umem h)"
  define m2 where "m2 = fixprev (a + 8 * ?n) ?n ys m1"
  have s: "same_outside a (a + 8) (umem h) m1" "same_outside (a + 8 * ?n) (a + 8 * ?n + 8) m1 m2" unfolding m1_def m2_def by (rule same_outside_put)+
  have s2: "same_outside a (a + 8 * ?n + 8) (umem h) m2"
    by (rule same_outside_trans [OF same_outside_mono [OF s(1)] same_outside_mono [OF s(2)]]) auto
  have g1: "get_mh m1 a = H ?p ?n False" unfolding m1_def using nn(2) b(6) by (intro get_put H_fits) simp_all
  have g2: "get_mh m2 a = H ?p ?n False" using g1 s(2) nn(3) get_cong [of a m2 m1] by (simp add: same_outside_def)
  have "lay m1 (a + 8 * ?n) n2 ys" using c(11) nn(3,4) by (intro lay_same [OF _ s(1)]) (simp_all add: add.assoc)
  then have ys: "lay m2 (a + 8 * ?n) ?n ys" unfolding m2_def using nn(2) by (intro lay_fixprev) simp_all
  have lm: "uheap_lay (h\<lparr>umem := m2\<rparr>) (xs @ [(?n, False)] @ ys)"
    using l s2 g2 ys nn by (intro lay_replace [of h xs "[(n1, False), (n2, False)]" ys a _ "a + 8 * ?n + 8"]) (simp_all add: add.assoc)
  have "8 dvd a + 8 * n1" using b(9) by simp
  then obtain m where m: "malloc_deadbeef (a + 8 * n1) 8 (h\<lparr>umem := m2\<rparr>) = Ret (h\<lparr>umem := m2, umem := m\<rparr>)"
    "uheap_lay (h\<lparr>umem := m2, umem := m\<rparr>) (xs @ (?n, False) # ys)" "same_outside (a + 8 * n1) (a + 8 * n1 + 8) (umem (h\<lparr>umem := m2\<rparr>)) m"
    using wipe_block [of "h\<lparr>umem := m2\<rparr>" xs ?n False ys a "a + 8 * n1" 8] lm l(2) b(3) c(3) by auto
  have st1: "mh_set a (\<lambda>r. r\<lparr>mh_nextblock := ?n\<rparr>) h = Ret (h\<lparr>umem := m1\<rparr>)" using b(1,2) by (simp add: mh_set_eq m1_def)
  have st2: "(if a + 8 * ?n \<noteq> heaptop h then mh_at a (h\<lparr>umem := m1\<rparr>) (\<lambda>r. mh_set (a + 8 * ?n) (\<lambda>q. q\<lparr>mh_prevblock := mh_nextblock r\<rparr>) (h\<lparr>umem := m1\<rparr>))
      else Ret (h\<lparr>umem := m1\<rparr>)) = Ret (h\<lparr>umem := m2\<rparr>)"
  proof (cases ys)
    case Nil then show ?thesis using c(5) by (simp add: m2_def fixprev_def add.assoc)
  next
    case (Cons y zs)
    obtain n3 u3 where y: "y = (n3, u3)" by force
    have "uheap_lay h ((xs @ [(n1, False), (n2, False)]) @ (n3, u3) # zs)" using l(1) Cons y by simp
    from block_at [OF this refl] have "uaddr_ok (a + 8 * ?n) 8 h" "a + 8 * ?n \<noteq> heaptop h" using l(2) by (simp_all add: add.assoc)
    then show ?thesis using b(1) g1 Cons by (simp add: mh_at_eq mh_set_eq m2_def fixprev_def)
  qed
  have sz: "M_SIZE (H ?p n1 False) = 8 * n1 - 8" "M_SIZE (H n1 n2 False) = 8 * n2 - 8" using b(3,4) c(3,4) by (simp_all add: H_size)
  have f: "M_MKFIELD ((8 + (8 * n1 - 8) + 8 + (8 * n2 - 8)) mod 2 ^ 32) = ?n" using b(3) c(3) nn(2) by (intro mkfield) simp_all
  have nx: "M_NEXT (a + 8 * n1) (H n1 n2 False) = a + 8 * ?n" using c(4,8) by (simp add: next_block)
  have l0: "lastsz 0 (xs @ [(n1, False)]) = n1" by simp
  have fl: "(mh_nextblock (H ?p n1 False) \<noteq> mh_prevblock (H n1 n2 False)) = False" "(mh_inuse (H ?p n1 False) \<noteq> 0 \<or> mh_inuse (H n1 n2 False) \<noteq> 0) = False" by simp_all
  have e: "malloc_trymerge a (a + 8 * n1) h = Ret (h\<lparr>umem := m\<rparr>)"
    unfolding malloc_trymerge_def mh_at_eq [OF b(1)] mh_at_eq [OF c(1)] b(2) c(2) l0 fl if_False Let_def MBLOCKSIZE_def sz f nx st1 andthen.simps umem_upd st2
      m(1) ..
  have "same_outside a (a + 8 * ?n + 8) (umem h) m"
    by (rule same_outside_trans [OF s2 same_outside_mono [OF m(3) [simplified]]]) simp_all
  with e m(2) show thesis by (intro that [of m]) simp_all
qed

end
