(* ===== verification/UMallocProps.thy ===== *)
theory UMallocProps
  imports UMallocOps BlockAlloc
begin

text \<open>
  The user-level heap meets the contract of an allocator: \<^verbatim>\<open>malloc\<close> and \<^verbatim>\<open>free\<close> of \<^verbatim>\<open>src/lib/libc/malloc.c\<close>.
\<close>

section \<open>Allocation\<close>

text \<open>The system call \<^verbatim>\<open>sbrk\<close>: the break can always be asked for, and stays below the kernel's addresses.\<close>

definition break_ok :: "(nat \<Rightarrow> nat \<Rightarrow> bool) \<Rightarrow> bool" where
  "break_ok grant \<longleftrightarrow> (\<forall>b. grant b 0) \<and> (\<forall>b n. 0 < n \<and> n < 2 ^ 31 \<and> grant b n \<longrightarrow> b + n \<le> 2 ^ 31)"

definition uheap_new :: "uheap \<Rightarrow> bool" where
  "uheap_new h \<longleftrightarrow> heapbase h = 0 \<and> heaptop h = 0 \<and> 0 < ubrk h \<and> 8 dvd ubrk h \<and> ubrk h \<le> 2 ^ 31"

definition uheap_is :: "uheap \<Rightarrow> (nat \<times> nat) set \<Rightarrow> bool" where
  "uheap_is h B \<longleftrightarrow> uheap_new h \<and> B = {} \<or> (\<exists>bs. uheap_lay h bs \<and> coal bs \<and> B = ulive (heapbase h) bs)"

definition umalloc_fits :: "nat \<Rightarrow> bool" where
  "umalloc_fits sz \<longleftrightarrow> 0 < sz \<and> sz < 2 ^ 31 - 16"

lemma uheap_lay_apart:
  assumes "uheap_is h B" "(a, m) \<in> B" "(b, n) \<in> B" "(a, m) \<noteq> (b, n)"
  shows "a + m \<le> b \<or> b + n \<le> a"
  using assms ulive_apart [of "umem h" "heapbase h" 0 _ a m b n] by (auto simp: uheap_is_def uheap_lay_def)

lemma uheap_block:
  assumes "uheap_is h B" "(a, n) \<in> B"
  shows "8 \<le> n" "8 dvd a" "0 < a" "a + n \<le> ubrk h"
proof -
  obtain bs where b: "uheap_lay h bs" "(a, n) \<in> ulive (heapbase h) bs" using assms by (auto simp: uheap_is_def)
  then show "8 \<le> n" "8 dvd a" "0 < a" "a + n \<le> ubrk h"
    using ulive_range [of "umem h" "heapbase h" 0 bs a n] ulive_aligned [of "heapbase h" a n bs] by (auto simp: uheap_lay_def)
qed

text \<open>What an allocation does, in terms of the layout.\<close>

definition malloc_result :: "uheap \<Rightarrow> blocks \<Rightarrow> nat \<Rightarrow> nat \<Rightarrow> uheap \<Rightarrow> bool" where
  "malloc_result h bs sz a h' \<longleftrightarrow> heapbase h' = heapbase h \<and>
     (\<forall>(b, n) \<in> ulive (heapbase h) bs. \<forall>j < n. umem h' (b + j) = umem h (b + j)) \<and>
     (if a = 0 then h' = h
      else \<exists>bs' n. sz \<le> n \<and> uheap_lay h' bs' \<and> coal bs' \<and> (a, n) \<notin> ulive (heapbase h) bs \<and> ulive (heapbase h) bs' = insert (a, n) (ulive (heapbase h) bs))"

lemma malloc_resultI:
  assumes "a \<noteq> 0" "heapbase h' = heapbase h" "\<forall>(b, n) \<in> ulive (heapbase h) bs. \<forall>j < n. umem h' (b + j) = umem h (b + j)"
    "sz \<le> n" "uheap_lay h' bs'" "coal bs'" "(a, n) \<notin> ulive (heapbase h) bs" "ulive (heapbase h) bs' = insert (a, n) (ulive (heapbase h) bs)"
  shows "malloc_result h bs sz a h'"
  unfolding malloc_result_def using assms by auto

lemma malloc_data: "a < 2 ^ 31 \<Longrightarrow> M_DATA a = a + 8"
  by (simp add: M_DATA_def MBLOCKSIZE_def)

lemma not_live_mid:
  assumes "lay m i pv (xs @ (n, False) # ys)"
  shows "(i + ext xs + 8, k) \<notin> ulive i (xs @ (n, False) # ys)"
proof
  assume "(i + ext xs + 8, k) \<in> ulive i (xs @ (n, False) # ys)"
  then consider "(i + ext xs + 8, k) \<in> ulive i xs" | "(i + ext xs + 8, k) \<in> ulive (i + ext xs + 8 * n) ys" by auto
  then show False
  proof cases
    case 1 with assms ulive_range(2) [of m i pv xs "i + ext xs + 8" k] show False by simp
  next
    case 2 with assms ulive_range(1) [of m "i + ext xs + 8 * n" n ys "i + ext xs + 8" k] show False by simp
  qed
qed

lemma malloc_found:
  assumes l: "uheap_lay h (xs @ (n, False) # ys)" "a = heapbase h + ext xs" "coal (xs @ (n, False) # ys)"
    and s: "1 \<le> s" "8 * s \<le> 8 * n - 8" "sz \<le> 8 * s"
  obtains h' where "andthen (malloc_split a (8 * s) h) (\<lambda>h. andthen (mh_set a (\<lambda>r. r\<lparr>mh_inuse := 1\<rparr>) h) (\<lambda>h. Ret (M_DATA a, h))) = Ret (a + 8, h')"
    "malloc_result h (xs @ (n, False) # ys) sz (a + 8) h'"
proof -
  note b = block_at [OF l(1,2)]
  have k: "s + 1 \<le> n" using s b(3) by auto
  obtain m1 where m1: "malloc_split a (8 * s) h = Ret (h\<lparr>umem := m1\<rparr>)" "uheap_lay (h\<lparr>umem := m1\<rparr>) (xs @ split_blocks n (s + 1) @ ys)"
    "same_outside a (a + 8 * n + 8) (umem h) m1"
    using malloc_split_spec [of h xs n ys a "8 * s" s] l(1,2) s(1) k by auto
  obtain k' rest where k': "split_blocks n (s + 1) = (k', False) # rest" "sz \<le> 8 * k' - 8" "8 * k' + ext rest = 8 * n" "ulive (a + 8 * k') rest = {}"
    "rest = [] \<or> (\<exists>r. rest = [(r, False)])"
  proof (cases "n - (s + 1) < 2")
    case True then show thesis using that [of n "[]"] s by (simp add: split_blocks_def)
  next
    case False then show thesis using that [of "s + 1" "[(n - (s + 1), False)]"] s k by (simp add: split_blocks_def)
  qed
  obtain m2 where m2: "mh_set a (\<lambda>r. r\<lparr>mh_inuse := 1\<rparr>) (h\<lparr>umem := m1\<rparr>) = Ret (h\<lparr>umem := m2\<rparr>)"
    "uheap_lay (h\<lparr>umem := m2\<rparr>) (xs @ (k', True) # rest @ ys)" "same_outside a (a + 8) m1 m2"
    using mark_block [of "h\<lparr>umem := m1\<rparr>" xs k' False "rest @ ys" a 1 True] m1(2) k'(1) l(2) by auto
  let ?B = "ulive (heapbase h) (xs @ (n, False) # ys)"
  have so: "same_outside a (a + 8 * n + 8) (umem h) m2" by (rule same_outside_trans [OF m1(3) same_outside_mono [OF m2(3)]]) auto
  have keep: "\<forall>(c, l) \<in> ?B. \<forall>j < l. m2 (c + j) = umem h (c + j)"
    using ulive_same [of "umem h" "heapbase h" 0 xs "8 * n" n ys "a + 8 * n + 8" m2] b(10,11) so l(2) by auto
  have co: "coal (xs @ (k', True) # rest @ ys)"
    using l(3) k'(5) by (auto simp: coal_append coal_Cons)
  have lv: "ulive (heapbase h) (xs @ (k', True) # rest @ ys) = insert (a + 8, 8 * k' - 8) ?B"
    using k'(3,4) l(2) by (auto simp: add.assoc)
  have nl: "(a + 8, 8 * k' - 8) \<notin> ?B" using not_live_mid [of "umem h" "heapbase h" 0 xs n ys] l(1,2) by (auto simp: uheap_lay_def)
  have "malloc_result h (xs @ (n, False) # ys) sz (a + 8) (h\<lparr>umem := m2\<rparr>)"
    by (rule malloc_resultI [OF _ _ _ k'(2) m2(2) co nl lv]) (use keep in simp_all)
  then show thesis using m1(1) m2(1) b(7) by (intro that [of "h\<lparr>umem := m2\<rparr>"]) (simp_all add: malloc_data)
qed

lemma malloc_extend:
  assumes g: "break_ok grant" and l: "uheap_lay h bs" "coal bs" and s: "1 \<le> s" "8 * s + 8 < 2 ^ 31" "sz \<le> 8 * s"
  obtains a h' where "andthen (malloc_sbrk grant (8 * s + 8) h) (\<lambda>(mh, h). if mh = 0 then Ret (0, h)
       else andthen (mh_set mh (\<lambda>_. H (lastsz 0 bs) (s + 1) True) h) (\<lambda>h. Ret (M_DATA mh, h))) = Ret (a, h')"
    "malloc_result h bs sz a h'"
proof (cases "grant (ubrk h) (8 * s + 8)")
  case False
  then show thesis by (intro that [of 0 h]) (simp_all add: malloc_sbrk_def sbrk_def malloc_result_def)
next
  case True
  let ?t = "heaptop h" and ?b = "heapbase h"
  note u = l(1) [unfolded uheap_lay_def]
  have top: "?t + (8 * s + 8) \<le> 2 ^ 31" "ubrk h = ?t" "0 < ?t" using g True s(2) u by (auto simp: break_ok_def)
  let ?h = "h\<lparr>ubrk := ?t + (8 * s + 8), heaptop := ?t + (8 * s + 8)\<rparr>"
  have sb: "malloc_sbrk grant (8 * s + 8) h = Ret (?t, ?h)" using True top by (simp add: malloc_sbrk_def sbrk_def)
  have d8: "8 dvd ?t" using u ext_dvd [of bs] by simp
  have "4 dvd ?t" using d8 dvd_trans [of 4 8 ?t] by simp
  then have ok: "uaddr_ok ?t 8 ?h" by (simp add: uaddr_ok_def mod_eq_0_iff_dvd)
  define m where "m = put_mh ?t (H (lastsz 0 bs) (s + 1) True) (umem h)"
  let ?h' = "?h\<lparr>umem := m\<rparr>"
  have so: "same_outside ?t (?t + 8) (umem h) m" unfolding m_def by (rule same_outside_put)
  have lb: "lay (umem h) ?b 0 bs" "?t = ?b + ext bs" using u by simp_all
  have "lastsz 0 bs < 2 ^ 28" using lastsz_lt [OF lb(1)] by simp
  then have "get_mh m ?t = H (lastsz 0 bs) (s + 1) True" unfolding m_def using s(2) by (intro get_put H_fits) simp_all
  moreover have "lay m ?b 0 bs" using lb(2) by (intro lay_same [OF lb(1) so]) simp
  ultimately have "lay m ?b 0 (bs @ [(s + 1, True)])" using s(1,2) lb(2) by simp
  then have ul: "uheap_lay ?h' (bs @ [(s + 1, True)])" using u top by (simp add: uheap_lay_def add.assoc)
  have keep: "\<forall>(c, l) \<in> ulive ?b bs. \<forall>j < l. m (c + j) = umem h (c + j)"
    using ulive_same [of "umem h" ?b 0 bs 0 0 "[]" "?t + 8" m] lb so by auto
  have fresh: "(?t + 8, k) \<notin> ulive ?b bs" for k using ulive_range(2) [OF lb(1), of "?t + 8" k] lb(2) by auto
  have co: "coal (bs @ [(s + 1, True)])" using l(2) by (simp add: coal_append)
  have lv: "ulive ?b (bs @ [(s + 1, True)]) = insert (?t + 8, 8 * s) (ulive ?b bs)" using lb(2) by auto
  have "malloc_result h bs sz (?t + 8) ?h'"
    by (rule malloc_resultI [OF _ _ _ s(3) ul co fresh lv]) (use keep in simp_all)
  moreover have "M_DATA ?t = ?t + 8" using top by (intro malloc_data) simp
  ultimately show thesis using sb top(3) ok by (intro that [of "?t + 8" ?h']) (simp_all add: mh_set_eq m_def)
qed

lemma malloc_core:
  assumes g: "break_ok grant" and l: "uheap_lay h bs" "coal bs" and s: "umalloc_fits sz"
  obtains a h' where "malloc grant sz h = Ret (a, h')" "malloc_result h bs sz a h'"
proof -
  define s where "s = (sz + 7) div 8"
  define f where "f = heaptop h - heapbase h + 1"
  have ss: "1 \<le> s" "8 * s + 8 < 2 ^ 31" "sz \<le> 8 * s" using s unfolding s_def umalloc_fits_def by linarith+
  have rd: "(sz + 8 - 1) mod 2 ^ 32 div 8 * 8 = 8 * s" using s by (simp add: umalloc_fits_def s_def)
  have u: "0 < heapbase h" "heapbase h \<le> heaptop h" "heaptop h = heapbase h + ext bs" "lay (umem h) (heapbase h) 0 bs" using l(1) by (auto simp: uheap_lay_def)
  have szb: "(8 * s + 8) mod 2 ^ 32 = 8 * s + 8" using ss(2) by simp
  have "M_MKFIELD ((8 * s + 8) mod 2 ^ 32) = s + 1" using ss(2) by (intro mkfield) simp_all
  then have mf: "M_MKFIELD (8 * s + 8) = s + 1" unfolding szb .
  have H1: "\<lparr>mh_prevblock = pv, mh_pad = 0, mh_magic1 = MMAGIC, mh_nextblock = s + 1, mh_inuse = 1, mh_magic2 = MMAGIC\<rparr> = H pv (s + 1) True" for pv by (simp add: H_def)
  have c: "(heapbase h = 0) = False" "(False \<or> heaptop h = 0 \<or> heapbase h > heaptop h) = False" using u(1,2) by auto
  have e: "malloc grant sz h = andthen (malloc_search f (heapbase h) 0 (8 * s) h) (\<lambda>r. case r of
         Inr mh \<Rightarrow> andthen (malloc_split mh (8 * s) h) (\<lambda>h. andthen (mh_set mh (\<lambda>r. r\<lparr>mh_inuse := 1\<rparr>) h) (\<lambda>h. Ret (M_DATA mh, h)))
       | Inl (i, rightprevblock) \<Rightarrow> if i \<noteq> heaptop h then Panic
           else andthen (malloc_sbrk grant (8 * s + 8) h) (\<lambda>(mh, h). if mh = 0 then Ret (0, h)
             else andthen (mh_set mh (\<lambda>_. H rightprevblock (s + 1) True) h) (\<lambda>h. Ret (M_DATA mh, h))))"
    unfolding malloc_def c if_False andthen.simps Let_def MBLOCKSIZE_def rd mf szb H1 f_def ..
  have "length bs < f" using lay_length [OF u(4)] u(3) by (simp add: f_def)
  from malloc_search_spec [of h "[]" bs "8 * s" f] this l(1)
  consider "malloc_search f (heapbase h) 0 (8 * s) h = Ret (Inl (heaptop h, lastsz 0 bs))"
    | ys n zs where "bs = ys @ (n, False) # zs" "8 * s \<le> 8 * n - 8" "malloc_search f (heapbase h) 0 (8 * s) h = Ret (Inr (heapbase h + ext ys))" by auto
  then show thesis
  proof cases
    case 1
    from malloc_extend [OF g l ss] that show thesis unfolding e 1 by auto
  next
    case 2
    let ?a = "heapbase h + ext ys"
    obtain h' where "andthen (malloc_split ?a (8 * s) h) (\<lambda>h. andthen (mh_set ?a (\<lambda>r. r\<lparr>mh_inuse := 1\<rparr>) h) (\<lambda>h. Ret (M_DATA ?a, h))) = Ret (?a + 8, h')"
      "malloc_result h bs sz (?a + 8) h'"
      using malloc_found [OF l(1) [unfolded 2(1)] refl l(2) [unfolded 2(1)] ss(1) 2(2) ss(3)] unfolding 2(1) .
    then show thesis using that unfolding e 2(3) by auto
  qed
qed

section \<open>Release\<close>

definition keeps_bytes :: "(nat \<times> nat) set \<Rightarrow> (nat \<Rightarrow> 8 word) \<Rightarrow> (nat \<Rightarrow> 8 word) \<Rightarrow> bool" where
  "keeps_bytes B m m' \<longleftrightarrow> (\<forall>b l j. (b, l) \<in> B \<and> j < l \<longrightarrow> m' (b + j) = m (b + j))"

lemma keeps_bytes_trans: "keeps_bytes B m m' \<Longrightarrow> keeps_bytes B m' m'' \<Longrightarrow> keeps_bytes B m m''"
  unfolding keeps_bytes_def by metis

lemma keeps_mid:
  assumes l: "uheap_lay h (xs @ mid @ ys)" "a = heapbase h + ext xs" "same_outside a hi (umem h) m" "hi \<le> a + ext mid + 8" "ulive a mid = {}"
  shows "keeps_bytes (ulive (heapbase h) (xs @ mid @ ys)) (umem h) m"
  using ulive_same [of "umem h" "heapbase h" 0 xs "ext mid" "lastsz (lastsz 0 xs) mid" ys hi m] assms
  by (auto simp: uheap_lay_def keeps_bytes_def)

lemma merge_next:
  assumes l: "uheap_lay h (xs @ (n, False) # ys)" "a = heapbase h + ext xs" and c: "coal ys"
  obtains m n' ys' where "(if a + 8 * n \<noteq> heaptop h then malloc_trymerge a (a + 8 * n) h else Ret h) = Ret (h\<lparr>umem := m\<rparr>)"
    "uheap_lay (h\<lparr>umem := m\<rparr>) (xs @ (n', False) # ys')" "ulive (heapbase h) (xs @ (n', False) # ys') = ulive (heapbase h) (xs @ (n, False) # ys)"
    "keeps_bytes (ulive (heapbase h) (xs @ (n, False) # ys)) (umem h) m" "coal ys'" "ys' = [] \<or> snd (hd ys')"
proof (cases ys)
  case Nil
  then show thesis using l block_at(5) [OF l] c by (intro that [of "umem h" n ys]) (simp_all add: keeps_bytes_def)
next
  case (Cons y zs)
  obtain n2 u2 where y: "y = (n2, u2)" by force
  note l1 = l(1) [unfolded Cons y]
  have ne: "a + 8 * n \<noteq> heaptop h" using block_at [OF l1 l(2)] l1 by (auto simp: uheap_lay_def)
  show thesis
  proof (cases u2)
    case True
    then show thesis using malloc_trymerge_used [OF l1 l(2)] ne l c Cons y by (intro that [of "umem h" n ys]) (simp_all add: keeps_bytes_def)
  next
    case False
    obtain m where m: "malloc_trymerge a (a + 8 * n) h = Ret (h\<lparr>umem := m\<rparr>)" "uheap_lay (h\<lparr>umem := m\<rparr>) (xs @ (n + n2, False) # zs)"
      "same_outside a (a + 8 * (n + n2) + 8) (umem h) m" using malloc_trymerge_free [OF l1 [simplified False] l(2)] .
    have "keeps_bytes (ulive (heapbase h) (xs @ [(n, False), (n2, False)] @ zs)) (umem h) m"
      by (rule keeps_mid [OF _ l(2) m(3)]) (use l1 False in simp_all)
    then show thesis using m(1,2) ne c Cons y False by (intro that [of m "n + n2" zs]) (auto simp: coal_Cons add.assoc)
  qed
qed

lemma prev_block:
  assumes "uheap_lay h (ws @ (n0, u0) # (n, u) # ys)" "b = heapbase h + ext ws"
  shows "M_PREV (b + 8 * n0) (H n0 n u) = b"
proof -
  note k = block_at [OF assms]
  have "M_PREV (b + 8 * n0) (H n0 n u) = (b + 8 * n0 + 2 ^ 32 - 8 * n0) mod 2 ^ 32" using k(4) by (simp add: M_PREV_def H_off)
  also have "b + 8 * n0 + 2 ^ 32 - 8 * n0 = b + 2 ^ 32" by simp
  finally show ?thesis using k(7) by simp
qed

lemma merge_prev:
  assumes l: "uheap_lay h (xs @ (n, False) # ys)" "a = heapbase h + ext xs" and c: "coal xs" "coal ys" "ys = [] \<or> snd (hd ys)"
  obtains m bs where "(if a \<noteq> heapbase h then mh_at a h (\<lambda>r. malloc_trymerge (M_PREV a r) a h) else Ret h) = Ret (h\<lparr>umem := m\<rparr>)"
    "uheap_lay (h\<lparr>umem := m\<rparr>) bs" "coal bs" "ulive (heapbase h) bs = ulive (heapbase h) (xs @ (n, False) # ys)"
    "keeps_bytes (ulive (heapbase h) (xs @ (n, False) # ys)) (umem h) m"
proof (cases xs rule: rev_cases)
  case Nil
  then show thesis using l c by (intro that [of "umem h" "xs @ (n, False) # ys"]) (simp_all add: keeps_bytes_def coal_Cons)
next
  case (snoc ws w)
  obtain n0 u0 where w: "w = (n0, u0)" by force
  let ?b = "heapbase h + ext ws"
  have l1: "uheap_lay h (ws @ (n0, u0) # (n, False) # ys)" "a = ?b + 8 * n0" using l snoc w by simp_all
  note k = block_at [OF l] block_at [OF l1(1) refl]
  have ne: "a \<noteq> heapbase h" using k(15) l1(2) by simp
  have pv: "M_PREV a (H (lastsz 0 xs) n False) = ?b" using prev_block [OF l1(1) refl] l1(2) snoc w by simp
  have e: "(if a \<noteq> heapbase h then mh_at a h (\<lambda>r. malloc_trymerge (M_PREV a r) a h) else Ret h) = malloc_trymerge ?b (?b + 8 * n0) h"
    using ne k(1,2) pv l1(2) by (simp add: mh_at_eq)
  show thesis
  proof (cases u0)
    case True
    then have "malloc_trymerge ?b (?b + 8 * n0) h = Ret (h\<lparr>umem := umem h\<rparr>)" using malloc_trymerge_used [OF l1(1) refl] by simp
    note r = e [unfolded this]
    have "coal (xs @ (n, False) # ys)" using c snoc w True by (auto simp: coal_append coal_Cons)
    with l(1) show thesis by (intro that [OF r, of "xs @ (n, False) # ys"]) (simp_all add: keeps_bytes_def)
  next
    case False
    obtain m where m: "malloc_trymerge ?b (?b + 8 * n0) h = Ret (h\<lparr>umem := m\<rparr>)" "uheap_lay (h\<lparr>umem := m\<rparr>) (ws @ (n0 + n, False) # ys)"
      "same_outside ?b (?b + 8 * (n0 + n) + 8) (umem h) m" using malloc_trymerge_free [OF l1(1) [simplified False] refl] .
    have "keeps_bytes (ulive (heapbase h) (ws @ [(n0, False), (n, False)] @ ys)) (umem h) m"
      by (rule keeps_mid [OF _ refl m(3)]) (use l1 False in simp_all)
    then have k: "keeps_bytes (ulive (heapbase h) (xs @ (n, False) # ys)) (umem h) m" using snoc w False by simp
    have co: "coal (ws @ (n0 + n, False) # ys)" using c snoc w False by (auto simp: coal_append coal_Cons)
    have "ulive (heapbase h) (ws @ (n0 + n, False) # ys) = ulive (heapbase h) (xs @ (n, False) # ys)" using snoc w False by (simp add: add.assoc distrib_left)
    with m(2) co k show thesis by (intro that [OF e [unfolded m(1)]])
  qed
qed

lemma free_core:
  assumes l: "uheap_lay h (xs @ (n, True) # ys)" "a = heapbase h + ext xs" "coal (xs @ (n, True) # ys)"
  obtains m bs where "free (a + 8) h = Ret (h\<lparr>umem := m\<rparr>)" "uheap_lay (h\<lparr>umem := m\<rparr>) bs" "coal bs"
    "ulive (heapbase h) bs = ulive (heapbase h) (xs @ (n, False) # ys)" "keeps_bytes (ulive (heapbase h) (xs @ (n, False) # ys)) (umem h) m"
proof -
  note b = block_at [OF l(1,2)]
  let ?B = "ulive (heapbase h) (xs @ (n, False) # ys)" and ?p = "lastsz 0 xs"
  obtain m1 where m1: "mh_set a (\<lambda>r. r\<lparr>mh_inuse := 0\<rparr>) h = Ret (h\<lparr>umem := m1\<rparr>)" "uheap_lay (h\<lparr>umem := m1\<rparr>) (xs @ (n, False) # ys)"
    "same_outside a (a + 8) (umem h) m1" using mark_block [OF l(1,2), of 0 False] by auto
  have a1: "a = heapbase (h\<lparr>umem := m1\<rparr>) + ext xs" using l(2) by simp
  obtain m2 where m2: "malloc_deadbeef (a + 8) (8 * n - 8) (h\<lparr>umem := m1\<rparr>) = Ret (h\<lparr>umem := m2\<rparr>)" "uheap_lay (h\<lparr>umem := m2\<rparr>) (xs @ (n, False) # ys)"
    "same_outside (a + 8) (a + 8 + (8 * n - 8)) m1 m2"
    using wipe_block [OF m1(2) a1, of "a + 8" "8 * n - 8"] b(3,9) by auto
  have a2: "a = heapbase (h\<lparr>umem := m2\<rparr>) + ext xs" using l(2) by simp
  have c: "coal xs" "coal ys" using l(3) by (simp_all add: coal_append coal_Cons)
  have "same_outside a (a + 8 * n + 8) (umem h) m2"
    by (rule same_outside_trans [OF same_outside_mono [OF m1(3)] same_outside_mono [OF m2(3)]]) (use b(3) in auto)
  then have k2: "keeps_bytes ?B (umem h) m2"
    using ulive_same [of "umem h" "heapbase h" 0 xs "8 * n" n ys "a + 8 * n + 8" m2] b(10,11) l(2) by (auto simp: keeps_bytes_def)
  obtain m3 n' ys' where m3: "(if a + 8 * n \<noteq> heaptop (h\<lparr>umem := m2\<rparr>) then malloc_trymerge a (a + 8 * n) (h\<lparr>umem := m2\<rparr>) else Ret (h\<lparr>umem := m2\<rparr>)) = Ret (h\<lparr>umem := m2, umem := m3\<rparr>)"
    "uheap_lay (h\<lparr>umem := m2, umem := m3\<rparr>) (xs @ (n', False) # ys')" "ulive (heapbase (h\<lparr>umem := m2\<rparr>)) (xs @ (n', False) # ys') = ulive (heapbase (h\<lparr>umem := m2\<rparr>)) (xs @ (n, False) # ys)"
    "keeps_bytes (ulive (heapbase (h\<lparr>umem := m2\<rparr>)) (xs @ (n, False) # ys)) (umem (h\<lparr>umem := m2\<rparr>)) m3" "coal ys'" "ys' = [] \<or> snd (hd ys')"
    using merge_next [OF m2(2) a2 c(2)] .
  note m3 = m3 [unfolded umem_upd]
  have a3: "a = heapbase (h\<lparr>umem := m3\<rparr>) + ext xs" using l(2) by simp
  obtain m4 bs where m4: "(if a \<noteq> heapbase (h\<lparr>umem := m3\<rparr>) then mh_at a (h\<lparr>umem := m3\<rparr>) (\<lambda>r. malloc_trymerge (M_PREV a r) a (h\<lparr>umem := m3\<rparr>)) else Ret (h\<lparr>umem := m3\<rparr>)) = Ret (h\<lparr>umem := m3, umem := m4\<rparr>)"
    "uheap_lay (h\<lparr>umem := m3, umem := m4\<rparr>) bs" "coal bs" "ulive (heapbase (h\<lparr>umem := m3\<rparr>)) bs = ulive (heapbase (h\<lparr>umem := m3\<rparr>)) (xs @ (n', False) # ys')"
    "keeps_bytes (ulive (heapbase (h\<lparr>umem := m3\<rparr>)) (xs @ (n', False) # ys')) (umem (h\<lparr>umem := m3\<rparr>)) m4"
    using merge_prev [OF m3(2) a3 c(1) m3(5,6)] .
  note m4 = m4 [unfolded umem_upd]
  have d: "M_DATA a = a + 8" "(a + 8 + 2 ^ 32 - 8) mod 2 ^ 32 = a" "M_SIZE (H ?p n True) = 8 * n - 8" using b by (simp_all add: malloc_data H_size)
  have g2: "mh_at a (h\<lparr>umem := m2\<rparr>) f = f (H ?p n False)" for f :: "mheader \<Rightarrow> uheap run" using block_at(1,2) [OF m2(2) a2] by (simp add: mh_at_eq)
  have nx: "M_NEXT a (H ?p n False) = a + 8 * n" using b by (simp add: next_block)
  have cs: "(a + 8 = 0) = False" "(heapbase h = 0 \<or> heaptop h = 0 \<or> heapbase h > heaptop h) = False" "(a + 8 < heapbase h \<or> a + 8 \<ge> heaptop h) = False"
    "(\<not> M_OK (H ?p n True)) = False" "(mh_inuse (H ?p n True) = 0) = False" using l(1,2) b(3,5) by (auto simp: uheap_lay_def)
  have "free (a + 8) h = Ret (h\<lparr>umem := m4\<rparr>)"
    unfolding free_def cs if_False MBLOCKSIZE_def Let_def d(2) mh_at_eq [OF b(1)] b(2) m1(1) andthen.simps d(1,3) m2(1) g2 nx umem_upd m3(1) m4(1) cs ..
  then show thesis
    using m4(2,3,4) m3(3) keeps_bytes_trans [OF keeps_bytes_trans [OF k2 m3(4)] m4(5) [unfolded m3(3)]] by (intro that [of m4 bs]) simp_all
qed

section \<open>The contract\<close>

lemma malloc_init_new:
  assumes "break_ok grant" "uheap_new h"
  shows "\<exists>h'. malloc_init grant h = Ret h' \<and> uheap_lay h' [] \<and> umem h' = umem h"
proof -
  have u: "heapbase h = 0" "heaptop h = 0" "0 < ubrk h" "8 dvd ubrk h" "ubrk h \<le> 2 ^ 31" "grant (ubrk h) 0" using assms by (simp_all add: uheap_new_def break_ok_def)
  have b: "ubrk h mod 2 ^ 32 = ubrk h" using u(5) by simp
  let ?h = "h\<lparr>heapbase := ubrk h, heaptop := ubrk h\<rparr>"
  have "malloc_init grant h = Ret ?h" using u b by (simp add: malloc_init_def sbrk_def MBLOCKSIZE_def Let_def mod_eq_0_iff_dvd)
  moreover have "uheap_lay ?h []" using u by (simp add: uheap_lay_def)
  ultimately show ?thesis by auto
qed

lemma malloc_init_skip:
  assumes "heapbase h = 0" "malloc_init grant h = Ret h'" "0 < heapbase h'"
  shows "malloc grant sz h = malloc grant sz h'"
  unfolding malloc_def using assms by simp

lemma umalloc_law:
  assumes g: "break_ok grant" and h: "uheap_is h B" and sz: "umalloc_fits sz"
  shows "\<exists>a h'. malloc grant sz h = Ret (a, h') \<and> (\<forall>(b, n) \<in> B. \<forall>i < n. umem h' (b + i) = umem h (b + i)) \<and>
    (if a = 0 then uheap_is h' B else \<exists>n \<ge> sz. (a, n) \<notin> B \<and> uheap_is h' (insert (a, n) B))"
proof -
  obtain h0 bs where h0: "malloc grant sz h = malloc grant sz h0" "uheap_lay h0 bs" "coal bs" "B = ulive (heapbase h0) bs" "umem h0 = umem h"
  proof (cases "uheap_new h \<and> B = {}")
    case True
    then obtain h' where h': "malloc_init grant h = Ret h'" "uheap_lay h' []" "umem h' = umem h" using malloc_init_new [OF g] by auto
    then show thesis using True malloc_init_skip [of h grant h' sz] by (intro that [of h' "[]"]) (auto simp: uheap_new_def uheap_lay_def)
  next
    case False
    then show thesis using h that by (auto simp: uheap_is_def)
  qed
  obtain a h' where r: "malloc grant sz h0 = Ret (a, h')" "malloc_result h0 bs sz a h'" using malloc_core [OF g h0(2,3) sz] .
  have "uheap_is h' B" if "a = 0" using r(2) h0 that by (auto simp: malloc_result_def uheap_is_def)
  moreover have "\<exists>n \<ge> sz. (a, n) \<notin> B \<and> uheap_is h' (insert (a, n) B)" if "a \<noteq> 0"
    using r(2) h0(4) that unfolding malloc_result_def uheap_is_def by metis
  moreover have "\<forall>(b, n) \<in> B. \<forall>i < n. umem h' (b + i) = umem h (b + i)" using r(2) h0(4,5) by (simp add: malloc_result_def)
  ultimately show ?thesis using r(1) h0(1) by auto
qed

lemma ulive_split:
  assumes "(a, k) \<in> ulive i bs"
  shows "\<exists>xs n ys. bs = xs @ (n, True) # ys \<and> a = i + ext xs + 8 \<and> k = 8 * n - 8"
  using assms
proof (induction i bs rule: ulive.induct)
  case (2 i n u bs)
  show ?case
  proof (cases "u \<and> (a, k) = (i + 8, 8 * n - 8)")
    case True then show ?thesis by (intro exI [of _ "[]"] exI [of _ n] exI [of _ bs]) auto
  next
    case False
    with 2 obtain xs n' ys where "bs = xs @ (n', True) # ys" "a = i + 8 * n + ext xs + 8" "k = 8 * n' - 8" by (auto split: if_splits)
    then show ?thesis by (intro exI [of _ "(n, u) # xs"] exI [of _ n'] exI [of _ ys]) simp
  qed
qed simp

lemma ufree_law:
  assumes h: "uheap_is h B" and a: "(a, n) \<in> B"
  shows "\<exists>h'. free a h = Ret h' \<and> uheap_is h' (B - {(a, n)}) \<and> (\<forall>(b, m) \<in> B - {(a, n)}. \<forall>i < m. umem h' (b + i) = umem h (b + i))"
proof -
  obtain bs where bs: "uheap_lay h bs" "coal bs" "B = ulive (heapbase h) bs" using h a by (auto simp: uheap_is_def)
  obtain xs k ys where e: "bs = xs @ (k, True) # ys" "a = heapbase h + ext xs + 8" "n = 8 * k - 8" using ulive_split a unfolding bs(3) by blast
  let ?B = "ulive (heapbase h) (xs @ (k, False) # ys)"
  have l: "uheap_lay h (xs @ (k, True) # ys)" "coal (xs @ (k, True) # ys)" using bs e(1) by simp_all
  obtain m bs' where m: "free a h = Ret (h\<lparr>umem := m\<rparr>)" "uheap_lay (h\<lparr>umem := m\<rparr>) bs'" "coal bs'" "ulive (heapbase h) bs' = ?B" "keeps_bytes ?B (umem h) m"
    using free_core [OF l(1) refl l(2)] unfolding e(2) .
  have "(a, n) \<notin> ?B"
  proof
    assume "(a, n) \<in> ?B"
    then consider "(a, n) \<in> ulive (heapbase h) xs" | "(a, n) \<in> ulive (heapbase h + ext xs + 8 * k) ys" by auto
    then show False
    proof cases
      case 1 with ulive_range(2) [OF block_at(10) [OF l(1) refl] 1] e(2) show False by simp
    next
      case 2 with ulive_range(1) [OF block_at(11) [OF l(1) refl] 2] block_at(3) [OF l(1) refl] e(2) show False by simp
    qed
  qed
  moreover have "B = insert (a, n) ?B" using e bs(3) by auto
  ultimately have B: "B - {(a, n)} = ?B" by auto
  have "uheap_is (h\<lparr>umem := m\<rparr>) (B - {(a, n)})" using m(2-4) unfolding uheap_is_def B by auto
  moreover have "\<forall>(b, l) \<in> B - {(a, n)}. \<forall>i < l. m (b + i) = umem h (b + i)" using m(5) unfolding B keeps_bytes_def by auto
  ultimately show ?thesis using m(1) by auto
qed

interpretation um: block_allocator "\<lambda>h B. break_ok grant \<and> uheap_is h B" umem "malloc grant" free umalloc_fits for grant
proof
  fix s B a n
  assume "break_ok grant \<and> uheap_is s B" "(a, n) \<in> B"
  then show "0 < n" using uheap_block(1) [of s B a n] by simp
next
  fix s B sz
  assume "break_ok grant \<and> uheap_is s B" "umalloc_fits sz"
  with umalloc_law [of grant s B sz]
  show "\<exists>a s'. malloc grant sz s = Ret (a, s') \<and> (\<forall>(b, n) \<in> B. \<forall>i < n. umem s' (b + i) = umem s (b + i)) \<and>
    (if a = 0 then break_ok grant \<and> uheap_is s' B else \<exists>n \<ge> sz. (a, n) \<notin> B \<and> break_ok grant \<and> uheap_is s' (insert (a, n) B))" by fastforce
next
  fix s B a n
  assume "break_ok grant \<and> uheap_is s B" "(a, n) \<in> B"
  with ufree_law [of s B a n]
  show "\<exists>s'. free a s = Ret s' \<and> (break_ok grant \<and> uheap_is s' (B - {(a, n)})) \<and> (\<forall>(b, m) \<in> B - {(a, n)}. \<forall>i < m. umem s' (b + i) = umem s (b + i))" by blast
qed (use uheap_lay_apart in blast)

section \<open>Properties\<close>

definition uheap_example :: uheap where
  "uheap_example = \<lparr>umem = (\<lambda>a. of_nat a), ubrk = 0x10002000, heapbase = 0, heaptop = 0\<rparr>"

definition grant_example :: "nat \<Rightarrow> nat \<Rightarrow> bool" where
  "grant_example b n \<longleftrightarrow> n = 0 \<or> b + n \<le> 0x10010000"

lemma grant_example_ok: "break_ok grant_example"
  by (auto simp: break_ok_def grant_example_def)

lemma uheap_example_ok: "uheap_new uheap_example" "uheap_is uheap_example {}"
  by (simp_all add: uheap_is_def uheap_new_def uheap_example_def)

text \<open>C38: a request to the user heap for at least one byte always returns: the null pointer with the blocks in use as they
  were, or the address, aligned to 8 bytes, of a new block of at least the size asked for that overlaps no block in
  use.  \<^verbatim>\<open>free\<close> of a block in use always returns and takes exactly that block away.  Neither changes a byte of any
  other block in use, and both keep the headers consistent and no two free blocks next to each other.\<close>

theorem malloc_free_blocks:
  assumes g: "break_ok grant" and h: "uheap_is h B"
  shows "(\<forall>sz. umalloc_fits sz \<longrightarrow> (\<exists>a h'. malloc grant sz h = Ret (a, h') \<and>
      (\<forall>(b, n) \<in> B. \<forall>i < n. umem h' (b + i) = umem h (b + i)) \<and>
      (if a = 0 then uheap_is h' B
       else 8 dvd a \<and> (\<exists>n \<ge> sz. uheap_is h' (insert (a, n) B) \<and> (\<forall>(b, m) \<in> B. a + n \<le> b \<or> b + m \<le> a))))) \<and>
    (\<forall>(a, n) \<in> B. \<exists>h'. free a h = Ret h' \<and> uheap_is h' (B - {(a, n)}) \<and>
      (\<forall>(b, m) \<in> B - {(a, n)}. \<forall>i < m. umem h' (b + i) = umem h (b + i)))"
proof (intro conjI allI impI)
  fix sz assume sz: "umalloc_fits sz"
  obtain a h' where r: "malloc grant sz h = Ret (a, h')" "\<forall>(b, n) \<in> B. \<forall>i < n. umem h' (b + i) = umem h (b + i)"
    "if a = 0 then uheap_is h' B else \<exists>n \<ge> sz. (a, n) \<notin> B \<and> uheap_is h' (insert (a, n) B)" using umalloc_law [OF g h sz] by blast
  have "8 dvd a \<and> (\<exists>n \<ge> sz. uheap_is h' (insert (a, n) B) \<and> (\<forall>(b, m) \<in> B. a + n \<le> b \<or> b + m \<le> a))" if nz: "a \<noteq> 0"
  proof -
    obtain n where n: "n \<ge> sz" "(a, n) \<notin> B" "uheap_is h' (insert (a, n) B)" using r(3) nz by auto
    have "a + n \<le> b \<or> b + m \<le> a" if "(b, m) \<in> B" for b m using uheap_lay_apart [OF n(3), of a n b m] that n(2) by auto
    moreover have "8 dvd a" using uheap_block(2) [OF n(3), of a n] by simp
    ultimately show ?thesis using n(1,3) by blast
  qed
  with r show "\<exists>a h'. malloc grant sz h = Ret (a, h') \<and> (\<forall>(b, n) \<in> B. \<forall>i < n. umem h' (b + i) = umem h (b + i)) \<and>
      (if a = 0 then uheap_is h' B
       else 8 dvd a \<and> (\<exists>n \<ge> sz. uheap_is h' (insert (a, n) B) \<and> (\<forall>(b, m) \<in> B. a + n \<le> b \<or> b + m \<le> a)))" by auto
next
  show "\<forall>(a, n) \<in> B. \<exists>h'. free a h = Ret h' \<and> uheap_is h' (B - {(a, n)}) \<and> (\<forall>(b, m) \<in> B - {(a, n)}. \<forall>i < m. umem h' (b + i) = umem h (b + i))"
    using ufree_law [OF h] by blast
qed

theorem malloc_free_blocks_witness:
  "\<exists>a h'. malloc grant_example 10 uheap_example = Ret (a, h') \<and> (a = 0 \<or> 8 dvd a \<and> (\<exists>n \<ge> 10. uheap_is h' {(a, n)}))"
proof -
  have "umalloc_fits 10" by (simp add: umalloc_fits_def)
  from malloc_free_blocks [OF grant_example_ok uheap_example_ok(2), THEN conjunct1, rule_format, OF this] show ?thesis by (auto split: if_splits)
qed



text \<open>C40: when every block of the heap is in use, a request for zero bytes is granted with a pointer that is the top of the
  heap, and giving it back ends the program.\<close>

theorem free_malloc_zero:
  assumes l: "uheap_lay h bs" "\<forall>(n, u) \<in> set bs. u" and g: "grant (ubrk h) 8" "break_ok grant"
  shows "\<exists>x h'. malloc grant 0 h = Ret (x, h') \<and> x \<noteq> 0 \<and> x = heaptop h' \<and> free x h' = Panic"
proof -
  define f where "f = heaptop h - heapbase h + 1"
  let ?t = "heaptop h"
  note u = l(1) [unfolded uheap_lay_def]
  have len: "length bs < f" using lay_length [of "umem h" "heapbase h" 0 bs] u by (simp add: f_def)
  have "\<nexists>ys n zs. bs = ys @ (n, False) # zs" using l(2) by force
  then have se: "malloc_search f (heapbase h) 0 0 h = Ret (Inl (?t, lastsz 0 bs))" using malloc_search_spec [of h "[]" bs 0 f] l(1) len by auto
  have t: "?t + 8 \<le> 2 ^ 31" "0 < ?t" "4 dvd ?t" "0 < heapbase h" "heapbase h \<le> ?t" "ubrk h = ?t"
    using g u ext_dvd [of bs] dvd_trans [of 4 8 ?t] by (auto simp: break_ok_def)
  let ?h = "h\<lparr>ubrk := ?t + 8, heaptop := ?t + 8\<rparr>"
  have "malloc_sbrk grant 8 h = Ret (?t, ?h)" using g(1) t(1,6) by (simp add: malloc_sbrk_def sbrk_def)
  moreover have "uaddr_ok ?t 8 ?h" using t(3) by (simp add: uaddr_ok_def mod_eq_0_iff_dvd)
  ultimately have "malloc grant 0 h = Ret (?t + 8, ?h\<lparr>umem := put_mh ?t \<lparr>mh_prevblock = lastsz 0 bs, mh_pad = 0, mh_magic1 = MMAGIC,
      mh_nextblock = M_MKFIELD 8, mh_inuse = 1, mh_magic2 = MMAGIC\<rparr> (umem h)\<rparr>)"
    using se t malloc_data [of ?t] by (simp add: malloc_def MBLOCKSIZE_def f_def mh_set_eq del: malloc_search.simps)
  moreover have "free (?t + 8) (?h\<lparr>umem := m\<rparr>) = Panic" for m using t by (simp add: free_def)
  ultimately show ?thesis by auto
qed

theorem free_malloc_zero_witness:
  "\<exists>h x h'. malloc grant_example 0 h = Ret (x, h') \<and> x \<noteq> 0 \<and> free x h' = Panic"
proof -
  have "uheap_lay (uheap_example\<lparr>heapbase := 0x10002000, heaptop := 0x10002000\<rparr>) []" by (simp add: uheap_lay_def uheap_example_def)
  from free_malloc_zero [OF this, of grant_example] grant_example_ok show ?thesis by (auto simp: grant_example_def uheap_example_def)
qed

end
