(* ===== verification/Spec2Isabelle.thy ===== *)
theory Spec2Isabelle
  imports KArray KQueue KBitmap DumbVM UserMem PidSystem SyscallProps SfsProps SfsDirProps CPrintf KHeapProps UMallocProps
begin

text \<open>
  Verification of an OS/161 kernel with its student extensions: threads and processes, virtual memory,
  system calls, and the SFS file system, as written in C under \<^verbatim>\<open>src/\<close>.

  \<^bold>\<open>The program.\<close>  The kernel runs on one simulated MIPS processor.  Threads are switched by
  \<^verbatim>\<open>mi_switch\<close> (\<^verbatim>\<open>src/kern/thread/thread.c\<close>), the run queue is a ring buffer
  (\<^verbatim>\<open>src/kern/lib/queue.c\<close>) and the lists of sleepers and zombies are arrays
  (\<^verbatim>\<open>src/kern/lib/array.c\<close>).  Semaphores, locks and condition variables
  (\<^verbatim>\<open>src/kern/thread/synch.c\<close>) are built on sleeping and on the interrupt level.  Every thread has
  a process number, kept in a linked table (\<^verbatim>\<open>src/kern/userprog/pid_system.c\<close>), and an address space of
  two regions and a stack (\<^verbatim>\<open>src/kern/arch/mips/mips/dumbvm.c\<close>).  User programs enter the kernel by
  traps (\<^verbatim>\<open>trap.c\<close>, \<^verbatim>\<open>syscall.c\<close>, \<^verbatim>\<open>system_calls_PI.c\<close>).  Files are in the
  SFS file system (\<^verbatim>\<open>src/kern/fs/sfs/\<close>) over the disk driver \<^verbatim>\<open>lhd.c\<close>.

  \<^bold>\<open>The model.\<close>  A routine is a function from a state to an outcome \<^typ>\<open>'a run\<close>: it returns (\<open>Ret\<close>), stops
  the machine by \<^verbatim>\<open>panic\<close> or a failed \<^verbatim>\<open>assert\<close> (\<open>Panic\<close>), follows a bad pointer (\<open>Fault\<close>),
  or does not return (\<open>Loops\<close>).  Error codes are values: \<open>status\<close> is \<open>None\<close> for \<^verbatim>\<open>0\<close>.  Integers are
  words, or numbers with the wrap-around written out.  Memory allocation appears as a list of outcomes,
  so every theorem holds for every pattern of failures unless it says otherwise.

  \<^item> \<open>Prelude\<close>: outcomes, error numbers, facts on lists.
  \<^item> \<open>KArray\<close>, \<open>KQueue\<close>, \<open>KBitmap\<close>: the containers of \<^verbatim>\<open>src/kern/lib/\<close>.  Each has an invariant, an
    abstract view (a list or a set) and a refinement theorem per operation, with failed allocations and
    out-of-range arguments.  The queue is used through a locale of its laws.
  \<^item> \<open>CString\<close>: the memory and string routines of \<^verbatim>\<open>src/lib/libc/\<close>.
  \<^item> \<open>DumbVM\<close>: physical memory, address spaces, the TLB and page faults.  A fault never maps a page to a frame
    that the address space does not own; copies of address spaces are equal and disjoint.
  \<^item> \<open>UserMem\<close>: \<^verbatim>\<open>copyin\<close>, \<^verbatim>\<open>copyout\<close> and the string versions.
  \<^item> \<open>Uio\<close>: transfers between kernel buffers and a buffer described by a \<^verbatim>\<open>struct uio\<close>.
  \<^item> \<open>KernelState\<close>, \<open>Threads\<close>, \<open>PidSystem\<close>, \<open>Syscalls\<close>: the state of the kernel and its routines.  A thread that
    is not running has a list of frames that says where it goes on.
  \<^item> \<open>ThreadLists\<close>, \<open>ThreadInv\<close>, \<open>ThreadOps\<close>, \<open>ThreadLife\<close>, \<open>ThreadFrames\<close>: the invariant of the thread system
    and that each routine keeps it.
  \<^item> \<open>KernelSteps\<close>: the kernel as a step relation (running a thread, its operations, interrupts) with
    \<open>reachable\<close>; \<open>KernelExamples\<close> holds a sample run.
  \<^item> \<open>KernelProps\<close>, \<open>SyscallProps\<close>: the theorems on reachable states, on processes and on system calls.
  \<^item> \<open>SfsDisk\<close>: on-disk structures and their bytes, the disk driver, block reads and writes.
  \<^item> \<open>Sfs\<close>, \<open>SfsVnode\<close>, \<open>SfsFs\<close>: all of \<^verbatim>\<open>sfs_vnode.c\<close> and \<^verbatim>\<open>sfs_fs.c\<close>, in the order of the sources.
  \<^item> \<open>SfsFile\<close>, \<open>SfsMap\<close>, \<open>SfsIO\<close>, \<open>SfsTrunc\<close>: a file as the function from positions to bytes that the inode,
    the indirect block and the data blocks represent, and what block allocation, reads, writes and
    truncation do to it.
  \<^item> \<open>SfsExample\<close>, \<open>SfsProps\<close>: a small file system, and the theorems on SFS files.
  \<^item> \<open>SfsDir\<close>, \<open>SfsDirProps\<close>: a directory as a map from names to inodes, and what linking and unlinking do to it.
  \<^item> \<open>CPrintf\<close>: the formatter \<^verbatim>\<open>src/lib/libc/__printf.c\<close> that kernel and programs share, and \<^verbatim>\<open>snprintf.c\<close>:
    nothing is written past the buffer, and \<^verbatim>\<open>atoi\<close> reads back what \<^verbatim>\<open>%d\<close> prints.
  \<^item> \<open>KHeap\<close>: the kernel heap \<^verbatim>\<open>src/kern/lib/kheap.c\<close> with the free lists in the memory of \<open>DumbVM\<close>; \<open>KHeapInv\<close>,
    \<open>KHeapOps\<close>, \<open>KHeapFree\<close> its invariant; \<open>KHeapProps\<close> that \<^verbatim>\<open>kmalloc\<close> and \<^verbatim>\<open>kfree\<close> meet the contract of \<open>BlockAlloc\<close>.
  \<^item> \<open>BlockAlloc\<close>: the contract of an allocator as a locale: blocks in use never overlap, nobody else changes their
    bytes, and every sequence of requests is served.
  \<^item> \<open>UMalloc\<close>: the user heap \<^verbatim>\<open>src/lib/libc/malloc.c\<close>, its headers being bytes of memory and \<^verbatim>\<open>sbrk\<close> a parameter;
    \<open>UMallocInv\<close>, \<open>UMallocOps\<close> the layout of the heap under splitting and merging; \<open>UMallocProps\<close> that it meets the same contract.

  \<^bold>\<open>Bounds.\<close>  The mutual recursion of \<^verbatim>\<open>q_addtail\<close> and \<^verbatim>\<open>q_grow\<close> has fuel; the theorems show that it is
  enough.  The loops over the disk, the directory slots, the block lists and the vnode table are
  structural on the number of iterations the C code computes before the loop.  The walks over the page lists of
  the heap have fuel for the 256 page references there are, and the search of \<^verbatim>\<open>malloc\<close> has the bytes of the heap; the
  theorems show that they end.  The theorems on SFS files
  are for disks below \<open>2\<^sup>2\<^sup>2\<close> blocks, where \<^verbatim>\<open>off_t\<close> does not overflow.

  \<^bold>\<open>Not modelled.\<close>  The hardware (registers of devices, the assembly code of the context switch and the
  exception vectors), the virtual file system layer, program loading, the menu, the tests and the user programs.  Waiting for the disk and the exclusion of
  other threads during a disk operation are not part of the SFS model.
\<close>

end
